(* ===== verification/CBase.thy ===== *)
theory CBase
  imports Main
begin

text \<open>
  Prelude of the development: the values a C function of this repository can end with,
  the composition of fallible steps, and the generic list lemmas the components share.

  A function whose C text can run into undefined behaviour (a buffer written past its end,
  a null or freed pointer, an unterminated string, ...) returns a \<open>c_error + 'a\<close>:
  \<open>Inl e\<close> names the defect the execution ran into, \<open>Inr x\<close> is a defined execution
  with the value \<open>x\<close>.  The functional errors of the code (a function that returns 0 or
  -1 to its caller) are ordinary values and never \<open>Inl\<close>.
\<close>

datatype c_error =
    Buffer_overflow     \<comment> \<open>a write past the end of an array\<close>
  | Unterminated        \<comment> \<open>\<open>strncpy\<close> filled an array without its terminator\<close>
  | Over_read           \<comment> \<open>a read past the terminator of a string\<close>
  | Out_of_bounds       \<comment> \<open>an index outside of an array\<close>
  | Uninitialised       \<comment> \<open>a variable read before it was written\<close>
  | Null_deref          \<comment> \<open>a null pointer dereferenced\<close>
  | Use_after_free      \<comment> \<open>a freed object read\<close>
  | Format_args         \<comment> \<open>a conversion of a format string without its argument\<close>
  | Int_overflow        \<comment> \<open>a number outside of the range of its C type\<close>
  | Div_by_zero         \<comment> \<open>an integer division by zero\<close>
  | No_return           \<comment> \<open>a loop whose counter never reaches its bound\<close>
  | Broken_list         \<comment> \<open>an element taken out of a linked list it is not in\<close>
  | Fatal_exit          \<comment> \<open>the program reports a fatal error and terminates\<close>

type_synonym 'a res = "c_error + 'a"

fun rbind :: "'a res \<Rightarrow> ('a \<Rightarrow> 'b res) \<Rightarrow> 'b res" where
  "rbind (Inl e) f = Inl e"
| "rbind (Inr x) f = f x"

definition guard_c :: "bool \<Rightarrow> c_error \<Rightarrow> unit res" where
  "guard_c b e = (if b then Inr () else Inl e)"

fun is_ok :: "'a res \<Rightarrow> bool" where
  "is_ok (Inl e) = False"
| "is_ok (Inr x) = True"

named_theorems res_elims \<open>inversion of a defined composition\<close>

lemma rbind_Inr [res_elims]: "rbind m f = Inr y \<longleftrightarrow> (\<exists>x. m = Inr x \<and> f x = Inr y)"
  by (cases m) auto

lemma rbind_Inl: "rbind m f = Inl e \<longleftrightarrow> m = Inl e \<or> (\<exists>x. m = Inr x \<and> f x = Inl e)"
  by (cases m) auto

lemma guard_c_Inr [res_elims]: "guard_c b e = Inr u \<longleftrightarrow> b"
  by (simp add: guard_c_def)

lemma guard_c_True [simp]: "guard_c True e = Inr ()"
  by (simp add: guard_c_def)

lemma guard_c_False [simp]: "guard_c False e = Inl e"
  by (simp add: guard_c_def)

lemma is_ok_iff: "is_ok m \<longleftrightarrow> (\<exists>x. m = Inr x)"
  by (cases m) auto

lemma rbind_assoc: "rbind (rbind m f) g = rbind m (\<lambda>x. rbind (f x) g)"
  by (cases m) auto

text \<open>The limits of the integer types the code uses.\<close>

abbreviation INT_MAX :: int where "INT_MAX \<equiv> 2147483647"
abbreviation INT_MIN :: int where "INT_MIN \<equiv> - 2147483648"
abbreviation LLONG_MAX :: int where "LLONG_MAX \<equiv> 9223372036854775807"
abbreviation LLONG_MIN :: int where "LLONG_MIN \<equiv> - 9223372036854775808"

text \<open>Integer division of C truncates towards zero.\<close>

definition c_div :: "int \<Rightarrow> int \<Rightarrow> int" where
  "c_div a b = sgn a * sgn b * (\<bar>a\<bar> div \<bar>b\<bar>)"

definition in_int :: "int \<Rightarrow> bool" where
  "in_int x \<longleftrightarrow> INT_MIN \<le> x \<and> x \<le> INT_MAX"

definition in_llong :: "int \<Rightarrow> bool" where
  "in_llong x \<longleftrightarrow> LLONG_MIN \<le> x \<and> x \<le> LLONG_MAX"

subsection \<open>Generic list lemmas\<close>

lemma takeWhile_id: "(\<And>x. x \<in> set xs \<Longrightarrow> P x) \<Longrightarrow> takeWhile P xs = xs"
  by (simp add: takeWhile_eq_all_conv)

lemma takeWhile_append_stop: "(\<And>x. x \<in> set xs \<Longrightarrow> P x) \<Longrightarrow> \<not> P y \<Longrightarrow> takeWhile P (xs @ y # ys) = xs"
  by (induction xs) auto

lemma dropWhile_hd: "\<not> P x \<Longrightarrow> dropWhile P (x # xs) = x # xs"
  by simp

lemma length_concat_map_le:
  "(\<And>x. length (f x) \<le> k) \<Longrightarrow> length (concat (map f xs)) \<le> k * length xs"
proof (induction xs)
  case Nil
  then show ?case by simp
next
  case (Cons x xs)
  from Cons.prems have "length (f x) \<le> k" .
  with Cons.IH [OF Cons.prems] show ?case by simp
qed

lemma nth_splice_inside:
  "i < length ys \<Longrightarrow> off \<le> length xs \<Longrightarrow> (take off xs @ ys @ zs) ! (off + i) = ys ! i"
  by (simp add: nth_append)

text \<open>Reading a result off an evaluated case distinction.\<close>

lemma case_res_iff: "(case r of Inl e \<Rightarrow> False | Inr v \<Rightarrow> P v) \<longleftrightarrow> (\<exists>v. r = Inr v \<and> P v)"
  by (cases r) auto

lemma res_okE:
  assumes "case r of Inl e \<Rightarrow> False | Inr v \<Rightarrow> P v"
  obtains v where "r = Inr v" "P v"
  using assms by (cases r) auto

end
