(* ===== verification/CStrings.thy ===== *)
theory CStrings
  imports CBase
begin

text \<open>
  The part of the C library the components use: strings and their search functions, the
  copying functions with the capacity of their destination, \<open>sscanf\<close> of numbers and
  words, and \<open>printf\<close> of decimal numbers.

  A C string is the list of its characters before the terminator; an array that is read
  or written by index is the list of all its cells.  \<open>char\<close> is signed on the target
  (\<open>ARCH\<close> is a Cygwin on x86), which \<open>schar\<close> makes visible where it matters.
\<close>

abbreviation MAX_STRING :: nat where "MAX_STRING \<equiv> 1024"
abbreviation NUL :: char where "NUL \<equiv> CHR 0x00"

definition schar :: "char \<Rightarrow> int" where
  "schar c = (let n = int (of_char c :: nat) in if n < 128 then n else n - 256)"

definition cstring :: "string \<Rightarrow> string" where
  "cstring buf = takeWhile (\<lambda>c. c \<noteq> NUL) buf"

definition pad_nul :: "nat \<Rightarrow> string \<Rightarrow> string" where
  "pad_nul n s = s @ replicate (n - length s) NUL"

definition is_space :: "char \<Rightarrow> bool" where
  "is_space c = (let n = (of_char c :: nat) in n = 32 \<or> (9 \<le> n \<and> n \<le> 13))"

fun strchr :: "string \<Rightarrow> char \<Rightarrow> nat option" where
  "strchr [] c = None"
| "strchr (x # xs) c = (if x = c then Some 0 else map_option Suc (strchr xs c))"

fun strrchr :: "string \<Rightarrow> char \<Rightarrow> nat option" where
  "strrchr [] c = None"
| "strrchr (x # xs) c =
     (case strrchr xs c of Some i \<Rightarrow> Some (Suc i) | None \<Rightarrow> if x = c then Some 0 else None)"

fun is_prefix :: "string \<Rightarrow> string \<Rightarrow> bool" where
  "is_prefix [] s = True"
| "is_prefix (p # ps) [] = False"
| "is_prefix (p # ps) (x # xs) = (p = x \<and> is_prefix ps xs)"

fun strstr :: "string \<Rightarrow> string \<Rightarrow> nat option" where
  "strstr [] pat = (if pat = [] then Some 0 else None)"
| "strstr (x # xs) pat =
     (if is_prefix pat (x # xs) then Some 0 else map_option Suc (strstr xs pat))"

definition to_lower :: "char \<Rightarrow> char" where
  "to_lower c = (let n = (of_char c :: nat) in if 65 \<le> n \<and> n \<le> 90 then char_of (n + 32) else c)"

definition strcasecmp_eq :: "string \<Rightarrow> string \<Rightarrow> bool" where
  "strcasecmp_eq s t = (map to_lower s = map to_lower t)"

text \<open>
  Copies into an array of \<open>cap\<close> cells.  \<open>strncpy\<close> with the full capacity leaves a
  longer source unterminated, which the later string reads of the code run past.
\<close>

definition strcpy_buf :: "nat \<Rightarrow> string \<Rightarrow> string res" where
  "strcpy_buf cap s = (if length s < cap then Inr s else Inl Buffer_overflow)"

definition strncpy_buf :: "nat \<Rightarrow> string \<Rightarrow> string res" where
  "strncpy_buf cap s = (if length s < cap then Inr s else Inl Unterminated)"

definition strcat_buf :: "nat \<Rightarrow> string \<Rightarrow> string \<Rightarrow> string res" where
  "strcat_buf cap d s = strcpy_buf cap (d @ s)"

definition strncat_buf :: "nat \<Rightarrow> string \<Rightarrow> string \<Rightarrow> nat \<Rightarrow> string res" where
  "strncat_buf cap d s n = strcpy_buf cap (d @ take n s)"

definition snprintf_buf :: "nat \<Rightarrow> string \<Rightarrow> string" where
  "snprintf_buf cap s = take (cap - 1) s"

subsection \<open>Numbers\<close>

definition digit_val :: "char \<Rightarrow> nat option" where
  "digit_val c = (let n = of_char c in
     if 48 \<le> n \<and> n \<le> 57 then Some (n - 48)
     else if 97 \<le> n \<and> n \<le> 102 then Some (n - 87)
     else if 65 \<le> n \<and> n \<le> 70 then Some (n - 55)
     else None)"

definition is_digit_in :: "nat \<Rightarrow> char \<Rightarrow> bool" where
  "is_digit_in base c = (case digit_val c of None \<Rightarrow> False | Some d \<Rightarrow> d < base)"

definition digits_value :: "nat \<Rightarrow> string \<Rightarrow> nat" where
  "digits_value base ds = foldl (\<lambda>a c. base * a + the (digit_val c)) 0 ds"

datatype scan = Scan_eof | Scan_fail | Scan_ok int string

text \<open>
  \<open>scan_unsigned base s\<close> reads the digits of a number: its value and how many characters
  it took.  \<open>base\<close> is 0 for \<open>%i\<close>, which takes the base from the prefix.
\<close>

definition scan_unsigned :: "nat \<Rightarrow> string \<Rightarrow> (nat \<times> nat) option" where
  "scan_unsigned base s =
     (if (base = 0 \<or> base = 16) \<and> (is_prefix ''0x'' s \<or> is_prefix ''0X'' s)
      then let ds = takeWhile (is_digit_in 16) (drop 2 s)
           in if ds = [] then None else Some (digits_value 16 ds, 2 + length ds)
      else let b = (if base \<noteq> 0 then base else if is_prefix ''0'' s then 8 else 10);
               ds = takeWhile (is_digit_in b) s
           in if ds = [] then None else Some (digits_value b ds, length ds))"

text \<open>
  One numeric conversion of \<open>sscanf\<close>: leading white space, an optional sign, the digits;
  \<open>w\<close> is the maximum field width, \<open>None\<close> without one.  \<open>Scan_eof\<close> is an input
  failure (\<open>sscanf\<close> returns -1), \<open>Scan_fail\<close> a matching failure (it returns 0).
\<close>

definition scan_num :: "nat \<Rightarrow> nat option \<Rightarrow> string \<Rightarrow> scan" where
  "scan_num base w s =
     (let s1 = dropWhile is_space s;
          f = (case w of None \<Rightarrow> s1 | Some n \<Rightarrow> take n s1)
      in if s1 = [] then Scan_eof
         else let neg = is_prefix ''-'' f;
                  sgn = (if is_prefix ''-'' f \<or> is_prefix ''+'' f then 1 else 0)
              in case scan_unsigned base (drop sgn f) of
                   None \<Rightarrow> Scan_fail
                 | Some (v, n) \<Rightarrow> Scan_ok (if neg then - int v else int v) (drop (sgn + n) s1))"

text \<open>A word (\<open>%s\<close>): white space skipped, then up to \<open>w\<close> other characters.\<close>

definition scan_word :: "nat \<Rightarrow> string \<Rightarrow> (string \<times> string) option" where
  "scan_word w s =
     (let s1 = dropWhile is_space s; t = takeWhile (\<lambda>c. \<not> is_space c) (take w s1)
      in if t = [] then None else Some (t, drop (length t) s1))"

text \<open>
  The conversions as the code uses them: \<open>Inr None\<close> leaves the target as it was,
  \<open>Inr (Some x)\<close> stores \<open>x\<close>; a number outside of the type of the target is undefined.
\<close>

definition sscanf_int :: "nat \<Rightarrow> nat option \<Rightarrow> string \<Rightarrow> int option res" where
  "sscanf_int base w s =
     (case scan_num base w s of
        Scan_ok v r \<Rightarrow> if in_int v then Inr (Some v) else Inl Int_overflow
      | _ \<Rightarrow> Inr None)"

definition sscanf_lld :: "string \<Rightarrow> int option res" where
  "sscanf_lld s =
     (case scan_num 10 None s of
        Scan_ok v r \<Rightarrow> if in_llong v then Inr (Some v) else Inl Int_overflow
      | _ \<Rightarrow> Inr None)"

definition digit_char :: "nat \<Rightarrow> char" where
  "digit_char d = char_of (48 + d)"

fun nat_str :: "nat \<Rightarrow> string" where
  "nat_str n = (if n < 10 then [digit_char n] else nat_str (n div 10) @ [digit_char (n mod 10)])"

declare nat_str.simps [simp del]

definition int_str :: "int \<Rightarrow> string" where
  "int_str x = (if x < 0 then ''-'' @ nat_str (nat (- x)) else nat_str (nat x))"

subsection \<open>Facts about the search functions\<close>

named_theorems cstr \<open>facts about C strings\<close>

lemma strchr_None [cstr]: "strchr s c = None \<longleftrightarrow> c \<notin> set s"
  by (induction s) auto

lemma strchr_Some:
  "strchr s c = Some i \<Longrightarrow> i < length s \<and> s ! i = c \<and> c \<notin> set (take i s)"
proof (induction s arbitrary: i)
  case Nil
  then show ?case by simp
next
  case (Cons x xs)
  show ?case
  proof (cases "x = c")
    case True
    with Cons.prems show ?thesis by auto
  next
    case False
    with Cons.prems obtain j where "strchr xs c = Some j" "i = Suc j" by auto
    with Cons.IH [of j] False show ?thesis by auto
  qed
qed

lemma strchr_append [cstr]: "c \<notin> set s \<Longrightarrow> strchr (s @ c # t) c = Some (length s)"
  by (induction s) auto

lemma strchr_skip: "c \<notin> set s \<Longrightarrow> strchr (s @ t) c = map_option (\<lambda>i. length s + i) (strchr t c)"
  by (induction s; cases "strchr t c") auto

lemma strrchr_None [cstr]: "strrchr s c = None \<longleftrightarrow> c \<notin> set s"
  by (induction s) (auto split: option.splits)

lemma strrchr_append [cstr]: "c \<notin> set t \<Longrightarrow> strrchr (s @ c # t) c = Some (length s)"
proof (induction s)
  case Nil
  then have "strrchr t c = None" by (simp add: strrchr_None)
  then show ?case by simp
next
  case (Cons x xs)
  then show ?case by simp
qed

lemma strrchr_Some:
  "strrchr s c = Some i \<Longrightarrow> i < length s \<and> s ! i = c \<and> c \<notin> set (drop (Suc i) s)"
proof (induction s arbitrary: i)
  case Nil
  then show ?case by simp
next
  case (Cons x xs)
  show ?case
  proof (cases "strrchr xs c")
    case None
    with Cons.prems show ?thesis by (auto simp: strrchr_None split: if_splits)
  next
    case (Some j)
    with Cons.prems Cons.IH [of j] show ?thesis by auto
  qed
qed

lemma is_prefix_iff [cstr]: "is_prefix p s \<longleftrightarrow> (\<exists>t. s = p @ t)"
  by (induction p s rule: is_prefix.induct) auto

lemma is_prefix_append [simp]: "is_prefix p (p @ s)"
  by (simp add: is_prefix_iff)

lemma strstr_Some:
  "strstr s p = Some i \<Longrightarrow> i \<le> length s \<and> is_prefix p (drop i s)"
proof (induction s arbitrary: i)
  case Nil
  then show ?case by (auto split: if_splits)
next
  case (Cons x xs)
  show ?case
  proof (cases "is_prefix p (x # xs)")
    case True
    with Cons.prems show ?thesis by auto
  next
    case False
    with Cons.prems obtain j where "strstr xs p = Some j" "i = Suc j" by (auto split: if_splits)
    with Cons.IH [of j] show ?thesis by auto
  qed
qed

lemma strstr_None: "strstr s p = None \<Longrightarrow> \<not> is_prefix p (drop i s) \<or> length s \<le> i"
proof (induction s arbitrary: i)
  case Nil
  then show ?case by simp
next
  case (Cons x xs)
  from Cons.prems have "\<not> is_prefix p (x # xs)" "strstr xs p = None" by (auto split: if_splits)
  with Cons.IH [of "i - 1"] show ?case by (cases i) auto
qed

text \<open>A pattern whose first character occurs in \<open>s\<close> nowhere is found right after \<open>s\<close>.\<close>

lemma strstr_skip:
  "c \<notin> set s \<Longrightarrow> strstr (s @ t) (c # p) = map_option (\<lambda>i. length s + i) (strstr t (c # p))"
  by (induction s; cases "strstr t (c # p)") auto

lemma strstr_absent: "c \<notin> set s \<Longrightarrow> strstr s (c # p) = None"
  using strstr_skip [of c s "[]" p] by simp

lemma cstring_no_nul: "NUL \<notin> set (cstring buf)"
  using set_takeWhileD unfolding cstring_def by fastforce

lemma cstring_id: "NUL \<notin> set s \<Longrightarrow> cstring s = s"
  by (auto simp: cstring_def intro!: takeWhile_id)

lemma cstring_pad_nul [cstr]: "NUL \<notin> set s \<Longrightarrow> cstring (pad_nul n s) = s"
  unfolding cstring_def pad_nul_def
  by (cases "n - length s") (auto simp: takeWhile_id intro: takeWhile_append_stop)

lemma length_pad_nul: "length s \<le> n \<Longrightarrow> length (pad_nul n s) = n"
  by (simp add: pad_nul_def)

lemma strcpy_buf_Inr [res_elims]: "strcpy_buf cap s = Inr t \<longleftrightarrow> t = s \<and> length s < cap"
  by (auto simp: strcpy_buf_def)

lemma strncpy_buf_Inr [res_elims]: "strncpy_buf cap s = Inr t \<longleftrightarrow> t = s \<and> length s < cap"
  by (auto simp: strncpy_buf_def)

lemma strcat_buf_Inr [res_elims]:
  "strcat_buf cap d s = Inr t \<longleftrightarrow> t = d @ s \<and> length d + length s < cap"
  by (auto simp: strcat_buf_def strcpy_buf_def)

lemma strncat_buf_Inr [res_elims]:
  "strncat_buf cap d s n = Inr t \<longleftrightarrow> t = d @ take n s \<and> length (d @ take n s) < cap"
  by (auto simp: strncat_buf_def strcpy_buf_def)

lemma strcpy_buf_fits: "length s < cap \<Longrightarrow> strcpy_buf cap s = Inr s"
  by (simp add: strcpy_buf_def)

lemma strncpy_buf_fits: "length s < cap \<Longrightarrow> strncpy_buf cap s = Inr s"
  by (simp add: strncpy_buf_def)

lemma strcat_buf_fits: "length d + length s < cap \<Longrightarrow> strcat_buf cap d s = Inr (d @ s)"
  by (simp add: strcat_buf_def strcpy_buf_def)

lemma snprintf_buf_length: "0 < cap \<Longrightarrow> length (snprintf_buf cap s) < cap"
  by (simp add: snprintf_buf_def)

lemma snprintf_buf_id: "length s < cap \<Longrightarrow> snprintf_buf cap s = s"
  by (simp add: snprintf_buf_def)

lemmas buf_fits = strcpy_buf_fits strncpy_buf_fits strcat_buf_fits snprintf_buf_id

subsection \<open>Decimal numbers survive printing and scanning\<close>

lemma digit_val_digit_char [simp]: "d < 10 \<Longrightarrow> digit_val (digit_char d) = Some d"
  by (simp add: digit_val_def digit_char_def Let_def)

lemma digit_val_other [simp]:
  "digit_val CHR ''x'' = None" "digit_val CHR ''X'' = None" "digit_val CHR ''-'' = None"
  "digit_val CHR ''+'' = None" "digit_val CHR ''%'' = None" "digit_val CHR ''/'' = None"
  "digit_val CHR '':'' = None" "digit_val CHR ''.'' = None" "digit_val CHR '','' = None"
  "digit_val CHR ''@'' = None" "digit_val NUL = None"
  by (simp_all add: digit_val_def)

lemma nat_str_not_Nil [simp]: "nat_str n \<noteq> []"
  by (subst nat_str.simps) simp

lemma nat_str_digits: "c \<in> set (nat_str n) \<Longrightarrow> \<exists>d < 10. c = digit_char d"
proof (induction n rule: nat_str.induct)
  case (1 n)
  show ?case
  proof (cases "n < 10")
    case True
    with "1.prems" show ?thesis by (subst (asm) nat_str.simps) auto
  next
    case False
    have "n mod 10 < 10" by simp
    moreover from False have "nat_str n = nat_str (n div 10) @ [digit_char (n mod 10)]"
      by (subst nat_str.simps) simp
    ultimately show ?thesis using False "1.IH" "1.prems" by force
  qed
qed

lemma digits_value_append:
  "digits_value b (ds @ [c]) = b * digits_value b ds + the (digit_val c)"
  by (simp add: digits_value_def)

lemma digits_value_nat_str [simp]: "digits_value 10 (nat_str n) = n"
proof (induction n rule: nat_str.induct)
  case (1 n)
  show ?case
  proof (cases "n < 10")
    case True
    then show ?thesis by (subst nat_str.simps) (simp add: digits_value_def)
  next
    case False
    with "1.IH" show ?thesis
      by (subst nat_str.simps) (simp add: digits_value_append)
  qed
qed

lemma nat_str_hd_nonzero: "0 < n \<Longrightarrow> hd (nat_str n) \<noteq> digit_char 0"
proof (induction n rule: nat_str.induct)
  case (1 n)
  show ?case
  proof (cases "n < 10")
    case True
    then have "n < 256" by simp
    with True "1.prems" show ?thesis
      by (subst nat_str.simps) (simp add: digit_char_def char_of_eq_iff take_bit_eq_mod)
  next
    case False
    with 1 show ?thesis by (subst nat_str.simps) simp
  qed
qed

lemma is_digit_in_digit_char [simp]: "d < 10 \<Longrightarrow> d < b \<Longrightarrow> is_digit_in b (digit_char d)"
  by (simp add: is_digit_in_def)

lemma nat_str_all_digits: "c \<in> set (nat_str n) \<Longrightarrow> is_digit_in 10 c"
  using nat_str_digits by fastforce

lemma nat_str_short: "n < 10 ^ k \<Longrightarrow> 0 < k \<Longrightarrow> length (nat_str n) \<le> k"
proof (induction n arbitrary: k rule: nat_str.induct)
  case (1 n)
  show ?case
  proof (cases "n < 10")
    case True
    then show ?thesis using "1.prems" by (subst nat_str.simps) simp
  next
    case False
    then obtain j where k: "k = Suc j" "0 < j" using "1.prems" by (cases k; cases "k - 1") auto
    then have "n div 10 < 10 ^ j" using "1.prems" by (simp add: div_less_iff_less_mult mult.commute)
    then show ?thesis using "1.IH" [OF False _ k(2)] k False by (subst nat_str.simps) simp
  qed
qed

lemma nat_str_no [simp]:
  assumes "digit_val c = None"
  shows "c \<notin> set (nat_str n)"
  using assms nat_str_all_digits by (fastforce simp: is_digit_in_def)

lemma digit_char_no_space: "d < 10 \<Longrightarrow> \<not> is_space (digit_char d)"
  by (auto simp: is_space_def digit_char_def Let_def take_bit_eq_mod)

lemma nat_str_hd: "\<exists>d < 10. hd (nat_str n) = digit_char d"
  using nat_str_digits [of "hd (nat_str n)" n] by simp

lemma takeWhile_nat_str:
  assumes "r = [] \<or> \<not> is_digit_in 10 (hd r)"
  shows "takeWhile (is_digit_in 10) (nat_str n @ r) = nat_str n"
proof (cases r)
  case Nil
  then show ?thesis by (simp add: takeWhile_id nat_str_all_digits)
next
  case (Cons c cs)
  with assms show ?thesis by (simp add: takeWhile_append_stop nat_str_all_digits)
qed

lemma nat_str_scan_prefix:
  shows "dropWhile is_space (nat_str n @ r) = nat_str n @ r"
    and "\<not> is_prefix ''-'' (nat_str n @ r)" and "\<not> is_prefix ''+'' (nat_str n @ r)"
proof -
  obtain d ds where ds: "nat_str n = digit_char d # ds" "d < 10"
    using nat_str_hd [of n] nat_str_not_Nil [of n] by (metis list.collapse)
  show "dropWhile is_space (nat_str n @ r) = nat_str n @ r"
    using ds by (simp add: digit_char_no_space)
  show "\<not> is_prefix ''-'' (nat_str n @ r)" "\<not> is_prefix ''+'' (nat_str n @ r)"
    using ds nat_str_no [of "CHR ''-''" n] nat_str_no [of "CHR ''+''" n] by auto
qed

lemma scan_unsigned_nat_str:
  assumes "r = [] \<or> \<not> is_digit_in 10 (hd r)" and b: "b = 10 \<or> b = 0 \<and> 0 < n"
  shows "scan_unsigned b (nat_str n @ r) = Some (n, length (nat_str n))"
proof -
  obtain d ds where ds: "nat_str n = digit_char d # ds" "d < 10"
    using nat_str_hd [of n] nat_str_not_Nil [of n] by (metis list.collapse)
  have "digit_char d = CHR ''0'' \<Longrightarrow> d = 0"
    using digit_val_digit_char [OF ds(2)] by (simp add: digit_val_def)
  then have zero: "b = 10 \<or> \<not> is_prefix ''0'' (nat_str n @ r)"
    using b ds nat_str_hd_nonzero [of n] by auto
  then have hex: "b = 10 \<or> \<not> is_prefix ''0x'' (nat_str n @ r) \<and> \<not> is_prefix ''0X'' (nat_str n @ r)"
    by (auto simp: ds)
  show ?thesis
    using b zero hex takeWhile_nat_str [OF assms(1), of n] by (auto simp: scan_unsigned_def)
qed

lemma scan_num_nat_str:
  assumes "r = [] \<or> \<not> is_digit_in 10 (hd r)" and "b = 10 \<or> b = 0 \<and> 0 < n"
  shows "scan_num b None (nat_str n @ r) = Scan_ok (int n) r"
  using scan_unsigned_nat_str [OF assms] nat_str_scan_prefix [of n r]
  by (simp add: scan_num_def)

text \<open>With a field width that ends with the number, what follows does not matter.\<close>

lemma scan_num_nat_str_width:
  assumes "b = 10 \<or> b = 0 \<and> 0 < n"
  shows "scan_num b (Some (length (nat_str n))) (nat_str n @ r) = Scan_ok (int n) r"
  using scan_unsigned_nat_str [OF _ assms, of "[]"] nat_str_scan_prefix [of n r] nat_str_scan_prefix [of n "[]"]
  by (simp add: scan_num_def)

lemma scan_num_space [simp]: "is_space c \<Longrightarrow> scan_num b w (c # s) = scan_num b w s"
  by (simp add: scan_num_def)

lemma scan_word_prefix:
  assumes "t \<noteq> []" "\<forall>c \<in> set t. \<not> is_space c" "r = [] \<or> is_space (hd r)" "length t \<le> w"
  shows "scan_word w (t @ r) = Some (t, r)"
proof -
  have "dropWhile is_space (t @ r) = t @ r"
    using assms(1,2) by (cases t) auto
  moreover have "takeWhile (\<lambda>c. \<not> is_space c) (take w (t @ r)) = t"
  proof (cases "take (w - length t) r")
    case Nil
    with assms(4) have "take w (t @ r) = t" by auto
    with assms(2) show ?thesis by (simp add: takeWhile_id)
  next
    case (Cons c cs)
    then have "is_space c" using assms(3) by (cases r) (auto simp: take_Cons' split: if_splits)
    with Cons assms show ?thesis by (simp add: takeWhile_append_stop)
  qed
  ultimately show ?thesis using assms(1) by (simp add: scan_word_def)
qed

lemma sscanf_int_nat_str:
  assumes "0 < x" "in_int x" "r = [] \<or> \<not> is_digit_in 10 (hd r)"
  shows "sscanf_int 0 None (int_str x @ r) = Inr (Some x)"
  using assms scan_num_nat_str [of r 0 "nat x"] by (simp add: sscanf_int_def int_str_def)

lemma int_str_no:
  assumes "digit_val c = None" "c \<noteq> CHR ''-''"
  shows "c \<notin> set (int_str x)"
  using assms by (simp add: int_str_def)

text \<open>The ten digits, for the evaluation of printed numbers.\<close>

lemma digit_char_eval:
  "digit_char 0 = CHR ''0''" "digit_char 1 = CHR ''1''" "digit_char 2 = CHR ''2''" "digit_char 3 = CHR ''3''"
  "digit_char 4 = CHR ''4''" "digit_char 5 = CHR ''5''" "digit_char 6 = CHR ''6''" "digit_char 7 = CHR ''7''"
  "digit_char 8 = CHR ''8''" "digit_char 9 = CHR ''9''" "digit_char (Suc 0) = CHR ''1''"
  by code_simp+

lemmas print_eval = int_str_def nat_str.simps digit_char_eval

end
