(* ===== verification/HttpCodec.thy ===== *)
theory HttpCodec
  imports CStrings
begin

text \<open>
  \<open>http_encode\<close> and \<open>http_decode\<close> of \<^verbatim>\<open>final/client/ServerSide/http.c\<close>: the escape of
  spaces in the path of a URL and its inverse, used on the path of every URL that is parsed and on
  the name of the local file.  The loop variable \<open>j\<close> of the code is the length of the output
  so far.
\<close>

subsection \<open>Encoding\<close>

text \<open>
  One iteration reads \<open>s[i]\<close> and writes at \<open>t[j]\<close>.  The second \<open>break\<close> leaves
  \<open>t[j] = ' '\<close>, which the final \<open>t[j] = 0\<close> overwrites.
\<close>

fun http_encode_loop :: "string \<Rightarrow> string \<Rightarrow> string" where
  "http_encode_loop [] t = t"
| "http_encode_loop (c # s) t =
     (if length t \<ge> MAX_STRING - 1 then t
      else if c = CHR '' '' then
        (if length t \<ge> MAX_STRING - 3 then t else http_encode_loop s (t @ ''%20''))
      else http_encode_loop s (t @ [c]))"

definition http_encode :: "string \<Rightarrow> string" where
  "http_encode s = http_encode_loop s []"

text \<open>The intended function, without the limit of the buffer.\<close>

definition encode_char :: "char \<Rightarrow> string" where
  "encode_char c = (if c = CHR '' '' then ''%20'' else [c])"

definition encode_spec :: "string \<Rightarrow> string" where
  "encode_spec s = concat (map encode_char s)"

subsection \<open>Decoding\<close>

text \<open>
  The argument is the array \<open>s\<close> from index \<open>i\<close> on, terminator and what follows it
  included, because the code may step over the terminator: \<open>i += 2\<close> is done whenever
  \<open>sscanf\<close> does not return 0, also when it returns \<open>EOF\<close> (then \<open>k\<close> keeps its
  value, none at the first escape) and when there is only one digit.  A read outside of the array
  is \<open>Over_read\<close>.
\<close>

function http_decode_loop :: "string \<Rightarrow> int option \<Rightarrow> string \<Rightarrow> string res" where
  "http_decode_loop [] k t = Inl Over_read"
| "http_decode_loop (c # s) k t =
     (if c = NUL then Inr t
      else if c = CHR ''%'' then
        (case scan_num 16 (Some 2) (cstring s) of
           Scan_fail \<Rightarrow> http_decode_loop s k (t @ [c])
         | Scan_eof \<Rightarrow>
             (case k of None \<Rightarrow> Inl Uninitialised
              | Some v \<Rightarrow> http_decode_loop (drop 2 s) k (t @ [char_of (v mod 256)]))
         | Scan_ok v r \<Rightarrow> http_decode_loop (drop 2 s) (Some v) (t @ [char_of (v mod 256)]))
      else http_decode_loop s k (t @ [c]))"
  by pat_completeness auto
termination
  by (relation "measure (\<lambda>(s, k, t). length s)") auto

declare http_decode_loop.simps(2) [simp del]

text \<open>\<open>strcpy(s, t)\<close> at the end copies up to the first zero byte that was decoded.\<close>

definition http_decode :: "string \<Rightarrow> string res" where
  "http_decode buf = rbind (http_decode_loop buf None []) (\<lambda>t. Inr (cstring t))"

text \<open>
  The inputs the decoder is made for: a piece \<open>(c, True)\<close> is the escape \<open>%XX\<close> of
  \<open>c\<close>, a piece \<open>(c, False)\<close> is \<open>c\<close> itself.
\<close>

definition hex_digit :: "nat \<Rightarrow> char" where
  "hex_digit d = char_of (if d < 10 then 48 + d else 87 + d)"

definition escape_char :: "char \<Rightarrow> string" where
  "escape_char c = (let n = of_char c in [CHR ''%'', hex_digit (n div 16), hex_digit (n mod 16)])"

definition piece_text :: "char \<times> bool \<Rightarrow> string" where
  "piece_text p = (if snd p then escape_char (fst p) else [fst p])"

definition piece_ok :: "char \<times> bool \<Rightarrow> bool" where
  "piece_ok p = (snd p \<or> (fst p \<noteq> CHR ''%'' \<and> fst p \<noteq> NUL))"

subsection \<open>The encoder\<close>

lemma encode_spec_simps [simp]:
  "encode_spec [] = []" "encode_spec (c # s) = encode_char c @ encode_spec s"
  by (simp_all add: encode_spec_def)

lemma encode_spec_append: "encode_spec (s @ t) = encode_spec s @ encode_spec t"
  by (simp add: encode_spec_def)

lemma encode_loop_length:
  "length t \<le> MAX_STRING - 1 \<Longrightarrow> length (http_encode_loop s t) \<le> MAX_STRING - 1"
  by (induction s t rule: http_encode_loop.induct) auto

lemma encode_loop_no_space:
  "CHR '' '' \<notin> set t \<Longrightarrow> CHR '' '' \<notin> set (http_encode_loop s t)"
  by (induction s t rule: http_encode_loop.induct) auto

lemma encode_loop_prefix: "\<exists>u. http_encode_loop s t = t @ u"
proof (induction s t rule: http_encode_loop.induct)
  case (1 t)
  then show ?case by simp
next
  case (2 c s t)
  then show ?case by (auto; metis append.assoc append_Cons)
qed

lemma encode_loop_exact:
  "length t + length (encode_spec s) \<le> MAX_STRING - 1 \<Longrightarrow> http_encode_loop s t = t @ encode_spec s"
proof (induction s t rule: http_encode_loop.induct)
  case (1 t)
  then show ?case by simp
next
  case (2 c s t)
  then show ?case by (auto simp: encode_char_def)
qed

lemma encode_loop_truncates:
  "\<exists>n. http_encode_loop s t = t @ take n (encode_spec s)"
proof (induction s t rule: http_encode_loop.induct)
  case (1 t)
  then show ?case by simp
next
  case (2 c s t)
  have stop: "\<exists>n. t = t @ take n (encode_spec (c # s))"
    by (rule exI [of _ 0]) simp
  show ?case
  proof (cases "http_encode_loop (c # s) t = t")
    case True
    with stop show ?thesis by simp
  next
    case False
    then obtain n where "http_encode_loop s (t @ encode_char c) = (t @ encode_char c) @ take n (encode_spec s)"
      and "http_encode_loop (c # s) t = http_encode_loop s (t @ encode_char c)"
      using 2 by (fastforce simp: encode_char_def split: if_splits)
    then show ?thesis
      by (intro exI [of _ "length (encode_char c) + n"]) simp
  qed
qed

lemma encode_no_space: "CHR '' '' \<notin> set (http_encode s)"
  by (simp add: http_encode_def encode_loop_no_space)

lemma encode_length: "length (http_encode s) < MAX_STRING"
  using encode_loop_length [of "[]" s] by (simp add: http_encode_def)

lemma encode_exact: "length (encode_spec s) < MAX_STRING \<Longrightarrow> http_encode s = encode_spec s"
  by (simp add: http_encode_def encode_loop_exact)

lemma encode_truncates: "\<exists>n. http_encode s = take n (encode_spec s)"
  using encode_loop_truncates [of s "[]"] by (simp add: http_encode_def)

lemma encode_spec_no_space: "CHR '' '' \<notin> set s \<Longrightarrow> encode_spec s = s"
  by (induction s) (auto simp: encode_char_def)

lemma encode_id: "CHR '' '' \<notin> set s \<Longrightarrow> length s < MAX_STRING \<Longrightarrow> http_encode s = s"
  by (simp add: encode_exact encode_spec_no_space)

lemma encode_hd: "s \<noteq> [] \<Longrightarrow> hd s \<noteq> CHR '' '' \<Longrightarrow> \<exists>u. http_encode s = hd s # u"
  using encode_loop_prefix [of "tl s" "[hd s]"] by (cases s) (auto simp: http_encode_def)

subsection \<open>The decoder\<close>

lemma hex_digit_val [simp]: "d < 16 \<Longrightarrow> digit_val (hex_digit d) = Some d"
  by (auto simp: digit_val_def hex_digit_def Let_def take_bit_eq_mod)

lemma hex_digit_no_space [simp]: "d < 16 \<Longrightarrow> \<not> is_space (hex_digit d)"
  by (auto simp: is_space_def hex_digit_def Let_def take_bit_eq_mod)

lemma of_char_hex_digit: "d < 16 \<Longrightarrow> of_char (hex_digit d) = (if d < 10 then 48 + d else 87 + d :: nat)"
  by (auto simp: hex_digit_def take_bit_eq_mod)

lemma hex_digit_neq [simp]:
  assumes "d < 16" and "digit_val c = None"
  shows "hex_digit d \<noteq> c"
  using assms by (metis hex_digit_val option.distinct(1))

lemma of_char_bound: "(of_char (c :: char) :: nat) < 256"
  by (metis nat_of_char_less_256)

lemma of_char_div_mod: "(of_char (c :: char) :: nat) div 16 < 16" "(of_char (c :: char) :: nat) mod 16 < 16"
  using of_char_bound [of c] by (simp_all add: div_less_iff_less_mult)

lemma scan_two_hex:
  assumes "a < 16" "b < 16"
  shows "scan_num 16 (Some 2) (hex_digit a # hex_digit b # r) = Scan_ok (int (16 * a + b)) r"
  using assms hex_digit_neq [of a "CHR ''-''"] hex_digit_neq [of a "CHR ''+''"]
    hex_digit_neq [of b "CHR ''x''"] hex_digit_neq [of b "CHR ''X''"]
  by (simp add: scan_num_def scan_unsigned_def is_digit_in_def digits_value_def Let_def not_sym)

lemma cstring_Cons [simp]: "c \<noteq> NUL \<Longrightarrow> cstring (c # s) = c # cstring s" "cstring (NUL # s) = []"
  by (simp_all add: cstring_def)

text \<open>One piece of the input is one character of the output.\<close>

lemma decode_loop_piece:
  assumes "piece_ok p"
  shows "\<exists>k'. http_decode_loop (piece_text p @ s) k t = http_decode_loop s k' (t @ [fst p])"
proof (cases "snd p")
  case False
  with assms show ?thesis
    by (intro exI [of _ k]) (simp add: piece_ok_def piece_text_def http_decode_loop.simps(2))
next
  case True
  let ?n = "of_char (fst p) :: nat"
  have d: "?n div 16 < 16" "?n mod 16 < 16" by (rule of_char_div_mod)+
  then have "hex_digit (?n div 16) \<noteq> NUL" "hex_digit (?n mod 16) \<noteq> NUL" by simp_all
  with d have "http_decode_loop (piece_text p @ s) k t
      = http_decode_loop s (Some (int ?n)) (t @ [char_of (int ?n mod 256)])"
    by (simp add: piece_text_def True escape_char_def Let_def http_decode_loop.simps(2)
        scan_two_hex del: of_nat_add of_nat_mult)
  moreover have "char_of (int ?n mod 256) = fst p"
    by simp
  ultimately show ?thesis by metis
qed

lemma decode_loop_pieces:
  assumes "list_all piece_ok ps"
  shows "http_decode_loop (concat (map piece_text ps) @ NUL # rest) k t = Inr (t @ map fst ps)"
  using assms
proof (induction ps arbitrary: k t)
  case Nil
  then show ?case by (simp add: http_decode_loop.simps(2))
next
  case (Cons p ps)
  then obtain k' where "http_decode_loop (piece_text p @ concat (map piece_text ps) @ NUL # rest) k t
      = http_decode_loop (concat (map piece_text ps) @ NUL # rest) k' (t @ [fst p])"
    using decode_loop_piece by fastforce
  with Cons show ?case by simp
qed

lemma decode_pieces:
  "list_all piece_ok ps \<Longrightarrow> http_decode (concat (map piece_text ps) @ NUL # rest) = Inr (cstring (map fst ps))"
  by (simp add: http_decode_def decode_loop_pieces)

text \<open>What the encoder writes is a sequence of pieces: the escape of a space is \<open>%20\<close>.\<close>

definition encode_piece :: "char \<Rightarrow> char \<times> bool" where
  "encode_piece c = (c, c = CHR '' '')"

lemma encode_spec_pieces: "encode_spec s = concat (map piece_text (map encode_piece s))"
proof (induction s)
  case Nil
  then show ?case by simp
next
  case (Cons c s)
  have "encode_char c = piece_text (encode_piece c)"
    by (simp add: encode_char_def encode_piece_def piece_text_def escape_char_def hex_digit_def
        char_of_def bit_Suc_0_iff)
  with Cons show ?case by simp
qed

lemma encode_pieces_ok:
  "CHR ''%'' \<notin> set s \<Longrightarrow> NUL \<notin> set s \<Longrightarrow> list_all piece_ok (map encode_piece s)"
  by (induction s) (auto simp: encode_piece_def piece_ok_def)

lemma decode_encode:
  assumes "CHR ''%'' \<notin> set s" "NUL \<notin> set s" "length (encode_spec s) < MAX_STRING"
  shows "http_decode (http_encode s @ NUL # rest) = Inr s"
proof -
  have "http_decode (concat (map piece_text (map encode_piece s)) @ NUL # rest)
      = Inr (cstring (map fst (map encode_piece s)))"
    using assms by (intro decode_pieces encode_pieces_ok)
  then show ?thesis
    using assms by (simp add: encode_exact encode_spec_pieces encode_piece_def o_def cstring_id)
qed

text \<open>The output is never longer than the input, so the array \<open>t\<close> is never overrun.\<close>

lemma decode_loop_length:
  "http_decode_loop s k t = Inr u \<Longrightarrow> length u < length t + length s"
proof (induction s k t rule: http_decode_loop.induct)
  case (1 k t)
  then show ?case by simp
next
  case (2 c s k t)
  then show ?case
    by (auto simp: http_decode_loop.simps(2) split: if_splits scan.splits option.splits)
qed

lemma decode_length: "http_decode s = Inr u \<Longrightarrow> length u < length s"
proof -
  assume "http_decode s = Inr u"
  then obtain t where "http_decode_loop s None [] = Inr t" "u = cstring t"
    by (auto simp: http_decode_def rbind_Inr)
  then show ?thesis
    using decode_loop_length [of s None "[]" t] length_takeWhile_le [of _ t]
    by (simp add: cstring_def) (meson le_less_trans length_takeWhile_le)
qed

subsection \<open>Contract\<close>

text \<open>Decoding undoes encoding.  A text without percent signs whose escaped form fits the
  buffer is recovered exactly by \<open>http_decode\<close> from what \<open>http_encode\<close> wrote,
  whatever follows the terminator in memory.\<close>

lemma http_decode_encode:
  assumes "CHR ''%'' \<notin> set s" "NUL \<notin> set s" "length (encode_spec s) < MAX_STRING"
  shows "http_decode (http_encode s @ NUL # rest) = Inr s"
  using assms by (rule decode_encode)

lemma http_decode_encode_witness:
  "http_decode (http_encode ''my file'' @ NUL # ''junk'') = Inr ''my file''"
  by (rule http_decode_encode) (simp_all add: encode_spec_def encode_char_def)

text \<open>For every input \<open>http_encode\<close> stays inside its buffer, leaves no blank in the text and
  writes a prefix of the complete escaped form: a text that is too long is cut, never overrun.\<close>

lemma http_encode_safe:
  "length (http_encode s) < MAX_STRING \<and> CHR '' '' \<notin> set (http_encode s) \<and>
   (\<exists>n. http_encode s = take n (concat (map encode_char s)))"
  using encode_length encode_no_space encode_truncates by (auto simp: encode_spec_def)

end
