(* ===== verification/ConnUrl.thy ===== *)
theory ConnUrl
  imports HttpCodec
begin

text \<open>
  The URL side of \<^verbatim>\<open>final/client/ServerSide/conn.c\<close>: \<open>conn_set\<close> takes a URL
  apart into the address fields of a connection, \<open>conn_url\<close> puts it together again.  Both
  run on every URL the client sees (argument, mirror list, redirect, proxy).
\<close>

abbreviation (input) PROTO_FTP :: int where "PROTO_FTP \<equiv> 1"
abbreviation (input) PROTO_HTTP :: int where "PROTO_HTTP \<equiv> 2"
abbreviation (input) PROTO_DEFAULT :: int where "PROTO_DEFAULT \<equiv> PROTO_FTP"

text \<open>The fields of \<open>conn_t\<close> that describe the remote file; Conn extends the record.\<close>

record conn_addr =
  c_proto :: int
  c_port :: int
  c_host :: string
  c_dir :: string
  c_file :: string
  c_user :: string
  c_pass :: string

text \<open>
  \<open>getservbyname\<close> reads \<open>/etc/services\<close>: a parameter, from the name of the service to
  its port, if there is an entry.
\<close>

type_synonym services = "string \<Rightarrow> int option"

subsection \<open>The parser\<close>

text \<open>The protocol prefix: \<open>None\<close> for a prefix that is neither \<open>f...://\<close> nor \<open>h...://\<close>.\<close>

definition split_proto :: "string \<Rightarrow> (int \<times> string) option" where
  "split_proto set_url =
     (case strstr set_url ''://'' of
        None \<Rightarrow> Some (PROTO_DEFAULT, set_url)
      | Some i \<Rightarrow>
          if hd set_url = CHR ''f'' then Some (PROTO_FTP, drop (i + 3) set_url)
          else if hd set_url = CHR ''h'' then Some (PROTO_HTTP, drop (i + 3) set_url)
          else None)"

text \<open>Host and path: the path is cut to the array, and encoded for HTTP.\<close>

definition split_host :: "int \<Rightarrow> string \<Rightarrow> string \<times> string" where
  "split_host proto url =
     (case strchr url CHR ''/'' of
        None \<Rightarrow> (url, ''/'')
      | Some i \<Rightarrow>
          (let dir = snprintf_buf MAX_STRING (CHR ''/'' # drop (i + 1) url)
           in (take i url, if proto = PROTO_HTTP then http_encode dir else dir)))"

text \<open>
  Directory and file: the last slash before the first question mark.  The code writes through the
  result of \<open>strrchr\<close> before it looks whether there was one.
\<close>

definition split_file :: "string \<Rightarrow> (string \<times> string) res" where
  "split_file dir =
     (let path = (case strchr dir CHR ''?'' of None \<Rightarrow> dir | Some j \<Rightarrow> take j dir)
      in case strrchr path CHR ''/'' of
           None \<Rightarrow> Inl Null_deref
         | Some i \<Rightarrow>
             rbind (strncpy_buf MAX_STRING (drop (i + 1) dir)) (\<lambda>file.
             rbind (strcat_buf MAX_STRING (take i dir) ''/'') (\<lambda>dir'.
             Inr (dir', file))))"

text \<open>User name, password and host from the host field.\<close>

definition split_user :: "int \<Rightarrow> string \<Rightarrow> string \<times> string \<times> string" where
  "split_user proto host =
     (case strrchr host CHR ''@'' of
        Some k \<Rightarrow> (take k host, '''', drop (k + 1) host)
      | None \<Rightarrow>
          if proto = PROTO_FTP then (''anonymous'', ''mailto:yws3073@naver.com'', host)
          else ('''', '''', host))"

definition split_pass :: "string \<Rightarrow> string \<Rightarrow> string \<times> string" where
  "split_pass user pass =
     (case strchr user CHR '':'' of
        Some k \<Rightarrow> (take k user, drop (k + 1) user)
      | None \<Rightarrow> (user, pass))"

text \<open>
  Port: after a colon by \<open>sscanf("%i")\<close>, which leaves the old value when there is no number;
  otherwise the registered port of the service, or the default.
\<close>

definition split_port :: "services \<Rightarrow> int \<Rightarrow> string \<Rightarrow> int \<Rightarrow> (string \<times> int) res" where
  "split_port serv proto host port =
     (case strchr host CHR '':'' of
        Some k \<Rightarrow>
          rbind (sscanf_int 0 None (drop (k + 1) host)) (\<lambda>r.
          Inr (take k host, case r of Some p \<Rightarrow> p | None \<Rightarrow> port))
      | None \<Rightarrow>
          Inr (host,
            case serv (if proto = PROTO_FTP then ''ftp'' else ''www'') of
              Some p \<Rightarrow> p
            | None \<Rightarrow> if proto = PROTO_HTTP then 80 else 21))"

text \<open>
  \<open>conn_set\<close>: the result is the return value and the connection.  A refused protocol leaves
  the connection as it was.
\<close>

definition conn_set :: "services \<Rightarrow> string \<Rightarrow> 'a conn_addr_scheme \<Rightarrow> (bool \<times> 'a conn_addr_scheme) res" where
  "conn_set serv set_url c =
     (case split_proto set_url of
        None \<Rightarrow> Inr (False, c)
      | Some (proto, rest) \<Rightarrow>
          rbind (strncpy_buf MAX_STRING rest) (\<lambda>url.
          let (host0, dir0) = split_host proto url in
          rbind (split_file dir0) (\<lambda>(dir, file).
          let (user0, pass0, host1) = split_user proto host0;
              (user, pass) = split_pass user0 pass0 in
          rbind (split_port serv proto host1 (c_port c)) (\<lambda>(host, port).
          Inr (port > 0, c\<lparr>c_proto := proto, c_port := port, c_host := host, c_dir := dir,
                          c_file := file, c_user := user, c_pass := pass\<rparr>)))))"

subsection \<open>The printer\<close>

definition url_text :: "'a conn_addr_scheme \<Rightarrow> string" where
  "url_text c =
     (if c_proto c = PROTO_FTP then ''ftp://'' else ''http://'') @
     (if c_user c \<noteq> '''' \<and> c_user c \<noteq> ''anonymous''
      then c_user c @ '':'' @ c_pass c @ ''@'' else '''') @
     c_host c @ '':'' @ int_str (c_port c) @ c_dir c @ c_file c"

text \<open>The result is written into the global array \<open>string\<close> without a limit.\<close>

definition conn_url :: "'a conn_addr_scheme \<Rightarrow> string res" where
  "conn_url c = strcpy_buf MAX_STRING (url_text c)"

subsection \<open>When a parse is defined\<close>

lemma split_host_dir: "\<exists>u. snd (split_host p url) = CHR ''/'' # u"
proof (cases "strchr url CHR ''/''")
  case None
  then show ?thesis by (simp add: split_host_def)
next
  case (Some i)
  have "\<exists>u. snprintf_buf MAX_STRING (CHR ''/'' # drop (i + 1) url) = CHR ''/'' # u"
    by (simp add: snprintf_buf_def)
  then show ?thesis
    using Some encode_hd [of "snprintf_buf MAX_STRING (CHR ''/'' # drop (i + 1) url)"]
    by (auto simp: split_host_def Let_def)
qed

lemma split_host_dir_length: "length (snd (split_host p url)) < MAX_STRING"
  using snprintf_buf_length [of MAX_STRING] encode_length
  by (auto simp: split_host_def Let_def split: option.splits)

lemma split_file_ok:
  assumes "dir = CHR ''/'' # u" "length dir < MAX_STRING"
  shows "\<exists>d f. split_file dir = Inr (d, f)"
proof -
  define path where "path = (case strchr dir CHR ''?'' of None \<Rightarrow> dir | Some j \<Rightarrow> take j dir)"
  have "\<exists>v. path = CHR ''/'' # v"
    using assms(1) by (auto simp: path_def split: option.splits)
  then obtain i where i: "strrchr path CHR ''/'' = Some i"
    by (cases "strrchr path CHR ''/''") (auto simp: strrchr_None)
  then have "i < length dir"
    using strrchr_Some [OF i] by (auto simp: path_def split: option.splits)
  with i assms(2) show ?thesis
    by (auto simp: split_file_def path_def [symmetric] buf_fits)
qed

lemma split_file_host: "\<exists>d f. split_file (snd (split_host p url)) = Inr (d, f)"
  using split_host_dir [of p url] split_file_ok split_host_dir_length by metis

lemma conn_set_error:
  assumes "length set_url < MAX_STRING" "conn_set serv set_url c = Inl e"
  shows "e = Int_overflow"
proof -
  obtain p rest where sp: "split_proto set_url = Some (p, rest)"
    using assms(2) by (cases "split_proto set_url") (auto simp: conn_set_def)
  then have "length rest \<le> length set_url"
    by (auto simp: split_proto_def split: option.splits if_splits)
  then have url: "strncpy_buf MAX_STRING rest = Inr rest"
    using assms(1) by (simp add: buf_fits)
  obtain h d0 where hd: "split_host p rest = (h, d0)" by fastforce
  obtain d f where df: "split_file d0 = Inr (d, f)"
    using split_file_host [of p rest] hd by auto
  show ?thesis
    using assms(2) sp url hd df
    by (auto simp: conn_set_def Let_def split_port_def sscanf_int_def rbind_Inl
        split: prod.splits option.splits scan.splits if_splits)
qed

subsection \<open>Printing and parsing again\<close>

text \<open>
  The addresses that survive a round trip: what a URL of the client can say.  A user name is kept
  unless it is empty or \<open>anonymous\<close>, which the printer leaves out and the parser fills in.
\<close>

definition cred_ok :: "int \<Rightarrow> string \<Rightarrow> string \<Rightarrow> bool" where
  "cred_ok proto user pass =
     (if user = '''' then proto = PROTO_HTTP \<and> pass = ''''
      else if user = ''anonymous'' then proto = PROTO_FTP \<and> pass = ''mailto:yws3073@naver.com''
      else True)"

definition path_ok :: "string \<Rightarrow> string \<Rightarrow> bool" where
  "path_ok dir file =
     (is_prefix ''/'' dir \<and> last dir = CHR ''/'' \<and> CHR ''?'' \<notin> set dir \<and>
      CHR ''/'' \<notin> set (takeWhile (\<lambda>c. c \<noteq> CHR ''?'') file))"

definition addr_canonical :: "'a conn_addr_scheme \<Rightarrow> bool" where
  "addr_canonical c =
     ((c_proto c = PROTO_FTP \<or> c_proto c = PROTO_HTTP) \<and>
      0 < c_port c \<and> in_int (c_port c) \<and>
      CHR ''/'' \<notin> set (c_host c) \<and> CHR '':'' \<notin> set (c_host c) \<and> CHR ''@'' \<notin> set (c_host c) \<and>
      CHR ''/'' \<notin> set (c_user c) \<and> CHR '':'' \<notin> set (c_user c) \<and> CHR ''/'' \<notin> set (c_pass c) \<and>
      cred_ok (c_proto c) (c_user c) (c_pass c) \<and>
      path_ok (c_dir c) (c_file c) \<and>
      (c_proto c = PROTO_HTTP \<longrightarrow> CHR '' '' \<notin> set (c_dir c) \<and> CHR '' '' \<notin> set (c_file c)))"

definition same_addr :: "'a conn_addr_scheme \<Rightarrow> 'b conn_addr_scheme \<Rightarrow> bool" where
  "same_addr c d =
     (c_proto c = c_proto d \<and> c_port c = c_port d \<and> c_host c = c_host d \<and> c_dir c = c_dir d \<and>
      c_file c = c_file d \<and> c_user c = c_user d \<and> c_pass c = c_pass d)"

lemma split_file_path:
  assumes "path_ok dir file" "length (dir @ file) < MAX_STRING"
  shows "split_file (dir @ file) = Inr (dir, file)"
proof -
  obtain d where d: "dir = d @ ''/''"
    using assms(1) append_butlast_last_id [of dir]
    by (metis append_is_Nil_conv is_prefix_iff not_Cons_self2 path_ok_def)
  define q where "q = takeWhile (\<lambda>c. c \<noteq> CHR ''?'') file"
  have path: "(case strchr (dir @ file) CHR ''?'' of None \<Rightarrow> dir @ file | Some j \<Rightarrow> take j (dir @ file))
      = dir @ q"
  proof (cases "CHR ''?'' \<in> set file")
    case False
    then have "q = file" by (auto simp: q_def intro!: takeWhile_id)
    with False assms(1) show ?thesis
      by (simp add: path_ok_def strchr_None [THEN iffD2])
  next
    case True
    then obtain p r where pr: "file = p @ CHR ''?'' # r" "CHR ''?'' \<notin> set p"
      using split_list_first by metis
    then have "q = p" by (auto simp: q_def intro!: takeWhile_append_stop)
    with pr assms(1) show ?thesis
      using strchr_append [of "CHR ''?''" "dir @ p" r] by (simp add: path_ok_def)
  qed
  have "strrchr (dir @ q) CHR ''/'' = Some (length d)"
    using assms(1) d strrchr_append [of "CHR ''/''" q d] by (simp add: path_ok_def q_def)
  then show ?thesis
    unfolding split_file_def Let_def path using assms(2) d by (simp add: buf_fits)
qed

lemma split_proto_text:
  assumes "c_proto c = PROTO_FTP \<or> c_proto c = PROTO_HTTP"
  shows "split_proto ((if c_proto c = PROTO_FTP then ''ftp://'' else ''http://'') @ r) = Some (c_proto c, r)"
  using assms by (auto simp: split_proto_def)

definition authority :: "'a conn_addr_scheme \<Rightarrow> string" where
  "authority c =
     (if c_user c \<noteq> '''' \<and> c_user c \<noteq> ''anonymous''
      then c_user c @ '':'' @ c_pass c @ ''@'' else '''') @
     c_host c @ '':'' @ int_str (c_port c)"

lemma split_host_text:
  assumes "addr_canonical c" "length (c_dir c @ c_file c) < MAX_STRING"
  shows "split_host (c_proto c) (authority c @ c_dir c @ c_file c) = (authority c, c_dir c @ c_file c)"
proof -
  have "CHR ''/'' \<notin> set (authority c)"
    using assms(1) by (auto simp: addr_canonical_def authority_def int_str_no)
  moreover obtain d where "c_dir c = CHR ''/'' # d"
    using assms(1) by (auto simp: addr_canonical_def path_ok_def is_prefix_iff)
  ultimately show ?thesis
    using assms strchr_append [of "CHR ''/''" "authority c" "d @ c_file c"]
    by (auto simp: split_host_def snprintf_buf_id encode_id addr_canonical_def)
qed

lemma split_user_text:
  assumes "addr_canonical c"
  shows "\<exists>u p. split_user (c_proto c) (authority c) = (u, p, c_host c @ '':'' @ int_str (c_port c))
           \<and> split_pass u p = (c_user c, c_pass c)"
proof (cases "c_user c \<noteq> '''' \<and> c_user c \<noteq> ''anonymous''")
  case True
  have "CHR ''@'' \<notin> set (c_host c @ '':'' @ int_str (c_port c))"
    using assms by (auto simp: addr_canonical_def int_str_no)
  then have "split_user (c_proto c) (authority c)
      = (c_user c @ '':'' @ c_pass c, '''', c_host c @ '':'' @ int_str (c_port c))"
    using True strrchr_append [of "CHR ''@''" "c_host c @ '':'' @ int_str (c_port c)" "c_user c @ '':'' @ c_pass c"]
    by (simp add: split_user_def authority_def)
  moreover have "split_pass (c_user c @ '':'' @ c_pass c) '''' = (c_user c, c_pass c)"
    using assms strchr_append [of "CHR '':''" "c_user c" "c_pass c"]
    by (simp add: split_pass_def addr_canonical_def)
  ultimately show ?thesis by blast
next
  case False
  have "CHR ''@'' \<notin> set (c_host c @ '':'' @ int_str (c_port c))"
    using assms by (auto simp: addr_canonical_def int_str_no)
  then have "strrchr (authority c) CHR ''@'' = None"
    using False by (auto simp: authority_def strrchr_None)
  with assms False show ?thesis
    by (auto simp: split_user_def split_pass_def authority_def addr_canonical_def cred_ok_def
        split: if_splits)
qed

lemma split_port_text:
  assumes "addr_canonical c"
  shows "split_port serv (c_proto c) (c_host c @ '':'' @ int_str (c_port c)) old = Inr (c_host c, c_port c)"
  using assms strchr_append [of "CHR '':''" "c_host c" "int_str (c_port c)"]
    sscanf_int_nat_str [of "c_port c" "[]"]
  by (simp add: split_port_def addr_canonical_def)

lemma conn_set_url_text:
  assumes "addr_canonical c" "length (url_text c) < MAX_STRING"
  shows "\<exists>d. conn_set serv (url_text c) c0 = Inr (True, d) \<and> same_addr d c"
proof -
  let ?rest = "authority c @ c_dir c @ c_file c"
  have url_eq: "url_text c = (if c_proto c = PROTO_FTP then ''ftp://'' else ''http://'') @ ?rest"
    by (simp add: url_text_def authority_def)
  have sp: "split_proto (url_text c) = Some (c_proto c, ?rest)"
    unfolding url_eq using assms(1) by (intro split_proto_text) (simp add: addr_canonical_def)
  have len: "length ?rest < MAX_STRING" "length (c_dir c @ c_file c) < MAX_STRING"
    using assms(2) by (auto simp: url_eq split: if_splits)
  obtain u p where up: "split_user (c_proto c) (authority c) = (u, p, c_host c @ '':'' @ int_str (c_port c))"
      "split_pass u p = (c_user c, c_pass c)"
    using split_user_text [OF assms(1)] by blast
  have fil: "split_file (c_dir c @ c_file c) = Inr (c_dir c, c_file c)"
    using assms(1) len by (intro split_file_path) (simp_all add: addr_canonical_def)
  have url: "strncpy_buf MAX_STRING ?rest = Inr ?rest"
    using len(1) by (rule strncpy_buf_fits)
  have port: "0 < c_port c" using assms(1) by (simp add: addr_canonical_def)
  show ?thesis
    unfolding conn_set_def sp
    by (simp add: url split_host_text [OF assms(1) len(2)] up fil split_port_text [OF assms(1), simplified]
        same_addr_def port del: append_assoc)
qed

subsection \<open>What a parse produces\<close>

lemma takeWhile_take_before:
  "strchr s c = Some j \<Longrightarrow> i \<le> j \<Longrightarrow> takeWhile (\<lambda>x. x \<noteq> c) (drop i s) = drop i (take j s)"
proof (induction s arbitrary: i j)
  case Nil
  then show ?case by simp
next
  case (Cons x xs)
  show ?case
  proof (cases "x = c")
    case True
    with Cons.prems show ?thesis by simp
  next
    case False
    with Cons.prems obtain j' where j': "strchr xs c = Some j'" "j = Suc j'" by auto
    show ?thesis
    proof (cases i)
      case 0
      with Cons.IH [of j' 0] False j' show ?thesis by simp
    next
      case (Suc i')
      with Cons.IH [of j' i'] Cons.prems(2) j' show ?thesis by simp
    qed
  qed
qed

lemma split_file_path_ok:
  assumes "split_file dir0 = Inr (dir, file)" "dir0 = CHR ''/'' # u"
  shows "path_ok dir file" and "set dir \<subseteq> set dir0" and "set file \<subseteq> set dir0"
proof -
  define path where "path = (case strchr dir0 CHR ''?'' of None \<Rightarrow> dir0 | Some j \<Rightarrow> take j dir0)"
  obtain i where i: "strrchr path CHR ''/'' = Some i"
      and df: "dir = take i dir0 @ ''/''" "file = drop (i + 1) dir0"
    using assms(1) by (auto simp: split_file_def path_def Let_def res_elims split: option.splits)
  note si = strrchr_Some [OF i]
  have "i < length dir0 \<and> take i dir0 = take i path \<and> CHR ''?'' \<notin> set path
    \<and> takeWhile (\<lambda>c. c \<noteq> CHR ''?'') file = drop (i + 1) path"
  proof (cases "strchr dir0 CHR ''?''")
    case None
    then have "path = dir0" "CHR ''?'' \<notin> set dir0" by (simp_all add: path_def strchr_None [symmetric])
    with si show ?thesis by (auto simp: df intro!: takeWhile_id dest: in_set_dropD)
  next
    case (Some j)
    with si strchr_Some [OF Some] show ?thesis
      using takeWhile_take_before [OF Some, of "i + 1"] by (auto simp: path_def df min_def)
  qed
  then have len: "i < length dir0" and pre: "take i dir0 = take i path" and q: "CHR ''?'' \<notin> set path"
    and tw: "takeWhile (\<lambda>c. c \<noteq> CHR ''?'') file = drop (i + 1) path" by blast+
  have "CHR ''?'' \<notin> set (take i path)"
    using q in_set_takeD by fastforce
  moreover have "is_prefix ''/'' dir"
    using assms(2) df(1) by (cases i) simp_all
  ultimately show "path_ok dir file"
    using si tw pre df by (auto simp: path_ok_def)
  show "set dir \<subseteq> set dir0"
    using df assms(2) set_take_subset [of i dir0] by auto
  show "set file \<subseteq> set dir0"
    using df set_drop_subset [of "i + 1" dir0] by simp
qed

lemma split_host_facts:
  assumes "split_host p url = (h, d)"
  shows "CHR ''/'' \<notin> set h" and "p = PROTO_HTTP \<Longrightarrow> CHR '' '' \<notin> set d"
  using assms encode_no_space
  by (auto simp: split_host_def Let_def strchr_None dest: strchr_Some split: option.splits)

lemma split_user_facts:
  assumes "split_user p h = (u, pw, h')" "CHR ''/'' \<notin> set h"
  shows "CHR ''@'' \<notin> set h'" "CHR ''/'' \<notin> set h'" "CHR ''/'' \<notin> set u" "CHR ''/'' \<notin> set pw"
proof -
  have sub: "set (take k h) \<subseteq> set h" "set (drop k h) \<subseteq> set h" for k
    by (rule set_take_subset set_drop_subset)+
  show "CHR ''@'' \<notin> set h'" "CHR ''/'' \<notin> set h'" "CHR ''/'' \<notin> set u" "CHR ''/'' \<notin> set pw"
    using assms sub
    by (auto simp: split_user_def strrchr_None dest: strrchr_Some split: option.splits if_splits)
qed

lemma split_pass_facts:
  assumes "split_pass u0 p0 = (u, p)" "CHR ''/'' \<notin> set u0" "CHR ''/'' \<notin> set p0"
  shows "CHR '':'' \<notin> set u" "CHR ''/'' \<notin> set u" "CHR ''/'' \<notin> set p"
proof -
  have sub: "set (take k u0) \<subseteq> set u0" "set (drop k u0) \<subseteq> set u0" for k
    by (rule set_take_subset set_drop_subset)+
  show "CHR '':'' \<notin> set u" "CHR ''/'' \<notin> set u" "CHR ''/'' \<notin> set p"
    using assms sub by (auto simp: split_pass_def strchr_None dest: strchr_Some split: option.splits)
qed

definition services_ok :: "services \<Rightarrow> bool" where
  "services_ok serv = (\<forall>s p. serv s = Some p \<longrightarrow> 0 \<le> p \<and> p < 65536)"

lemma split_port_facts:
  assumes "split_port serv p h old = Inr (h', port)" "services_ok serv" "in_int old"
  shows "CHR '':'' \<notin> set h'" "set h' \<subseteq> set h" "in_int port"
proof -
  have sub: "set (take k h) \<subseteq> set h" for k by (rule set_take_subset)
  show "CHR '':'' \<notin> set h'" "set h' \<subseteq> set h"
    using assms sub by (auto simp: split_port_def strchr_None res_elims dest: strchr_Some split: option.splits)
  show "in_int port"
  proof (cases "strchr h CHR '':''")
    case (Some k)
    with assms(1,3) show ?thesis
      by (auto simp: split_port_def res_elims sscanf_int_def split: scan.splits option.splits if_splits)
  next
    case None
    with assms(1,2) show ?thesis
      unfolding split_port_def services_ok_def in_int_def
      by (auto split: option.splits if_splits) fastforce+
  qed
qed

lemma conn_set_canonical:
  assumes "conn_set serv set_url c = Inr (True, d)" "services_ok serv" "in_int (c_port c)"
  shows "addr_canonical d \<longleftrightarrow> cred_ok (c_proto d) (c_user d) (c_pass d)"
proof -
  obtain p rest where sp: "split_proto set_url = Some (p, rest)"
    using assms(1) by (cases "split_proto set_url") (auto simp: conn_set_def)
  obtain h0 d0 where hd: "split_host p rest = (h0, d0)" by fastforce
  obtain u0 p0 h1 where us: "split_user p h0 = (u0, p0, h1)" by (metis prod_cases3)
  obtain us' pw where ps: "split_pass u0 p0 = (us', pw)" by fastforce
  obtain dr fl h port where parts: "split_file d0 = Inr (dr, fl)"
      "split_port serv p h1 (c_port c) = Inr (h, port)" "0 < port"
      "d = c\<lparr>c_proto := p, c_port := port, c_host := h, c_dir := dr, c_file := fl,
             c_user := us', c_pass := pw\<rparr>"
    using assms(1) sp hd us ps by (auto simp: conn_set_def Let_def res_elims split: prod.splits)
  obtain u where u: "d0 = CHR ''/'' # u" using split_host_dir [of p rest] hd by auto
  have pr: "p = PROTO_FTP \<or> p = PROTO_HTTP"
    using sp by (auto simp: split_proto_def split: option.splits if_splits)
  note hf = split_host_facts [OF hd]
  note uf = split_user_facts [OF us hf(1)]
  note pf = split_pass_facts [OF ps uf(3,4)]
  note tf = split_port_facts [OF parts(2) assms(2,3)]
  note ff = split_file_path_ok [OF parts(1) u]
  show ?thesis
    using pr hf(2) uf(1,2) pf tf ff parts(3) by (auto simp: addr_canonical_def parts(4))
qed

subsection \<open>Contract\<close>

definition example_addr :: conn_addr where
  "example_addr = \<lparr>c_proto = PROTO_FTP, c_port = 2121, c_host = ''h.org'', c_dir = ''/pub/'',
     c_file = ''a.iso'', c_user = ''me'', c_pass = ''pw''\<rparr>"

text \<open>C19: \<open>conn_set\<close> reads back the address \<open>conn_url\<close> prints.  Every canonical address
  whose text fits the buffer is recovered in all seven fields, whatever the connection held
  before.\<close>

theorem conn_set_url_roundtrip:
  assumes "addr_canonical c" "length (url_text c) < MAX_STRING"
  shows "\<exists>u d. conn_url c = Inr u \<and> conn_set serv u c0 = Inr (True, d) \<and> same_addr d c"
  using conn_set_url_text [OF assms, of serv c0] assms(2) by (simp add: conn_url_def strcpy_buf_def)

theorem conn_set_url_roundtrip_witness:
  "\<exists>u d. conn_url example_addr = Inr u \<and> conn_set (\<lambda>_. None) u example_addr = Inr (True, d) \<and>
     same_addr d example_addr"
  by (rule conn_set_url_roundtrip)
    (simp_all add: example_addr_def addr_canonical_def url_text_def path_ok_def cred_ok_def int_str_def 
      in_int_def nat_str.simps)

text \<open>On a URL of fewer than 1024 characters \<open>conn_set\<close> never leaves a buffer and never
  follows a null pointer: it returns its verdict, or the port number does not fit an \<open>int\<close>.\<close>

lemma conn_set_safe:
  assumes "length set_url < MAX_STRING"
  shows "(\<exists>ok d. conn_set serv set_url c = Inr (ok, d)) \<or> conn_set serv set_url c = Inl Int_overflow"
  using conn_set_error [OF assms, of serv c] by (cases "conn_set serv set_url c") auto

lemma conn_set_safe_witness:
  "(\<exists>ok d. conn_set (\<lambda>_. None) ''http://@:x/?%'' example_addr = Inr (ok, d)) \<or>
    conn_set (\<lambda>_. None) ''http://@:x/?%'' example_addr = Inl Int_overflow"
  by (rule conn_set_safe) simp

end
