(* ===== verification/OsWorld.thy ===== *)
theory OsWorld
  imports ConnUrl Complex_Main
begin

text \<open>
  The operating system as the client sees it, and \<^verbatim>\<open>final/client/ServerSide/tcp.c\<close>.

  The world holds what the environment will do: the answers of the name service, which peers
  accept a connection and what they will send, the clock, the random numbers.  Every theorem is
  about all worlds, so about every behaviour of the environment.  A descriptor's incoming data is
  a list of items: a \<open>Data\<close> item arrives as one piece (a read of \<open>n\<close> bytes takes at
  most \<open>n\<close> of it), \<open>Fail\<close> is a read error, and after the last item the peer has
  closed the connection.
\<close>

datatype rx_item = Data string | Fail

record world =
  w_rx :: "int \<Rightarrow> rx_item list"           \<comment> \<open>what each descriptor will still receive\<close>
  w_tx :: "int \<Rightarrow> string"                 \<comment> \<open>what was written to each descriptor\<close>
  w_broken :: "int \<Rightarrow> bool"               \<comment> \<open>descriptors whose \<open>write\<close> fails\<close>
  w_open :: "int list"                    \<comment> \<open>the open descriptors\<close>
  w_next_fd :: int                        \<comment> \<open>the next descriptor the system hands out\<close>
  w_socket_ok :: bool                     \<comment> \<open>whether \<open>socket()\<close> succeeds\<close>
  w_bind_ok :: "string \<Rightarrow> bool"           \<comment> \<open>local addresses \<open>bind()\<close> accepts\<close>
  w_queries :: nat                        \<comment> \<open>name service queries so far\<close>
  w_hosts :: "nat \<Rightarrow> string \<Rightarrow> (string \<times> nat) option"
                                          \<comment> \<open>answer to a query: official name and address\<close>
  w_peers :: "nat \<Rightarrow> int \<Rightarrow> rx_item list option"
                                          \<comment> \<open>address and port: refused, or what the peer sends\<close>
  w_services :: services                  \<comment> \<open>\<open>/etc/services\<close>\<close>
  w_stack :: conn_addr                    \<comment> \<open>the contents of an uninitialised \<open>conn_t\<close>\<close>
  w_waits :: nat                          \<comment> \<open>reply buffers used so far\<close>
  w_heap :: "nat \<Rightarrow> nat \<Rightarrow> char"         \<comment> \<open>old contents of the cells of a reply buffer\<close>
  w_ticks :: nat                          \<comment> \<open>clock readings so far\<close>
  w_clock :: "nat \<Rightarrow> rat"                 \<comment> \<open>the clock, per reading\<close>
  w_files :: "string \<Rightarrow> string option"     \<comment> \<open>the contents of the files\<close>
  w_path :: "int \<Rightarrow> string"               \<comment> \<open>the file behind a descriptor\<close>
  w_pos :: "int \<Rightarrow> int"                   \<comment> \<open>its position\<close>
  w_deny :: "string \<Rightarrow> bool"              \<comment> \<open>files that cannot be opened\<close>
  w_seek_ok :: bool                       \<comment> \<open>whether a position past the end is accepted\<close>
  w_writes :: nat                         \<comment> \<open>writes to files so far\<close>
  w_disk_ok :: "nat \<Rightarrow> bool"              \<comment> \<open>which of them succeed\<close>
  w_rands :: nat                          \<comment> \<open>random numbers drawn so far\<close>
  w_rand :: "nat \<Rightarrow> int"                  \<comment> \<open>the random numbers\<close>
  w_selects :: nat                        \<comment> \<open>calls of \<open>select()\<close> so far\<close>
  w_select :: "nat \<Rightarrow> int list option"     \<comment> \<open>an error, or the readable descriptors\<close>
  w_created :: nat                        \<comment> \<open>threads asked for so far\<close>
  w_thread_ok :: "nat \<Rightarrow> bool"            \<comment> \<open>which of them were created\<close>

subsection \<open>System calls\<close>

definition sys_close :: "int \<Rightarrow> world \<Rightarrow> world" where
  "sys_close fd w = w\<lparr>w_open := removeAll fd (w_open w)\<rparr>"

text \<open>\<open>read(fd, buf, n)\<close>: the return value, the bytes and the world.  A closed descriptor is an error.\<close>

definition sys_read :: "int \<Rightarrow> nat \<Rightarrow> world \<Rightarrow> int \<times> string \<times> world" where
  "sys_read fd n w =
     (if fd \<notin> set (w_open w) then (-1, [], w)
      else case w_rx w fd of
        [] \<Rightarrow> (0, [], w)
      | Fail # rest \<Rightarrow> (-1, [], w\<lparr>w_rx := (w_rx w)(fd := rest)\<rparr>)
      | Data s # rest \<Rightarrow>
          (let got = take n s; left = drop n s
           in (int (length got), got,
               w\<lparr>w_rx := (w_rx w)(fd := (if left = [] then rest else Data left # rest))\<rparr>)))"

text \<open>\<open>write(fd, buf, strlen(buf))\<close>: whether everything was written.\<close>

definition sys_write :: "int \<Rightarrow> string \<Rightarrow> world \<Rightarrow> bool \<times> world" where
  "sys_write fd s w =
     (if fd \<notin> set (w_open w) \<or> w_broken w fd then (False, w) else (True, w\<lparr>w_tx := (w_tx w)(fd := w_tx w fd @ s)\<rparr>))"

definition gettime :: "world \<Rightarrow> rat \<times> world" where
  "gettime w = (w_clock w (w_ticks w), w\<lparr>w_ticks := Suc (w_ticks w)\<rparr>)"

subsection \<open>tcp.c\<close>

text \<open>
  The first five answers of \<open>gethostbyname\<close> until one has a name; a query without answer
  ends the search.
\<close>

fun gethost_loop :: "nat \<Rightarrow> string \<Rightarrow> world \<Rightarrow> nat option \<times> world" where
  "gethost_loop 0 hostname w = (None, w)"
| "gethost_loop (Suc k) hostname w =
     (let ans = w_hosts w (w_queries w) hostname; w' = w\<lparr>w_queries := Suc (w_queries w)\<rparr>
      in case ans of
           None \<Rightarrow> (None, w')
         | Some (h_name, addr) \<Rightarrow>
             if h_name \<noteq> [] then (Some addr, w') else gethost_loop k hostname w')"

definition sys_socket :: "world \<Rightarrow> int \<times> world" where
  "sys_socket w =
     (if w_socket_ok w
      then (w_next_fd w, w\<lparr>w_next_fd := w_next_fd w + 1, w_open := w_next_fd w # w_open w\<rparr>)
      else (-1, w))"

text \<open>
  \<open>htons(port)\<close> keeps the low 16 bits.  An empty \<open>local_if\<close> stands for the null
  pointer too: the code treats both alike.
\<close>

definition tcp_connect :: "string \<Rightarrow> int \<Rightarrow> string \<Rightarrow> world \<Rightarrow> int \<times> world" where
  "tcp_connect hostname port local_if w0 =
     (case gethost_loop 5 hostname w0 of
        (None, w) \<Rightarrow> (-1, w)
      | (Some addr, w) \<Rightarrow>
          (case sys_socket w of (fd, w1) \<Rightarrow>
             if fd = -1 then (-1, w1)
             else if local_if \<noteq> [] \<and> \<not> w_bind_ok w1 local_if then (-1, sys_close fd w1)
             else (case w_peers w1 addr (port mod 65536) of
                     None \<Rightarrow> (-1, sys_close fd w1)
                   | Some items \<Rightarrow> (fd, w1\<lparr>w_rx := (w_rx w1)(fd := items), w_tx := (w_tx w1)(fd := [])\<rparr>))))"

subsection \<open>Facts\<close>

text \<open>What is left to receive on a descriptor: the measure of every read loop.\<close>

fun item_size :: "rx_item \<Rightarrow> nat" where
  "item_size (Data s) = Suc (length s)"
| "item_size Fail = 1"

definition rx_size :: "world \<Rightarrow> int \<Rightarrow> nat" where
  "rx_size w fd = sum_list (map item_size (w_rx w fd))"

lemma sys_read_decreases:
  "sys_read fd n w = (r, s, w') \<Longrightarrow> 0 < r \<Longrightarrow> rx_size w' fd < rx_size w fd"
  by (auto simp: sys_read_def rx_size_def Let_def split: list.splits rx_item.splits if_splits)

lemma sys_read_length: "sys_read fd n w = (r, s, w') \<Longrightarrow> 0 < r \<Longrightarrow> r = int (length s) \<and> length s \<le> n"
  by (auto simp: sys_read_def Let_def split: list.splits rx_item.splits if_splits)

lemma sys_read_frame:
  "sys_read fd n w = (r, s, w') \<Longrightarrow> \<exists>f. w' = w\<lparr>w_rx := f\<rparr>"
  by (auto simp: sys_read_def Let_def split: list.splits rx_item.splits if_splits)
    (metis world.surjective world.update_convs(1))+

text \<open>The descriptors a world has handed out are below \<open>w_next_fd\<close> and positive.\<close>

definition fds_ok :: "world \<Rightarrow> bool" where
  "fds_ok w = (0 < w_next_fd w \<and> distinct (w_open w) \<and> (\<forall>fd \<in> set (w_open w). 0 < fd \<and> fd < w_next_fd w))"

lemma gethost_loop_frame:
  "gethost_loop k h w = (r, w') \<Longrightarrow> \<exists>q. w' = w\<lparr>w_queries := q\<rparr>"
proof (induction k arbitrary: w)
  case 0
  then show ?case by (auto intro: exI [of _ "w_queries w"])
next
  case (Suc k)
  then show ?case by (fastforce simp: Let_def split: option.splits if_splits)
qed

lemma tcp_connect_fds:
  assumes "fds_ok w" "tcp_connect h p l w = (fd, w')"
  shows "fds_ok w'" and "fd = -1 \<and> w_open w' = w_open w \<or>
    0 < fd \<and> fd \<notin> set (w_open w) \<and> w_open w' = fd # w_open w"
proof -
  obtain r w1 where g: "gethost_loop 5 h w = (r, w1)" by fastforce
  then obtain q where w1: "w1 = w\<lparr>w_queries := q\<rparr>" using gethost_loop_frame by blast
  have "w_next_fd w \<notin> set (w_open w)" using assms(1) by (auto simp: fds_ok_def)
  moreover have "\<forall>fd \<in> set (w_open w). fd \<le> w_next_fd w"
    using assms(1) by (auto simp: fds_ok_def)
  ultimately show "fds_ok w'" "fd = -1 \<and> w_open w' = w_open w \<or>
      0 < fd \<and> fd \<notin> set (w_open w) \<and> w_open w' = fd # w_open w"
    using assms g by (auto simp: tcp_connect_def w1 sys_socket_def fds_ok_def sys_close_def
        split: option.splits if_splits)
qed

lemma sys_close_fds: "fds_ok w \<Longrightarrow> fds_ok (sys_close fd w)"
  by (auto simp: fds_ok_def sys_close_def distinct_removeAll)

subsection \<open>A world for examples\<close>

text \<open>
  Nothing has happened yet, every service works, and the clock stands still; the examples override
  the fields they are about.
\<close>

definition example_world :: world where
  "example_world = \<lparr>w_rx = (\<lambda>_. []), w_tx = (\<lambda>_. []), w_broken = (\<lambda>_. False), w_open = [3], w_next_fd = 4,
     w_socket_ok = True, w_bind_ok = (\<lambda>_. True), w_queries = 0,
     w_hosts = (\<lambda>_ _. Some (''h'', 1)), w_peers = (\<lambda>_ _. Some []), w_services = (\<lambda>_. None),
     w_stack = \<lparr>c_proto = 0, c_port = 0, c_host = '''', c_dir = '''', c_file = '''', c_user = '''', c_pass = ''''\<rparr>,
     w_waits = 0, w_heap = (\<lambda>_ _. NUL), w_ticks = 0, w_clock = (\<lambda>_. 0), w_files = (\<lambda>_. None),
     w_path = (\<lambda>_. []), w_pos = (\<lambda>_. 0), w_deny = (\<lambda>_. False), w_seek_ok = True, w_writes = 0,
     w_disk_ok = (\<lambda>_. True), w_rands = 0, w_rand = (\<lambda>_. 0), w_selects = 0, w_select = (\<lambda>_. Some []),
     w_created = 0, w_thread_ok = (\<lambda>_. True)\<rparr>"

end
