(* ===== verification/Http.thy ===== *)
theory Http
  imports OsWorld
begin

unbundle bit_operations_syntax

text \<open>
  \<^verbatim>\<open>final/client/ServerSide/http.c\<close>: the HTTP side of a connection.  The request is
  built header by header in an array, sent, and the reply's header block is read byte by byte so
  that the body stays in the socket for the caller.
\<close>

abbreviation MAX_QUERY :: nat where "MAX_QUERY \<equiv> 2048"
abbreviation NL :: char where "NL \<equiv> CHR 0x0A"
abbreviation CR :: char where "CR \<equiv> CHR 0x0D"

text \<open>
  \<open>http_t\<close>.  \<open>h_auth\<close> is the whole array, because \<open>http_connect\<close> writes it by
  index and never terminates it; the other strings are their contents.
\<close>

record http =
  h_host :: string
  h_auth :: string
  h_request :: string
  h_headers :: string
  h_proto :: int
  h_proxy :: int
  h_firstbyte :: int
  h_lastbyte :: int
  h_status :: int
  h_fd :: int
  h_local_if :: string

text \<open>The structure after \<open>memset(conn, 0, sizeof(conn_t))\<close>.\<close>

definition http_zero :: http where
  "http_zero = \<lparr>h_host = '''', h_auth = replicate MAX_STRING NUL, h_request = '''', h_headers = '''',
     h_proto = 0, h_proxy = 0, h_firstbyte = 0, h_lastbyte = 0, h_status = 0, h_fd = 0,
     h_local_if = ''''\<rparr>"

subsection \<open>Basic authentication\<close>

definition base64_encode :: string where
  "base64_encode = ''ABCDEFGHIJKLMNOPQRSTUVWXYZabcdefghijklmnopqrstuvwxyz0123456789+/''"

definition b64_char :: "int \<Rightarrow> char res" where
  "b64_char i = (if 0 \<le> i \<and> i < 64 then Inr (base64_encode ! nat i) else Inl Out_of_bounds)"

text \<open>
  The four characters of one group; \<open>char\<close> is signed, so a byte above 127 makes a negative
  index.
\<close>

definition auth_quad :: "char \<Rightarrow> char \<Rightarrow> char \<Rightarrow> string res" where
  "auth_quad a b c =
     rbind (b64_char (drop_bit 2 (schar a))) (\<lambda>q0.
     rbind (b64_char (push_bit 4 (schar a AND 3) OR drop_bit 4 (schar b))) (\<lambda>q1.
     rbind (b64_char (push_bit 2 (schar b AND 15) OR drop_bit 6 (schar c))) (\<lambda>q2.
     rbind (b64_char (schar c AND 63)) (\<lambda>q3.
     Inr [q0, q1, if b = NUL then CHR ''='' else q2, if c = NUL then CHR ''='' else q3]))))"

definition put_cells :: "nat \<Rightarrow> string \<Rightarrow> string \<Rightarrow> string res" where
  "put_cells i q buf =
     (if i + length q \<le> length buf then Inr (take i buf @ q @ drop (i + length q) buf)
      else Inl Buffer_overflow)"

text \<open>\<open>for (i = 0; auth[i * 3]; i++)\<close>, on the array \<open>auth\<close> from \<open>i * 3\<close> on.\<close>

fun auth_loop :: "string \<Rightarrow> nat \<Rightarrow> string \<Rightarrow> string res" where
  "auth_loop (a # b # c # rest) i buf =
     (if a = NUL then Inr buf
      else rbind (auth_quad a b c) (\<lambda>q.
           rbind (put_cells (i * 4) q buf) (\<lambda>buf'. auth_loop rest (i + 1) buf')))"
| "auth_loop (a # rest) i buf = (if a = NUL then Inr buf else Inl Out_of_bounds)"
| "auth_loop [] i buf = Inl Out_of_bounds"

definition set_auth :: "string \<Rightarrow> string \<Rightarrow> string \<Rightarrow> string res" where
  "set_auth user pass buf =
     (if user = '''' then Inr (buf[0 := NUL])
      else auth_loop (pad_nul MAX_STRING (snprintf_buf MAX_STRING (user @ '':'' @ pass))) 0 buf)"

subsection \<open>Connecting\<close>

text \<open>
  The choice of the peer: the host itself or the proxy.  \<open>Inl c'\<close> in the value is the
  early return for a proxy string that cannot be parsed.  \<open>tconn\<close> is on the stack and not
  initialised, its old contents are \<open>w_stack\<close>.
\<close>

definition http_peer :: "string option \<Rightarrow> string \<Rightarrow> int \<Rightarrow> world \<Rightarrow> http \<Rightarrow> (http + string \<times> int \<times> http) res" where
  "http_peer proxy host port w c =
     (case proxy of
        None \<Rightarrow> Inr (Inr (host, port, c))
      | Some p \<Rightarrow>
          if p = '''' then Inr (Inr (host, port, c\<lparr>h_proxy := 0\<rparr>))
          else rbind (strcpy_buf MAX_STRING (host @ '':'' @ int_str port)) (\<lambda>hp.
               rbind (conn_set (w_services w) p (w_stack w)) (\<lambda>(ok, tconn).
               if \<not> ok
               then rbind (strcpy_buf MAX_QUERY (''Invalid proxy string: '' @ p @ [NL])) (\<lambda>m.
                    Inr (Inl (c\<lparr>h_host := hp, h_headers := m\<rparr>)))
               else Inr (Inr (c_host tconn, c_port tconn, c\<lparr>h_host := hp, h_proxy := 1\<rparr>)))))"

definition http_connect :: "int \<Rightarrow> string option \<Rightarrow> string \<Rightarrow> int \<Rightarrow> string \<Rightarrow> string \<Rightarrow> world \<Rightarrow> http
    \<Rightarrow> (bool \<times> world \<times> http) res" where
  "http_connect proto proxy host port user pass w c =
     rbind (strncpy_buf MAX_STRING host) (\<lambda>hh.
     rbind (http_peer proxy host port w (c\<lparr>h_host := hh, h_proto := proto\<rparr>)) (\<lambda>peer.
     case peer of
       Inl c1 \<Rightarrow> Inr (False, w, c1)
     | Inr (phost, pport, c1) \<Rightarrow>
         (case tcp_connect phost pport (h_local_if c1) w of (fd, w') \<Rightarrow>
            let c2 = c1\<lparr>h_fd := fd\<rparr> in
            if fd = -1
            then rbind (strcpy_buf MAX_QUERY
                   (''Unable to connect to server '' @ phost @ '':'' @ int_str pport @ [NL])) (\<lambda>m.
                 Inr (False, w', c2\<lparr>h_headers := m\<rparr>))
            else rbind (set_auth user pass (h_auth c2)) (\<lambda>a.
                 Inr (True, w', c2\<lparr>h_auth := a\<rparr>)))))"

definition http_disconnect :: "world \<Rightarrow> http \<Rightarrow> world \<times> http" where
  "http_disconnect w c = (if h_fd c > 0 then sys_close (h_fd c) w else w, c\<lparr>h_fd := -1\<rparr>)"

subsection \<open>The request\<close>

text \<open>\<open>line\<close> is what the format and its arguments expand to.\<close>

definition http_addheader :: "string \<Rightarrow> http \<Rightarrow> http" where
  "http_addheader line c =
     c\<lparr>h_request := h_request c @
        take (MAX_QUERY - length (h_request c) - 1) (snprintf_buf (MAX_STRING - 3) line @ [CR, NL])\<rparr>"

definition http_get :: "string \<Rightarrow> http \<Rightarrow> http" where
  "http_get lurl c0 =
     (let c1 = c0\<lparr>h_request := ''''\<rparr>;
          c2 = (if h_proxy c1 \<noteq> 0
                then http_addheader (''GET '' @ (if h_proto c1 = PROTO_HTTP then ''http'' else ''ftp'') @
                       ''://'' @ h_host c1 @ lurl @ '' HTTP/1.0'') c1
                else http_addheader (''Host: '' @ h_host c1)
                       (http_addheader (''GET '' @ lurl @ '' HTTP/1.0'') c1));
          c3 = (if cstring (h_auth c2) \<noteq> ''''
                then http_addheader (''Authorization: Basic '' @ cstring (h_auth c2)) c2 else c2)
      in if h_firstbyte c3 \<noteq> 0
         then if h_lastbyte c3 \<noteq> 0
              then http_addheader (''Range: bytes='' @ int_str (h_firstbyte c3) @ ''-'' @ int_str (h_lastbyte c3)) c3
              else http_addheader (''Range: bytes='' @ int_str (h_firstbyte c3) @ ''-'') c3
         else c3)"

subsection \<open>The reply\<close>

text \<open>
  The read loop.  \<open>strncat(conn->headers, s, MAX_QUERY)\<close> limits the one character it appends,
  not the array: a reply header of \<open>MAX_QUERY\<close> bytes runs over its end.  A zero byte is an
  empty string and appends nothing.  The result is \<open>None\<close> when the connection ended.
\<close>

function http_exec_loop :: "int \<Rightarrow> nat \<Rightarrow> string \<Rightarrow> world \<Rightarrow> (string option \<times> world) res" where
  "http_exec_loop fd i hdr w =
     (case sys_read fd 1 w of (r, s, w') \<Rightarrow>
        if r \<le> 0 then Inr (None, w')
        else let c = hd s in
          if c = CR then http_exec_loop fd i hdr w'
          else if c = NL \<and> i = 0 then Inr (Some hdr, w')
          else if length hdr + length (cstring [c]) \<ge> MAX_QUERY then Inl Buffer_overflow
          else http_exec_loop fd (if c = NL then 0 else i + 1) (hdr @ cstring [c]) w')"
  by pat_completeness auto
termination
  by (relation "measure (\<lambda>(fd, i, hdr, w). rx_size w fd)") (auto intro: sys_read_decreases [OF sym])

declare http_exec_loop.simps [simp del]

definition http_exec :: "world \<Rightarrow> http \<Rightarrow> (bool \<times> world \<times> http) res" where
  "http_exec w c0 =
     (let c = http_addheader '''' c0;
          w1 = snd (sys_write (h_fd c) (h_request c) w)
      in rbind (http_exec_loop (h_fd c) 0 '''' w1) (\<lambda>(r, w2).
         case r of
           None \<Rightarrow> Inr (False, w2, c\<lparr>h_headers := ''Connection gone.'' @ [NL]\<rparr>)
         | Some hdr \<Rightarrow>
             rbind (case scan_word (length hdr) hdr of
                      None \<Rightarrow> Inr None
                    | Some (s, rest) \<Rightarrow> sscanf_int 0 (Some 3) rest) (\<lambda>st.
             case strchr hdr NL of
               None \<Rightarrow> Inl Null_deref
             | Some k \<Rightarrow>
                 Inr (True, w2, c\<lparr>h_headers := hdr, h_request := take k hdr,
                                  h_status := (case st of None \<Rightarrow> h_status c | Some v \<Rightarrow> v)\<rparr>))))"

text \<open>
  The search for a header: at every line but the first, its first word is compared.  \<open>s\<close>
  keeps its contents when a line has no word; before the first word it is uninitialised.  The
  value is the text behind the name.
\<close>

fun http_header_loop :: "string \<Rightarrow> char \<Rightarrow> string \<Rightarrow> string option \<Rightarrow> string option res" where
  "http_header_loop name prev [] s = Inr None"
| "http_header_loop name prev (c # rest) s =
     (if prev \<noteq> NL then http_header_loop name c rest s
      else let s' = (case scan_word 31 (c # rest) of None \<Rightarrow> s | Some (t, r) \<Rightarrow> Some t)
           in case s' of
                None \<Rightarrow> Inl Uninitialised
              | Some t \<Rightarrow>
                  if strcasecmp_eq t name then Inr (Some (drop (length name) (c # rest)))
                  else http_header_loop name c rest s')"

definition http_header :: "string \<Rightarrow> http \<Rightarrow> string option res" where
  "http_header name c =
     (case h_headers c of
        [] \<Rightarrow> Inl Over_read
      | x # rest \<Rightarrow> http_header_loop name x rest None)"

definition http_size :: "http \<Rightarrow> int res" where
  "http_size c =
     rbind (http_header ''Content-Length:'' c) (\<lambda>i.
     case i of
       None \<Rightarrow> Inr (-2)
     | Some t \<Rightarrow> rbind (sscanf_lld t) (\<lambda>j. case j of None \<Rightarrow> Inl Uninitialised | Some v \<Rightarrow> Inr v))"

subsection \<open>Base64\<close>

text \<open>The encoding of RFC 4648, on the bytes of the credentials.\<close>

definition b64_digit :: "nat \<Rightarrow> char" where
  "b64_digit n = base64_encode ! n"

fun b64_spec :: "string \<Rightarrow> string" where
  "b64_spec [] = []"
| "b64_spec [a] =
     (let x = of_char a in [b64_digit (x div 4), b64_digit (x mod 4 * 16), CHR ''='', CHR ''=''])"
| "b64_spec [a, b] =
     (let x = of_char a; y = of_char b
      in [b64_digit (x div 4), b64_digit (x mod 4 * 16 + y div 16), b64_digit (y mod 16 * 4), CHR ''=''])"
| "b64_spec (a # b # c # r) =
     (let x = of_char a; y = of_char b; z = of_char c
      in [b64_digit (x div 4), b64_digit (x mod 4 * 16 + y div 16),
          b64_digit (y mod 16 * 4 + z div 64), b64_digit (z mod 64)] @ b64_spec r)"

definition ascii7 :: "string \<Rightarrow> bool" where
  "ascii7 s = (\<forall>c \<in> set s. c \<noteq> NUL \<and> (of_char c :: nat) < 128)"

lemma schar_ascii: "(of_char c :: nat) < 128 \<Longrightarrow> schar c = int (of_char c)"
  by (simp add: schar_def)

lemma push_or_int:
  assumes "0 \<le> y" "y < 2 ^ n"
  shows "push_bit n x OR y = x * 2 ^ n + (y :: int)"
proof -
  have "take_bit n y = y" using assms by (simp add: take_bit_int_eq_self)
  then have "push_bit n x AND y = 0"
    by (intro bit_eqI) (metis bit_and_iff bit_push_bit_iff bit_take_bit_iff bit_0_eq bot_apply bot_bool_def linorder_not_le)
  then show ?thesis
    by (simp add: disjunctive_add_eq_or [symmetric] push_bit_eq_mult)
qed

lemma and_mask_nat: "int x AND 3 = int (x mod 4)" "int x AND 15 = int (x mod 16)" "int x AND 63 = int (x mod 64)"
  using take_bit_eq_mask [of 2 "int x"] take_bit_eq_mask [of 4 "int x"] take_bit_eq_mask [of 6 "int x"]
  by (simp_all add: mask_eq_exp_minus_1 take_bit_eq_mod zmod_int)

lemma drop_bit_nat: "drop_bit k (int x) = int (x div 2 ^ k)"
  by (simp add: drop_bit_eq_div zdiv_int)

lemma b64_char_digit: "n < 64 \<Longrightarrow> b64_char (int n) = Inr (b64_digit n)"
  by (simp add: b64_char_def b64_digit_def)

lemma b64_index:
  assumes "x < 128" "y < (128 :: nat)"
  shows "x div 4 < 64" "x mod 4 * 16 + y div 16 < 64" "x mod 16 * 4 + y div 64 < 64" "x mod 64 < 64"
proof -
  have "x mod 4 \<le> 3" "y div 16 \<le> 7" "x mod 16 \<le> 15" "y div 64 \<le> 1"
    using assms by (simp_all add: less_Suc_eq_le [symmetric] less_mult_imp_div_less)
  then show "x mod 4 * 16 + y div 16 < 64" "x mod 16 * 4 + y div 64 < 64" by linarith+
  show "x div 4 < 64" "x mod 64 < 64" using assms by (simp_all add: less_mult_imp_div_less)
qed

lemma auth_quad_ascii:
  assumes "(of_char a :: nat) < 128" "(of_char b :: nat) < 128" "(of_char c :: nat) < 128"
  shows "auth_quad a b c = (let x = of_char a; y = of_char b; z = of_char c in
    Inr [b64_digit (x div 4), b64_digit (x mod 4 * 16 + y div 16),
         if b = NUL then CHR ''='' else b64_digit (y mod 16 * 4 + z div 64),
         if c = NUL then CHR ''='' else b64_digit (z mod 64)])"
proof -
  define x y z where xyz: "x = (of_char a :: nat)" "y = (of_char b :: nat)" "z = (of_char c :: nat)"
  have b: "x < 128" "y < 128" "z < 128" using assms xyz by simp_all
  then have i: "x div 4 < 64" "x mod 4 * 16 + y div 16 < 64" "y mod 16 * 4 + z div 64 < 64" "z mod 64 < 64"
    using b64_index b by blast+
  have q1: "push_bit 4 (int x AND 3) OR drop_bit 4 (int y) = int (x mod 4 * 16 + y div 16)"
    using b push_or_int [of "int (y div 16)" 4 "int (x mod 4)"] by (simp add: and_mask_nat drop_bit_nat)
  have q2: "push_bit 2 (int y AND 15) OR drop_bit 6 (int z) = int (y mod 16 * 4 + z div 64)"
    using b push_or_int [of "int (z div 64)" 2 "int (y mod 16)"] by (simp add: and_mask_nat drop_bit_nat)
  have s: "schar a = int x" "schar b = int y" "schar c = int z"
    using assms by (simp_all add: schar_ascii xyz)
  have q03: "drop_bit 2 (int x) = int (x div 4)" "int z AND 63 = int (z mod 64)"
    by (simp_all add: and_mask_nat drop_bit_nat)
  show ?thesis
    unfolding auth_quad_def s q1 q2 q03 i [THEN b64_char_digit]
    by (simp add: xyz Let_def)
qed

lemma put_cells_zero:
  assumes "length done + length q \<le> length done + n"
  shows "put_cells (length done) q (done @ replicate n NUL) = Inr ((done @ q) @ replicate (n - length q) NUL)"
  using assms by (simp add: put_cells_def)

lemma b64_length: "length (b64_spec s) = 4 * ((length s + 2) div 3)"
proof (induction s rule: b64_spec.induct)
  case (4 a b c r)
  have "(length r + 5) div 3 = Suc ((length r + 2) div 3)" by presburger
  with 4 show ?case by (simp add: Let_def add.commute)
qed (simp_all add: Let_def)

lemma auth_loop_end [simp]: "auth_loop (NUL # z) i buf = Inr buf"
  by (cases "(NUL # z, i, buf)" rule: auth_loop.cases) auto

lemma auth_loop_b64:
  assumes "ascii7 s" "length out = i * 4" "length (b64_spec s) \<le> n"
  shows "auth_loop (s @ NUL # NUL # NUL # z) i (out @ replicate n NUL)
       = Inr (out @ b64_spec s @ replicate (n - length (b64_spec s)) NUL)"
  using assms
proof (induction s arbitrary: i out n rule: b64_spec.induct)
  case 1
  then show ?case by simp
next
  case (2 a)
  then show ?case
    using put_cells_zero [of out _ n]
    by (simp add: ascii7_def auth_quad_ascii Let_def ac_simps)
next
  case (3 a b)
  then show ?case
    using put_cells_zero [of out _ n]
    by (simp add: ascii7_def auth_quad_ascii Let_def ac_simps)
next
  case (4 a b c r)
  define q where "q = take 4 (b64_spec (a # b # c # r))"
  have q: "auth_quad a b c = Inr q" "b64_spec (a # b # c # r) = q @ b64_spec r" "length q = 4"
    using "4.prems"(1) by (auto simp: q_def ascii7_def auth_quad_ascii Let_def)
  have put: "put_cells (i * 4) q (out @ replicate n NUL) = Inr ((out @ q) @ replicate (n - 4) NUL)"
    using "4.prems" q put_cells_zero [of out q n] by simp
  have "auth_loop (r @ NUL # NUL # NUL # z) (i + 1) ((out @ q) @ replicate (n - 4) NUL)
      = Inr ((out @ q) @ b64_spec r @ replicate (n - 4 - length (b64_spec r)) NUL)"
    using "4.prems" q by (intro "4.IH") (auto simp: ascii7_def Let_def)
  then show ?case
    using "4.prems"(1) q put by (simp add: ascii7_def)
qed

lemma b64_no_nul: "ascii7 s \<Longrightarrow> NUL \<notin> set (b64_spec s)"
proof -
  have d: "b64_digit n \<noteq> NUL" if "n < 64" for n
  proof -
    have "b64_digit n \<in> set base64_encode"
      using that unfolding b64_digit_def by (intro nth_mem) (simp add: base64_encode_def)
    moreover have "NUL \<notin> set base64_encode" by (simp add: base64_encode_def)
    ultimately show ?thesis by metis
  qed
  show "ascii7 s \<Longrightarrow> NUL \<notin> set (b64_spec s)"
  proof (induction s rule: b64_spec.induct)
    case (2 a)
    then show ?case
      using d [of "of_char a div 4"] d [of "of_char a mod 4 * 16"] b64_index [of "of_char a" 0]
      by (simp add: ascii7_def Let_def)
  next
    case (3 a b)
    then show ?case
      using d [of "of_char a div 4"] d [of "of_char a mod 4 * 16 + of_char b div 16"]
        d [of "of_char b mod 16 * 4"] b64_index [of "of_char a" "of_char b"] b64_index [of "of_char b" 0]
      by (simp add: ascii7_def Let_def)
  next
    case (4 a b c r)
    then show ?case
      using d [of "of_char a div 4"] d [of "of_char a mod 4 * 16 + of_char b div 16"]
        d [of "of_char b mod 16 * 4 + of_char c div 64"] d [of "of_char c mod 64"]
        b64_index [of "of_char a" "of_char b"] b64_index [of "of_char b" "of_char c"]
      by (simp add: ascii7_def Let_def)
  qed simp
qed

lemma set_auth_b64:
  assumes "user \<noteq> ''''" "ascii7 (user @ '':'' @ pass)" "length (user @ '':'' @ pass) \<le> 765"
  shows "set_auth user pass (replicate MAX_STRING NUL)
       = Inr (pad_nul MAX_STRING (b64_spec (user @ '':'' @ pass)))"
proof -
  let ?s = "user @ '':'' @ pass"
  have "\<exists>k. MAX_STRING - length ?s = Suc (Suc (Suc k))"
    using assms(3) by presburger
  then obtain k where "MAX_STRING - length ?s = Suc (Suc (Suc k))" ..
  then have "pad_nul MAX_STRING ?s = ?s @ NUL # NUL # NUL # replicate k NUL"
    by (simp add: pad_nul_def)
  moreover have "length (b64_spec ?s) \<le> MAX_STRING"
    using assms(3) by (simp add: b64_length)
  ultimately show ?thesis
    using assms auth_loop_b64 [of ?s "[]" 0 MAX_STRING]
    by (simp add: set_auth_def snprintf_buf_id pad_nul_def)
qed

subsection \<open>Reading the reply header\<close>

text \<open>
  The bytes a descriptor will deliver, however they are cut into pieces, and what the loop does
  on them: \<open>header_block\<close> splits the stream after the first blank line, carriage returns
  dropped.
\<close>

fun rx_bytes :: "rx_item list \<Rightarrow> string" where
  "rx_bytes [] = []"
| "rx_bytes (Fail # r) = []"
| "rx_bytes (Data s # r) = (if s = [] then [] else s @ rx_bytes r)"

fun header_block :: "nat \<Rightarrow> string \<Rightarrow> (string \<times> string) option" where
  "header_block i [] = None"
| "header_block i (c # cs) =
     (if c = CR then header_block i cs
      else if c = NL \<and> i = 0 then Some ([], cs)
      else map_option (\<lambda>(h, b). (cstring [c] @ h, b)) (header_block (if c = NL then 0 else i + 1) cs))"

lemma sys_read_one:
  assumes "fd \<in> set (w_open w)" "rx_bytes (w_rx w fd) = c # cs"
  shows "\<exists>f. sys_read fd (Suc 0) w = (1, [c], w\<lparr>w_rx := (w_rx w)(fd := f)\<rparr>) \<and> rx_bytes f = cs"
proof (cases "w_rx w fd")
  case Nil
  with assms show ?thesis by simp
next
  case (Cons it r)
  with assms obtain s where "it = Data (c # s)" "cs = s @ rx_bytes r"
    by (cases it) (auto split: if_splits simp: append_eq_Cons_conv)
  with assms Cons show ?thesis
    by (auto simp: sys_read_def Let_def)
qed

lemma sys_read_none:
  assumes "rx_bytes (w_rx w fd) = []"
  shows "\<exists>r s w'. sys_read fd (Suc 0) w = (r, s, w') \<and> r \<le> 0"
proof (cases "w_rx w fd" rule: rx_bytes.cases)
  case 1
  then show ?thesis by (simp add: sys_read_def)
next
  case (2 r)
  then show ?thesis by (simp add: sys_read_def)
next
  case (3 s r)
  with assms show ?thesis by (simp add: sys_read_def Let_def split: if_splits)
qed

lemma http_exec_loop_block:
  assumes "fd \<in> set (w_open w)" "header_block i (rx_bytes (w_rx w fd)) = Some (h, body)"
    "length hdr + length h < MAX_QUERY"
  shows "\<exists>f. http_exec_loop fd i hdr w = Inr (Some (hdr @ h), w\<lparr>w_rx := (w_rx w)(fd := f)\<rparr>)
           \<and> rx_bytes f = body"
  using assms
proof (induction "rx_bytes (w_rx w fd)" arbitrary: i hdr w h)
  case Nil
  then show ?case by simp
next
  case (Cons c cs)
  then obtain f where f: "sys_read fd (Suc 0) w = (1, [c], w\<lparr>w_rx := (w_rx w)(fd := f)\<rparr>)" "rx_bytes f = cs"
    using sys_read_one [of fd w c cs] by auto
  let ?w = "w\<lparr>w_rx := (w_rx w)(fd := f)\<rparr>"
  have IH: "header_block j cs = Some (h', body) \<Longrightarrow> length hdr' + length h' < MAX_QUERY \<Longrightarrow>
      \<exists>g. http_exec_loop fd j hdr' ?w = Inr (Some (hdr' @ h'), w\<lparr>w_rx := (w_rx w)(fd := g)\<rparr>) \<and> rx_bytes g = body"
    for j hdr' h'
    using Cons.hyps(1) [of ?w j h' hdr'] f(2) Cons.prems(1) by simp
  note eq = http_exec_loop.simps [of fd i hdr w]
  consider "c = CR" | "c = NL" "i = 0" | "c \<noteq> CR" "\<not> (c = NL \<and> i = 0)" by blast
  then show ?case
  proof cases
    case 1
    with Cons.prems Cons.hyps(2) [symmetric] IH [of i h hdr] show ?thesis by (simp add: eq f)
  next
    case 2
    with Cons.prems Cons.hyps(2) [symmetric] f show ?thesis unfolding eq by (auto simp: f)
  next
    case 3
    then obtain h' where h': "header_block (if c = NL then 0 else i + 1) cs = Some (h', body)" "h = cstring [c] @ h'"
      using Cons.prems(2) Cons.hyps(2) [symmetric] by (auto split: if_splits)
    with 3 Cons.prems(3) IH [of "if c = NL then 0 else i + 1" h' "hdr @ cstring [c]"] show ?thesis
      by (auto simp: eq f Let_def)
  qed
qed

text \<open>The other direction: a longer header is written past the end of the array.\<close>

lemma http_exec_loop_overflow:
  assumes "fd \<in> set (w_open w)" "header_block i (rx_bytes (w_rx w fd)) = Some (h, body)"
    "length hdr < MAX_QUERY" "MAX_QUERY \<le> length hdr + length h"
  shows "http_exec_loop fd i hdr w = Inl Buffer_overflow"
  using assms
proof (induction "rx_bytes (w_rx w fd)" arbitrary: i hdr w h)
  case Nil
  then show ?case by simp
next
  case (Cons c cs)
  then obtain f where f: "sys_read fd (Suc 0) w = (1, [c], w\<lparr>w_rx := (w_rx w)(fd := f)\<rparr>)" "rx_bytes f = cs"
    using sys_read_one [of fd w c cs] by auto
  let ?w = "w\<lparr>w_rx := (w_rx w)(fd := f)\<rparr>"
  have IH: "header_block j cs = Some (h', body) \<Longrightarrow> length hdr' < MAX_QUERY \<Longrightarrow>
      MAX_QUERY \<le> length hdr' + length h' \<Longrightarrow> http_exec_loop fd j hdr' ?w = Inl Buffer_overflow"
    for j hdr' h'
    using Cons.hyps(1) [of ?w j h' hdr'] f(2) Cons.prems(1) by simp
  note eq = http_exec_loop.simps [of fd i hdr w]
  consider "c = CR" | "c = NL" "i = 0" | "c \<noteq> CR" "\<not> (c = NL \<and> i = 0)" by blast
  then show ?case
  proof cases
    case 1
    with Cons.prems Cons.hyps(2) [symmetric] IH [of i h hdr] show ?thesis by (simp add: eq f)
  next
    case 2
    with Cons.prems Cons.hyps(2) [symmetric] f show ?thesis unfolding eq by (auto simp: f)
  next
    case 3
    then obtain h' where h': "header_block (if c = NL then 0 else i + 1) cs = Some (h', body)" "h = cstring [c] @ h'"
      using Cons.prems(2) Cons.hyps(2) [symmetric] by (auto split: if_splits)
    with 3 Cons.prems(3,4) IH [of "if c = NL then 0 else i + 1" h' "hdr @ cstring [c]"] show ?thesis
      by (auto simp: eq f Let_def)
  qed
qed

lemma header_block_None_gone:
  assumes "header_block i (rx_bytes (w_rx w fd)) = None" "http_exec_loop fd i hdr w = Inr (r, w')"
  shows "r = None"
proof (cases "fd \<in> set (w_open w)")
  case False
  with assms(2) show ?thesis by (simp add: http_exec_loop.simps [of fd i hdr w] sys_read_def)
next
  case True
  with assms show ?thesis
  proof (induction "rx_bytes (w_rx w fd)" arbitrary: i hdr w)
    case Nil
    then obtain r0 s0 w0 where "sys_read fd (Suc 0) w = (r0, s0, w0)" "r0 \<le> 0"
      using sys_read_none [of w fd] by auto
    with Nil.prems show ?case by (simp add: http_exec_loop.simps [of fd i hdr w])
  next
    case (Cons c cs)
    then obtain f where f: "sys_read fd (Suc 0) w = (1, [c], w\<lparr>w_rx := (w_rx w)(fd := f)\<rparr>)" "rx_bytes f = cs"
      using sys_read_one [of fd w c cs] by auto
    let ?w = "w\<lparr>w_rx := (w_rx w)(fd := f)\<rparr>"
    have IH: "header_block j cs = None \<Longrightarrow> http_exec_loop fd j hdr' ?w = Inr (r, w') \<Longrightarrow> r = None" for j hdr'
      using Cons.hyps(1) [of ?w j hdr'] f(2) Cons.prems(3) by simp
    show ?case
      using Cons.prems Cons.hyps(2) [symmetric] IH
      by (simp add: http_exec_loop.simps [of fd i hdr w] f Let_def split: if_splits)
  qed
qed

text \<open>A reply as servers send it: lines ended by CR LF, then a blank line, then the body.\<close>

definition line_ok :: "string \<Rightarrow> bool" where
  "line_ok l = (l \<noteq> [] \<and> CR \<notin> set l \<and> NL \<notin> set l \<and> NUL \<notin> set l)"

definition wire_lines :: "string list \<Rightarrow> string" where
  "wire_lines ls = concat (map (\<lambda>l. l @ [CR, NL]) ls)"

definition text_lines :: "string list \<Rightarrow> string" where
  "text_lines ls = concat (map (\<lambda>l. l @ [NL]) ls)"

lemma header_block_chars:
  "CR \<notin> set l \<Longrightarrow> NL \<notin> set l \<Longrightarrow> NUL \<notin> set l \<Longrightarrow>
    header_block i (l @ r) = map_option (\<lambda>(h, b). (l @ h, b)) (header_block (i + length l) r)"
proof (induction l arbitrary: i)
  case Nil
  then show ?case by (simp add: option.map_ident_strong split_beta)
next
  case (Cons c l)
  then show ?case by (cases "header_block (Suc (i + length l)) r") (auto simp: cstring_def)
qed

lemma header_block_lines:
  "list_all line_ok ls \<Longrightarrow>
    header_block 0 (wire_lines ls @ [CR, NL] @ body) = Some (text_lines ls, body)"
proof (induction ls)
  case Nil
  then show ?case by (simp add: wire_lines_def text_lines_def)
next
  case (Cons l ls)
  then have "header_block 0 (wire_lines (l # ls) @ [CR, NL] @ body)
      = map_option (\<lambda>(h, b). (l @ h, b)) (header_block (length l) (CR # NL # wire_lines ls @ [CR, NL] @ body))"
    by (simp add: wire_lines_def header_block_chars line_ok_def)
  with Cons show ?case
    by (simp add: line_ok_def text_lines_def cstring_def)
qed

lemma three_digits:
  assumes "100 \<le> n" "n < 1000"
  shows "length (nat_str n) = 3"
proof -
  have "n div 10 \<ge> 10" "n div 10 < 100" "n div 10 div 10 < 10"
    using assms by (simp_all add: less_mult_imp_div_less)
  with assms show ?thesis
    by (simp add: nat_str.simps [of n] nat_str.simps [of "n div 10"] nat_str.simps [of "n div 10 div 10"])
qed

lemma status_line_scan:
  assumes "p \<noteq> []" "\<forall>c \<in> set p. \<not> is_space c" "100 \<le> st" "st < 1000"
  shows "\<exists>s rest. scan_word (length (p @ '' '' @ nat_str st @ r)) (p @ '' '' @ nat_str st @ r) = Some (s, rest)
      \<and> sscanf_int 0 (Some 3) rest = Inr (Some (int st))"
proof -
  have "is_space (CHR '' '')" by (simp add: is_space_def)
  then have "scan_word (length (p @ '' '' @ nat_str st @ r)) (p @ '' '' @ nat_str st @ r)
      = Some (p, '' '' @ nat_str st @ r)"
    using assms by (intro scan_word_prefix) simp_all
  moreover have "sscanf_int 0 (Some 3) ('' '' @ nat_str st @ r) = Inr (Some (int st))"
    using assms scan_num_nat_str_width [of 0 st r] three_digits [of st]
    by (simp add: sscanf_int_def in_int_def is_space_def)
  ultimately show ?thesis by blast
qed

lemma text_lines_simps [simp]:
  "text_lines [] = []" "text_lines (l # ls) = l @ NL # text_lines ls"
  by (simp_all add: text_lines_def)

lemma sys_write_frame:
  "sys_write fd s w = (r, w') \<Longrightarrow> w_rx w' = w_rx w \<and> w_open w' = w_open w"
  by (auto simp: sys_write_def split: if_splits)

lemma http_exec_reply:
  assumes "h_fd c \<in> set (w_open w)" "list_all line_ok (l # ls)"
    "rx_bytes (w_rx w (h_fd c)) = wire_lines (l # ls) @ [CR, NL] @ body"
    "length (text_lines (l # ls)) < MAX_QUERY"
    "l = p @ '' '' @ nat_str st @ r" "p \<noteq> []" "\<forall>c \<in> set p. \<not> is_space c" "100 \<le> st" "st < 1000"
  shows "\<exists>w' c'. http_exec w c = Inr (True, w', c') \<and> rx_bytes (w_rx w' (h_fd c)) = body
      \<and> h_headers c' = text_lines (l # ls) \<and> h_status c' = int st"
proof -
  define c1 where "c1 = http_addheader '''' c"
  have fd: "h_fd c1 = h_fd c" by (simp add: c1_def http_addheader_def)
  obtain ok w1 where w1: "sys_write (h_fd c) (h_request c1) w = (ok, w1)" by fastforce
  have rx: "w_rx w1 = w_rx w" "w_open w1 = w_open w" using sys_write_frame [OF w1] by simp_all
  have "header_block 0 (rx_bytes (w_rx w1 (h_fd c))) = Some (text_lines (l # ls), body)"
    using assms(3) header_block_lines [OF assms(2), of body] by (simp add: rx)
  then obtain f where f: "http_exec_loop (h_fd c) 0 '''' w1
      = Inr (Some (text_lines (l # ls)), w1\<lparr>w_rx := (w_rx w1)(h_fd c := f)\<rparr>)" "rx_bytes f = body"
    using http_exec_loop_block [of "h_fd c" w1 0 _ body "''''"] assms(1,4) rx by auto
  obtain s rest where s: "scan_word (length (text_lines (l # ls))) (text_lines (l # ls)) = Some (s, rest)"
      "sscanf_int 0 (Some 3) rest = Inr (Some (int st))"
    using status_line_scan [OF assms(6-9), of "r @ NL # text_lines ls"] assms(5) by auto
  have nl: "strchr (text_lines (l # ls)) NL = Some (length l)"
    using assms(2) strchr_append [of NL l "text_lines ls"] by (simp add: line_ok_def)
  show ?thesis
    unfolding http_exec_def Let_def c1_def [symmetric] fd w1 snd_conv f rbind.simps prod.case option.case s nl
    by (simp add: f)
qed

text \<open>Looking a header up among the lines of the reply.\<close>

definition line_word :: "string \<Rightarrow> string" where
  "line_word l = takeWhile (\<lambda>c. \<not> is_space c) (take 31 l)"

definition field_line :: "string \<Rightarrow> bool" where
  "field_line l = (line_ok l \<and> \<not> is_space (hd l))"

fun find_header :: "string \<Rightarrow> string list \<Rightarrow> string option" where
  "find_header name [] = None"
| "find_header name (l # ls) =
     (if strcasecmp_eq (line_word l) name then Some (drop (length name) (text_lines (l # ls)))
      else find_header name ls)"

lemma scan_word_line:
  assumes "field_line l"
  shows "scan_word 31 (l @ NL # r) = Some (line_word l, drop (length (line_word l)) (l @ NL # r))"
proof -
  have nl: "is_space NL" by (simp add: is_space_def)
  have "dropWhile is_space (l @ NL # r) = l @ NL # r"
    using assms by (cases l) (auto simp: field_line_def line_ok_def)
  moreover have "takeWhile (\<lambda>c. \<not> is_space c) (take 31 (l @ NL # r)) = line_word l"
  proof (cases "31 - length l")
    case 0
    then show ?thesis by (simp add: line_word_def)
  next
    case (Suc k)
    then show ?thesis
      using nl by (cases "\<forall>c \<in> set l. \<not> is_space c")
        (auto simp: line_word_def takeWhile_append takeWhile_id)
  qed
  moreover have "line_word l \<noteq> []"
    using assms by (cases l) (auto simp: line_word_def field_line_def line_ok_def)
  ultimately show ?thesis by (simp add: scan_word_def Let_def del: take_append drop_append)
qed

lemma http_header_loop_skip:
  "NL \<notin> set l \<Longrightarrow> prev \<noteq> NL \<Longrightarrow>
    http_header_loop name prev (l @ NL # r) s = http_header_loop name NL r s"
proof (induction l arbitrary: prev)
  case Nil
  then show ?case by simp
next
  case (Cons x l)
  have "http_header_loop name prev ((x # l) @ NL # r) s = http_header_loop name x (l @ NL # r) s"
    using Cons.prems(2) by simp
  moreover from Cons.prems(1) have "x \<noteq> NL" "NL \<notin> set l" by auto
  ultimately show ?case by (simp add: Cons.IH)
qed

lemma http_header_loop_lines:
  "list_all field_line ls \<Longrightarrow> http_header_loop name NL (text_lines ls) s = Inr (find_header name ls)"
proof (induction ls arbitrary: s)
  case Nil
  then show ?case by simp
next
  case (Cons l ls)
  then obtain c l' where l: "l = c # l'" "c \<noteq> NL" "NL \<notin> set l'"
    by (cases l) (auto simp: field_line_def line_ok_def)
  have "scan_word 31 (c # l' @ NL # text_lines ls)
      = Some (line_word l, drop (length (line_word l)) (l @ NL # text_lines ls))"
    using scan_word_line [of l "text_lines ls"] Cons.prems l(1) by simp
  with Cons l show ?case by (simp add: Let_def http_header_loop_skip)
qed

lemma http_header_find:
  assumes "h_headers c = text_lines (l # ls)" "line_ok l" "list_all field_line ls"
  shows "http_header name c = Inr (find_header name ls)"
proof -
  obtain x l' where "l = x # l'" "x \<noteq> NL" "NL \<notin> set l'"
    using assms(2) by (cases l) (auto simp: line_ok_def)
  with assms show ?thesis
    by (simp add: http_header_def http_header_loop_skip http_header_loop_lines)
qed

lemma find_header_skip:
  "list_all (\<lambda>l. \<not> strcasecmp_eq (line_word l) name) ls1 \<Longrightarrow> find_header name (ls1 @ ls2) = find_header name ls2"
  by (induction ls1) auto

lemma find_header_absent:
  "list_all (\<lambda>l. \<not> strcasecmp_eq (line_word l) name) ls \<Longrightarrow> find_header name ls = None"
  by (induction ls) auto

lemma http_size_found:
  assumes "h_headers c = text_lines (l # ls1 @ (f @ '' '' @ nat_str n) # ls2)" "line_ok l"
    "list_all field_line (ls1 @ (f @ '' '' @ nat_str n) # ls2)"
    "list_all (\<lambda>l. \<not> strcasecmp_eq (line_word l) ''Content-Length:'') ls1"
    "strcasecmp_eq f ''Content-Length:''" "\<forall>c \<in> set f. \<not> is_space c" "in_llong (int n)"
  shows "http_size c = Inr (int n)"
proof -
  have len: "length f = 15"
    using arg_cong [where f = length, OF assms(5) [unfolded strcasecmp_eq_def]] by simp
  have "is_space (CHR '' '')" by (simp add: is_space_def)
  then have lw: "line_word (f @ '' '' @ nat_str n) = f"
    using len assms(6) by (simp add: line_word_def takeWhile_append_stop take_Cons')
  have "http_header ''Content-Length:'' c = Inr (Some ('' '' @ nat_str n @ NL # text_lines ls2))"
    using http_header_find [OF assms(1-3)] lw len assms(5) find_header_skip [OF assms(4)] by simp
  moreover have "scan_num 10 None ('' '' @ nat_str n @ NL # text_lines ls2)
      = Scan_ok (int n) (NL # text_lines ls2)"
    using scan_num_nat_str [of "NL # text_lines ls2" 10 n]
    by (simp add: is_space_def is_digit_in_def digit_val_def)
  ultimately show ?thesis
    using assms(7) by (simp add: http_size_def sscanf_lld_def)
qed

lemma http_size_absent:
  assumes "h_headers c = text_lines (l # ls)" "line_ok l" "list_all field_line ls"
    "list_all (\<lambda>l. \<not> strcasecmp_eq (line_word l) ''Content-Length:'') ls"
  shows "http_size c = Inr (-2)"
  using http_header_find [OF assms(1-3)] find_header_absent [OF assms(4)] by (simp add: http_size_def)

subsection \<open>Contract\<close>

text \<open>The inlined encoder of \<open>http_connect\<close> is base 64 with padding.  For 7-bit credentials of at
  most 765 characters the \<open>auth\<close> buffer then holds the encoding of \<open>user:pass\<close> and zeros.\<close>

lemma http_auth_base64:
  assumes "user \<noteq> ''''" "ascii7 (user @ '':'' @ pass)" "length (user @ '':'' @ pass) \<le> 765"
  shows "set_auth user pass (replicate MAX_STRING NUL)
       = Inr (pad_nul MAX_STRING (b64_spec (user @ '':'' @ pass)))"
  using assms by (rule set_auth_b64)

lemma http_auth_base64_witness:
  "set_auth ''Aladdin'' ''open sesame'' (replicate MAX_STRING NUL)
   = Inr (pad_nul MAX_STRING (b64_spec ''Aladdin:open sesame''))
   \<and> b64_spec ''Aladdin:open sesame'' = ''QWxhZGRpbjpvcGVuIHNlc2FtZQ==''"
  using http_auth_base64 [of "''Aladdin''" "''open sesame''"]
  by (simp add: ascii7_def b64_digit_def base64_encode_def Let_def)

text \<open>C13: \<open>http_exec\<close> separates the header of a reply from its body.  When the peer sends a status line,
  header lines and an empty line, in whatever pieces the bytes arrive, the call succeeds, keeps
  exactly those lines, reads the status from the status line and leaves exactly the body unread.\<close>

theorem http_exec_splits_reply:
  assumes "h_fd c \<in> set (w_open w)" "list_all line_ok (l # ls)"
    "rx_bytes (w_rx w (h_fd c)) = wire_lines (l # ls) @ [CR, NL] @ body"
    "length (text_lines (l # ls)) < MAX_QUERY"
    "l = p @ '' '' @ nat_str st @ r" "p \<noteq> []" "\<forall>c \<in> set p. \<not> is_space c" "100 \<le> st" "st < 1000"
  shows "\<exists>w' c'. http_exec w c = Inr (True, w', c') \<and> rx_bytes (w_rx w' (h_fd c)) = body
      \<and> h_headers c' = text_lines (l # ls) \<and> h_status c' = int st"
  using assms by (rule http_exec_reply)

definition example_reply :: world where
  "example_reply = example_world\<lparr>w_rx :=
     (\<lambda>_. [Data ''HTTP/1.1 206 OK'', Data ([CR, NL] @ ''A: b'' @ [CR]), Data ([NL, CR, NL] @ ''xy'')])\<rparr>"

theorem http_exec_splits_reply_witness:
  "\<exists>w' c'. http_exec example_reply (http_zero\<lparr>h_fd := 3\<rparr>) = Inr (True, w', c') \<and>
     rx_bytes (w_rx w' (h_fd (http_zero\<lparr>h_fd := 3\<rparr>))) = ''xy'' \<and>
     h_headers c' = text_lines (''HTTP/1.1 206 OK'' # [''A: b'']) \<and> h_status c' = int 206"
  by (rule http_exec_splits_reply [where p = "''HTTP/1.1''" and r = "'' OK''"])
    (simp_all add: example_reply_def example_world_def line_ok_def wire_lines_def text_lines_def print_eval is_space_def)

text \<open>A header block that does not fit is a buffer overflow.  \<open>http_exec\<close> bounds each line it appends
  by \<open>MAX_QUERY\<close> but not their sum, so a server that sends \<open>MAX_QUERY\<close> bytes of header text makes
  \<open>strncat\<close> write behind the \<open>headers\<close> array.\<close>

lemma http_exec_header_overflow:
  assumes "h_fd c \<in> set (w_open w)" "header_block 0 (rx_bytes (w_rx w (h_fd c))) = Some (h, body)"
    "MAX_QUERY \<le> length h"
  shows "http_exec w c = Inl Buffer_overflow"
proof -
  define c1 where "c1 = http_addheader '''' c"
  have fd: "h_fd c1 = h_fd c" by (simp add: c1_def http_addheader_def)
  obtain ok w1 where w1: "sys_write (h_fd c) (h_request c1) w = (ok, w1)" by fastforce
  have "w_rx w1 = w_rx w" "w_open w1 = w_open w" using sys_write_frame [OF w1] by simp_all
  then have "http_exec_loop (h_fd c) 0 '''' w1 = Inl Buffer_overflow"
    using http_exec_loop_overflow [of "h_fd c" w1 0 h body "''''"] assms by simp
  then show ?thesis
    unfolding http_exec_def Let_def c1_def [symmetric] fd w1 snd_conv by simp
qed

lemma http_exec_header_overflow_witness:
  "http_exec (example_world\<lparr>w_rx := (\<lambda>_. [Data (wire_lines [replicate MAX_QUERY CHR ''x''] @ [CR, NL])])\<rparr>)
     (http_zero\<lparr>h_fd := 3\<rparr>) = Inl Buffer_overflow"
  using header_block_lines [of "[replicate MAX_QUERY CHR ''x'']" "[]"]
  by (intro http_exec_header_overflow [where h = "text_lines [replicate MAX_QUERY CHR ''x'']" and body = "[]"])
    (simp_all add: example_world_def line_ok_def text_lines_def)

text \<open>\<open>http_size\<close> finds the length of the body.  In a reply whose lines start with a word,
  it returns the number behind the first \<open>Content-Length:\<close> line, in any case of letters and any value of a
  \<open>long long\<close>; without such a line it returns -2.\<close>

lemma http_size_spec:
  assumes "h_headers c = text_lines (l # ls)" "line_ok l" "list_all field_line ls"
    "ls = pre @ (f @ '' '' @ nat_str n) # post \<and> strcasecmp_eq f ''Content-Length:'' \<and>
       (\<forall>c \<in> set f. \<not> is_space c) \<and> in_llong (int n) \<and> z = int n \<or> ls = pre \<and> z = -2"
    "list_all (\<lambda>l. \<not> strcasecmp_eq (line_word l) ''Content-Length:'') pre"
  shows "http_size c = Inr z"
  using assms(4)
proof (elim disjE conjE)
  assume "ls = pre @ (f @ '' '' @ nat_str n) # post" "strcasecmp_eq f ''Content-Length:''"
    "\<forall>c \<in> set f. \<not> is_space c" "in_llong (int n)" "z = int n"
  then show ?thesis using http_size_found [of c l pre f n post] assms(1-3,5) by simp
next
  assume "ls = pre" "z = -2"
  then show ?thesis using http_size_absent [of c l ls] assms(1-3,5) by simp
qed

lemma to_lower_eval: "to_lower CHR ''C'' = CHR ''c''" "to_lower CHR ''L'' = CHR ''l''"
  "to_lower CHR ''c'' = CHR ''c''" "to_lower CHR ''l'' = CHR ''l''"
  by code_simp+

lemma http_size_spec_witness:
  "http_size (http_zero\<lparr>h_headers := text_lines [''HTTP/1.1 200 OK'', ''Date: x'', ''content-length: 4294967296'']\<rparr>)
   = Inr 4294967296"
  by (rule http_size_spec [where l = "''HTTP/1.1 200 OK''" and pre = "[''Date: x'']" and post = "[]"
        and f = "''content-length:''" and n = 4294967296 and ls = "[''Date: x'', ''content-length: 4294967296'']"])
    (simp_all add: line_ok_def field_line_def line_word_def print_eval is_space_def strcasecmp_eq_def in_llong_def to_lower_eval)

end
