(* ===== verification/Ftp.thy ===== *)
theory Ftp
  imports Http
begin

text \<open>
  \<^verbatim>\<open>final/client/ServerSide/ftp.c\<close>: the control connection of FTP (commands and
  replies), the passive data connection, and the size of a file from \<open>SIZE\<close> or a listing.
\<close>

abbreviation (input) FTP_PASSIVE :: int where "FTP_PASSIVE \<equiv> 1"

text \<open>\<open>ftp_t\<close>; \<open>f_message\<close> is a heap block or the null pointer.\<close>

record ftp =
  f_cwd :: string
  f_message :: "string option"
  f_status :: int
  f_fd :: int
  f_data_fd :: int
  f_mode :: int
  f_local_if :: string

definition ftp_zero :: ftp where
  "ftp_zero = \<lparr>f_cwd = '''', f_message = None, f_status = 0, f_fd = 0, f_data_fd = 0,
     f_mode = 0, f_local_if = ''''\<rparr>"

text \<open>\<open>sprintf(conn->message, ...)\<close>: the block has at least \<open>MAX_STRING\<close> cells.\<close>

definition put_message :: "string \<Rightarrow> ftp \<Rightarrow> ftp res" where
  "put_message m c =
     (if f_message c = None then Inl Null_deref
      else rbind (strcpy_buf MAX_STRING m) (\<lambda>m'. Inr (c\<lparr>f_message := Some m'\<rparr>)))"

subsection \<open>Replies\<close>

text \<open>
  One line, read byte by byte and appended to the block, which is enlarged ten cells ahead of the
  data.  \<open>None\<close>: the connection is gone.
\<close>

function ftp_read_line :: "int \<Rightarrow> string \<Rightarrow> world \<Rightarrow> string option \<times> world" where
  "ftp_read_line fd msg w =
     (case sys_read fd 1 w of (r, s, w') \<Rightarrow>
        if r \<le> 0 then (None, w')
        else if hd s = NL then (Some (msg @ [hd s]), w')
        else ftp_read_line fd (msg @ [hd s]) w')"
  by pat_completeness auto
termination
  by (relation "measure (\<lambda>(fd, msg, w). rx_size w fd)") (auto intro: sys_read_decreases [OF sym])

declare ftp_read_line.simps [simp del]

text \<open>
  A cell of the block: what was read, the terminator, then whatever the heap held before
  (\<open>heap\<close>): the code looks up to three cells behind the terminator.
\<close>

definition cell :: "string \<Rightarrow> (nat \<Rightarrow> char) \<Rightarrow> nat \<Rightarrow> char" where
  "cell msg heap k = (if k < length msg then msg ! k else if k = length msg then NUL else heap k)"

text \<open>
  The \<open>for\<close> loop: a reply is complete at the first line end after a line that starts with the
  status and a space.
\<close>

function complete_scan :: "string \<Rightarrow> (nat \<Rightarrow> char) \<Rightarrow> int \<Rightarrow> nat \<Rightarrow> bool \<Rightarrow> bool" where
  "complete_scan msg heap status i cmpl =
     (if length msg \<le> i \<or> msg ! i = NUL then False
      else if msg ! i = NL then
        (if cmpl then True
         else let j = (if cell msg heap (i + 4) = CHR '' ''
                       then case scan_num 0 (Some 3) (cstring (drop (i + 1) msg)) of
                              Scan_ok v r \<Rightarrow> v | _ \<Rightarrow> -1
                       else -1)
              in complete_scan msg heap status (i + 1)
                   (cell msg heap (i + 4) = CHR '' '' \<and> j = status))
      else complete_scan msg heap status (i + 1) cmpl)"
  by pat_completeness auto
termination
  by (relation "measure (\<lambda>(msg, heap, status, i, cmpl). length msg - i)") auto

declare complete_scan.simps [simp del]

lemma ftp_read_line_decreases:
  "ftp_read_line fd msg w = (Some m, w') \<Longrightarrow> rx_size w' fd < rx_size w fd"
proof (induction fd msg w rule: ftp_read_line.induct)
  case (1 fd msg w)
  obtain r s w1 where rd: "sys_read fd 1 w = (r, s, w1)" by (metis prod_cases3)
  with "1.prems" have "0 < r" by (simp add: ftp_read_line.simps [of fd msg w] split: if_splits)
  then have lt: "rx_size w1 fd < rx_size w fd" using rd by (rule sys_read_decreases [rotated])
  show ?case
  proof (cases "hd s = NL")
    case True
    with "1.prems" rd \<open>0 < r\<close> lt show ?thesis by (simp add: ftp_read_line.simps [of fd msg w])
  next
    case False
    with "1.prems" rd \<open>0 < r\<close> have "ftp_read_line fd (msg @ [hd s]) w1 = (Some m, w')"
      by (simp add: ftp_read_line.simps [of fd msg w])
    with "1.IH" [of r "(s, w1)" s w1] rd \<open>0 < r\<close> False lt show ?thesis by simp
  qed
qed

text \<open>The outer loop: lines are read until the reply is complete.\<close>

function ftp_wait_loop :: "int \<Rightarrow> (nat \<Rightarrow> char) \<Rightarrow> string \<Rightarrow> int \<Rightarrow> world \<Rightarrow> ((string \<times> int) option \<times> int \<times> world) res" where
  "ftp_wait_loop fd heap msg status w =
     (case ftp_read_line fd msg w of
        (None, w') \<Rightarrow> Inr (None, status, w')
      | (Some m, w') \<Rightarrow>
          (case sscanf_int 0 None (cstring m) of
             Inl e \<Rightarrow> Inl e
           | Inr v \<Rightarrow>
               let st = (case v of None \<Rightarrow> status | Some x \<Rightarrow> x)
               in if complete_scan m heap st 0 (cell m heap 3 = CHR '' '')
                  then Inr (Some (m, st), st, w')
                  else ftp_wait_loop fd heap m st w'))"
  by pat_completeness auto
termination
  by (relation "measure (\<lambda>(fd, heap, msg, status, w). rx_size w fd)")
    (auto intro: ftp_read_line_decreases [OF sym] simp: cell_def)

declare ftp_wait_loop.simps [simp del]

text \<open>\<open>ftp_wait\<close> returns the status, or -1 when the connection is gone.\<close>

definition ftp_wait :: "world \<Rightarrow> ftp \<Rightarrow> (int \<times> world \<times> ftp) res" where
  "ftp_wait w0 c =
     (let heap = w_heap w0 (w_waits w0); w = w0\<lparr>w_waits := Suc (w_waits w0)\<rparr>
      in rbind (ftp_wait_loop (f_fd c) heap '''' (f_status c) w) (\<lambda>(r, st, w').
         case r of
           None \<Rightarrow> Inr (-1, w', c\<lparr>f_message := Some (''Connection gone.'' @ [NL]), f_status := st\<rparr>)
         | Some (m, v) \<Rightarrow>
             Inr (v, w', c\<lparr>f_message := Some (takeWhile (\<lambda>x. x \<noteq> CR) (takeWhile (\<lambda>x. x \<noteq> NL) (cstring m))),
                           f_status := st\<rparr>)))"

subsection \<open>Commands\<close>

text \<open>
  \<open>ftp_command\<close>: \<open>fmt\<close> is the format, \<open>line\<close> what it expands to; a failed write
  is reported with the format.
\<close>

definition ftp_command :: "string \<Rightarrow> string \<Rightarrow> world \<Rightarrow> ftp \<Rightarrow> (bool \<times> world \<times> ftp) res" where
  "ftp_command fmt line w c =
     (case sys_write (f_fd c) (snprintf_buf (MAX_STRING - 3) line @ [CR, NL]) w of (ok, w') \<Rightarrow>
        if ok then Inr (True, w', c)
        else rbind (put_message (''Error writing command '' @ fmt @ [NL]) c) (\<lambda>c'. Inr (False, w', c')))"

text \<open>A command whose return value the code ignores, followed by \<open>ftp_wait\<close>.\<close>

definition ftp_ask :: "string \<Rightarrow> string \<Rightarrow> world \<Rightarrow> ftp \<Rightarrow> (int \<times> world \<times> ftp) res" where
  "ftp_ask fmt line w c = rbind (ftp_command fmt line w c) (\<lambda>(ok, w', c'). ftp_wait w' c')"

definition ftp_connect :: "string \<Rightarrow> int \<Rightarrow> string \<Rightarrow> string \<Rightarrow> world \<Rightarrow> ftp \<Rightarrow> (bool \<times> world \<times> ftp) res" where
  "ftp_connect host port user pass w0 c0 =
     (case tcp_connect host port (f_local_if c0) w0 of (fd, w1) \<Rightarrow>
        let c1 = c0\<lparr>f_data_fd := -1, f_message := Some '''', f_fd := fd\<rparr> in
        if fd = -1
        then rbind (put_message (''Unable to connect to server '' @ host @ '':'' @ int_str port @ [NL]) c1) (\<lambda>c2.
             Inr (False, w1, c2))
        else
          rbind (ftp_wait w1 c1) (\<lambda>(st, w2, c2).
          if c_div st 100 \<noteq> 2 then Inr (False, w2, c2) else
          rbind (ftp_ask ''USER %s'' (''USER '' @ user) w2 c2) (\<lambda>(st, w3, c3).
          rbind (if c_div st 100 = 2 then Inr (True, w3, c3)
                 else if c_div (f_status c3) 100 = 3
                 then rbind (ftp_ask ''PASS %s'' (''PASS '' @ pass) w3 c3) (\<lambda>(st, w4, c4).
                      Inr (c_div st 100 = 2, w4, c4))
                 else Inr (False, w3, c3)) (\<lambda>(ok, w5, c5).
          if \<not> ok then Inr (False, w5, c5) else
          rbind (ftp_ask ''TYPE I'' ''TYPE I'' w5 c5) (\<lambda>(st, w6, c6).
          Inr (c_div st 100 = 2, w6, c6))))))"

definition ftp_disconnect :: "world \<Rightarrow> ftp \<Rightarrow> world \<times> ftp" where
  "ftp_disconnect w c =
     (let w1 = (if f_fd c > 0 then sys_close (f_fd c) w else w);
          w2 = (if f_data_fd c > 0 then sys_close (f_data_fd c) w1 else w1)
      in (w2, c\<lparr>f_message := None, f_cwd := '''', f_fd := -1, f_data_fd := -1\<rparr>))"

definition ftp_cwd :: "string \<Rightarrow> world \<Rightarrow> ftp \<Rightarrow> (bool \<times> world \<times> ftp) res" where
  "ftp_cwd cwd w c =
     (if f_cwd c = cwd then Inr (True, w, c)
      else rbind (ftp_ask ''CWD %s'' (''CWD '' @ cwd) w c) (\<lambda>(st, w', c').
           if c_div st 100 \<noteq> 2 then Inr (False, w', c')
           else rbind (strncpy_buf MAX_STRING cwd) (\<lambda>d. Inr (True, w', c'\<lparr>f_cwd := d\<rparr>))))"

subsection \<open>The passive data connection\<close>

text \<open>
  \<open>sscanf(s, "%i,%i,%i,%i,%i,%i", ...)\<close>: the numbers it stores; it is asked whether all
  six were read.
\<close>

fun scan_commas :: "nat \<Rightarrow> string \<Rightarrow> int list res" where
  "scan_commas 0 s = Inr []"
| "scan_commas (Suc n) s =
     (case scan_num 0 None s of
        Scan_ok v r \<Rightarrow>
          if \<not> in_int v then Inl Int_overflow
          else if n = 0 then Inr [v]
          else if is_prefix '','' r then rbind (scan_commas n (tl r)) (\<lambda>vs. Inr (v # vs))
          else Inr [v]
      | _ \<Rightarrow> Inr [])"

text \<open>The first place of the reply where six numbers start.\<close>

fun find_pasv :: "string \<Rightarrow> int list option res" where
  "find_pasv [] = Inr None"
| "find_pasv (c # s) =
     rbind (scan_commas 6 (c # s)) (\<lambda>vs.
     if length vs = 6 then Inr (Some vs) else find_pasv s)"

definition pasv_host :: "int list \<Rightarrow> string" where
  "pasv_host v = int_str (v ! 0) @ ''.'' @ int_str (v ! 1) @ ''.'' @ int_str (v ! 2) @ ''.'' @ int_str (v ! 3)"

definition pasv_failed :: "string" where
  "pasv_failed = ''Error opening passive data connection.'' @ [NL]"

definition ftp_data :: "world \<Rightarrow> ftp \<Rightarrow> (bool \<times> world \<times> ftp) res" where
  "ftp_data w c =
     (if f_data_fd c > 0 then Inr (False, w, c)
      else rbind (ftp_ask ''PASV'' ''PASV'' w c) (\<lambda>(st, w1, c1).
           if c_div st 100 \<noteq> 2 then Inr (False, w1, c1)
           else case f_message c1 of
             None \<Rightarrow> Inl Null_deref
           | Some m \<Rightarrow>
               rbind (find_pasv m) (\<lambda>info.
               case info of
                 None \<Rightarrow> rbind (put_message pasv_failed c1) (\<lambda>c2. Inr (False, w1, c2))
               | Some v \<Rightarrow>
                   rbind (guard_c (in_int (v ! 4 * 256) \<and> in_int (v ! 4 * 256 + v ! 5)) Int_overflow) (\<lambda>_.
                   case tcp_connect (pasv_host v) (v ! 4 * 256 + v ! 5) (f_local_if c1) w1 of (fd, w2) \<Rightarrow>
                     if fd = -1
                     then rbind (put_message pasv_failed (c1\<lparr>f_data_fd := fd\<rparr>)) (\<lambda>c2. Inr (False, w2, c2))
                     else Inr (True, w2, c1\<lparr>f_data_fd := fd\<rparr>)))))"

subsection \<open>File size\<close>

text \<open>A \<open>sscanf\<close> format of several directives: the values stored before the first failure.\<close>

datatype directive = SkipWord | SkipInt | ScanLld | ScanStr nat
datatype scanned = Num int | Str string

fun sscanf_fields :: "directive list \<Rightarrow> string \<Rightarrow> scanned list res" where
  "sscanf_fields [] s = Inr []"
| "sscanf_fields (SkipWord # ds) s =
     (case scan_word (length s) s of None \<Rightarrow> Inr [] | Some (t, r) \<Rightarrow> sscanf_fields ds r)"
| "sscanf_fields (SkipInt # ds) s =
     (case scan_num 0 None s of Scan_ok v r \<Rightarrow> sscanf_fields ds r | _ \<Rightarrow> Inr [])"
| "sscanf_fields (ScanLld # ds) s =
     (case scan_num 10 None s of
        Scan_ok v r \<Rightarrow>
          if in_llong v then rbind (sscanf_fields ds r) (\<lambda>vs. Inr (Num v # vs)) else Inl Int_overflow
      | _ \<Rightarrow> Inr [])"
| "sscanf_fields (ScanStr n # ds) s =
     (case scan_word n s of
        None \<Rightarrow> Inr []
      | Some (t, r) \<Rightarrow> rbind (sscanf_fields ds r) (\<lambda>vs. Inr (Str t # vs)))"

definition link_format :: "directive list" where
  "link_format = [SkipWord, SkipInt, SkipWord, SkipWord, SkipInt, SkipWord, SkipInt, SkipWord, ScanStr 100]"

definition unix_format :: "directive list" where
  "unix_format = [SkipWord, SkipInt, SkipWord, SkipWord, ScanLld, SkipWord, SkipInt, SkipWord, ScanStr 100]"

definition short_format :: "directive list" where
  "short_format = [SkipWord, SkipInt, ScanLld, SkipInt, SkipWord, SkipInt, SkipInt, ScanStr 100]"

text \<open>
  The listing: everything the data connection sends.  The block starts at \<open>MAX_STRING\<close> cells
  and is doubled when at most ten are left, so \<open>size - i - 3\<close> stays positive.
\<close>

function ftp_read_list :: "int \<Rightarrow> nat \<Rightarrow> string \<Rightarrow> world \<Rightarrow> string \<times> world" where
  "ftp_read_list fd cap reply w =
     (case sys_read fd (cap - length reply - 3) w of (j, s, w') \<Rightarrow>
        if j \<le> 0 then (reply, w')
        else let reply' = reply @ s
             in ftp_read_list fd (if cap - length reply' \<le> 10 then 2 * cap else cap) reply' w')"
  by pat_completeness auto
termination
  by (relation "measure (\<lambda>(fd, cap, reply, w). rx_size w fd)") (auto intro: sys_read_decreases [OF sym])

declare ftp_read_list.simps [simp del]

text \<open>
  The number of entries: lines that start with a dash or an l; the argument is the block from
  \<open>reply[i]\<close> on.  After an entry's first character the loop goes on with the next one; a zero
  byte that ends the inner loop is stepped over.
\<close>

function count_entries :: "string \<Rightarrow> nat" where
  "count_entries [] = 0"
| "count_entries [c] = 0"
| "count_entries (c # d # r) =
     (if c = NUL \<or> d = NUL then 0
      else if c = CHR ''-'' \<or> c = CHR ''l'' then Suc (count_entries (d # r))
      else count_entries (tl (dropWhile (\<lambda>x. x \<noteq> NL \<and> x \<noteq> NUL) (c # d # r))))"
  by pat_completeness auto
termination
proof (relation "measure length", goal_cases)
  case (3 c d r)
  have "length (dropWhile (\<lambda>x. x \<noteq> NL \<and> x \<noteq> NUL) (c # d # r)) \<le> length (c # d # r)"
    by (rule length_dropWhile_le)
  then show ?case by (simp add: less_Suc_eq_le)
qed auto

text \<open>A fresh file name buffer of the size of \<open>fn\<close>, cut at the line end.\<close>

definition cut_line :: "string \<Rightarrow> string" where
  "cut_line s = takeWhile (\<lambda>c. c \<noteq> NL) (takeWhile (\<lambda>c. c \<noteq> CR) s)"

text \<open>
  \<open>ftp_size\<close> returns the size (-1: failure, -2: unknown) and the file name, which a listing
  overwrites.  A symbolic link is followed at most \<open>maxredir\<close> times; the recursion works on
  its own copy of the name.
\<close>

fun ftp_size :: "nat \<Rightarrow> string \<Rightarrow> world \<Rightarrow> ftp \<Rightarrow> (int \<times> string \<times> world \<times> ftp) res" where
  "ftp_size maxredir name w0 c0 =
     rbind (if CHR ''*'' \<notin> set name \<and> CHR ''?'' \<notin> set name
            then rbind (ftp_ask ''SIZE %s'' (''SIZE '' @ name) w0 c0) (\<lambda>(st, w, c).
                 if c_div st 100 = 2
                 then (case f_message c of
                         None \<Rightarrow> Inl Null_deref
                       | Some m \<Rightarrow>
                           rbind (sscanf_fields [SkipInt, ScanLld] m) (\<lambda>vs.
                           case vs of [Num i] \<Rightarrow> Inr (Some i, w, c) | _ \<Rightarrow> Inl Uninitialised))
                 else if c_div (f_status c) 10 \<noteq> 50
                 then rbind (put_message (''File not found.'' @ [NL]) c) (\<lambda>c'. Inr (Some (-1), w, c'))
                 else Inr (None, w, c))
            else Inr (None, w0, c0)) (\<lambda>(early, w1, c1).
     case early of
       Some i \<Rightarrow> Inr (i, name, w1, c1)
     | None \<Rightarrow>
         (if maxredir = 0
          then rbind (put_message (''Too many redirects.'' @ [NL]) c1) (\<lambda>c'. Inr (-1, name, w1, c'))
          else
            rbind (ftp_data w1 c1) (\<lambda>(ok, w2, c2).
            if \<not> ok then Inr (-1, name, w2, c2) else
            rbind (ftp_ask ''LIST %s'' (''LIST '' @ name) w2 c2) (\<lambda>(st, w3, c3).
            if c_div st 100 \<noteq> 1 then Inr (-1, name, w3, c3) else
            (case ftp_read_list (f_data_fd c3) MAX_STRING [NL] w3 of (raw, w4) \<Rightarrow>
            rbind (ftp_wait (sys_close (f_data_fd c3) w4) (c3\<lparr>f_data_fd := -1\<rparr>)) (\<lambda>(st, w5, c5).
            if c_div st 100 \<noteq> 2 then Inr (-1, name, w5, c5) else
            (let reply = cstring raw; j = count_entries (tl raw) in
            if j = 0 then rbind (put_message (''File not found.'' @ [NL]) c5) (\<lambda>c'. Inr (-1, name, w5, c'))
            else if j \<noteq> 1
            then rbind (put_message (''Multiple matches for this URL.'' @ [NL]) c5) (\<lambda>c'. Inr (-1, name, w5, c'))
            else case strstr reply [NL, CHR ''l''] of
              Some k \<Rightarrow>
                rbind (sscanf_fields link_format (drop k reply)) (\<lambda>vs.
                case vs of
                  [Str fn] \<Rightarrow>
                    (case strstr (drop k reply) ''->'' of
                       None \<Rightarrow> Inl Null_deref
                     | Some a \<Rightarrow>
                         rbind (strncpy_buf MAX_STRING (drop (a + 3) (drop k reply))) (\<lambda>target.
                         rbind (ftp_size (maxredir - 1) (cut_line target) w5 c5) (\<lambda>(sz, fn', w6, c6).
                         Inr (sz, fn, w6, c6))))
                | _ \<Rightarrow> Inl Uninitialised)
            | None \<Rightarrow>
                (case strstr reply [NL, CHR ''-''] of
                   None \<Rightarrow> Inl Null_deref
                 | Some k \<Rightarrow>
                     rbind (sscanf_fields unix_format (drop k reply)) (\<lambda>vs.
                     case vs of
                       [Num sz, Str fn] \<Rightarrow> Inr (sz, fn, w5, c5)
                     | _ \<Rightarrow>
                         rbind (sscanf_fields short_format (drop k reply)) (\<lambda>vs2.
                         case vs2 of
                           [Num sz, Str fn] \<Rightarrow> Inr (sz, fn, w5, c5)
                         | _ \<Rightarrow> Inr (-2, name, w5, c5)))))))))))"

subsection \<open>What a reply is\<close>

text \<open>
  The code a line starts with, as \<open>sscanf("%3i")\<close> reads it, and the lines of a reply: a last
  line has the status and a space, the others must not look like it.  The code looks at the
  fourth character of a line before it knows how long the line is, hence the length.
\<close>

definition line_code :: "string \<Rightarrow> int" where
  "line_code l = (case scan_num 0 (Some 3) l of Scan_ok v r \<Rightarrow> v | _ \<Rightarrow> -1)"

definition reply_line :: "string \<Rightarrow> bool" where
  "reply_line l = (4 \<le> length l \<and> NL \<notin> set l \<and> NUL \<notin> set l \<and> (l ! 3 = CHR '' '' \<longrightarrow> \<not> is_space (hd l)))"

definition final_line :: "int \<Rightarrow> string \<Rightarrow> bool" where
  "final_line st l = (l ! 3 = CHR '' '' \<and> line_code l = st)"

text \<open>\<open>set_rx fd f w\<close>: \<open>fd\<close> will receive \<open>f\<close>.\<close>

definition set_rx :: "int \<Rightarrow> rx_item list \<Rightarrow> world \<Rightarrow> world" where
  "set_rx fd f w = w\<lparr>w_rx := (w_rx w)(fd := f)\<rparr>"

lemma set_rx_simps [simp]:
  "w_rx (set_rx fd f w) = (w_rx w)(fd := f)" "w_open (set_rx fd f w) = w_open w"
  "set_rx fd g (set_rx fd f w) = set_rx fd g w"
  by (simp_all add: set_rx_def)

lemma sys_read_byte:
  assumes "fd \<in> set (w_open w)" "rx_bytes (w_rx w fd) = c # cs"
  shows "\<exists>f. sys_read fd (Suc 0) w = (1, [c], set_rx fd f w) \<and> rx_bytes f = cs"
  unfolding set_rx_def using assms by (rule sys_read_one)

lemma ftp_read_line_bytes:
  assumes "fd \<in> set (w_open w)" "rx_bytes (w_rx w fd) = l @ NL # r" "NL \<notin> set l"
  shows "\<exists>f. ftp_read_line fd msg w = (Some (msg @ l @ [NL]), set_rx fd f w) \<and> rx_bytes f = r"
  using assms
proof (induction l arbitrary: msg w)
  case Nil
  then obtain f where "sys_read fd (Suc 0) w = (1, [NL], set_rx fd f w)" "rx_bytes f = r"
    using sys_read_byte [of fd w NL r] by auto
  then show ?case
    by (intro exI [of _ f]) (simp add: ftp_read_line.simps [of fd msg w])
next
  case (Cons c l)
  then obtain f where f: "sys_read fd (Suc 0) w = (1, [c], set_rx fd f w)"
      "rx_bytes f = l @ NL # r"
    using sys_read_byte [of fd w c "l @ NL # r"] by auto
  with Cons.IH [of "set_rx fd f w" "msg @ [c]"] Cons.prems obtain g where
    "ftp_read_line fd (msg @ [c]) (set_rx fd f w)
      = (Some ((msg @ [c]) @ l @ [NL]), set_rx fd g w)" "rx_bytes g = r" by auto
  moreover from Cons.prems(3) have "c \<noteq> NL" by auto
  ultimately show ?case using f
    by (intro exI [of _ g]) (simp add: ftp_read_line.simps [of fd msg w])
qed

lemma complete_scan_chars:
  "NL \<notin> set l \<Longrightarrow> NUL \<notin> set l \<Longrightarrow>
    complete_scan (p @ l @ q) heap st (length p) b = complete_scan (p @ l @ q) heap st (length p + length l) b"
proof (induction l arbitrary: p)
  case Nil
  then show ?case by simp
next
  case (Cons c l)
  have "complete_scan (p @ (c # l) @ q) heap st (length p) b
      = complete_scan ((p @ [c]) @ l @ q) heap st (length (p @ [c])) b"
    using Cons.prems by (subst complete_scan.simps) (auto simp: nth_append)
  also have "\<dots> = complete_scan ((p @ [c]) @ l @ q) heap st (length (p @ [c]) + length l) b"
    using Cons.prems by (intro Cons.IH) auto
  finally show ?case by simp
qed

lemma scan_three:
  assumes "\<not> is_space (hd l)" "4 \<le> length l"
  shows "(case scan_num 0 (Some 3) (l @ r) of Scan_ok v r \<Rightarrow> v | _ \<Rightarrow> -1) = line_code l"
proof -
  have d: "dropWhile is_space l = l" "dropWhile is_space (l @ r) = l @ r" "l \<noteq> []" using assms by (cases l; auto)+
  show ?thesis using assms(2) unfolding line_code_def scan_num_def d by (simp add: d Let_def split: option.split)
qed

lemma complete_scan_lines:
  "list_all reply_line ls \<Longrightarrow>
    complete_scan (p @ text_lines ls) heap st (length p) b \<longleftrightarrow>
      ls \<noteq> [] \<and> (b \<or> (\<exists>x \<in> set (tl ls). final_line st x))"
proof (induction ls arbitrary: p b)
  case Nil
  show ?case by (subst complete_scan.simps) simp
next
  case (Cons x xs)
  let ?m = "p @ text_lines (x # xs)" and ?i = "length p + length x"
  have x: "reply_line x" using Cons.prems by simp
  have skip: "complete_scan ?m heap st (length p) b = complete_scan ?m heap st ?i b"
    using x complete_scan_chars [of x p "NL # text_lines xs"] by (simp add: reply_line_def)
  have at: "?i < length ?m" "?m ! ?i = NL" by (simp_all add: nth_append)
  show ?case
  proof (cases b)
    case True
    then show ?thesis unfolding skip using at by (subst complete_scan.simps) simp
  next
    case False
    define nx where "nx = (xs \<noteq> [] \<and> final_line st (hd xs))"
    have "complete_scan ?m heap st ?i False = complete_scan ?m heap st (?i + 1) nx"
    proof (cases xs)
      case Nil
      then have "complete_scan ?m heap st (?i + 1) c = False" for c
        by (subst complete_scan.simps) simp
      with at show ?thesis by (subst complete_scan.simps) (simp add: Let_def)
    next
      case (Cons y ys)
      have y: "reply_line y" using Cons.prems Cons by simp
      have c: "cell ?m heap (?i + 4) = y ! 3"
        using y by (simp add: cell_def Cons nth_append reply_line_def numeral_eq_Suc)
      have d: "cstring (drop (?i + 1) ?m) = y @ cstring (NL # text_lines ys)"
        using y unfolding cstring_def by (simp add: Cons reply_line_def) (subst takeWhile_append2, auto)
      have "(y ! 3 = CHR '' '' \<and> (case scan_num 0 (Some 3) (cstring (drop (?i + 1) ?m)) of Scan_ok v r \<Rightarrow> v | _ \<Rightarrow> -1) = st) = nx"
        using y unfolding d nx_def final_line_def by (auto simp: Cons reply_line_def scan_three)
      then show ?thesis using at c by (subst complete_scan.simps) (simp add: Let_def cong: conj_cong)
    qed
    also have "complete_scan ?m heap st (?i + 1) nx
        = (xs \<noteq> [] \<and> (nx \<or> (\<exists>y \<in> set (tl xs). final_line st y)))"
      using Cons.IH [of "p @ x @ [NL]" nx] Cons.prems by simp
    also have "\<dots> = (\<exists>y \<in> set xs. final_line st y)"
      by (cases xs) (auto simp: nx_def)
    finally show ?thesis unfolding skip using False by simp
  qed
qed

lemma status_at_start:
  assumes "100 \<le> st" "st < 1000" "c = CHR '' '' \<or> c = CHR ''-''" "m = nat_str st @ c # r"
  shows "sscanf_int 0 None m = Inr (Some (int st))" and "m ! 3 = c" and "4 \<le> length m"
    and "line_code m = int st" and "\<not> is_space (hd m)"
proof -
  have c: "\<not> is_digit_in 10 c" using assms(3) by (auto simp: is_digit_in_def digit_val_def)
  show "sscanf_int 0 None m = Inr (Some (int st))"
    using assms c sscanf_int_nat_str [of "int st" "c # r"] by (simp add: int_str_def in_int_def)
  have three: "length (nat_str st) = 3" using assms(1,2) by (rule three_digits)
  then show "m ! 3 = c" "4 \<le> length m" by (simp_all add: assms(4) nth_append)
  show "line_code m = int st"
    using assms(1) scan_num_nat_str_width [of 0 st "c # r"] three by (simp add: line_code_def assms(4))
  obtain d where "d < 10" "hd (nat_str st) = digit_char d" using nat_str_hd by blast
  then show "\<not> is_space (hd m)" by (simp add: assms(4) digit_char_no_space)
qed

text \<open>
  The lines of a reply with the status \<open>st\<close>: one line, or a first line with a dash, others in
  between and a last one with a space.
\<close>

fun reply_lines :: "nat \<Rightarrow> (string \<times> string list) option \<Rightarrow> string \<Rightarrow> string list" where
  "reply_lines st None t = [nat_str st @ CHR '' '' # t]"
| "reply_lines st (Some (t0, mid)) t = (nat_str st @ CHR ''-'' # t0) # mid @ [nat_str st @ CHR '' '' # t]"

definition reply_ok :: "nat \<Rightarrow> (string \<times> string list) option \<Rightarrow> string \<Rightarrow> bool" where
  "reply_ok st ml t =
     (100 \<le> st \<and> st < 1000 \<and> list_all reply_line (reply_lines st ml t) \<and>
      (case ml of None \<Rightarrow> True | Some (t0, mid) \<Rightarrow> list_all (\<lambda>l. \<not> final_line (int st) l) mid))"

lemma text_lines_append [simp]: "text_lines (xs @ ys) = text_lines xs @ text_lines ys"
  by (simp add: text_lines_def)

lemma cstring_text_lines: "list_all reply_line ls \<Longrightarrow> cstring (text_lines ls) = text_lines ls"
  by (induction ls) (auto simp: cstring_def reply_line_def intro!: takeWhile_id)

text \<open>One step of the outer loop on the next line of a reply of several lines.\<close>

lemma ftp_wait_loop_step:
  assumes "fd \<in> set (w_open w)" "100 \<le> st" "st < 1000" "d = nat_str st @ CHR ''-'' # t0"
    "list_all reply_line (d # ds @ [x])" "list_all (\<lambda>l. \<not> final_line (int st) l) ds"
    "rx_bytes (w_rx w fd) = x @ NL # r"
  shows "\<exists>f. rx_bytes f = r \<and>
    ftp_wait_loop fd heap (text_lines (d # ds)) s0 w =
      (if final_line (int st) x
       then Inr (Some (text_lines (d # ds @ [x]), int st), int st, set_rx fd f w)
       else ftp_wait_loop fd heap (text_lines (d # ds @ [x])) (int st) (set_rx fd f w))"
proof -
  obtain f where f: "ftp_read_line fd (text_lines (d # ds)) w
      = (Some (text_lines (d # ds) @ x @ [NL]), set_rx fd f w)" "rx_bytes f = r"
    using ftp_read_line_bytes [OF assms(1,7)] assms(5) by (auto simp: reply_line_def simp del: text_lines_simps)
  let ?m = "text_lines (d # ds @ [x])"
  have m: "?m = nat_str st @ CHR ''-'' # t0 @ NL # text_lines (ds @ [x])" by (simp add: assms(4))
  have c: "cell ?m heap 3 = CHR ''-''"
    using status_at_start(2,3) [OF assms(2,3) _ m] by (simp add: cell_def del: text_lines_append)
  have st: "sscanf_int 0 None (cstring ?m) = Inr (Some (int st))"
    unfolding cstring_text_lines [OF assms(5)] using status_at_start(1) [OF assms(2,3) _ m] by simp
  have "complete_scan ?m heap (int st) 0 False = final_line (int st) x"
    using complete_scan_lines [of "d # ds @ [x]" "[]" heap "int st" False] assms(5,6)
    by (auto simp: list_all_iff)
  with f c st show ?thesis
    by (intro exI [of _ f]) (simp add: ftp_wait_loop.simps [of fd heap _ s0 w] Let_def)
qed

lemma final_status_line:
  assumes "100 \<le> st" "st < 1000"
  shows "final_line (int st) (nat_str st @ CHR '' '' # t)"
  using status_at_start [OF assms _ refl, of "CHR '' ''" t] by (simp add: final_line_def)

lemma ftp_wait_loop_more:
  assumes "fd \<in> set (w_open w)" "100 \<le> st" "st < 1000"
    "d = nat_str st @ CHR ''-'' # t0" "l = nat_str st @ CHR '' '' # t"
    "list_all reply_line (d # ds @ mid @ [l])" "list_all (\<lambda>l. \<not> final_line (int st) l) (ds @ mid)"
    "rx_bytes (w_rx w fd) = text_lines (mid @ [l]) @ rest"
  shows "\<exists>f. ftp_wait_loop fd heap (text_lines (d # ds)) s0 w
      = Inr (Some (text_lines (d # ds @ mid @ [l]), int st), int st, set_rx fd f w)
    \<and> rx_bytes f = rest"
  using assms(1,6-8)
proof (induction mid arbitrary: ds w s0)
  case Nil
  then show ?case
    using ftp_wait_loop_step [OF Nil.prems(1) assms(2-4), of ds l rest heap s0] final_status_line [OF assms(2,3)]
    by (auto simp: assms(5))
next
  case (Cons x mid)
  obtain f where f: "rx_bytes f = text_lines (mid @ [l]) @ rest"
      "ftp_wait_loop fd heap (text_lines (d # ds)) s0 w
        = ftp_wait_loop fd heap (text_lines (d # ds @ [x])) (int st) (set_rx fd f w)"
    using ftp_wait_loop_step [OF Cons.prems(1) assms(2-4), of ds x "text_lines (mid @ [l]) @ rest" heap s0] Cons.prems
    by auto
  then obtain g where "ftp_wait_loop fd heap (text_lines (d # ds @ [x])) (int st) (set_rx fd f w)
      = Inr (Some (text_lines (d # (ds @ [x]) @ mid @ [l]), int st), int st,
          set_rx fd g (set_rx fd f w))" "rx_bytes g = rest"
    using Cons.IH [of "set_rx fd f w" "ds @ [x]" "int st"] Cons.prems
    by auto
  with f(2) show ?case by (intro exI [of _ g]) (simp add:)
qed

text \<open>
  The reply is read to its end and not further, whatever the heap held, and whatever the pieces
  it arrives in: status, first line as the message, and the bytes behind it left in the socket.
\<close>

lemma ftp_wait_reply:
  assumes "f_fd c \<in> set (w_open w)" "reply_ok st ml t"
    "rx_bytes (w_rx w (f_fd c)) = text_lines (reply_lines st ml t) @ rest"
  shows "\<exists>w'. ftp_wait w c = Inr (int st, w', c\<lparr>f_status := int st,
           f_message := Some (takeWhile (\<lambda>x. x \<noteq> CR) (hd (reply_lines st ml t)))\<rparr>)
         \<and> rx_bytes (w_rx w' (f_fd c)) = rest"
proof -
  define heap where "heap = w_heap w (w_waits w)"
  let ?w = "w\<lparr>w_waits := Suc (w_waits w)\<rparr>" and ?fd = "f_fd c" and ?ls = "reply_lines st ml t"
  have r: "100 \<le> st" "st < 1000" "list_all reply_line ?ls" using assms(2) by (simp_all add: reply_ok_def)
  obtain d ds where d: "?ls = d # ds" by (cases ml) auto
  obtain c0 t0 where c0: "d = nat_str st @ c0 # t0" "c0 = CHR '' '' \<or> c0 = CHR ''-''"
    using d by (cases ml) auto
  obtain f where f: "ftp_read_line ?fd [] ?w = (Some (d @ [NL]), set_rx ?fd f ?w)"
      "rx_bytes f = text_lines ds @ rest"
    using ftp_read_line_bytes [of ?fd ?w d "text_lines ds @ rest" "[]"] assms(1,3) r(3) d
    by (auto simp: reply_line_def)
  note s = status_at_start [OF r(1,2) c0(2), of "d @ [NL]" "t0 @ [NL]"]
  have cs: "cstring (d @ [NL]) = d @ [NL]" using cstring_text_lines [of "[d]"] r(3) d by simp
  have cell3: "cell (d @ [NL]) heap 3 = c0" using s(2,3) c0(1) by (simp add: cell_def)
  have scan: "complete_scan (d @ [NL]) heap (int st) 0 b = b" for b
    using complete_scan_lines [of "[d]" "[]" heap "int st" b] r(3) d by simp
  have loop: "\<exists>f. ftp_wait_loop ?fd heap [] (f_status c) ?w
      = Inr (Some (text_lines ?ls, int st), int st, set_rx ?fd f ?w) \<and> rx_bytes f = rest"
  proof (cases ml)
    case None
    with d c0 have "c0 = CHR '' ''" "ds = []" by auto
    with f s(1) c0(1) cs cell3 scan d show ?thesis
      by (intro exI [of _ f]) (simp add: ftp_wait_loop.simps [of ?fd heap _ _ ?w] Let_def)
  next
    case (Some p)
    then obtain h mid where p: "ml = Some (h, mid)" by (cases p) auto
    with d c0 have ml: "c0 = CHR ''-''" "ds = mid @ [nat_str st @ CHR '' '' # t]" by auto
    let ?w1 = "set_rx ?fd f ?w"
    have "ftp_wait_loop ?fd heap [] (f_status c) ?w = ftp_wait_loop ?fd heap (text_lines [d]) (int st) ?w1"
      using f s(1) c0(1) cs cell3 scan d ml(1) by (simp add: ftp_wait_loop.simps [of ?fd heap "[]" _ ?w] Let_def)
    moreover have "\<exists>g. ftp_wait_loop ?fd heap (text_lines (d # [])) (int st) ?w1
        = Inr (Some (text_lines (d # [] @ mid @ [nat_str st @ CHR '' '' # t]), int st), int st,
            set_rx ?fd g ?w1) \<and> rx_bytes g = rest"
      using assms(1,2) r d ml p f(2) c0(1) by (intro ftp_wait_loop_more) (auto simp: reply_ok_def)
    ultimately show ?thesis using d ml(2) by auto
  qed
  have first: "takeWhile (\<lambda>x. x \<noteq> NL) (cstring (text_lines (d # ds))) = d"
    using r(3) d cstring_text_lines [OF r(3)[unfolded d]] by (auto simp: reply_line_def intro!: takeWhile_append_stop)
  from loop obtain g where g: "ftp_wait_loop ?fd heap [] (f_status c) ?w
      = Inr (Some (text_lines ?ls, int st), int st, set_rx ?fd g ?w)" "rx_bytes g = rest" by blast
  then show ?thesis by (simp add: ftp_wait_def heap_def [symmetric] Let_def first d del: text_lines_simps)
qed

subsection \<open>The passive address\<close>

fun comma_list :: "nat list \<Rightarrow> string" where
  "comma_list [] = []"
| "comma_list [n] = nat_str n"
| "comma_list (n # m # ns) = nat_str n @ CHR '','' # comma_list (m # ns)"

definition ends_number :: "string \<Rightarrow> bool" where
  "ends_number r = (r = [] \<or> digit_val (hd r) = None \<and> hd r \<noteq> CHR ''x'' \<and> hd r \<noteq> CHR ''X'')"

lemma scan_num_any:
  assumes "ends_number r"
  shows "scan_num 0 None (nat_str n @ r) = Scan_ok (int n) r"
proof (cases "0 < n")
  case True
  with assms show ?thesis
    by (intro scan_num_nat_str) (auto simp: ends_number_def is_digit_in_def)
next
  case False
  moreover have z: "nat_str 0 = ''0''" by code_simp
  moreover have "\<not> is_space CHR ''0''" "is_digit_in 8 CHR ''0''" "digits_value 8 ''0'' = 0" by code_simp+
  ultimately show ?thesis using assms
    by (cases r) (auto simp: Let_def scan_num_def scan_unsigned_def ends_number_def is_digit_in_def)
qed

lemma comma_list_first: "ns \<noteq> [] \<Longrightarrow> \<exists>r. comma_list ns = nat_str (hd ns) @ r"
  by (cases ns rule: comma_list.cases) auto

lemma scan_commas_list:
  "ns \<noteq> [] \<Longrightarrow> list_all (\<lambda>n. in_int (int n)) ns \<Longrightarrow> ends_number r \<Longrightarrow>
    scan_commas (length ns) (comma_list ns @ r) = Inr (map int ns)"
proof (induction ns rule: comma_list.induct)
  case (2 n)
  then show ?case by (simp add: scan_num_any)
next
  case (3 n m ns)
  have "ends_number (CHR '','' # comma_list (m # ns) @ r)" by (simp add: ends_number_def)
  then have "scan_num 0 None (nat_str n @ CHR '','' # comma_list (m # ns) @ r)
      = Scan_ok (int n) (CHR '','' # comma_list (m # ns) @ r)"
    by (rule scan_num_any)
  with 3 show ?case by simp
qed simp

text \<open>Text without digits that does not end in white space or a sign holds no number.\<close>

definition wordy :: "string \<Rightarrow> bool" where
  "wordy p = ((\<forall>c \<in> set p. \<not> is_digit_in 10 c) \<and> (p \<noteq> [] \<longrightarrow> \<not> is_space (last p) \<and> last p \<noteq> CHR ''-'' \<and> last p \<noteq> CHR ''+''))"

lemma wordy_Cons: "wordy (c # p) \<Longrightarrow> wordy p"
  by (auto simp: wordy_def)

lemma scan_unsigned_no_digit: "\<not> is_digit_in 10 c \<Longrightarrow> scan_unsigned 0 (c # s) = None"
  by (auto simp: scan_unsigned_def is_digit_in_def digit_val_def)

lemma scan_num_wordy:
  "wordy p \<Longrightarrow> p \<noteq> [] \<Longrightarrow> scan_num 0 None (p @ r) = Scan_fail"
proof (induction p)
  case Nil
  then show ?case by simp
next
  case (Cons c p)
  show ?case
  proof (cases "is_space c")
    case True
    with Cons.prems have "p \<noteq> []" by (auto simp: wordy_def)
    with Cons True show ?thesis by (simp add: wordy_Cons)
  next
    case False
    show ?thesis
    proof (cases "c = CHR ''-'' \<or> c = CHR ''+''")
      case True
      with Cons.prems obtain d q where "p = d # q" "\<not> is_digit_in 10 d"
        by (cases p) (auto simp: wordy_def)
      with False True show ?thesis by (auto simp: scan_num_def scan_unsigned_no_digit)
    next
      case no: False
      moreover have "\<not> is_digit_in 10 c" using Cons.prems by (simp add: wordy_def)
      ultimately show ?thesis using False by (auto simp: scan_num_def scan_unsigned_no_digit)
    qed
  qed
qed

lemma find_pasv_words:
  "wordy p \<Longrightarrow> find_pasv (p @ r) = find_pasv r"
proof (induction p)
  case Nil
  then show ?case by simp
next
  case (Cons c p)
  have "scan_num 0 None ((c # p) @ r) = Scan_fail"
    by (rule scan_num_wordy [OF Cons.prems]) simp
  then have "scan_commas 6 (c # p @ r) = Inr []" by (simp add: numeral_eq_Suc)
  with Cons show ?case by (simp add: wordy_Cons)
qed

lemma find_pasv_address:
  assumes "length ns = 6" "list_all (\<lambda>n. in_int (int n)) ns" "ends_number r" "wordy p"
  shows "find_pasv (''227 '' @ p @ comma_list ns @ r) = Inr (Some (map int ns))"
proof -
  obtain n q where q: "comma_list ns = nat_str n @ q" using comma_list_first [of ns] assms(1) by fastforce
  then obtain c s where s: "comma_list ns @ r = c # s"
    using nat_str_not_Nil [of n] by (cases "nat_str n") auto
  have hit: "find_pasv (comma_list ns @ r) = Inr (Some (map int ns))"
    using scan_commas_list [of ns r] assms(1-3) s by force
  have e: "ends_number (CHR '' '' # p @ comma_list ns @ r)" by (simp add: ends_number_def digit_val_def)
  have step: "scan_commas 6 (nat_str k @ CHR '' '' # p @ comma_list ns @ r) = Inr [int k]" if "in_int (int k)" for k
    using scan_num_any [OF e, of k] that by (simp add: numeral_eq_Suc)
  have d: "nat_str 227 = ''227''" "nat_str 27 = ''27''" "nat_str 7 = ''7''"
    by code_simp+
  have "find_pasv (''227 '' @ p @ comma_list ns @ r) = find_pasv (CHR '' '' # p @ comma_list ns @ r)"
    using step [of 227] step [of 27] step [of 7] by (simp add: d in_int_def)
  also have "\<dots> = find_pasv (p @ comma_list ns @ r) \<or> find_pasv (CHR '' '' # p @ comma_list ns @ r) = Inr (Some (map int ns))"
  proof (cases "p = []")
    case True
    have sp: "is_space CHR '' ''" by (simp add: is_space_def)
    have "scan_commas 6 (CHR '' '' # comma_list ns @ r) = scan_commas 6 (comma_list ns @ r)"
      by (simp add: numeral_eq_Suc sp)
    with True scan_commas_list [of ns r] assms(1-3) show ?thesis by force
  next
    case False
    have sp: "is_space CHR '' ''" by (simp add: is_space_def)
    have "scan_commas 6 (CHR '' '' # p @ comma_list ns @ r) = Inr []"
      using scan_num_wordy [OF assms(4) False, of "comma_list ns @ r"] by (simp add: numeral_eq_Suc sp)
    then show ?thesis by simp
  qed
  finally show ?thesis using hit assms(4) by (auto simp: find_pasv_words)
qed

text \<open>A 227 reply makes \<open>ftp_data\<close> connect to the address and the port it announces.\<close>

lemma ftp_data_passive:
  assumes "f_data_fd c \<le> 0" "ftp_ask ''PASV'' ''PASV'' w c = Inr (227, w1, c1)"
    "f_message c1 = Some (''227 '' @ p @ comma_list [a1, a2, a3, a4, p1, p2] @ r)"
    "\<forall>n \<in> {a1, a2, a3, a4, p1, p2}. n < 256" "ends_number r" "wordy p"
    "tcp_connect (nat_str a1 @ ''.'' @ nat_str a2 @ ''.'' @ nat_str a3 @ ''.'' @ nat_str a4)
       (int (p1 * 256 + p2)) (f_local_if c1) w1 = (fd, w2)" "fd \<noteq> -1"
  shows "ftp_data w c = Inr (True, w2, c1\<lparr>f_data_fd := fd\<rparr>)"
proof -
  have "find_pasv (''227 '' @ p @ comma_list [a1, a2, a3, a4, p1, p2] @ r)
      = Inr (Some (map int [a1, a2, a3, a4, p1, p2]))"
    using assms(4-6) by (intro find_pasv_address) (auto simp: in_int_def)
  moreover have "c_div 227 100 = 2" by (simp add: c_div_def)
  ultimately show ?thesis
    using assms by (simp add: ftp_data_def pasv_host_def int_str_def in_int_def del: find_pasv.simps comma_list.simps)
qed

subsection \<open>Contract\<close>


definition example_reply_ftp :: world where
  "example_reply_ftp = example_world\<lparr>w_rx := (\<lambda>_. [Data (''230-Hello'' @ [CR, NL] @ ''   you''),
     Data (''!'' @ [NL] @ ''230 done'' @ [CR]), Data ([NL] @ ''250 x'')])\<rparr>"


lemma comma_list_no:
  "digit_val x = None \<Longrightarrow> x \<noteq> CHR '','' \<Longrightarrow> x \<notin> set (comma_list ns)"
  by (induction ns rule: comma_list.induct) simp_all

lemma comma_list_ends: "CR \<notin> set (comma_list ns)" "NL \<notin> set (comma_list ns)" "NUL \<notin> set (comma_list ns)"
  by (rule comma_list_no; simp add: digit_val_def)+

text \<open>\<open>ftp_data\<close> dials the address of the passive reply.  When the server answers
  \<open>227\<close> with any words and six numbers below 256, the client connects to the host and the 16-bit port they
  spell, keeps the descriptor if that succeeds and reports failure if it does not.\<close>

lemma ftp_data_dials:
  assumes "f_data_fd c \<le> 0" "f_fd c \<in> set (w_open w)" "\<not> w_broken w (f_fd c)"
    "rx_bytes (w_rx w (f_fd c)) = ''227 '' @ p @ comma_list [a1, a2, a3, a4, p1, p2] @ r @ NL # rest"
    "\<forall>n \<in> {a1, a2, a3, a4, p1, p2}. n < 256" "ends_number r" "wordy p"
    "\<forall>x \<in> {CR, NL, NUL}. x \<notin> set p" "NL \<notin> set r" "NUL \<notin> set r"
  shows "\<exists>w1. rx_bytes (w_rx w1 (f_fd c)) = rest \<and>
    (\<forall>fd w2. tcp_connect (nat_str a1 @ ''.'' @ nat_str a2 @ ''.'' @ nat_str a3 @ ''.'' @ nat_str a4)
       (int (p1 * 256 + p2)) (f_local_if c) w1 = (fd, w2) \<longrightarrow>
       (\<exists>c'. ftp_data w c = Inr (fd \<noteq> -1, w2, c') \<and> f_data_fd c' = fd))"
proof -
  let ?ns = "[a1, a2, a3, a4, p1, p2]" and ?r = "takeWhile (\<lambda>x. x \<noteq> CR) r"
  have n227: "nat_str 227 = ''227''" by code_simp
  let ?t = "p @ comma_list ?ns @ r"
  have ok: "reply_ok 227 None ?t"
    using assms(8-10) comma_list_ends [of ?ns]
    by (simp add: reply_ok_def reply_line_def n227 is_space_def del: comma_list.simps)
  obtain wb okb where wb: "sys_write (f_fd c) (snprintf_buf (MAX_STRING - 3) ''PASV'' @ [CR, NL]) w = (okb, wb)"
    by fastforce
  then have wb': "okb" "w_rx wb = w_rx w" "w_open wb = w_open w"
    using assms(2,3) sys_write_frame [OF wb] by (auto simp: sys_write_def)
  define c1 where "c1 = c\<lparr>f_status := int 227, f_message := Some (takeWhile (\<lambda>x. x \<noteq> CR) (hd (reply_lines 227 None ?t)))\<rparr>"
  obtain w1 where w1: "ftp_wait wb c = Inr (227, w1, c1)" "rx_bytes (w_rx w1 (f_fd c)) = rest"
    using ftp_wait_reply [of c wb 227 None ?t rest] assms(2,4) ok wb'
    by (auto simp: text_lines_def n227 c1_def simp del: comma_list.simps)
  have ask: "ftp_ask ''PASV'' ''PASV'' w c = Inr (227, w1, c1)"
    using w1 wb wb' by (simp add: ftp_ask_def ftp_command_def)
  have "f_message c1 = Some (''227 '' @ p @ comma_list ?ns @ ?r)"
    using assms(8) comma_list_ends [of ?ns]
    by (simp add: c1_def n227 takeWhile_append del: comma_list.simps)
  then have msg: "f_message c1 = Some (''227 '' @ p @ comma_list ?ns @ ?r)" .
  have lif: "f_local_if c1 = f_local_if c" by (simp add: c1_def)
  have "ends_number ?r" using assms(6) by (cases r) (auto simp: ends_number_def)
  then have find: "find_pasv (''227 '' @ p @ comma_list ?ns @ ?r) = Inr (Some (map int ?ns))"
    using assms(5,7) by (intro find_pasv_address) (auto simp: in_int_def)
  have div: "c_div 227 100 = 2" by (simp add: c_div_def)
  have put: "put_message pasv_failed (c1\<lparr>f_data_fd := -1\<rparr>) = Inr (c1\<lparr>f_data_fd := -1, f_message := Some pasv_failed\<rparr>)"
    using msg by (simp add: put_message_def strcpy_buf_def pasv_failed_def)
  have "\<exists>c'. ftp_data w c = Inr (fd \<noteq> -1, w2, c') \<and> f_data_fd c' = fd"
    if "tcp_connect (nat_str a1 @ ''.'' @ nat_str a2 @ ''.'' @ nat_str a3 @ ''.'' @ nat_str a4)
       (int (p1 * 256 + p2)) (f_local_if c) w1 = (fd, w2)" for fd w2
    using that assms(1,5) msg find
    by (simp add: ftp_data_def ask div pasv_host_def int_str_def in_int_def put lif
        del: find_pasv.simps comma_list.simps)
  with w1(2) show ?thesis by blast
qed

lemma ftp_data_dials_witness:
  "\<exists>w1. rx_bytes (w_rx w1 3) = ''x'' \<and>
    (\<forall>fd w2. tcp_connect (nat_str 10 @ ''.'' @ nat_str 0 @ ''.'' @ nat_str 0 @ ''.'' @ nat_str 7)
       (int (4 * 256 + 1)) '''' w1 = (fd, w2) \<longrightarrow>
       (\<exists>c'. ftp_data (example_world\<lparr>w_rx := (\<lambda>_. [Data ''227 Entering Passive Mode ('', Data (''10,0,0,7,4,1).'' @ [CR, NL] @ ''x'')])\<rparr>)
          (ftp_zero\<lparr>f_fd := 3\<rparr>) = Inr (fd \<noteq> -1, w2, c') \<and> f_data_fd c' = fd))"
  using ftp_data_dials [of "ftp_zero\<lparr>f_fd := 3\<rparr>" "example_world\<lparr>w_rx := (\<lambda>_. [Data ''227 Entering Passive Mode ('', Data (''10,0,0,7,4,1).'' @ [CR, NL] @ ''x'')])\<rparr>"
     "''Entering Passive Mode (''" 10 0 0 7 4 1 "'').'' @ [CR]" "''x''"]
  by (simp add: example_world_def ftp_zero_def ends_number_def digit_val_def wordy_def is_digit_in_def is_space_def print_eval)

end
