(* ===== verification/Conf.thy ===== *)
theory Conf
  imports Ftp
begin

text \<open>
  \<^verbatim>\<open>final/client/ServerSide/conf.c\<close> and \<^verbatim>\<open>get_if_ip\<close> of
  \<^verbatim>\<open>tcp.c\<close>: the configuration, its file format and the list of local interfaces.

  What the functions read from outside is an argument: \<open>files\<close> gives the contents of a file,
  \<open>env\<close> the environment, \<open>ifaddr\<close> the address of an interface.
\<close>

abbreviation MAX_ADD_HEADERS :: nat where "MAX_ADD_HEADERS \<equiv> 10"

text \<open>
  \<open>conf_t\<close>.  The circular list of interfaces is the list of its texts from the current one on;
  \<open>None\<close> is a text that was never written.  \<open>k_no_proxy\<close> has embedded zero bytes once
  \<open>conf_init\<close> has cut it.
\<close>

record conf =
  k_default_filename :: string
  k_http_proxy :: string
  k_no_proxy :: string
  k_strip_cgi_parameters :: int
  k_save_state_interval :: int
  k_connection_timeout :: int
  k_reconnect_delay :: int
  k_num_connections :: int
  k_buffer_size :: int
  k_max_speed :: int
  k_verbose :: int
  k_alternate_output :: int
  k_interfaces :: "string option list"
  k_search_timeout :: int
  k_search_threads :: int
  k_search_amount :: int
  k_search_top :: int
  k_add_header_count :: int
  k_add_header :: "string list"
  k_user_agent :: string

definition conf_default :: conf where
  "conf_default = \<lparr>k_default_filename = ''default'', k_http_proxy = '''', k_no_proxy = '''',
     k_strip_cgi_parameters = 1, k_save_state_interval = 10, k_connection_timeout = 45,
     k_reconnect_delay = 20, k_num_connections = 4, k_buffer_size = 5120, k_max_speed = 0,
     k_verbose = 1, k_alternate_output = 0, k_interfaces = [Some ''''],
     k_search_timeout = 10, k_search_threads = 3, k_search_amount = 15, k_search_top = 3,
     k_add_header_count = 0, k_add_header = replicate MAX_ADD_HEADERS '''', k_user_agent = ''''\<rparr>"

subsection \<open>Interfaces\<close>

abbreviation IFNAMSIZ :: nat where "IFNAMSIZ \<equiv> 16"

text \<open>
  \<open>get_if_ip\<close>: the address as text.  Without an answer the caller's buffer, fresh from
  \<open>malloc\<close>, stays unwritten.
\<close>

definition get_if_ip :: "(string \<Rightarrow> string option) \<Rightarrow> string \<Rightarrow> string option res" where
  "get_if_ip ifaddr iface = rbind (strcpy_buf IFNAMSIZ iface) (\<lambda>n. Inr (ifaddr n))"

definition is_blank :: "char \<Rightarrow> bool" where
  "is_blank c = (c = CHR '' '' \<or> c = CHR 0x09)"

definition iface_text :: "(string \<Rightarrow> string option) \<Rightarrow> string \<Rightarrow> string option res" where
  "iface_text ifaddr s =
     (if s = [] \<or> schar (hd s) < 48 \<or> 57 < schar (hd s) then get_if_ip ifaddr s
      else rbind (strcpy_buf MAX_STRING s) (\<lambda>t. Inr (Some t)))"

function iface_list :: "(string \<Rightarrow> string option) \<Rightarrow> string \<Rightarrow> string option list res" where
  "iface_list ifaddr s =
     (let s1 = dropWhile is_blank s;
          tok = takeWhile (\<lambda>c. \<not> is_blank c) s1;
          r = drop (Suc (length tok)) s1
      in rbind (iface_text ifaddr tok) (\<lambda>t.
         if r = [] then Inr [t]
         else rbind (iface_list ifaddr r) (\<lambda>ts. Inr (t # ts))))"
  by pat_completeness auto
termination
proof (relation "measure (\<lambda>(f, s). length s)", goal_cases)
  case (2 ifaddr s s1 tok r t)
  then have "length r < length s1" by auto
  moreover have "length s1 \<le> length s" using 2(1) by (simp add: length_dropWhile_le)
  ultimately show ?case by simp
qed simp

declare iface_list.simps [simp del]

definition parse_interfaces :: "(string \<Rightarrow> string option) \<Rightarrow> string \<Rightarrow> conf \<Rightarrow> conf res" where
  "parse_interfaces ifaddr s k =
     (if s = [] then Inr (k\<lparr>k_interfaces := [Some '''']\<rparr>)
      else rbind (iface_list ifaddr s) (\<lambda>l. Inr (k\<lparr>k_interfaces := l\<rparr>)))"

subsection \<open>The file\<close>

text \<open>
  One line: at most 100 characters up to a line end or a hash sign (then one \<open>s\<close> of the
  format may match), the rest of the line skipped.  The result is the text, what follows and
  whether the end of the file was hit.
\<close>

definition read_conf_line :: "string \<Rightarrow> string \<times> string \<times> bool" where
  "read_conf_line inp =
     (let s = take 100 (takeWhile (\<lambda>c. c \<noteq> NL \<and> c \<noteq> CHR ''#'') inp);
          t1 = drop (length s) inp;
          t2 = (if s \<noteq> [] \<and> is_prefix ''s'' t1 then tl t1 else t1);
          t3 = dropWhile (\<lambda>c. c \<noteq> NL) t2
      in (cstring s, tl t3, t3 = []))"

text \<open>The key of a line; a line that starts with a separator leaves the key of the line before.\<close>

definition conf_key :: "string \<Rightarrow> string option \<Rightarrow> string option" where
  "conf_key s old =
     (let k = takeWhile (\<lambda>c. c \<noteq> CHR ''='' \<and> c \<noteq> CHR '' '' \<and> c \<noteq> CHR 0x09) s
      in if k = [] then old else Some k)"

text \<open>
  The value: behind the first \<open>=\<close>, without white space around it.  An empty value makes the
  trimming loop read \<open>value[-1]\<close>.
\<close>

definition conf_value :: "string \<Rightarrow> string res" where
  "conf_value s =
     (let v = dropWhile is_space (tl (dropWhile (\<lambda>c. c \<noteq> CHR ''='') s))
      in if v = [] then Inl Out_of_bounds else Inr (rev (dropWhile is_space (rev v))))"

definition set_number :: "string \<Rightarrow> int \<Rightarrow> int res" where
  "set_number v old = rbind (sscanf_int 0 None v) (\<lambda>n. Inr (case n of None \<Rightarrow> old | Some x \<Rightarrow> x))"

text \<open>The keys, in the order of the code; the result is whether the line was understood.\<close>

definition conf_string_key :: "string \<Rightarrow> string \<Rightarrow> conf \<Rightarrow> (bool \<times> conf) res" where
  "conf_string_key key v k =
     (if key = ''default_filename'' then rbind (strcpy_buf MAX_STRING v) (\<lambda>t. Inr (True, k\<lparr>k_default_filename := t\<rparr>))
      else if key = ''http_proxy'' then rbind (strcpy_buf MAX_STRING v) (\<lambda>t. Inr (True, k\<lparr>k_http_proxy := t\<rparr>))
      else if key = ''no_proxy'' then rbind (strcpy_buf MAX_STRING v) (\<lambda>t. Inr (True, k\<lparr>k_no_proxy := t\<rparr>))
      else Inr (False, k))"

definition conf_number_key :: "string \<Rightarrow> string \<Rightarrow> conf \<Rightarrow> (bool \<times> conf) res" where
  "conf_number_key key v k =
     (if key = ''strip_cgi_parameters'' then rbind (set_number v (k_strip_cgi_parameters k)) (\<lambda>n. Inr (True, k\<lparr>k_strip_cgi_parameters := n\<rparr>))
      else if key = ''save_state_interval'' then rbind (set_number v (k_save_state_interval k)) (\<lambda>n. Inr (True, k\<lparr>k_save_state_interval := n\<rparr>))
      else if key = ''connection_timeout'' then rbind (set_number v (k_connection_timeout k)) (\<lambda>n. Inr (True, k\<lparr>k_connection_timeout := n\<rparr>))
      else if key = ''reconnect_delay'' then rbind (set_number v (k_reconnect_delay k)) (\<lambda>n. Inr (True, k\<lparr>k_reconnect_delay := n\<rparr>))
      else if key = ''num_connections'' then rbind (set_number v (k_num_connections k)) (\<lambda>n. Inr (True, k\<lparr>k_num_connections := n\<rparr>))
      else if key = ''buffer_size'' then rbind (set_number v (k_buffer_size k)) (\<lambda>n. Inr (True, k\<lparr>k_buffer_size := n\<rparr>))
      else if key = ''max_speed'' then rbind (set_number v (k_max_speed k)) (\<lambda>n. Inr (True, k\<lparr>k_max_speed := n\<rparr>))
      else if key = ''verbose'' then rbind (set_number v (k_verbose k)) (\<lambda>n. Inr (True, k\<lparr>k_verbose := n\<rparr>))
      else if key = ''alternate_output'' then rbind (set_number v (k_alternate_output k)) (\<lambda>n. Inr (True, k\<lparr>k_alternate_output := n\<rparr>))
      else if key = ''search_timeout'' then rbind (set_number v (k_search_timeout k)) (\<lambda>n. Inr (True, k\<lparr>k_search_timeout := n\<rparr>))
      else if key = ''search_threads'' then rbind (set_number v (k_search_threads k)) (\<lambda>n. Inr (True, k\<lparr>k_search_threads := n\<rparr>))
      else if key = ''search_amount'' then rbind (set_number v (k_search_amount k)) (\<lambda>n. Inr (True, k\<lparr>k_search_amount := n\<rparr>))
      else if key = ''search_top'' then rbind (set_number v (k_search_top k)) (\<lambda>n. Inr (True, k\<lparr>k_search_top := n\<rparr>))
      else Inr (False, k))"

text \<open>
  The lookups behind the error exit: only keys that were understood before reach them, and the
  macro makes the text \<open>add_header[i]\<close> of its argument.
\<close>

fun set_add_headers :: "nat \<Rightarrow> nat \<Rightarrow> string \<Rightarrow> conf \<Rightarrow> conf res" where
  "set_add_headers 0 i v k = Inr k"
| "set_add_headers (Suc n) i v k =
     (if MAX_ADD_HEADERS \<le> i then Inl Out_of_bounds
      else rbind (strcpy_buf MAX_STRING v) (\<lambda>t.
           set_add_headers n (Suc i) v (k\<lparr>k_add_header := (k_add_header k)[i := t]\<rparr>)))"

definition conf_late_keys :: "string \<Rightarrow> string \<Rightarrow> conf \<Rightarrow> conf res" where
  "conf_late_keys key v k =
     rbind (if key = ''add_header_count''
            then rbind (set_number v (k_add_header_count k)) (\<lambda>n. Inr (k\<lparr>k_add_header_count := n\<rparr>))
            else Inr k) (\<lambda>k1.
     rbind (if key = ''add_header[i]'' then set_add_headers (nat (k_add_header_count k1)) 0 v k1 else Inr k1) (\<lambda>k2.
     if key = ''user_agent'' then rbind (strcpy_buf MAX_STRING v) (\<lambda>t. Inr (k2\<lparr>k_user_agent := t\<rparr>))
     else Inr k2))"

definition conf_line :: "(string \<Rightarrow> string option) \<Rightarrow> string \<Rightarrow> string \<Rightarrow> conf \<Rightarrow> (bool \<times> conf) res" where
  "conf_line ifaddr key v k =
     rbind (conf_string_key key v k) (\<lambda>(st1, k1).
     rbind (conf_number_key key v k1) (\<lambda>(st2, k2).
     rbind (if key = ''interfaces'' then rbind (parse_interfaces ifaddr v k2) (\<lambda>k3. Inr (True, k3))
            else Inr (st1 \<or> st2 \<or> key = ''speed_type'', k2)) (\<lambda>(st, k3).
     if \<not> st then Inr (False, k3)
     else rbind (conf_late_keys key v k3) (\<lambda>k4. Inr (True, k4)))))"

text \<open>The loop over the lines; the result is false at the first line that is not understood.\<close>

function conf_loop :: "(string \<Rightarrow> string option) \<Rightarrow> string \<Rightarrow> string option \<Rightarrow> conf \<Rightarrow> (bool \<times> conf) res" where
  "conf_loop ifaddr inp key k =
     (case read_conf_line inp of (s, rest, eof) \<Rightarrow>
        if CHR ''='' \<notin> set s then (if eof then Inr (True, k) else conf_loop ifaddr rest key k)
        else rbind (conf_value s) (\<lambda>v.
             case conf_key s key of
               None \<Rightarrow> Inl Uninitialised
             | Some key' \<Rightarrow>
                 rbind (conf_line ifaddr key' v k) (\<lambda>(ok, k').
                 if \<not> ok then Inr (False, k')
                 else if eof then Inr (True, k')
                 else conf_loop ifaddr rest (Some key') k')))"
  by pat_completeness auto

lemma read_conf_line_shorter:
  assumes "read_conf_line inp = (s, rest, False)"
  shows "length rest < length inp"
proof -
  define s0 where "s0 = take 100 (takeWhile (\<lambda>c. c \<noteq> NL \<and> c \<noteq> CHR ''#'') inp)"
  define t1 where "t1 = drop (length s0) inp"
  define t2 where "t2 = (if s0 \<noteq> [] \<and> is_prefix ''s'' t1 then tl t1 else t1)"
  define t3 where "t3 = dropWhile (\<lambda>c. c \<noteq> NL) t2"
  have "rest = tl t3" "t3 \<noteq> []"
    using assms by (auto simp: read_conf_line_def Let_def s0_def t1_def t2_def t3_def)
  moreover have "length t3 \<le> length t2" by (simp add: t3_def length_dropWhile_le)
  moreover have "length t2 \<le> length inp" by (simp add: t2_def t1_def)
  ultimately show ?thesis by (cases t3) auto
qed

termination conf_loop
  by (relation "measure (\<lambda>(f, inp, key, k). length inp)") (auto dest: read_conf_line_shorter [OF sym])

declare conf_loop.simps [simp del]

definition conf_loadfile :: "(string \<Rightarrow> string option) \<Rightarrow> (string \<Rightarrow> string option) \<Rightarrow> string \<Rightarrow> conf \<Rightarrow> (bool \<times> conf) res" where
  "conf_loadfile files ifaddr path k =
     (case files path of None \<Rightarrow> Inr (True, k) | Some inp \<Rightarrow> conf_loop ifaddr inp None k)"

subsection \<open>Initialisation\<close>

definition cut_no_proxy :: "string \<Rightarrow> string" where
  "cut_no_proxy s = map (\<lambda>c. if c = CHR '','' then NUL else c) s"

text \<open>\<open>etcdir\<close> and \<open>agent\<close> are the compiled-in directory and user agent.\<close>

definition conf_init :: "string \<Rightarrow> string \<Rightarrow> (string \<Rightarrow> string option) \<Rightarrow> (string \<Rightarrow> string option) \<Rightarrow> (string \<Rightarrow> string option)
    \<Rightarrow> (bool \<times> conf) res" where
  "conf_init etcdir agent env files ifaddr =
     rbind (strncpy_buf MAX_STRING agent) (\<lambda>ua.
     rbind (case env ''http_proxy'' of
              Some p \<Rightarrow> strncpy_buf MAX_STRING p
            | None \<Rightarrow> (case env ''HTTP_PROXY'' of Some p \<Rightarrow> strncpy_buf MAX_STRING p | None \<Rightarrow> Inr '''')) (\<lambda>px.
     rbind (conf_loadfile files ifaddr (etcdir @ ''/ServerSiderc'')
              (conf_default\<lparr>k_user_agent := ua, k_http_proxy := px\<rparr>)) (\<lambda>(ok, k1).
     if \<not> ok then Inr (False, k1) else
     rbind (case env ''HOME'' of
              None \<Rightarrow> Inr (True, k1)
            | Some h \<Rightarrow> rbind (strcpy_buf MAX_STRING (h @ ''/.ServerSiderc'')) (\<lambda>p. conf_loadfile files ifaddr p k1)) (\<lambda>(ok2, k2).
     if \<not> ok2 then Inr (False, k2)
     else Inr (True, k2\<lparr>k_no_proxy := cut_no_proxy (k_no_proxy k2)\<rparr>)))))"

subsection \<open>What a file means\<close>

text \<open>
  A file as a user writes it, one assignment per line, and what it should do: the assignments
  one after the other, up to the first that is not understood.
\<close>

definition assignment_ok :: "string \<times> string \<Rightarrow> bool" where
  "assignment_ok kv =
     (case kv of (key, v) \<Rightarrow>
        key \<noteq> [] \<and> v \<noteq> [] \<and> length key + length v \<le> 97 \<and>
        (\<forall>c \<in> set key. c \<noteq> CHR ''='' \<and> c \<noteq> CHR ''#'' \<and> c \<noteq> NUL \<and> \<not> is_space c) \<and>
        (\<forall>c \<in> set v. c \<noteq> CHR ''#'' \<and> c \<noteq> NUL \<and> c \<noteq> NL) \<and>
        \<not> is_space (hd v) \<and> \<not> is_space (last v))"

definition render_conf :: "(string \<times> string) list \<Rightarrow> string" where
  "render_conf kvs = text_lines (map (\<lambda>(key, v). key @ '' = '' @ v) kvs)"

fun conf_apply :: "(string \<Rightarrow> string option) \<Rightarrow> (string \<times> string) list \<Rightarrow> conf \<Rightarrow> (bool \<times> conf) res" where
  "conf_apply ifaddr [] k = Inr (True, k)"
| "conf_apply ifaddr ((key, v) # kvs) k =
     rbind (conf_line ifaddr key v k) (\<lambda>(ok, k'). if \<not> ok then Inr (False, k') else conf_apply ifaddr kvs k')"

lemma read_conf_line_text:
  assumes "l \<noteq> []" "length l \<le> 100" "\<forall>c \<in> set l. c \<noteq> NL \<and> c \<noteq> CHR ''#'' \<and> c \<noteq> NUL"
  shows "read_conf_line (l @ NL # r) = (l, r, False)"
proof -
  have "takeWhile (\<lambda>c. c \<noteq> NL \<and> c \<noteq> CHR ''#'') (l @ NL # r) = l"
    using assms(3) by (intro takeWhile_append_stop) auto
  moreover have "cstring l = l" using assms(3) by (auto simp: cstring_def intro!: takeWhile_id)
  ultimately show ?thesis using assms(2) by (simp add: read_conf_line_def Let_def)
qed

lemma read_conf_line_end: "read_conf_line [] = ([], [], True)"
  by (simp add: read_conf_line_def cstring_def)

lemma assignment_line:
  assumes "assignment_ok (key, v)"
  shows "conf_key (key @ '' = '' @ v) old = Some key" and "conf_value (key @ '' = '' @ v) = Inr v"
    and "CHR ''='' \<in> set (key @ '' = '' @ v)"
    and "read_conf_line ((key @ '' = '' @ v) @ NL # r) = (key @ '' = '' @ v, r, False)"
proof -
  have a: "key \<noteq> []" "v \<noteq> []" "\<not> is_space (hd v)" "\<not> is_space (last v)" "length key + length v \<le> 97"
      "\<forall>c \<in> set key. c \<noteq> CHR ''='' \<and> c \<noteq> CHR ''#'' \<and> c \<noteq> NUL \<and> \<not> is_space c"
      "\<forall>c \<in> set v. c \<noteq> CHR ''#'' \<and> c \<noteq> NUL \<and> c \<noteq> NL"
    using assms by (simp_all add: assignment_ok_def)
  have sp: "is_space CHR '' ''" "is_space CHR 0x09" "is_space NL" "\<not> is_space CHR ''=''" by (simp_all add: is_space_def)
  have "takeWhile (\<lambda>c. c \<noteq> CHR ''='' \<and> c \<noteq> CHR '' '' \<and> c \<noteq> CHR 0x09) (key @ CHR '' '' # ''= '' @ v) = key"
    using a(6) sp by (intro takeWhile_append_stop) auto
  with a(1) show "conf_key (key @ '' = '' @ v) old = Some key" by (simp add: conf_key_def)
  have "dropWhile (\<lambda>c. c \<noteq> CHR ''='') (key @ '' = '' @ v) = ''= '' @ v"
    using a(6) by (subst dropWhile_append2) auto
  moreover have "dropWhile is_space v = v" using a(2,3) by (cases v) auto
  moreover have "dropWhile is_space (rev v) = rev v"
    using a(2,4) by (cases "rev v") (auto simp: hd_rev [symmetric])
  ultimately show "conf_value (key @ '' = '' @ v) = Inr v" using a(2) sp by (simp add: conf_value_def)
  show "CHR ''='' \<in> set (key @ '' = '' @ v)" by simp
  show "read_conf_line ((key @ '' = '' @ v) @ NL # r) = (key @ '' = '' @ v, r, False)"
    using a sp by (intro read_conf_line_text) auto
qed

lemma conf_loop_render:
  "list_all assignment_ok kvs \<Longrightarrow> conf_loop ifaddr (render_conf kvs) key0 k = conf_apply ifaddr kvs k"
proof (induction kvs arbitrary: key0 k)
  case Nil
  then show ?case by (simp add: conf_loop.simps [of ifaddr _ key0 k] render_conf_def read_conf_line_end)
next
  case (Cons kv kvs)
  obtain key v where kv: "kv = (key, v)" by (cases kv)
  with Cons.prems have ok: "assignment_ok (key, v)" by simp
  have r: "render_conf ((key, v) # kvs) = (key @ '' = '' @ v) @ NL # render_conf kvs"
    by (simp add: render_conf_def)
  note l = assignment_line [OF ok]
  show ?case
    using l Cons.IH Cons.prems
    by (simp add: r kv conf_loop.simps [of ifaddr "(key @ '' = '' @ v) @ NL # render_conf kvs" key0 k]
        del: append_assoc append.simps cong: if_cong)
qed

text \<open>
  The keys behind the error exit cannot be set: \<open>user_agent\<close> and \<open>add_header_count\<close>
  are documented settings, and the function returns 0 for them.
\<close>

lemma conf_line_late:
  assumes "key = ''user_agent'' \<or> key = ''add_header_count'' \<or> key = ''add_header[i]''"
  shows "conf_line ifaddr key v k = Inr (False, k)"
proof -
  have "conf_string_key key v k = Inr (False, k)" using assms by (elim disjE) (simp_all add: conf_string_key_def)
  moreover have "conf_number_key key v k = Inr (False, k)" using assms by (elim disjE) (simp_all add: conf_number_key_def)
  moreover have "key \<noteq> ''interfaces''" "key \<noteq> ''speed_type''" using assms by auto
  ultimately show ?thesis by (simp add: conf_line_def)
qed

lemma set_number_int_str:
  assumes "0 < n" "in_int n"
  shows "set_number (int_str n) old = Inr n"
  using assms sscanf_int_nat_str [of n "[]"] by (simp add: set_number_def)

lemma conf_line_num_connections:
  assumes "0 < n" "in_int n"
  shows "conf_line ifaddr ''num_connections'' (int_str n) k = Inr (True, k\<lparr>k_num_connections := n\<rparr>)"
proof -
  have "conf_string_key ''num_connections'' (int_str n) k = Inr (False, k)" by (simp add: conf_string_key_def)
  moreover have "conf_number_key ''num_connections'' (int_str n) k = Inr (True, k\<lparr>k_num_connections := n\<rparr>)"
    using set_number_int_str [OF assms] by (simp add: conf_number_key_def)
  moreover have "conf_late_keys ''num_connections'' v k' = Inr k'" for v k' by (simp add: conf_late_keys_def)
  ultimately show ?thesis by (simp add: conf_line_def)
qed

subsection \<open>Contract\<close>

text \<open>C21: a configuration file means its assignments, in order.  \<open>conf_loadfile\<close> on a file of
  \<open>key = value\<close> lines applies each assignment to the result of the one before and stops at the first that is
  refused; a file that does not exist changes nothing.\<close>

theorem conf_loadfile_meaning:
  assumes "\<And>inp. files path = Some inp \<Longrightarrow> list_all assignment_ok kvs \<and> inp = render_conf kvs"
    "files path = None \<Longrightarrow> kvs = []"
  shows "conf_loadfile files ifaddr path k = conf_apply ifaddr kvs k"
  using assms by (cases "files path") (auto simp: conf_loadfile_def conf_loop_render)

theorem conf_loadfile_meaning_witness:
  "conf_loadfile (\<lambda>p. Some ((''num_connections = 7'' @ [NL]) @ ''verbose = 2'' @ [NL])) (\<lambda>_. None) ''/etc/x'' conf_default =
     Inr (True, conf_default\<lparr>k_num_connections := 7, k_verbose := 2\<rparr>)"
proof -
  have "conf_loadfile (\<lambda>p. Some ((''num_connections = 7'' @ [NL]) @ ''verbose = 2'' @ [NL])) (\<lambda>_. None) ''/etc/x'' conf_default
      = conf_apply (\<lambda>_. None) [(''num_connections'', ''7''), (''verbose'', ''2'')] conf_default"
    by (rule conf_loadfile_meaning) (auto simp: assignment_ok_def render_conf_def text_lines_def is_space_def)
  also have "\<dots> = Inr (True, conf_default\<lparr>k_num_connections := 7, k_verbose := 2\<rparr>)"
    by code_simp
  finally show ?thesis .
qed

lemma conf_apply_late:
  "(key, v) \<in> set kvs \<Longrightarrow> key \<in> {''user_agent'', ''add_header_count'', ''add_header[i]''} \<Longrightarrow>
    conf_apply ifaddr kvs k \<noteq> Inr (True, k')"
proof (induction kvs arbitrary: k)
  case (Cons kv kvs)
  obtain key1 v1 where kv: "kv = (key1, v1)" by (cases kv)
  show ?case
  proof (cases "(key1, v1) = (key, v)")
    case True
    with Cons.prems kv conf_line_late [of key ifaddr v k] show ?thesis by auto
  next
    case False
    with Cons kv show ?thesis
      by (cases "conf_line ifaddr key1 v1 k") (auto split: prod.splits)
  qed
qed simp

text \<open>The keys \<open>user_agent\<close> and \<open>add_header_count\<close> can never be set.  The code tests for them
  behind the return that refuses unknown keys, so a configuration file that has such a line is always an error,
  wherever the line stands.\<close>

lemma conf_loadfile_refuses_late_keys:
  assumes "files path = Some (render_conf kvs)" "list_all assignment_ok kvs" "(key, v) \<in> set kvs"
    "key \<in> {''user_agent'', ''add_header_count'', ''add_header[i]''}"
  shows "conf_loadfile files ifaddr path k \<noteq> Inr (True, k')"
  using conf_apply_late [OF assms(3,4)] assms(1,2) by (simp add: conf_loadfile_def conf_loop_render)

lemma conf_loadfile_refuses_late_keys_witness:
  "conf_loadfile (\<lambda>_. Some (render_conf [(''user_agent'', ''me/1'')])) (\<lambda>_. None) ''/etc/x'' conf_default
     \<noteq> Inr (True, conf_default)"
  by (rule conf_loadfile_refuses_late_keys) (auto simp: assignment_ok_def is_space_def)

end
