(* ===== verification/Conn.thy ===== *)
theory Conn
  imports Conf
begin

text \<open>
  \<^verbatim>\<open>final/client/ServerSide/conn.c\<close>, the protocol independent connection: it holds
  an FTP and an HTTP connection and uses the one its address and the proxy settings ask for.
  The configuration the structure points to is the argument \<open>k\<close>.
\<close>

abbreviation MAX_REDIR :: nat where "MAX_REDIR \<equiv> 5"

text \<open>
  \<open>conn->message\<close> points to the header array of the HTTP part or to the heap block of the FTP
  part.
\<close>

datatype msg_ref = MNull | MHttp | MFtp

text \<open>
  \<open>conn_t\<close>; \<open>c_local_if\<close> is the text of an interface, \<open>None\<close> when it was never
  written; \<open>c_thread\<close> is whether the thread identifier is not zero.
\<close>

record conn = conn_addr +
  c_proxy :: bool
  c_ftp :: ftp
  c_http :: http
  c_size :: int
  c_currentbyte :: int
  c_lastbyte :: int
  c_fd :: int
  c_enabled :: bool
  c_supported :: bool
  c_last_transfer :: int
  c_message :: msg_ref
  c_local_if :: "string option"
  c_state :: int
  c_thread :: bool

definition conn_zero :: conn where
  "conn_zero = \<lparr>c_proto = 0, c_port = 0, c_host = '''', c_dir = '''', c_file = '''', c_user = '''', c_pass = '''',
     c_proxy = False, c_ftp = ftp_zero, c_http = http_zero, c_size = 0, c_currentbyte = 0, c_lastbyte = 0,
     c_fd = 0, c_enabled = False, c_supported = False, c_last_transfer = 0, c_message = MNull,
     c_local_if = Some '''', c_state = 0, c_thread = False\<rparr>"

definition uses_ftp :: "conn \<Rightarrow> bool" where
  "uses_ftp c = (c_proto c = PROTO_FTP \<and> \<not> c_proxy c)"

text \<open>Reading and writing through \<open>conn->message\<close>.\<close>

definition message_text :: "conn \<Rightarrow> string res" where
  "message_text c =
     (case c_message c of
        MNull \<Rightarrow> Inl Null_deref
      | MHttp \<Rightarrow> Inr (h_headers (c_http c))
      | MFtp \<Rightarrow> (case f_message (c_ftp c) of None \<Rightarrow> Inl Use_after_free | Some m \<Rightarrow> Inr m))"

definition set_message :: "string \<Rightarrow> conn \<Rightarrow> conn res" where
  "set_message m c =
     (case c_message c of
        MNull \<Rightarrow> Inl Null_deref
      | MHttp \<Rightarrow> rbind (strcpy_buf MAX_QUERY m) (\<lambda>t. Inr (c\<lparr>c_http := (c_http c)\<lparr>h_headers := t\<rparr>\<rparr>))
      | MFtp \<Rightarrow> (case f_message (c_ftp c) of
                  None \<Rightarrow> Inl Use_after_free
                | Some _ \<Rightarrow> rbind (put_message m (c_ftp c)) (\<lambda>f. Inr (c\<lparr>c_ftp := f\<rparr>))))"

definition conn_disconnect :: "world \<Rightarrow> conn \<Rightarrow> world \<times> conn" where
  "conn_disconnect w c =
     (if uses_ftp c
      then (case ftp_disconnect w (c_ftp c) of (w', f) \<Rightarrow> (w', c\<lparr>c_ftp := f, c_fd := -1\<rparr>))
      else (case http_disconnect w (c_http c) of (w', h) \<Rightarrow> (w', c\<lparr>c_http := h, c_fd := -1\<rparr>)))"

subsection \<open>The choice of the proxy\<close>

text \<open>
  The scan of the list of hosts that are reached directly: \<open>item\<close> is the entry read so far,
  the list ends with an empty entry.
\<close>

fun no_proxy_scan :: "string \<Rightarrow> string \<Rightarrow> string \<Rightarrow> bool \<Rightarrow> bool" where
  "no_proxy_scan hostname item [] hit = (hit \<or> strstr hostname item \<noteq> None)"
| "no_proxy_scan hostname item (c # cs) hit =
     (if c \<noteq> NUL then no_proxy_scan hostname (item @ [c]) cs hit
      else let hit' = (hit \<or> strstr hostname item \<noteq> None)
           in if cs = [] \<or> hd cs = NUL then hit' else no_proxy_scan hostname [] cs hit')"

definition choose_proxy :: "conf \<Rightarrow> string \<Rightarrow> string option" where
  "choose_proxy k hostname =
     (if k_http_proxy k = '''' then None
      else if cstring (k_no_proxy k) \<noteq> '''' \<and> no_proxy_scan hostname '''' (k_no_proxy k) False then None
      else Some (k_http_proxy k))"

subsection \<open>Opening a connection\<close>

definition init_ftp :: "string \<Rightarrow> world \<Rightarrow> conn \<Rightarrow> (bool \<times> world \<times> conn) res" where
  "init_ftp lif w c =
     rbind (ftp_connect (c_host c) (c_port c) (c_user c) (c_pass c) w
              ((c_ftp c)\<lparr>f_local_if := lif, f_mode := FTP_PASSIVE\<rparr>)) (\<lambda>(ok, w1, f1).
     let c1 = c\<lparr>c_ftp := f1, c_message := MFtp\<rparr> in
     if \<not> ok then (case conn_disconnect w1 c1 of (w2, c2) \<Rightarrow> Inr (False, w2, c2))
     else rbind (ftp_cwd (c_dir c1) w1 f1) (\<lambda>(ok2, w2, f2).
          let c2 = c1\<lparr>c_ftp := f2\<rparr> in
          if \<not> ok2 then (case conn_disconnect w2 c2 of (w3, c3) \<Rightarrow> Inr (False, w3, c3))
          else Inr (True, w2, c2)))"

definition init_http :: "string \<Rightarrow> string option \<Rightarrow> world \<Rightarrow> conn \<Rightarrow> (bool \<times> world \<times> conn) res" where
  "init_http lif proxy w c =
     rbind (http_connect (c_proto c) proxy (c_host c) (c_port c) (c_user c) (c_pass c) w
              ((c_http c)\<lparr>h_local_if := lif\<rparr>)) (\<lambda>(ok, w1, h1).
     let c1 = c\<lparr>c_http := h1, c_message := MHttp\<rparr> in
     if \<not> ok then (case conn_disconnect w1 c1 of (w2, c2) \<Rightarrow> Inr (False, w2, c2))
     else Inr (True, w1, c1\<lparr>c_fd := h_fd h1\<rparr>))"

definition conn_init :: "conf \<Rightarrow> world \<Rightarrow> conn \<Rightarrow> (bool \<times> world \<times> conn) res" where
  "conn_init k w c0 =
     (let proxy = choose_proxy k (c_host c0); c = c0\<lparr>c_proxy := proxy \<noteq> None\<rparr>
      in case c_local_if c of
           None \<Rightarrow> Inl Uninitialised
         | Some lif \<Rightarrow> if uses_ftp c then init_ftp lif w c else init_http lif proxy w c)"

text \<open>The additional headers; \<open>add_header\<close> has ten entries.\<close>

fun add_headers :: "nat \<Rightarrow> nat \<Rightarrow> string list \<Rightarrow> http \<Rightarrow> http res" where
  "add_headers 0 i hs h = Inr h"
| "add_headers (Suc n) i hs h =
     (if length hs \<le> i then Inl Out_of_bounds
      else add_headers n (Suc i) hs (http_addheader (hs ! i) h))"

definition setup_ftp :: "world \<Rightarrow> conn \<Rightarrow> (bool \<times> world \<times> conn) res" where
  "setup_ftp w c =
     rbind (ftp_data w (c_ftp c)) (\<lambda>(ok, w1, f1).
     if \<not> ok then Inr (False, w1, c\<lparr>c_ftp := f1\<rparr>)
     else let c1 = c\<lparr>c_ftp := f1, c_fd := f_data_fd f1\<rparr> in
          if c_currentbyte c = 0 then Inr (True, w1, c1)
          else rbind (ftp_ask ''REST %lld'' (''REST '' @ int_str (c_currentbyte c)) w1 f1) (\<lambda>(st, w2, f2).
               Inr (c_div st 100 = 3 \<or> c_div (f_status f2) 100 = 2, w2, c1\<lparr>c_ftp := f2\<rparr>)))"

definition setup_http :: "conf \<Rightarrow> conn \<Rightarrow> conn res" where
  "setup_http k c =
     (let s = snprintf_buf MAX_STRING (c_dir c @ c_file c);
          h1 = http_get s ((c_http c)\<lparr>h_firstbyte := c_currentbyte c, h_lastbyte := c_lastbyte c\<rparr>);
          h2 = http_addheader (''User-Agent: '' @ k_user_agent k) h1
      in rbind (add_headers (nat (k_add_header_count k)) 0 (k_add_header k) h2) (\<lambda>h3.
         Inr (c\<lparr>c_http := h3\<rparr>)))"

definition conn_setup :: "conf \<Rightarrow> world \<Rightarrow> conn \<Rightarrow> (bool \<times> world \<times> conn) res" where
  "conn_setup k w c =
     rbind (if f_fd (c_ftp c) \<le> 0 \<and> h_fd (c_http c) \<le> 0 then conn_init k w c else Inr (True, w, c))
       (\<lambda>(ok, w1, c1).
     if \<not> ok then Inr (False, w1, c1)
     else if uses_ftp c1 then setup_ftp w1 c1
     else rbind (setup_http k c1) (\<lambda>c2. Inr (True, w1, c2)))"

definition conn_exec :: "world \<Rightarrow> conn \<Rightarrow> (bool \<times> world \<times> conn) res" where
  "conn_exec w c =
     (if uses_ftp c
      then rbind (ftp_command ''RETR %s'' (''RETR '' @ c_file c) w (c_ftp c)) (\<lambda>(ok, w1, f1).
           if \<not> ok then Inr (False, w1, c\<lparr>c_ftp := f1\<rparr>)
           else rbind (ftp_wait w1 f1) (\<lambda>(st, w2, f2). Inr (c_div st 100 = 1, w2, c\<lparr>c_ftp := f2\<rparr>)))
      else rbind (http_exec w (c_http c)) (\<lambda>(ok, w1, h1).
           Inr (ok \<and> c_div (h_status h1) 100 = 2, w1, c\<lparr>c_http := h1\<rparr>)))"

subsection \<open>Size and other information\<close>

definition info_ftp :: "world \<Rightarrow> conn \<Rightarrow> (bool \<times> world \<times> conn) res" where
  "info_ftp w c =
     rbind (ftp_ask ''REST %lld'' ''REST 1'' w (c_ftp c)) (\<lambda>(st, w1, f1).
     rbind (if c_div st 100 = 3 \<or> c_div (f_status f1) 100 = 2
            then rbind (ftp_ask ''REST %lld'' ''REST 0'' w1 f1) (\<lambda>(st2, w2, f2). Inr (True, w2, f2))
            else Inr (False, w1, f1)) (\<lambda>(sup, w2, f2).
     rbind (ftp_cwd (c_dir c) w2 f2) (\<lambda>(ok, w3, f3).
     let c3 = c\<lparr>c_ftp := f3, c_supported := sup\<rparr> in
     if \<not> ok then Inr (False, w3, c3)
     else rbind (ftp_size MAX_REDIR (c_file c) w3 f3) (\<lambda>(sz, name, w4, f4).
          let c4 = c3\<lparr>c_ftp := f4, c_file := name, c_size := sz, c_supported := sup \<and> 0 \<le> sz\<rparr> in
          if sz = -1 then Inr (False, w4, c4)
          else Inr (True, w4, if sz = -2 then c4\<lparr>c_size := INT_MAX\<rparr> else c4)))))"

text \<open>
  The new address of a redirection: \<open>s\<close> is the word behind the header, and what is returned is
  the text that is parsed next.  A relative address is put behind the whole old one.
\<close>

definition redirect_target :: "string \<Rightarrow> conn \<Rightarrow> (string \<times> conn) res" where
  "redirect_target s c =
     (let via = (\<lambda>t. rbind (strcpy_buf MAX_QUERY t) (\<lambda>h.
                     rbind (strncpy_buf MAX_STRING h) (\<lambda>s'.
                     Inr (s', c\<lparr>c_http := (c_http c)\<lparr>h_headers := h\<rparr>\<rparr>))))
      in if strstr s ''://'' = None then rbind (conn_url c) (\<lambda>u. via (u @ s))
         else if is_prefix ''/'' s then via (''http://'' @ c_host c @ '':'' @ int_str (c_port c) @ s)
         else Inr (s, c))"

text \<open>
  The request is repeated for at most \<open>n\<close> redirections; \<open>s\<close> is the buffer of the target
  (\<open>None\<close>: not written yet).  The result is \<open>None\<close> for a failure, or whether the
  redirections were used up.
\<close>

fun info_redirects :: "nat \<Rightarrow> conf \<Rightarrow> string option \<Rightarrow> world \<Rightarrow> conn \<Rightarrow> (bool option \<times> world \<times> conn) res" where
  "info_redirects 0 k s w c = Inr (Some True, w, c)"
| "info_redirects (Suc n) k s w c =
     rbind (conn_setup k w (c\<lparr>c_currentbyte := 1\<rparr>)) (\<lambda>(ok, w1, c1).
     if \<not> ok then Inr (None, w1, c1)
     else rbind (conn_exec w1 c1) (\<lambda>(ok2, w2, c2).
     case conn_disconnect w2 c2 of (w3, c3) \<Rightarrow>
     if c_div (h_status (c_http c3)) 100 \<noteq> 3 then Inr (Some False, w3, c3)
     else rbind (http_header ''location:'' (c_http c3)) (\<lambda>t.
          case t of
            None \<Rightarrow> Inr (None, w3, c3)
          | Some u \<Rightarrow>
              let s' = (case scan_word 255 u of None \<Rightarrow> s | Some (v, r) \<Rightarrow> Some v) in
              (case s' of
                 None \<Rightarrow> Inl Uninitialised
               | Some v \<Rightarrow>
                   rbind (redirect_target v c3) (\<lambda>(target, c4).
                   rbind (conn_set (w_services w3) target c4) (\<lambda>(ok3, c5).
                   info_redirects n k (Some target) w3 c5))))))"

definition info_http :: "conf \<Rightarrow> world \<Rightarrow> conn \<Rightarrow> (bool \<times> world \<times> conn) res" where
  "info_http k w c =
     rbind (info_redirects MAX_REDIR k None w c) (\<lambda>(r, w1, c1).
     case r of
       None \<Rightarrow> Inr (False, w1, c1)
     | Some True \<Rightarrow> rbind (set_message (''Too many redirects.'' @ [NL]) c1) (\<lambda>c2. Inr (False, w1, c2))
     | Some False \<Rightarrow>
         rbind (http_size (c_http c1)) (\<lambda>sz.
         let st = h_status (c_http c1) in
         if st = 206 \<and> 0 \<le> sz
         then rbind (guard_c (in_llong (sz + 1)) Int_overflow) (\<lambda>_.
              Inr (True, w1, c1\<lparr>c_supported := True, c_size := sz + 1\<rparr>))
         else if st = 200 \<or> st = 206 then Inr (True, w1, c1\<lparr>c_supported := False, c_size := INT_MAX\<rparr>)
         else rbind (message_text c1) (\<lambda>m.
              let c2 = c1\<lparr>c_size := sz\<rparr> in
              case strchr m NL of
                None \<Rightarrow> rbind (set_message (''Unknown HTTP error.'' @ [NL]) c2) (\<lambda>c3. Inr (False, w1, c3))
              | Some j \<Rightarrow> rbind (set_message (take j m) c2) (\<lambda>c3. Inr (False, w1, c3)))))"

definition conn_info :: "conf \<Rightarrow> world \<Rightarrow> conn \<Rightarrow> (bool \<times> world \<times> conn) res" where
  "conn_info k w c = (if uses_ftp c then info_ftp w c else info_http k w c)"

subsection \<open>The list of hosts without proxy\<close>

text \<open>What the list means: its entries are separated by commas, and an empty entry ends it.\<close>

function split_commas :: "string \<Rightarrow> string list" where
  "split_commas s =
     (let e = takeWhile (\<lambda>c. c \<noteq> CHR '','') s; r = dropWhile (\<lambda>c. c \<noteq> CHR '','') s
      in if e = [] then [] else if r = [] then [e] else e # split_commas (tl r))"
  by pat_completeness auto
termination
proof (relation "measure length", goal_cases)
  case (2 s e r)
  have "length r \<le> length s" unfolding 2(2) by (rule length_dropWhile_le)
  moreover have "r \<noteq> []" using 2 by simp
  ultimately have "length (tl r) < length s" by (cases r) auto
  then show ?case by simp
qed simp

declare split_commas.simps [simp del]

lemma split_commas_empty [simp]: "split_commas [] = []" "split_commas (CHR '','' # s) = []"
  by (subst split_commas.simps, simp)+

lemma no_proxy_scan_item:
  "CHR '','' \<notin> set e \<Longrightarrow> NUL \<notin> set e \<Longrightarrow>
    no_proxy_scan hostname p (cut_no_proxy (e @ r)) hit = no_proxy_scan hostname (p @ e) (cut_no_proxy r) hit"
  by (induction e arbitrary: p) (auto simp: cut_no_proxy_def)

lemma no_proxy_scan_spec:
  "NUL \<notin> set s \<Longrightarrow> s \<noteq> [] \<Longrightarrow> hd s \<noteq> CHR '','' \<Longrightarrow>
    no_proxy_scan hostname [] (cut_no_proxy s) hit \<longleftrightarrow> hit \<or> (\<exists>e \<in> set (split_commas s). strstr hostname e \<noteq> None)"
proof (induction s arbitrary: hit rule: split_commas.induct)
  case (1 s)
  define e r where er: "e = takeWhile (\<lambda>c. c \<noteq> CHR '','') s" "r = dropWhile (\<lambda>c. c \<noteq> CHR '','') s"
  have e: "e \<noteq> []" using "1.prems" er by (cases s) auto
  have s: "s = e @ r" "CHR '','' \<notin> set e" using er by (auto dest: set_takeWhileD)
  have scan: "no_proxy_scan hostname [] (cut_no_proxy s) hit = no_proxy_scan hostname e (cut_no_proxy r) hit"
    using no_proxy_scan_item [of e hostname "[]" r hit] s "1.prems"(1) by simp
  note sc = split_commas.simps [of s, folded er, unfolded Let_def]
  show ?case
  proof (cases r)
    case Nil
    with scan e sc show ?thesis by (simp add: cut_no_proxy_def)
  next
    case (Cons c cs)
    have c: "c = CHR '',''" using hd_dropWhile [of "\<lambda>c. c \<noteq> CHR '',''" s] Cons unfolding er(2) by (auto simp del: dropWhile_eq_Nil_conv)
    let ?h = "hit \<or> strstr hostname e \<noteq> None"
    have cs: "cs = [] \<or> hd (cut_no_proxy cs) = NUL \<longleftrightarrow> cs = [] \<or> hd cs = CHR '',''"
      using "1.prems"(1) s Cons by (cases cs) (auto simp: cut_no_proxy_def)
    show ?thesis
    proof (cases "cs = [] \<or> hd cs = CHR '',''")
      case True
      then have "split_commas cs = []" by (cases cs) auto
      moreover have "no_proxy_scan hostname e (cut_no_proxy r) hit = ?h"
        using True cs c Cons by (auto simp: cut_no_proxy_def)
      ultimately show ?thesis using scan e sc Cons by simp
    next
      case False
      then have "cut_no_proxy cs \<noteq> []" "hd (cut_no_proxy cs) \<noteq> NUL"
        using cs by (auto simp: cut_no_proxy_def)
      then have "no_proxy_scan hostname e (cut_no_proxy r) hit = no_proxy_scan hostname [] (cut_no_proxy cs) ?h"
        using c Cons by (simp add: cut_no_proxy_def)
      also have "\<dots> \<longleftrightarrow> ?h \<or> (\<exists>x \<in> set (split_commas cs). strstr hostname x \<noteq> None)"
        using "1.IH" [OF er e, of ?h] Cons False "1.prems"(1) s(1) by simp
      finally show ?thesis using scan e sc Cons by auto
    qed
  qed
qed

lemma choose_proxy_spec:
  assumes "k_http_proxy k \<noteq> []" "k_no_proxy k = cut_no_proxy s" "NUL \<notin> set s" "s \<noteq> []" "hd s \<noteq> CHR '',''"
  shows "choose_proxy k hostname =
    (if \<exists>e \<in> set (split_commas s). strstr hostname e \<noteq> None then None else Some (k_http_proxy k))"
proof -
  have "cstring (k_no_proxy k) \<noteq> []"
    using assms(2-5) by (cases s) (auto simp: cut_no_proxy_def cstring_def)
  then show ?thesis using assms no_proxy_scan_spec [OF assms(3-5), of hostname False]
    by (simp add: choose_proxy_def)
qed

subsection \<open>A failed FTP connection\<close>

text \<open>
  When the login or the directory fails, \<open>conn->message\<close> is left pointing to the block that
  \<open>ftp_disconnect\<close> has freed; the caller shows it to the user.
\<close>

lemma conn_disconnect_ftp:
  assumes "uses_ftp c" "conn_disconnect w c = (w', c')"
  shows "uses_ftp c'" "f_message (c_ftp c') = None" "c_message c' = c_message c"
  using assms by (auto simp: conn_disconnect_def ftp_disconnect_def uses_ftp_def Let_def)

lemma conn_disconnect_http:
  assumes "\<not> uses_ftp c" "conn_disconnect w c = (w', c')"
  shows "\<not> uses_ftp c'" "h_fd (c_http c') = -1" "c_message c' = c_message c"
  using assms by (auto simp: conn_disconnect_def http_disconnect_def uses_ftp_def Let_def)

lemma dangling_after_disconnect:
  assumes "uses_ftp c" "c_message c = MFtp" "conn_disconnect w c = (w', c')"
  shows "message_text c' = Inl Use_after_free"
  using conn_disconnect_ftp [OF assms(1,3)] assms(2) by (simp add: message_text_def)

lemma init_ftp_fails:
  assumes "init_ftp lif w c = Inr (False, w', c')" "uses_ftp c"
  shows "message_text c' = Inl Use_after_free"
proof -
  obtain ok w1 f1 where con: "ftp_connect (c_host c) (c_port c) (c_user c) (c_pass c) w
      ((c_ftp c)\<lparr>f_local_if := lif, f_mode := FTP_PASSIVE\<rparr>) = Inr (ok, w1, f1)"
    using assms(1) by (auto simp: init_ftp_def res_elims)
  let ?c1 = "c\<lparr>c_ftp := f1, c_message := MFtp\<rparr>"
  have u: "uses_ftp ?c1" "uses_ftp (?c1\<lparr>c_ftp := f\<rparr>)" for f using assms(2) by (simp_all add: uses_ftp_def)
  show ?thesis
  proof (cases ok)
    case False
    with assms(1) con have "conn_disconnect w1 ?c1 = (w', c')"
      by (simp add: init_ftp_def Let_def split: prod.splits)
    then show ?thesis by (intro dangling_after_disconnect [OF u(1)]) simp_all
  next
    case True
    with assms(1) con obtain ok2 w2 f2 where cwd: "ftp_cwd (c_dir c) w1 f1 = Inr (ok2, w2, f2)"
      by (auto simp: init_ftp_def Let_def res_elims)
    with True assms(1) con have "\<not> ok2"
      by (auto simp: init_ftp_def Let_def)
    with True assms(1) con cwd have "conn_disconnect w2 (?c1\<lparr>c_ftp := f2\<rparr>) = (w', c')"
      by (simp add: init_ftp_def Let_def split: prod.splits)
    then show ?thesis by (intro dangling_after_disconnect [OF u(2)]) simp_all
  qed
qed

lemma init_http_proto:
  assumes "init_http lif p w c = Inr (r, w', c')" "\<not> uses_ftp c"
  shows "\<not> uses_ftp c'"
proof -
  obtain ok w1 h1 where con: "http_connect (c_proto c) p (c_host c) (c_port c) (c_user c) (c_pass c) w
      ((c_http c)\<lparr>h_local_if := lif\<rparr>) = Inr (ok, w1, h1)"
    using assms(1) by (auto simp: init_http_def res_elims)
  let ?c1 = "c\<lparr>c_http := h1, c_message := MHttp\<rparr>"
  have u: "\<not> uses_ftp ?c1" using assms(2) by (simp add: uses_ftp_def)
  show ?thesis
  proof (cases ok)
    case False
    with assms(1) con have "conn_disconnect w1 ?c1 = (w', c')"
      by (simp add: init_http_def Let_def split: prod.splits)
    with conn_disconnect_http(1) [OF u] show ?thesis by simp
  next
    case True
    with assms con show ?thesis by (auto simp: init_http_def Let_def uses_ftp_def)
  qed
qed

lemma conn_init_ftp_fails:
  assumes "conn_init k w c = Inr (False, w', c')" "uses_ftp c'"
  shows "message_text c' = Inl Use_after_free"
proof -
  define c1 where "c1 = c\<lparr>c_proxy := choose_proxy k (c_host c) \<noteq> None\<rparr>"
  obtain lif where "(if uses_ftp c1 then init_ftp lif w c1 else init_http lif (choose_proxy k (c_host c)) w c1)
      = Inr (False, w', c')"
    using assms(1) [unfolded conn_init_def Let_def, folded c1_def] by (cases "c_local_if c1") auto
  then show ?thesis
    using init_ftp_fails [of lif w c1 w' c'] init_http_proto [of lif _ w c1 False w' c'] assms(2)
    by (auto split: if_splits)
qed

subsection \<open>The size of a file over HTTP\<close>

lemma http_addheader_keeps [simp]:
  "h_fd (http_addheader l h) = h_fd h" "h_status (http_addheader l h) = h_status h"
  "h_headers (http_addheader l h) = h_headers h"
  by (simp_all add: http_addheader_def)

lemma http_get_keeps [simp]: "h_fd (http_get s h) = h_fd h"
proof -
  have "h_fd (h\<lparr>h_request := []\<rparr>) = h_fd h" by simp
  then show ?thesis
    unfolding http_get_def by (simp only: Let_def if_distrib [of h_fd] http_addheader_keeps if_cancel)
qed

definition request_http :: "conf \<Rightarrow> conn \<Rightarrow> http" where
  "request_http k c = http_addheader (''User-Agent: '' @ k_user_agent k)
     (http_get (snprintf_buf MAX_STRING (c_dir c @ c_file c))
       ((c_http c)\<lparr>h_firstbyte := c_currentbyte c, h_lastbyte := c_lastbyte c\<rparr>))"

lemma setup_http_plain:
  "k_add_header_count k = 0 \<Longrightarrow> setup_http k c = Inr (c\<lparr>c_http := request_http k c\<rparr>)"
  by (simp add: setup_http_def request_http_def Let_def)

lemma request_http_fd [simp]: "h_fd (request_http k c) = h_fd (c_http c)"
  by (simp add: request_http_def)

lemma info_redirects_reply:
  assumes "\<not> uses_ftp c" "0 < h_fd (c_http c)" "h_fd (c_http c) \<in> set (w_open w)" "k_add_header_count k = 0"
    "list_all line_ok (l # ls)" "length (text_lines (l # ls)) < MAX_QUERY"
    "rx_bytes (w_rx w (h_fd (c_http c))) = wire_lines (l # ls) @ [CR, NL] @ body"
    "l = p @ '' '' @ nat_str st @ r" "p \<noteq> []" "\<forall>c \<in> set p. \<not> is_space c" "100 \<le> st" "st < 1000" "st div 100 \<noteq> 3" "0 < n"
  shows "\<exists>w' c'. info_redirects n k s w c = Inr (Some False, w', c') \<and>
    h_headers (c_http c') = text_lines (l # ls) \<and> h_status (c_http c') = int st"
proof -
  let ?c = "c\<lparr>c_currentbyte := 1\<rparr>"
  define h where "h = request_http k ?c"
  then have h: "setup_http k ?c = Inr (?c\<lparr>c_http := h\<rparr>)" "h_fd h = h_fd (c_http c)"
    using setup_http_plain [OF assms(4), of ?c] by simp_all
  have u: "\<not> uses_ftp (?c\<lparr>c_http := x\<rparr>)" for x using assms(1) by (simp add: uses_ftp_def)
  have sup: "conn_setup k w ?c = Inr (True, w, ?c\<lparr>c_http := h\<rparr>)"
    using assms(2) u [of "c_http c"] h by (simp add: conn_setup_def)
  obtain w1 h1 where ex: "http_exec w h = Inr (True, w1, h1)" "h_headers h1 = text_lines (l # ls)" "h_status h1 = int st"
    using http_exec_reply [of h w l ls body p st r] assms h(2) by auto
  obtain ok where exec: "conn_exec w (?c\<lparr>c_http := h\<rparr>) = Inr (ok, w1, ?c\<lparr>c_http := h1\<rparr>)"
    using u [of h] ex by (simp add: conn_exec_def)
  obtain w2 c2 where dis: "conn_disconnect w1 (?c\<lparr>c_http := h1\<rparr>) = (w2, c2)" by fastforce
  have c2: "h_headers (c_http c2) = text_lines (l # ls)" "h_status (c_http c2) = int st"
    using dis u [of h1] ex by (auto simp: conn_disconnect_def http_disconnect_def)
  have "c_div (int st) 100 = int (st div 100)"
    by (simp add: c_div_def sgn_if zdiv_int)
  with assms(13) have "c_div (h_status (c_http c2)) 100 \<noteq> 3" using c2(2) by simp
  moreover obtain m where "n = Suc m" using assms(14) by (cases n) auto
  ultimately show ?thesis using sup exec dis c2 by simp
qed

text \<open>
  A server that answers the range request for byte 1 on: the file has one byte more than the
  answer.  One that answers with the whole file is not asked for ranges again.
\<close>

lemma conn_info_partial:
  assumes "\<not> uses_ftp c" "0 < h_fd (c_http c)" "h_fd (c_http c) \<in> set (w_open w)" "k_add_header_count k = 0"
    "list_all line_ok (l # ls1 @ (f @ '' '' @ nat_str n) # ls2)"
    "length (text_lines (l # ls1 @ (f @ '' '' @ nat_str n) # ls2)) < MAX_QUERY"
    "rx_bytes (w_rx w (h_fd (c_http c))) = wire_lines (l # ls1 @ (f @ '' '' @ nat_str n) # ls2) @ [CR, NL] @ body"
    "l = p @ '' '' @ nat_str 206 @ r" "p \<noteq> []" "\<forall>c \<in> set p. \<not> is_space c"
    "list_all field_line (ls1 @ (f @ '' '' @ nat_str n) # ls2)"
    "list_all (\<lambda>l. \<not> strcasecmp_eq (line_word l) ''Content-Length:'') ls1"
    "strcasecmp_eq f ''Content-Length:''" "\<forall>c \<in> set f. \<not> is_space c" "in_llong (int n + 1)"
  shows "\<exists>w' c'. conn_info k w c = Inr (True, w', c') \<and> c_supported c' \<and> c_size c' = int n + 1"
proof -
  obtain w' c' where r: "info_redirects MAX_REDIR k None w c = Inr (Some False, w', c')"
      "h_headers (c_http c') = text_lines (l # ls1 @ (f @ '' '' @ nat_str n) # ls2)" "h_status (c_http c') = 206"
    using info_redirects_reply [OF assms(1-10), of MAX_REDIR None] by auto
  have "http_size (c_http c') = Inr (int n)"
    using assms(5,15) by (intro http_size_found [OF r(2) _ assms(11-14)]) (simp_all add: in_llong_def)
  with r assms(1,15) show ?thesis by (simp add: conn_info_def info_http_def)
qed

lemma conn_info_whole:
  assumes "\<not> uses_ftp c" "0 < h_fd (c_http c)" "h_fd (c_http c) \<in> set (w_open w)" "k_add_header_count k = 0"
    "list_all line_ok (l # ls)" "length (text_lines (l # ls)) < MAX_QUERY"
    "rx_bytes (w_rx w (h_fd (c_http c))) = wire_lines (l # ls) @ [CR, NL] @ body"
    "l = p @ '' '' @ nat_str 200 @ r" "p \<noteq> []" "\<forall>c \<in> set p. \<not> is_space c"
    "list_all field_line ls" "list_all (\<lambda>l. \<not> strcasecmp_eq (line_word l) ''Content-Length:'') ls"
  shows "\<exists>w' c'. conn_info k w c = Inr (True, w', c') \<and> \<not> c_supported c' \<and> c_size c' = INT_MAX"
proof -
  obtain w' c' where r: "info_redirects MAX_REDIR k None w c = Inr (Some False, w', c')"
      "h_headers (c_http c') = text_lines (l # ls)" "h_status (c_http c') = 200"
    using info_redirects_reply [OF assms(1-10), of MAX_REDIR None] by auto
  have "http_size (c_http c') = Inr (-2)"
    using assms(5) by (intro http_size_absent [OF r(2) _ assms(11,12)]) simp
  with r assms(1) show ?thesis by (simp add: conn_info_def info_http_def)
qed

subsection \<open>Contract\<close>

text \<open>A proxy is used unless an exception matches.  With the no-proxy list as \<open>conf_init\<close> leaves it, the
  connection goes through the configured proxy exactly when none of the comma-separated entries occurs in the host name.\<close>

lemma choose_proxy_exceptions:
  assumes "k_http_proxy k \<noteq> []" "k_no_proxy k = cut_no_proxy s" "NUL \<notin> set s" "s \<noteq> []" "hd s \<noteq> CHR '',''"
  shows "choose_proxy k hostname =
    (if \<exists>e \<in> set (split_commas s). strstr hostname e \<noteq> None then None else Some (k_http_proxy k))"
  using assms by (rule choose_proxy_spec)

lemma choose_proxy_exceptions_witness:
  "choose_proxy (conf_default\<lparr>k_http_proxy := ''http://p'', k_no_proxy := cut_no_proxy ''intern,.local''\<rparr>) ''a.local'' =
    (if \<exists>e \<in> set (split_commas ''intern,.local''). strstr ''a.local'' e \<noteq> None then None
     else Some (k_http_proxy (conf_default\<lparr>k_http_proxy := ''http://p'', k_no_proxy := cut_no_proxy ''intern,.local''\<rparr>)))"
  by (rule choose_proxy_exceptions) simp_all

text \<open>A failed FTP connection leaves a dangling message.  When \<open>conn_init\<close> fails over FTP it has already
  disconnected, which frees the message; \<open>conn->message\<close> still points there, so printing it, as \<open>ServerSide_new\<close>
  does, is a use after free.\<close>

lemma conn_init_dangling_message:
  assumes "conn_init k w c = Inr (False, w', c')" "uses_ftp c'"
  shows "message_text c' = Inl Use_after_free"
  using assms by (rule conn_init_ftp_fails)

lemma conn_init_dangling_message_witness:
  "\<exists>w' c'. conn_init conf_default (example_world\<lparr>w_socket_ok := False\<rparr>) (conn_zero\<lparr>c_proto := PROTO_FTP\<rparr>) = Inr (False, w', c') \<and>
     message_text c' = Inl Use_after_free"
proof -
  obtain w' c' where c: "conn_init conf_default (example_world\<lparr>w_socket_ok := False\<rparr>) (conn_zero\<lparr>c_proto := PROTO_FTP\<rparr>)
      = Inr (False, w', c')" "uses_ftp c'"
    by (simp add: conn_init_def choose_proxy_def conf_default_def conn_zero_def uses_ftp_def init_ftp_def ftp_connect_def
        tcp_connect_def example_world_def sys_socket_def put_message_def strcpy_buf_def conn_disconnect_def
        ftp_disconnect_def http_disconnect_def ftp_zero_def http_zero_def Let_def gethost_loop.simps(2) [of 4, simplified] print_eval)
  then show ?thesis using conn_init_dangling_message [OF c] by blast
qed

text \<open>How \<open>conn_info\<close> reads the answer to its range request.  After a \<open>206\<close> with a content length \<open>n\<close> the
  file has \<open>n + 1\<close> bytes and can be resumed (the request asks from byte 1 on).\<close>

lemma conn_info_partial_content:
  assumes "\<not> uses_ftp c" "0 < h_fd (c_http c)" "h_fd (c_http c) \<in> set (w_open w)" "k_add_header_count k = 0"
    "list_all line_ok (l # ls)" "length (text_lines (l # ls)) < MAX_QUERY"
    "rx_bytes (w_rx w (h_fd (c_http c))) = wire_lines (l # ls) @ [CR, NL] @ body"
    "l = p @ '' 206'' @ r" "p \<noteq> []" "\<forall>c \<in> set p. \<not> is_space c"
    "ls = pre @ (f @ '' '' @ nat_str n) # post" "list_all field_line ls"
    "list_all (\<lambda>l. \<not> strcasecmp_eq (line_word l) ''Content-Length:'') pre"
    "strcasecmp_eq f ''Content-Length:''" "\<forall>c \<in> set f. \<not> is_space c" "in_llong (int n + 1)"
  shows "\<exists>w' c'. conn_info k w c = Inr (True, w', c') \<and> c_supported c' \<and> c_size c' = int n + 1"
proof -
  have "nat_str 206 = ''206''" by code_simp
  then show ?thesis using assms conn_info_partial [of c w k l pre f n post body p r] by simp
qed

definition example_partial :: world where
  "example_partial = example_world\<lparr>w_rx := (\<lambda>_. [Data (wire_lines [''HTTP/1.0 206 P'', ''content-length: 99''] @ [CR, NL])])\<rparr>"

definition example_conn :: conn where
  "example_conn = conn_zero\<lparr>c_proto := PROTO_HTTP, c_http := http_zero\<lparr>h_fd := 3\<rparr>\<rparr>"

lemma conn_info_partial_content_witness:
  "\<exists>w' c'. conn_info conf_default example_partial example_conn = Inr (True, w', c') \<and> c_supported c' \<and> c_size c' = int 99 + 1"
proof (rule conn_info_partial_content [where p = "''HTTP/1.0''" and r = "'' P''" and pre = "[]" and post = "[]" and body = "[]"])
  have n: "nat_str 99 = ''99''" by code_simp
  show "rx_bytes (w_rx example_partial (h_fd (c_http example_conn)))
      = wire_lines (''HTTP/1.0 206 P'' # [''content-length: 99'']) @ [CR, NL] @ []"
    by (simp add: example_partial_def)
  show "strcasecmp_eq ''content-length:'' ''Content-Length:''" by code_simp
  show "[''content-length: 99''] = [] @ (''content-length:'' @ '' '' @ nat_str 99) # []" by (simp add: n)
qed (simp_all add: example_partial_def example_conn_def example_world_def uses_ftp_def conf_default_def line_ok_def
    field_line_def text_lines_def is_space_def in_llong_def)

end
