(* ===== verification/OsFiles.thy ===== *)
theory OsFiles
  imports OsWorld
begin

text \<open>
  The files of the system: opening, reading, writing and positioning, the random numbers and
  \<open>select()\<close>, and the representation of integers in a file (little endian, two's complement).
\<close>

subsection \<open>Files\<close>

text \<open>A write behind the end of a file fills the gap with zero bytes.\<close>

definition write_at :: "nat \<Rightarrow> string \<Rightarrow> string \<Rightarrow> string" where
  "write_at off s f = (if s = [] then f else pad_nul off (take off f) @ s @ drop (off + length s) f)"

definition new_fd :: "string \<Rightarrow> world \<Rightarrow> int \<times> world" where
  "new_fd path w =
     (let fd = w_next_fd w
      in (fd, w\<lparr>w_next_fd := fd + 1, w_open := fd # w_open w,
              w_path := (w_path w)(fd := path), w_pos := (w_pos w)(fd := 0)\<rparr>))"

definition open_read :: "string \<Rightarrow> world \<Rightarrow> int \<times> world" where
  "open_read path w = (if w_files w path = None \<or> w_deny w path then (-1, w) else new_fd path w)"

definition open_create :: "string \<Rightarrow> world \<Rightarrow> int \<times> world" where
  "open_create path w =
     (if w_deny w path then (-1, w)
      else new_fd path (if w_files w path = None then w\<lparr>w_files := (w_files w)(path := Some [])\<rparr> else w))"

definition open_trunc :: "string \<Rightarrow> world \<Rightarrow> int \<times> world" where
  "open_trunc path w =
     (if w_deny w path then (-1, w) else new_fd path (w\<lparr>w_files := (w_files w)(path := Some [])\<rparr>))"

definition file_of :: "int \<Rightarrow> world \<Rightarrow> string" where
  "file_of fd w = (case w_files w (w_path w fd) of None \<Rightarrow> [] | Some f \<Rightarrow> f)"

definition file_read :: "int \<Rightarrow> nat \<Rightarrow> world \<Rightarrow> string \<times> world" where
  "file_read fd n w =
     (let s = take n (drop (nat (w_pos w fd)) (file_of fd w))
      in (s, w\<lparr>w_pos := (w_pos w)(fd := w_pos w fd + int (length s))\<rparr>))"

text \<open>\<open>write\<close> to a file: whether all bytes were written.\<close>

definition file_write :: "int \<Rightarrow> string \<Rightarrow> world \<Rightarrow> bool \<times> world" where
  "file_write fd s w =
     (let w1 = w\<lparr>w_writes := Suc (w_writes w)\<rparr>
      in if fd \<in> set (w_open w) \<and> w_disk_ok w (w_writes w)
         then (True, w1\<lparr>w_files := (w_files w)(w_path w fd := Some (write_at (nat (w_pos w fd)) s (file_of fd w))),
                        w_pos := (w_pos w)(fd := w_pos w fd + int (length s))\<rparr>)
         else (False, w1))"

definition file_seek :: "int \<Rightarrow> int \<Rightarrow> world \<Rightarrow> bool \<times> world" where
  "file_seek fd off w =
     (if fd \<in> set (w_open w) \<and> 0 \<le> off \<and> (w_seek_ok w \<or> off \<le> int (length (file_of fd w)))
      then (True, w\<lparr>w_pos := (w_pos w)(fd := off)\<rparr>)
      else (False, w))"

definition file_unlink :: "string \<Rightarrow> world \<Rightarrow> world" where
  "file_unlink path w = w\<lparr>w_files := (w_files w)(path := None)\<rparr>"

definition file_exists :: "string \<Rightarrow> world \<Rightarrow> bool" where
  "file_exists path w = (w_files w path \<noteq> None)"

definition draw :: "world \<Rightarrow> int \<times> world" where
  "draw w = (w_rand w (w_rands w), w\<lparr>w_rands := Suc (w_rands w)\<rparr>)"

definition sys_select :: "world \<Rightarrow> int list option \<times> world" where
  "sys_select w = (w_select w (w_selects w), w\<lparr>w_selects := Suc (w_selects w)\<rparr>)"

definition thread_create :: "world \<Rightarrow> bool \<times> world" where
  "thread_create w = (w_thread_ok w (w_created w), w\<lparr>w_created := Suc (w_created w)\<rparr>)"

subsection \<open>Integers in a file\<close>

fun le_bytes :: "nat \<Rightarrow> int \<Rightarrow> string" where
  "le_bytes 0 x = []"
| "le_bytes (Suc n) x = char_of (nat (x mod 256)) # le_bytes n (x div 256)"

fun le_value :: "string \<Rightarrow> int" where
  "le_value [] = 0"
| "le_value (c # cs) = int (of_char c) + 256 * le_value cs"

definition le_int :: "nat \<Rightarrow> string \<Rightarrow> int" where
  "le_int n bs = (let v = le_value bs in if v < 2 ^ (8 * n - 1) then v else v - 2 ^ (8 * n))"

text \<open>
  \<open>read(fd, &x, n)\<close> of an \<open>n\<close> byte variable: a short file leaves its upper bytes as they
  were.
\<close>

definition read_int :: "int \<Rightarrow> nat \<Rightarrow> int \<Rightarrow> world \<Rightarrow> int \<times> world" where
  "read_int fd n old w =
     (case file_read fd n w of (s, w') \<Rightarrow> (le_int n (s @ drop (length s) (le_bytes n old)), w'))"

lemma le_bytes_length [simp]: "length (le_bytes n x) = n"
  by (induction n arbitrary: x) auto

lemma le_value_bytes: "le_value (le_bytes n x) = x mod 256 ^ n"
proof (induction n arbitrary: x)
  case 0
  then show ?case by simp
next
  case (Suc n)
  have "nat (x mod 256) < 256" by (simp add: nat_less_iff)
  then have "int (of_char (char_of (nat (x mod 256)) :: char)) = x mod 256"
    by simp
  then show ?case
    by (simp add: Suc zmod_zmult2_eq)
qed

lemma le_int_bytes:
  assumes "0 < n" "- (2 ^ (8 * n - 1)) \<le> x" "x < 2 ^ (8 * n - 1)"
  shows "le_int n (le_bytes n x) = x"
proof -
  have p: "(256 :: int) ^ n = 2 ^ (8 * n)" by (simp add: power_mult)
  have d: "(2 :: int) ^ (8 * n) = 2 * 2 ^ (8 * n - 1)"
    using assms(1) by (cases n) (auto simp: power_add)
  show ?thesis
  proof (cases "0 \<le> x")
    case True
    then have "x mod 2 ^ (8 * n) = x" using assms(3) d by (intro mod_pos_pos_trivial) auto
    with assms(3) show ?thesis by (simp add: le_int_def le_value_bytes p)
  next
    case False
    then have "x mod 2 ^ (8 * n) = x + 2 ^ (8 * n)"
      using assms(2) d mod_pos_pos_trivial [of "x + 2 ^ (8 * n)" "2 ^ (8 * n)"] by simp
    with assms(2) d False show ?thesis by (simp add: le_int_def le_value_bytes p)
  qed
qed

subsection \<open>Values of a fixed length\<close>

text \<open>
  The contract of a representation of integers in a file: every value takes the same number of
  bytes and is read back.  A sequence of values is then read back one after the other.
\<close>

locale int_codec =
  fixes enc :: "int \<Rightarrow> string" and dec :: "string \<Rightarrow> int" and len :: nat and rng :: "int \<Rightarrow> bool"
  assumes enc_length: "length (enc x) = len"
    and dec_enc: "rng x \<Longrightarrow> dec (enc x) = x"
begin

lemma dec_prefix: "rng x \<Longrightarrow> dec (take len (enc x @ r)) = x"
  using enc_length [of x] dec_enc by simp

lemma concat_length: "length (concat (map enc xs)) = length xs * len"
  by (induction xs) (simp_all add: enc_length)

lemma dec_nth:
  "list_all rng xs \<Longrightarrow> i < length xs \<Longrightarrow> dec (take len (drop (i * len) (concat (map enc xs) @ r))) = xs ! i"
proof (induction xs arbitrary: i)
  case Nil
  then show ?case by simp
next
  case (Cons x xs)
  show ?case
  proof (cases i)
    case 0
    with Cons.prems dec_prefix [of x "concat (map enc xs) @ r"] show ?thesis by simp
  next
    case (Suc j)
    have "drop (i * len) (enc x @ concat (map enc xs) @ r) = drop (j * len) (concat (map enc xs) @ r)"
      using enc_length [of x] by (simp add: Suc)
    with Cons Suc show ?thesis by simp
  qed
qed

end

interpretation int4: int_codec "le_bytes 4" "le_int 4" 4 in_int
  by unfold_locales (auto simp: in_int_def intro: le_int_bytes)

interpretation int8: int_codec "le_bytes 8" "le_int 8" 8 in_llong
  by unfold_locales (auto simp: in_llong_def intro: le_int_bytes)

subsection \<open>Facts about files\<close>

lemma write_at_length: "length (write_at off s f) = (if s = [] then length f else max (length f) (off + length s))"
  by (auto simp: write_at_def pad_nul_def)

lemma write_at_inside: "i < length s \<Longrightarrow> write_at off s f ! (off + i) = s ! i"
  by (auto simp: write_at_def pad_nul_def nth_append)

lemma write_at_outside:
  assumes "i < length f" "i < off \<or> off + length s \<le> i"
  shows "write_at off s f ! i = f ! i"
proof (cases "i < off")
  case True
  with assms(1) show ?thesis by (auto simp: write_at_def pad_nul_def nth_append)
next
  case False
  with assms have "off + length s \<le> i" by simp
  moreover from this assms(1) have "length (take off f) = off" by simp
  ultimately show ?thesis using assms(1)
    by (auto simp: write_at_def pad_nul_def nth_append)
qed

lemma write_at_end [simp]: "write_at (length f) s f = f @ s"
  by (simp add: write_at_def pad_nul_def)

lemma file_of_update: "w_files w (w_path w fd) = Some f \<Longrightarrow> file_of fd w = f"
  by (simp add: file_of_def)

lemma read_int_at:
  assumes "length bs = n" "drop (nat (w_pos w fd)) (file_of fd w) = bs @ r"
  shows "read_int fd n old w = (le_int n bs, w\<lparr>w_pos := (w_pos w)(fd := w_pos w fd + int n)\<rparr>)"
  using assms by (simp add: read_int_def file_read_def Let_def)

end
