(* ===== verification/Downloader.thy ===== *)
theory Downloader
  imports Conn OsFiles
begin

text \<open>
  \<^verbatim>\<open>final/client/ServerSide/ServerSide.c\<close>: one download over several connections.
  The file is divided into byte ranges, every connection is set up by a thread of its own, and the
  main loop reads what has arrived, writes it at its place, restarts connections that died, and
  saves the progress in a state file.

  A thread changes only its connection; it is one step of the model, between two rounds of the
  main loop.  Floating point values are rationals; a conversion of a value outside of the range
  of \<open>int\<close> gives \<open>INT_MIN\<close>, as on the x86 target.
\<close>

definition trunc_int :: "rat \<Rightarrow> int" where
  "trunc_int r = (let t = (if 0 \<le> r then \<lfloor>r\<rfloor> else \<lceil>r\<rceil>) in if in_int t then t else INT_MIN)"

text \<open>
  \<open>ServerSide_t\<close>.  \<open>d_url\<close> is the circular list from the current address on, \<open>d_message\<close>
  the queue of messages, \<open>d_pending\<close> the connections with a running set-up thread.
\<close>

record downloader =
  d_conn :: "conn list"
  d_conf :: conf
  d_filename :: string
  d_start_time :: rat
  d_next_state :: int
  d_finish_time :: int
  d_bytes_done :: int
  d_start_byte :: int
  d_size :: int
  d_bytes_per_second :: int
  d_delay_time :: int
  d_outfd :: int
  d_ready :: int
  d_message :: "string list"
  d_url :: "string list"
  d_pending :: "nat list"

definition downloader_zero :: "conf \<Rightarrow> downloader" where
  "downloader_zero k = \<lparr>d_conn = replicate (nat (k_num_connections k)) conn_zero, d_conf = k,
     d_filename = '''', d_start_time = 0, d_next_state = 0, d_finish_time = 0, d_bytes_done = 0,
     d_start_byte = 0, d_size = 0, d_bytes_per_second = 0, d_delay_time = 0, d_outfd = 0, d_ready = 0,
     d_message = [], d_url = [], d_pending = []\<rparr>"

definition set_conn :: "nat \<Rightarrow> conn \<Rightarrow> downloader \<Rightarrow> downloader" where
  "set_conn i c d = d\<lparr>d_conn := (d_conn d)[i := c]\<rparr>"

definition n_conns :: "downloader \<Rightarrow> nat" where
  "n_conns d = nat (k_num_connections (d_conf d))"

definition add_message :: "string \<Rightarrow> downloader \<Rightarrow> downloader" where
  "add_message t d = d\<lparr>d_message := d_message d @ [snprintf_buf MAX_STRING t]\<rparr>"

definition note_if :: "bool \<Rightarrow> string \<Rightarrow> downloader \<Rightarrow> downloader" where
  "note_if b t d = (if b then add_message t d else d)"

text \<open>A text used as a format without arguments.\<close>

fun format_plain :: "string \<Rightarrow> string res" where
  "format_plain [] = Inr []"
| "format_plain [c] = (if c = CHR ''%'' then Inl Format_args else Inr [c])"
| "format_plain (c # e # s) =
     (if c \<noteq> CHR ''%'' then rbind (format_plain (e # s)) (\<lambda>t. Inr (c # t))
      else if e = CHR ''%'' then rbind (format_plain s) (\<lambda>t. Inr (CHR ''%'' # t))
      else Inl Format_args)"

subsection \<open>Dividing the file\<close>

definition divide :: "downloader \<Rightarrow> downloader res" where
  "divide d =
     (case d_conn d of
        [] \<Rightarrow> Inl Out_of_bounds
      | c # cs \<Rightarrow>
          if k_num_connections (d_conf d) = 0 then Inl Div_by_zero
          else Inr (d\<lparr>d_conn := c\<lparr>c_currentbyte := 0,
                 c_lastbyte := c_div (d_size d) (k_num_connections (d_conf d)) - 1\<rparr> # cs\<rparr>))"

subsection \<open>A new download\<close>

text \<open>The buffer size and the delay for a speed limit; the last component is whether it was resized.\<close>

definition speed_limit :: "conf \<Rightarrow> conf \<times> int \<times> bool" where
  "speed_limit k =
     (if k_max_speed k \<le> 0 then (k, 0, False)
      else let small = (k_buffer_size k \<noteq> 0 \<and>
                        (of_int (k_max_speed k) :: rat) / of_int (k_buffer_size k) < 1 / 2);
               k' = (if small then k\<lparr>k_buffer_size := k_max_speed k\<rparr> else k)
           in (k', trunc_int (1000000 / of_int (k_max_speed k') * of_int (k_buffer_size k') * of_int (k_num_connections k')),
               small \<and> 2 \<le> k_verbose k))"

fun copy_urls :: "string list \<Rightarrow> string list res" where
  "copy_urls [] = Inr []"
| "copy_urls (u # us) =
     rbind (strncpy_buf MAX_STRING u) (\<lambda>t. rbind (copy_urls us) (\<lambda>ts. Inr (t # ts)))"

text \<open>The local file name: the decoded last part of the address, or the default.\<close>

definition local_name :: "conf \<Rightarrow> string \<Rightarrow> string res" where
  "local_name k name =
     rbind (strncpy_buf MAX_STRING name) (\<lambda>f0.
     rbind (http_decode f0) (\<lambda>f1.
     rbind (if f1 = '''' then strncpy_buf MAX_STRING (k_default_filename k) else Inr f1) (\<lambda>f2.
     Inr (case strchr f2 CHR ''?'' of
            None \<Rightarrow> f2
          | Some j \<Rightarrow> if k_strip_cgi_parameters k \<noteq> 0 then take j f2 else f2))))"

text \<open>The message of a failed connection is used as a format.\<close>

definition new_failed :: "world \<Rightarrow> conn \<Rightarrow> downloader \<Rightarrow> (world \<times> downloader) res" where
  "new_failed w c d =
     rbind (message_text c) (\<lambda>m.
     rbind (format_plain m) (\<lambda>t.
     Inr (w, (add_message t d)\<lparr>d_ready := -1\<rparr>)))"

definition new_connect :: "world \<Rightarrow> downloader \<Rightarrow> (world \<times> downloader) res" where
  "new_connect w d =
     rbind (conn_init (d_conf d) w (d_conn d ! 0)) (\<lambda>(ok, w1, c1).
     let d1 = set_conn 0 c1 d in
     if \<not> ok then new_failed w1 c1 d1 else
     rbind (conn_info (d_conf d) w1 c1) (\<lambda>(ok2, w2, c2).
     let d2 = set_conn 0 c2 d1 in
     if \<not> ok2 then new_failed w2 c2 d2 else
     rbind (conn_url c2) (\<lambda>u.
     rbind (strncpy_buf MAX_STRING u) (\<lambda>u'.
     let d3 = note_if (c_size c2 \<noteq> INT_MAX \<and> 0 < k_verbose (d_conf d))
                (''File size: '' @ int_str (c_size c2) @ '' bytes'')
                (d2\<lparr>d_url := u' # tl (d_url d2), d_size := c_size c2\<rparr>) in
     if CHR ''*'' \<in> set (d_filename d) \<or> CHR ''?'' \<in> set (d_filename d)
     then rbind (strncpy_buf MAX_STRING (c_file c2)) (\<lambda>f. Inr (w2, d3\<lparr>d_filename := f\<rparr>))
     else Inr (w2, d3)))))"

text \<open>\<open>urls\<close>: the one address, or those of the mirrors.\<close>

definition ServerSide_new :: "conf \<Rightarrow> string list \<Rightarrow> world \<Rightarrow> (world \<times> downloader) res" where
  "ServerSide_new k0 urls w =
     (case speed_limit k0 of (k, delay, resized) \<Rightarrow>
      rbind (guard_c (1 \<le> k_num_connections k) Out_of_bounds) (\<lambda>_.
      rbind (copy_urls urls) (\<lambda>us.
      let d0 = note_if resized ''Buffer resized for this speed.''
                 ((downloader_zero k)\<lparr>d_delay_time := delay, d_url := us\<rparr>) in
      rbind (conn_set (w_services w) (hd us) (d_conn d0 ! 0)) (\<lambda>(ok, c1).
      if \<not> ok
      then Inr (w, (add_message (''Could not parse URL.'' @ [NL]) (set_conn 0 c1 d0))\<lparr>d_ready := -1\<rparr>)
      else
        rbind (local_name k (c_file c1)) (\<lambda>name.
        new_connect w ((set_conn 0 (c1\<lparr>c_local_if := hd (k_interfaces k)\<rparr>) d0)
          \<lparr>d_conf := k\<lparr>k_interfaces := rotate1 (k_interfaces k)\<rparr>, d_filename := name\<rparr>))))))"

subsection \<open>The state file\<close>

definition state_name :: "downloader \<Rightarrow> string" where
  "state_name d = snprintf_buf MAX_STRING (d_filename d @ ''.st'')"

text \<open>\<open>write\<close> of several values; the code does not look at the results.\<close>

fun write_all :: "int \<Rightarrow> string list \<Rightarrow> world \<Rightarrow> world" where
  "write_all fd [] w = w"
| "write_all fd (s # ss) w = write_all fd ss (snd (file_write fd s w))"

definition state_values :: "downloader \<Rightarrow> string list" where
  "state_values d = le_bytes 4 (k_num_connections (d_conf d)) # le_bytes 8 (d_bytes_done d)
     # map (\<lambda>c. le_bytes 8 (c_currentbyte c)) (take (n_conns d) (d_conn d))"

definition save_state :: "world \<Rightarrow> downloader \<Rightarrow> world" where
  "save_state w d =
     (if \<not> c_supported (d_conn d ! 0) then w
      else case open_trunc (state_name d) w of (fd, w1) \<Rightarrow>
        if fd = -1 then w else sys_close fd (write_all fd (state_values d) w1))"

fun read_currents :: "int \<Rightarrow> world \<Rightarrow> conn list \<Rightarrow> conn list \<times> world" where
  "read_currents fd w [] = ([], w)"
| "read_currents fd w (c # cs) =
     (case read_int fd 8 (c_currentbyte c) w of (x, w1) \<Rightarrow>
      case read_currents fd w1 cs of (cs', w2) \<Rightarrow> (c\<lparr>c_currentbyte := x\<rparr> # cs', w2))"

text \<open>\<open>realloc\<close> and \<open>memset\<close> of all but the first connection.\<close>

definition resize_conns :: "int \<Rightarrow> downloader \<Rightarrow> downloader res" where
  "resize_conns n d =
     (if n < 1 then Inl Out_of_bounds
      else Inr (d\<lparr>d_conf := (d_conf d)\<lparr>k_num_connections := n\<rparr>,
                 d_conn := take 1 (d_conn d) @ replicate (nat n - 1) conn_zero\<rparr>))"

definition open_failed :: string where
  "open_failed = ''Error opening local file''"

definition open_resume :: "int \<Rightarrow> world \<Rightarrow> downloader \<Rightarrow> (bool \<times> world \<times> downloader) res" where
  "open_resume fd w d =
     (case read_int fd 4 (k_num_connections (d_conf d)) w of (n, w1) \<Rightarrow>
      rbind (resize_conns n d) (\<lambda>d1.
      rbind (divide d1) (\<lambda>d2.
      case read_int fd 8 (d_bytes_done d2) w1 of (done, w2) \<Rightarrow>
      case read_currents fd w2 (d_conn d2) of (cs, w3) \<Rightarrow>
      let d3 = add_message (''State file found: '' @ int_str done @ '' bytes downloaded, '' @
                            int_str (d_size d2 - done) @ '' to go.'')
                 (d2\<lparr>d_bytes_done := done, d_conn := cs\<rparr>) in
      case open_read (d_filename d) (sys_close fd w3) of (out, w4) \<Rightarrow>
      if out = -1 then Inr (False, w4, add_message open_failed (d3\<lparr>d_outfd := out\<rparr>))
      else Inr (True, w4, d3\<lparr>d_outfd := out\<rparr>))))"

function fill_zeros :: "int \<Rightarrow> int \<Rightarrow> int \<Rightarrow> world \<Rightarrow> world res" where
  "fill_zeros fd j b w =
     (if j \<le> 0 then Inr w
      else if b \<le> 0 then Inl No_return
      else fill_zeros fd (j - b) b (snd (file_write fd (replicate (nat (min j b)) NUL) w)))"
  by pat_completeness auto
termination by (relation "measure (\<lambda>(fd, j, b, w). nat j)") auto

declare fill_zeros.simps [simp del]

definition open_scratch :: "world \<Rightarrow> downloader \<Rightarrow> (bool \<times> world \<times> downloader) res" where
  "open_scratch w d =
     rbind (divide d) (\<lambda>d1.
     case open_create (d_filename d) w of (out, w1) \<Rightarrow>
     let d2 = d1\<lparr>d_outfd := out\<rparr> in
     if out = -1 then Inr (False, w1, add_message open_failed d2)
     else case file_seek out (d_size d) w1 of (ok, w2) \<Rightarrow>
       if ok \<or> k_num_connections (d_conf d) \<le> 1 then Inr (True, w2, d2)
       else rbind (guard_c (0 \<le> k_buffer_size (d_conf d)) Buffer_overflow) (\<lambda>_.
            rbind (fill_zeros out (d_size d) (k_buffer_size (d_conf d)) (snd (file_seek out 0 w2))) (\<lambda>w3.
            Inr (True, w3, add_message ''Crappy filesystem/OS.. Working around. :-('' d2))))"

definition ServerSide_open :: "world \<Rightarrow> downloader \<Rightarrow> (bool \<times> world \<times> downloader) res" where
  "ServerSide_open w d0 =
     (let d = (note_if (0 < k_verbose (d_conf d0)) (''Opening output file '' @ d_filename d0) d0)\<lparr>d_outfd := -1\<rparr>
      in if \<not> c_supported (d_conn d ! 0)
         then rbind (divide ((add_message ''Server unsupported, starting from scratch with one connection.'' d)
                       \<lparr>d_conf := (d_conf d)\<lparr>k_num_connections := 1\<rparr>, d_conn := take 1 (d_conn d)\<rparr>)) (\<lambda>d1.
              open_scratch w d1)
         else case open_read (state_name d) w of (fd, w1) \<Rightarrow>
           if fd \<noteq> -1 then open_resume fd w1 d else open_scratch w1 d)"

subsection \<open>Starting\<close>

text \<open>Every connection gets the next address and the next interface; all but the first are supported.\<close>

fun start_set :: "services \<Rightarrow> nat \<Rightarrow> conn list \<Rightarrow> string list \<Rightarrow> string option list
    \<Rightarrow> (conn list \<times> string list \<times> string option list) res" where
  "start_set serv i [] us ifs = Inr ([], us, ifs)"
| "start_set serv i (c # cs) us ifs =
     rbind (conn_set serv (hd us) c) (\<lambda>(ok, c1).
     rbind (start_set serv (Suc i) cs (rotate1 us) (rotate1 ifs)) (\<lambda>(cs', us', ifs').
     Inr (c1\<lparr>c_local_if := hd ifs, c_supported := (i \<noteq> 0 \<or> c_supported c1)\<rparr> # cs', us', ifs')))"

definition downloading_from :: "nat \<Rightarrow> conn \<Rightarrow> string res" where
  "downloading_from i c =
     (case c_local_if c of
        None \<Rightarrow> Inl Uninitialised
      | Some lif \<Rightarrow> Inr (''Connection '' @ int_str (int i) @ '' downloading from '' @ c_host c @ '':'' @
                       int_str (c_port c) @ '' using interface '' @ lif))"

definition note_start :: "nat \<Rightarrow> downloader \<Rightarrow> downloader res" where
  "note_start i d =
     (if 2 \<le> k_verbose (d_conf d)
      then rbind (downloading_from i (d_conn d ! i)) (\<lambda>t. Inr (add_message t d)) else Inr d)"

text \<open>The set-up thread of a connection is created, \<open>state\<close> 1 while it runs.\<close>

definition create_thread :: "nat \<Rightarrow> world \<Rightarrow> downloader \<Rightarrow> world \<times> downloader" where
  "create_thread i w d =
     (let c = (d_conn d ! i)\<lparr>c_state := 1\<rparr>
      in case thread_create w of (ok, w1) \<Rightarrow>
        if ok then (case gettime w1 of (t, w2) \<Rightarrow>
          (w2, (set_conn i (c\<lparr>c_thread := True, c_last_transfer := trunc_int t\<rparr>) d)\<lparr>d_pending := i # d_pending d\<rparr>))
        else (w1, (add_message ''pthread error!!!'' (set_conn i c d))\<lparr>d_ready := -1\<rparr>))"

fun start_threads :: "nat list \<Rightarrow> world \<Rightarrow> downloader \<Rightarrow> (world \<times> downloader) res" where
  "start_threads [] w d = Inr (w, d)"
| "start_threads (i # is) w d =
     (if c_currentbyte (d_conn d ! i) \<le> c_lastbyte (d_conn d ! i)
      then rbind (note_start i d) (\<lambda>d1. case create_thread i w d1 of (w1, d2) \<Rightarrow> start_threads is w1 d2)
      else start_threads is w d)"

definition ServerSide_start :: "world \<Rightarrow> downloader \<Rightarrow> (world \<times> downloader) res" where
  "ServerSide_start w d =
     rbind (start_set (w_services w) 0 (d_conn d) (d_url d) (k_interfaces (d_conf d))) (\<lambda>(cs, us, ifs).
     rbind (start_threads [0..<length cs] w
              (note_if (0 < k_verbose (d_conf d)) ''Starting download''
                (d\<lparr>d_conn := cs, d_url := us, d_conf := (d_conf d)\<lparr>k_interfaces := ifs\<rparr>\<rparr>))) (\<lambda>(w1, d1).
     case gettime w1 of (t, w2) \<Rightarrow> Inr (w2, d1\<lparr>d_start_time := t, d_ready := 0\<rparr>)))"

text \<open>The body of the thread.\<close>

definition setup_thread :: "conf \<Rightarrow> world \<Rightarrow> conn \<Rightarrow> (world \<times> conn) res" where
  "setup_thread k w c =
     rbind (conn_setup k w c) (\<lambda>(ok, w1, c1).
     if \<not> ok then (case conn_disconnect w1 c1 of (w2, c2) \<Rightarrow> Inr (w2, c2\<lparr>c_state := 0\<rparr>))
     else case gettime w1 of (t, w2) \<Rightarrow>
       rbind (conn_exec w2 (c1\<lparr>c_last_transfer := trunc_int t\<rparr>)) (\<lambda>(ok2, w3, c3).
       if \<not> ok2 then (case conn_disconnect w3 c3 of (w4, c4) \<Rightarrow> Inr (w4, c4\<lparr>c_state := 0\<rparr>))
       else case gettime w3 of (t2, w4) \<Rightarrow>
         Inr (w4, c3\<lparr>c_last_transfer := trunc_int t2, c_enabled := True, c_state := 0\<rparr>)))"

definition run_thread :: "nat \<Rightarrow> world \<Rightarrow> downloader \<Rightarrow> (world \<times> downloader) res" where
  "run_thread i w d =
     rbind (setup_thread (d_conf d) w (d_conn d ! i)) (\<lambda>(w1, c1).
     Inr (w1, (set_conn i c1 d)\<lparr>d_pending := removeAll i (d_pending d)\<rparr>))"

subsection \<open>The main loop\<close>

definition do_save :: "world \<Rightarrow> downloader \<Rightarrow> world \<times> downloader" where
  "do_save w d =
     (case gettime w of (t, w1) \<Rightarrow>
        if of_int (d_next_state d) < t
        then (case gettime (save_state w1 d) of (t2, w2) \<Rightarrow>
                (w2, d\<lparr>d_next_state := trunc_int (t2 + of_int (k_save_state_interval (d_conf d)))\<rparr>))
        else (w1, d))"

definition drop_conn :: "nat \<Rightarrow> world \<Rightarrow> downloader \<Rightarrow> world \<times> downloader" where
  "drop_conn i w d =
     (case conn_disconnect w ((d_conn d ! i)\<lparr>c_enabled := False\<rparr>) of (w1, c1) \<Rightarrow> (w1, set_conn i c1 d))"

definition conn_text :: "nat \<Rightarrow> string \<Rightarrow> string" where
  "conn_text i s = ''Connection '' @ int_str (int i) @ s"

text \<open>What a connection has received is written at its place.\<close>

definition store_data :: "nat \<Rightarrow> string \<Rightarrow> world \<Rightarrow> downloader \<Rightarrow> bool \<times> world \<times> downloader" where
  "store_data i data w d =
     (let c = d_conn d ! i
      in case file_write (d_outfd d) data (snd (file_seek (d_outfd d) (c_currentbyte c) w)) of (ok, w1) \<Rightarrow>
        if \<not> ok then (True, w1, (add_message ''Write error!'' d)\<lparr>d_ready := -1\<rparr>)
        else (False, w1, (set_conn i (c\<lparr>c_currentbyte := c_currentbyte c + int (length data)\<rparr>) d)
                           \<lparr>d_bytes_done := d_bytes_done d + int (length data)\<rparr>))"

text \<open>
  A readable connection.  The first component of the result is whether the round ends here.
\<close>

definition receive :: "nat \<Rightarrow> world \<Rightarrow> downloader \<Rightarrow> (bool \<times> world \<times> downloader) res" where
  "receive i w0 d0 =
     (case gettime w0 of (t, w) \<Rightarrow>
      let c = (d_conn d0 ! i)\<lparr>c_last_transfer := trunc_int t\<rparr>; d = set_conn i c d0;
          verbose = k_verbose (d_conf d) \<noteq> 0 in
      case sys_read (c_fd c) (nat (k_buffer_size (d_conf d))) w of (r, data, w1) \<Rightarrow>
      if r = -1
      then (case drop_conn i w1 (note_if verbose (''Error on connection '' @ int_str (int i) @ ''! Connection closed'') d)
              of (w2, d2) \<Rightarrow> Inr (False, w2, d2))
      else if r = 0
      then (let d1 = note_if verbose
                       (conn_text i (if c_currentbyte c < c_lastbyte c \<and> d_size d \<noteq> INT_MAX
                                     then '' unexpectedly closed'' else '' finished'')) d;
                d2 = (if \<not> c_supported (d_conn d ! 0) then d1\<lparr>d_ready := 1\<rparr> else d1)
            in case drop_conn i w1 d2 of (w2, d3) \<Rightarrow> Inr (False, w2, d3))
      else let remaining = c_lastbyte c - c_currentbyte c + 1 in
           if remaining < r
           then rbind (guard_c (0 \<le> remaining) Over_read) (\<lambda>_.
                case drop_conn i w1 (note_if verbose (conn_text i '' finished'') d) of (w2, d2) \<Rightarrow>
                Inr (store_data i (take (nat remaining) data) w2 d2))
           else Inr (store_data i data w1 d))"

definition check_timeout :: "nat \<Rightarrow> world \<Rightarrow> downloader \<Rightarrow> world \<times> downloader" where
  "check_timeout i w0 d =
     (case gettime w0 of (t, w) \<Rightarrow>
      if of_int (c_last_transfer (d_conn d ! i) + k_connection_timeout (d_conf d)) < t
      then drop_conn i w (note_if (k_verbose (d_conf d) \<noteq> 0) (conn_text i '' timed out'') d)
      else (w, d))"

fun handle_conns :: "int list \<Rightarrow> nat list \<Rightarrow> world \<Rightarrow> downloader \<Rightarrow> (bool \<times> world \<times> downloader) res" where
  "handle_conns rdy [] w d = Inr (False, w, d)"
| "handle_conns rdy (i # is) w d =
     (if \<not> c_enabled (d_conn d ! i) then handle_conns rdy is w d
      else if c_fd (d_conn d ! i) \<in> set rdy
      then rbind (receive i w d) (\<lambda>(stop, w1, d1).
           if stop then Inr (True, w1, d1) else handle_conns rdy is w1 d1)
      else (case check_timeout i w d of (w1, d1) \<Rightarrow> handle_conns rdy is w1 d1))"

text \<open>A connection that is not enabled and not done gets a new thread, or its thread is cancelled.\<close>

definition restart_conn :: "nat \<Rightarrow> world \<Rightarrow> downloader \<Rightarrow> (world \<times> downloader) res" where
  "restart_conn i w d =
     (let c = d_conn d ! i in
      if c_enabled c \<or> c_lastbyte c \<le> c_currentbyte c then Inr (w, d)
      else if c_state c = 0
      then rbind (conn_set (w_services w) (hd (d_url d)) c) (\<lambda>(ok, c1).
           rbind (note_start i ((set_conn i c1 d)\<lparr>d_url := rotate1 (d_url d)\<rparr>)) (\<lambda>d1.
           Inr (create_thread i w d1)))
      else (case gettime w of (t, w1) \<Rightarrow>
              if of_int (c_last_transfer c + k_reconnect_delay (d_conf d)) < t
              then Inr (w1, (set_conn i (c\<lparr>c_state := 0\<rparr>) d)\<lparr>d_pending := removeAll i (d_pending d)\<rparr>)
              else Inr (w1, d)))"

fun restart_conns :: "nat list \<Rightarrow> world \<Rightarrow> downloader \<Rightarrow> (world \<times> downloader) res" where
  "restart_conns [] w d = Inr (w, d)"
| "restart_conns (i # is) w d = rbind (restart_conn i w d) (\<lambda>(w1, d1). restart_conns is w1 d1)"

text \<open>
  The statistics and the end of the download.  A division by zero gives an infinity (or not a
  number), which has no \<open>int\<close> value.
\<close>

definition ratio_int :: "rat \<Rightarrow> rat \<Rightarrow> rat \<Rightarrow> int" where
  "ratio_int off a b = (if b = 0 then INT_MIN else trunc_int (off + a / b))"

definition do_stats :: "world \<Rightarrow> downloader \<Rightarrow> world \<times> downloader" where
  "do_stats w d =
     (case gettime w of (t, w1) \<Rightarrow>
      let bps = ratio_int 0 (of_int (d_bytes_done d - d_start_byte d)) (t - d_start_time d);
          fin = ratio_int (d_start_time d) (of_int (d_size d - d_start_byte d)) (of_int bps)
      in (w1, d\<lparr>d_bytes_per_second := bps, d_finish_time := fin,
                d_ready := (if d_bytes_done d = d_size d then 1 else d_ready d)\<rparr>))"

definition do_check :: "world \<Rightarrow> downloader \<Rightarrow> (world \<times> downloader) res" where
  "do_check w d = rbind (restart_conns [0..<n_conns d] w d) (\<lambda>(w1, d1). Inr (do_stats w1 d1))"

text \<open>
  One round.  One time in twenty the whole body is skipped.  \<open>select\<close> gets the descriptors of
  the enabled connections; the highest descriptor is taken over all of them.
\<close>

definition ServerSide_do :: "world \<Rightarrow> downloader \<Rightarrow> (world \<times> downloader) res" where
  "ServerSide_do w0 d0 =
     (case draw w0 of (r, w1) \<Rightarrow>
      if r mod 20 = 1 then Inr (w1, d0)
      else case do_save w1 d0 of (w2, d) \<Rightarrow>
        if foldl (\<lambda>m c. max m (c_fd c)) 0 (take (n_conns d) (d_conn d)) = 0 then do_check w2 d
        else case sys_select w2 of
          (None, w3) \<Rightarrow> Inr (w3, d\<lparr>d_ready := -1\<rparr>)
        | (Some rdy, w3) \<Rightarrow>
            rbind (handle_conns rdy [0..<n_conns d] w3 d) (\<lambda>(stop, w4, d4).
            if stop \<or> d_ready d4 \<noteq> 0 then Inr (w4, d4) else do_check w4 d4))"

subsection \<open>Closing\<close>

fun disconnect_all :: "world \<Rightarrow> conn list \<Rightarrow> world" where
  "disconnect_all w [] = w"
| "disconnect_all w (c # cs) = disconnect_all (fst (conn_disconnect w c)) cs"

definition ServerSide_close :: "world \<Rightarrow> downloader \<Rightarrow> world" where
  "ServerSide_close w d =
     (let w1 = (if d_ready d = 1 then file_unlink (state_name d) w
                else if 0 < d_bytes_done d then save_state w d else w)
      in disconnect_all (sys_close (d_outfd d) w1) (take (n_conns d) (d_conn d)))"

subsection \<open>What the connection functions leave alone\<close>

text \<open>The byte range of a connection and whether it is supported.\<close>

definition same_range :: "conn \<Rightarrow> conn \<Rightarrow> bool" where
  "same_range c c' = (c_currentbyte c' = c_currentbyte c \<and> c_lastbyte c' = c_lastbyte c \<and> c_supported c' = c_supported c)"

lemma same_range_refl [simp]: "same_range c c"
  by (simp add: same_range_def)

lemma same_range_trans: "same_range a b \<Longrightarrow> same_range b c \<Longrightarrow> same_range a c"
  by (simp add: same_range_def)

lemma same_range_update [simp]:
  "same_range c (c\<lparr>c_ftp := f\<rparr>)" "same_range c (c\<lparr>c_http := h\<rparr>)" "same_range c (c\<lparr>c_fd := x\<rparr>)"
  "same_range c (c\<lparr>c_proxy := p\<rparr>)" "same_range c (c\<lparr>c_message := m\<rparr>)" "same_range c (c\<lparr>c_state := s\<rparr>)"
  "same_range c (c\<lparr>c_enabled := e\<rparr>)" "same_range c (c\<lparr>c_last_transfer := t\<rparr>)" "same_range c (c\<lparr>c_thread := b\<rparr>)"
  by (simp_all add: same_range_def)

lemma conn_set_range:
  assumes "conn_set serv u c = Inr (ok, c')"
  shows "same_range c c'"
proof (cases "split_proto u")
  case None
  with assms show ?thesis by (simp add: conn_set_def)
next
  case (Some q)
  then obtain p rest where sp: "split_proto u = Some (p, rest)" by (cases q) auto
  obtain h0 d0 where hd: "split_host p rest = (h0, d0)" by fastforce
  obtain u0 p0 h1 where us: "split_user p h0 = (u0, p0, h1)" by (metis prod_cases3)
  obtain us' pw where ps: "split_pass u0 p0 = (us', pw)" by fastforce
  obtain dr fl h port where "c' = c\<lparr>c_proto := p, c_port := port, c_host := h, c_dir := dr, c_file := fl,
             c_user := us', c_pass := pw\<rparr>"
    using assms(1) sp hd us ps by (auto simp: conn_set_def Let_def res_elims split: prod.splits)
  then show ?thesis by (simp add: same_range_def)
qed

lemma conn_disconnect_range: "conn_disconnect w c = (w', c') \<Longrightarrow> same_range c c'"
  by (auto simp: conn_disconnect_def same_range_def split: prod.splits if_splits)

lemma init_ftp_range:
  assumes "init_ftp lif w c = Inr (ok, w', c')"
  shows "same_range c c'"
proof -
  obtain ok1 w1 f1 where con: "ftp_connect (c_host c) (c_port c) (c_user c) (c_pass c) w
      ((c_ftp c)\<lparr>f_local_if := lif, f_mode := FTP_PASSIVE\<rparr>) = Inr (ok1, w1, f1)"
    using assms(1) by (auto simp: init_ftp_def res_elims)
  let ?c1 = "c\<lparr>c_ftp := f1, c_message := MFtp\<rparr>"
  have r: "same_range c ?c1" "same_range c (?c1\<lparr>c_ftp := f\<rparr>)" for f by (simp_all add: same_range_def)
  show ?thesis
  proof (cases ok1)
    case False
    with assms con have "conn_disconnect w1 ?c1 = (w', c')"
      by (simp add: init_ftp_def Let_def split: prod.splits)
    with r(1) show ?thesis using conn_disconnect_range same_range_trans by blast
  next
    case True
    with assms con obtain ok2 w2 f2 where cwd: "ftp_cwd (c_dir c) w1 f1 = Inr (ok2, w2, f2)"
      by (auto simp: init_ftp_def Let_def res_elims)
    with True assms con have "conn_disconnect w2 (?c1\<lparr>c_ftp := f2\<rparr>) = (w', c') \<or> c' = ?c1\<lparr>c_ftp := f2\<rparr>"
      by (cases ok2) (simp_all add: init_ftp_def Let_def split: prod.splits)
    with r(2) show ?thesis using conn_disconnect_range same_range_trans by blast
  qed
qed

lemma init_http_range:
  assumes "init_http lif p w c = Inr (r, w', c')"
  shows "same_range c c'"
proof -
  obtain ok w1 h1 where con: "http_connect (c_proto c) p (c_host c) (c_port c) (c_user c) (c_pass c) w
      ((c_http c)\<lparr>h_local_if := lif\<rparr>) = Inr (ok, w1, h1)"
    using assms(1) by (auto simp: init_http_def res_elims)
  let ?c1 = "c\<lparr>c_http := h1, c_message := MHttp\<rparr>"
  have u: "same_range c ?c1" "same_range c (?c1\<lparr>c_fd := x\<rparr>)" for x by (simp_all add: same_range_def)
  from assms con have "conn_disconnect w1 ?c1 = (w', c') \<or> c' = ?c1\<lparr>c_fd := h_fd h1\<rparr>"
    by (cases ok) (simp_all add: init_http_def Let_def split: prod.splits)
  with u show ?thesis using conn_disconnect_range same_range_trans by blast
qed

lemma conn_init_range:
  assumes "conn_init k w c = Inr (ok, w', c')"
  shows "same_range c c'"
proof -
  define c1 where "c1 = c\<lparr>c_proxy := choose_proxy k (c_host c) \<noteq> None\<rparr>"
  obtain lif where "(if uses_ftp c1 then init_ftp lif w c1 else init_http lif (choose_proxy k (c_host c)) w c1)
      = Inr (ok, w', c')"
    using assms(1) [unfolded conn_init_def Let_def, folded c1_def] by (cases "c_local_if c1") auto
  then have "same_range c1 c'"
    using init_ftp_range init_http_range by (metis (full_types))
  moreover have "same_range c c1" by (simp add: c1_def)
  ultimately show ?thesis using same_range_trans by blast
qed

lemma setup_ftp_range:
  assumes "setup_ftp w c = Inr (ok, w', c')"
  shows "same_range c c'"
proof -
  obtain ok1 w1 f1 where "ftp_data w (c_ftp c) = Inr (ok1, w1, f1)"
    using assms by (auto simp: setup_ftp_def res_elims)
  with assms show ?thesis
    by (cases ok1; cases "c_currentbyte c = 0") (auto simp: setup_ftp_def Let_def res_elims same_range_def)
qed

lemma conn_setup_range:
  assumes "conn_setup k w c = Inr (ok, w', c')"
  shows "same_range c c'"
proof -
  obtain ok1 w1 c1 where i: "(if f_fd (c_ftp c) \<le> 0 \<and> h_fd (c_http c) \<le> 0 then conn_init k w c else Inr (True, w, c))
      = Inr (ok1, w1, c1)"
    using assms unfolding conn_setup_def rbind_Inr by auto
  then have r: "same_range c c1" using conn_init_range by (auto split: if_splits)
  have "same_range c1 c'"
  proof (cases "ok1 \<and> \<not> uses_ftp c1")
    case True
    with assms i obtain h where "c' = c1\<lparr>c_http := h\<rparr>"
      by (auto simp: conn_setup_def setup_http_def res_elims Let_def simp del: split_paired_Ex split: if_splits)
    then show ?thesis by simp
  next
    case False
    with assms i setup_ftp_range show ?thesis
      by (auto simp: conn_setup_def split: if_splits)
  qed
  with r show ?thesis by (rule same_range_trans)
qed

lemma conn_exec_range:
  assumes "conn_exec w c = Inr (ok, w', c')"
  shows "same_range c c'"
proof (cases "uses_ftp c")
  case False
  with assms show ?thesis by (auto simp: conn_exec_def res_elims)
next
  case True
  with assms obtain ok1 w1 f1 where r: "ftp_command ''RETR %s'' (''RETR '' @ c_file c) w (c_ftp c) = Inr (ok1, w1, f1)"
    by (auto simp: conn_exec_def res_elims)
  with True assms show ?thesis by (cases ok1) (auto simp: conn_exec_def res_elims)
qed

lemma setup_thread_range:
  assumes "setup_thread k w c = Inr (w', c')"
  shows "same_range c c'"
proof -
  obtain ok1 w1 c1 where s: "conn_setup k w c = Inr (ok1, w1, c1)"
    using assms by (auto simp: setup_thread_def res_elims)
  have r1: "same_range c c1" using s by (rule conn_setup_range)
  show ?thesis
  proof (cases ok1)
    case False
    with assms s obtain c2 where "conn_disconnect w1 c1 = (w', c2)" "c' = c2\<lparr>c_state := 0\<rparr>"
      by (auto simp: setup_thread_def split: prod.splits)
    with r1 show ?thesis using conn_disconnect_range by (fastforce simp: same_range_def)
  next
    case True
    obtain t w2 where t: "gettime w1 = (t, w2)" by fastforce
    obtain ok2 w3 c3 where e: "conn_exec w2 (c1\<lparr>c_last_transfer := trunc_int t\<rparr>) = Inr (ok2, w3, c3)"
      using assms s True t by (auto simp: setup_thread_def res_elims)
    have r3: "same_range c c3" using r1 conn_exec_range [OF e] by (simp add: same_range_def)
    have "\<exists>w4 c4. conn_disconnect w3 c3 = (w4, c4) \<and> same_range c4 c' \<or> same_range c3 c'"
      using assms s True t e by (auto simp: setup_thread_def same_range_def split: prod.splits if_splits)
    with r3 show ?thesis using conn_disconnect_range same_range_trans by blast
  qed
qed

subsection \<open>The progress of a download\<close>

text \<open>
  The steps of a download: a round of the main loop while the download is not ready, or a set-up
  thread.
\<close>

inductive download_step :: "world \<times> downloader \<Rightarrow> world \<times> downloader \<Rightarrow> bool" where
  round: "d_ready d = 0 \<Longrightarrow> ServerSide_do w d = Inr (w', d') \<Longrightarrow> download_step (w, d) (w', d')"
| thread: "i \<in> set (d_pending d) \<Longrightarrow> run_thread i w d = Inr (w', d') \<Longrightarrow> download_step (w, d) (w', d')"

inductive_cases download_stepE: "download_step (w, d) (w', d')"

text \<open>
  \<open>progress rs b z d\<close>: every connection is within its range of \<open>rs\<close>, and what was stored
  since \<open>b\<close> bytes is what the connections have advanced.
\<close>

definition room :: "int \<times> int \<Rightarrow> int" where
  "room r = max 0 (snd r - fst r + 1)"

definition advanced :: "(int \<times> int) list \<Rightarrow> conn list \<Rightarrow> int" where
  "advanced rs cs = (\<Sum>i<length rs. c_currentbyte (cs ! i) - fst (rs ! i))"

definition conn_in :: "int \<times> int \<Rightarrow> conn \<Rightarrow> bool" where
  "conn_in r c = (c_lastbyte c = snd r \<and> fst r \<le> c_currentbyte c \<and> c_currentbyte c \<le> fst r + room r)"

definition progress :: "(int \<times> int) list \<Rightarrow> int \<Rightarrow> int \<Rightarrow> downloader \<Rightarrow> bool" where
  "progress rs b z d =
     (length (d_conn d) = length rs \<and> n_conns d = length rs \<and>
      (\<forall>i<length rs. conn_in (rs ! i) (d_conn d ! i)) \<and>
      d_bytes_done d = b + advanced rs (d_conn d) \<and> d_size d = z \<and> c_supported (d_conn d ! 0) \<and>
      (d_ready d = 1 \<longrightarrow> d_bytes_done d = z))"

lemma progress_fields [simp]:
  "progress rs b z (d\<lparr>d_message := m\<rparr>) = progress rs b z d"
  "progress rs b z (d\<lparr>d_url := u\<rparr>) = progress rs b z d"
  "progress rs b z (d\<lparr>d_pending := p\<rparr>) = progress rs b z d"
  "progress rs b z (d\<lparr>d_next_state := n\<rparr>) = progress rs b z d"
  by (simp_all add: progress_def n_conns_def)

lemma progress_not_ready: "progress rs b z d \<Longrightarrow> r \<noteq> 1 \<Longrightarrow> progress rs b z (d\<lparr>d_ready := r\<rparr>)"
  by (simp add: progress_def n_conns_def)

lemma progress_note [simp]:
  "progress rs b z (add_message t d) = progress rs b z d" "progress rs b z (note_if v t d) = progress rs b z d"
  by (simp_all add: add_message_def note_if_def)

lemma note_conn [simp]:
  "d_conn (add_message t d) = d_conn d" "d_conn (note_if v t d) = d_conn d"
  by (simp_all add: add_message_def note_if_def)

lemma advanced_update:
  assumes "i < length rs" "length cs = length rs"
  shows "advanced rs (cs[i := c]) = advanced rs cs + (c_currentbyte c - c_currentbyte (cs ! i))"
proof -
  have "(\<Sum>j<length rs. c_currentbyte (cs[i := c] ! j) - fst (rs ! j))
      = (\<Sum>j<length rs. (c_currentbyte (cs ! j) - fst (rs ! j)) + (if j = i then c_currentbyte c - c_currentbyte (cs ! i) else 0))"
    using assms by (intro sum.cong) (auto simp: nth_list_update)
  also have "\<dots> = advanced rs cs + (c_currentbyte c - c_currentbyte (cs ! i))"
    using assms by (simp add: sum.distrib advanced_def)
  finally show ?thesis by (simp add: advanced_def)
qed

text \<open>A change of one connection: it advances by \<open>n\<close> within its range.\<close>

lemma progress_advance:
  assumes "progress rs b z d" "i < length rs" "c_currentbyte c = c_currentbyte (d_conn d ! i) + n"
    "c_lastbyte c = c_lastbyte (d_conn d ! i)" "c_supported c = c_supported (d_conn d ! i)"
    "0 \<le> n" "n = 0 \<or> c_currentbyte c \<le> c_lastbyte c + 1" "d_ready d \<noteq> 1 \<or> n = 0"
  shows "progress rs b z ((set_conn i c d)\<lparr>d_bytes_done := d_bytes_done d + n\<rparr>)"
proof -
  have p: "length (d_conn d) = length rs" "n_conns d = length rs" "\<forall>i<length rs. conn_in (rs ! i) (d_conn d ! i)"
      "d_bytes_done d = b + advanced rs (d_conn d)" "d_size d = z" "c_supported (d_conn d ! 0)"
      "d_ready d = 1 \<longrightarrow> d_bytes_done d = z"
    using assms(1) by (auto simp: progress_def)
  have ci: "conn_in (rs ! i) (d_conn d ! i)" using p(3) assms(2) by blast
  have "conn_in (rs ! i) c" using ci assms(3-7) by (auto simp: conn_in_def room_def)
  then have "\<forall>j<length rs. conn_in (rs ! j) ((d_conn d)[i := c] ! j)"
    using p(1,3) assms(2) by (simp add: nth_list_update)
  moreover have "c_supported ((d_conn d)[i := c] ! 0)"
    using p(1,6) assms(2,5) by (cases "i = 0") auto
  moreover have "advanced rs ((d_conn d)[i := c]) = advanced rs (d_conn d) + n"
    using advanced_update [OF assms(2) p(1), of c] assms(3) by simp
  ultimately show ?thesis
    using p assms(8) by (auto simp: progress_def set_conn_def n_conns_def)
qed

lemma progress_same_range:
  assumes "progress rs b z d" "i < length rs \<Longrightarrow> same_range (d_conn d ! i) c"
  shows "progress rs b z (set_conn i c d)"
proof (cases "i < length rs")
  case True
  then have "progress rs b z ((set_conn i c d)\<lparr>d_bytes_done := d_bytes_done d + 0\<rparr>)"
    using assms by (intro progress_advance) (auto simp: same_range_def)
  then show ?thesis by (simp add: set_conn_def)
next
  case False
  moreover have "length (d_conn d) = length rs" using assms(1) by (simp add: progress_def)
  ultimately have "(d_conn d)[i := c] = d_conn d" by (simp add: list_update_beyond)
  with assms(1) show ?thesis by (auto simp: set_conn_def progress_def n_conns_def)
qed

lemma progress_length: "progress rs b z d \<Longrightarrow> length (d_conn d) = length rs \<and> n_conns d = length rs"
  by (simp add: progress_def)

text \<open>The rounds of the main loop keep the progress; so do the threads.\<close>

lemma run_thread_progress:
  assumes "progress rs b z d" "run_thread i w d = Inr (w', d')"
  shows "progress rs b z d'"
proof -
  obtain c1 where "setup_thread (d_conf d) w (d_conn d ! i) = Inr (w', c1)"
      "d' = (set_conn i c1 d)\<lparr>d_pending := removeAll i (d_pending d)\<rparr>"
    using assms(2) by (auto simp: run_thread_def res_elims)
  with assms(1) show ?thesis using setup_thread_range progress_same_range by simp
qed

lemma create_thread_progress:
  assumes "progress rs b z d" "create_thread i w d = (w', d')"
  shows "progress rs b z d'"
proof -
  let ?c = "(d_conn d ! i)\<lparr>c_state := 1\<rparr>"
  have "same_range (d_conn d ! i) ?c" "same_range (d_conn d ! i) (?c\<lparr>c_thread := True, c_last_transfer := x\<rparr>)" for x
    by (simp_all add: same_range_def)
  then have "progress rs b z (set_conn i ?c d)" "progress rs b z (set_conn i (?c\<lparr>c_thread := True, c_last_transfer := x\<rparr>) d)" for x
    using assms(1) progress_same_range by blast+
  with assms(2) show ?thesis
    by (auto simp: create_thread_def Let_def intro!: progress_not_ready split: prod.splits if_splits)
qed

lemma note_start_progress:
  assumes "note_start i d = Inr d'"
  shows "progress rs b z d' = progress rs b z d"
  using assms by (auto simp: note_start_def res_elims split: if_splits)

lemma drop_conn_progress:
  assumes "progress rs b z d" "drop_conn i w d = (w', d')"
  shows "progress rs b z d'"
proof -
  obtain c1 where c1: "conn_disconnect w ((d_conn d ! i)\<lparr>c_enabled := False\<rparr>) = (w', c1)" "d' = set_conn i c1 d"
    using assms(2) by (auto simp: drop_conn_def split: prod.splits)
  have "same_range (d_conn d ! i) c1"
    using conn_disconnect_range [OF c1(1)] by (simp add: same_range_def)
  with assms(1) c1(2) show ?thesis using progress_same_range by blast
qed

lemma restart_conn_progress:
  assumes "progress rs b z d" "restart_conn i w d = Inr (w', d')"
  shows "progress rs b z d'"
proof -
  let ?c = "d_conn d ! i"
  consider "c_enabled ?c \<or> c_lastbyte ?c \<le> c_currentbyte ?c" | "\<not> (c_enabled ?c \<or> c_lastbyte ?c \<le> c_currentbyte ?c)" "c_state ?c = 0"
    | "\<not> (c_enabled ?c \<or> c_lastbyte ?c \<le> c_currentbyte ?c)" "c_state ?c \<noteq> 0" by blast
  then show ?thesis
  proof cases
    case 1
    with assms show ?thesis by (auto simp: restart_conn_def Let_def)
  next
    case 2
    obtain ok c1 d1 where s: "conn_set (w_services w) (hd (d_url d)) ?c = Inr (ok, c1)"
        "note_start i ((set_conn i c1 d)\<lparr>d_url := rotate1 (d_url d)\<rparr>) = Inr d1" "create_thread i w d1 = (w', d')"
      using assms(2) 2 by (simp add: restart_conn_def Let_def res_elims) blast
    have "progress rs b z (set_conn i c1 d)" using s(1) assms(1) conn_set_range progress_same_range by blast
    with s(2,3) show ?thesis using note_start_progress create_thread_progress by (metis progress_fields(2))
  next
    case 3
    have "progress rs b z (set_conn i (?c\<lparr>c_state := 0\<rparr>) d)" using assms(1) by (rule progress_same_range) simp
    with 3 assms show ?thesis by (auto simp: restart_conn_def Let_def split: prod.splits if_splits)
  qed
qed

lemma restart_conns_progress:
  "progress rs b z d \<Longrightarrow> restart_conns is w d = Inr (w', d') \<Longrightarrow> progress rs b z d'"
  by (induction "is" arbitrary: w d) (auto simp: res_elims dest: restart_conn_progress)

lemma do_stats_progress:
  assumes "progress rs b z d" "do_stats w d = (w', d')"
  shows "progress rs b z d'"
proof (cases "d_bytes_done d = d_size d")
  case True
  with assms show ?thesis by (auto simp: do_stats_def progress_def n_conns_def Let_def split: prod.splits)
next
  case False
  with assms show ?thesis by (auto simp: do_stats_def progress_def n_conns_def Let_def split: prod.splits)
qed

lemma do_check_progress:
  assumes "progress rs b z d" "do_check w d = Inr (w', d')"
  shows "progress rs b z d'"
proof -
  obtain w1 d1 where r: "restart_conns [0..<n_conns d] w d = Inr (w1, d1)" "do_stats w1 d1 = (w', d')"
    using assms(2) by (auto simp: do_check_def res_elims)
  from assms(1) r(1) have "progress rs b z d1" by (rule restart_conns_progress)
  then show ?thesis using r(2) by (rule do_stats_progress)
qed

lemma do_save_progress:
  assumes "progress rs b z d" "do_save w d = (w', d')"
  shows "progress rs b z d'"
  using assms by (auto simp: do_save_def split: prod.splits if_splits)

lemma note_ready [simp]:
  "d_ready (add_message t d) = d_ready d" "d_ready (note_if v t d) = d_ready d"
  "d_conf (add_message t d) = d_conf d" "d_conf (note_if v t d) = d_conf d"
  "d_ready (set_conn i c d) = d_ready d" "d_conf (set_conn i c d) = d_conf d"
  "d_size (set_conn i c d) = d_size d" "d_bytes_done (set_conn i c d) = d_bytes_done d"
  by (simp_all add: add_message_def note_if_def set_conn_def)

lemma drop_conn_facts:
  assumes "drop_conn i w d = (w', d')"
  shows "d_ready d' = d_ready d" "length (d_conn d') = length (d_conn d)"
    "i < length (d_conn d) \<Longrightarrow> same_range (d_conn d ! i) (d_conn d' ! i)"
proof -
  obtain c1 where c1: "conn_disconnect w ((d_conn d ! i)\<lparr>c_enabled := False\<rparr>) = (w', c1)" "d' = set_conn i c1 d"
    using assms by (auto simp: drop_conn_def split: prod.splits)
  then show "d_ready d' = d_ready d" "length (d_conn d') = length (d_conn d)" by (simp_all add: set_conn_def)
  have "same_range (d_conn d ! i) c1" using conn_disconnect_range [OF c1(1)] by (simp add: same_range_def)
  then show "i < length (d_conn d) \<Longrightarrow> same_range (d_conn d ! i) (d_conn d' ! i)" by (simp add: c1(2) set_conn_def)
qed

lemma store_data_progress:
  assumes "progress rs b z d" "d_ready d \<noteq> 1" "i < length rs"
    "int (length data) \<le> c_lastbyte (d_conn d ! i) - c_currentbyte (d_conn d ! i) + 1"
    "store_data i data w d = (stop, w', d')"
  shows "progress rs b z d' \<and> d_ready d' \<noteq> 1"
proof -
  let ?c = "d_conn d ! i"
  let ?d = "(set_conn i (?c\<lparr>c_currentbyte := c_currentbyte ?c + int (length data)\<rparr>) d)
    \<lparr>d_bytes_done := d_bytes_done d + int (length data)\<rparr>"
  have "progress rs b z ?d" using assms(1-4) by (intro progress_advance) auto
  moreover have "d' = ?d \<or> d' = (add_message ''Write error!'' d)\<lparr>d_ready := -1\<rparr>"
    using assms(5) by (auto simp: store_data_def Let_def split: prod.splits if_splits)
  moreover have "progress rs b z ((add_message ''Write error!'' d)\<lparr>d_ready := -1\<rparr>)"
    using assms(1) by (intro progress_not_ready) simp_all
  ultimately show ?thesis using assms(2) by auto
qed

lemma receive_progress:
  assumes "progress rs b z d0" "d_ready d0 \<noteq> 1" "i < length rs" "receive i w0 d0 = Inr (stop, w', d')"
  shows "progress rs b z d' \<and> d_ready d' \<noteq> 1"
proof -
  obtain t w where t: "gettime w0 = (t, w)" by fastforce
  define c where "c = (d_conn d0 ! i)\<lparr>c_last_transfer := trunc_int t\<rparr>"
  define d where "d = set_conn i c d0"
  define verbose where "verbose = (k_verbose (d_conf d) \<noteq> 0)"
  have len: "length (d_conn d0) = length rs" using assms(1) by (simp add: progress_def)
  have p: "progress rs b z d" "d_ready d \<noteq> 1" "d_conn d ! i = c"
    using assms(1-3) len progress_same_range [of rs b z d0 i c] by (simp_all add: d_def c_def set_conn_def)
  obtain r data w1 where rd: "sys_read (c_fd c) (nat (k_buffer_size (d_conf d))) w = (r, data, w1)" by (metis prod_cases3)
  note eq = assms(4) [unfolded receive_def t prod.case Let_def, folded c_def, folded d_def, folded verbose_def, unfolded rd prod.case]
  have dropped: "progress rs b z d3 \<and> d_ready d3 \<noteq> 1" if "drop_conn i w1 (note_if v m d) = (w3, d3)" for v m w3 d3
    using drop_conn_progress [OF _ that] drop_conn_facts(1) [OF that] p by simp
  have sup: "c_supported (d_conn d ! 0)" using p(1) by (simp add: progress_def)
  consider "r = -1" | "r = 0" | "r \<noteq> -1" "r \<noteq> 0" by blast
  then show ?thesis
  proof cases
    case 1
    with eq dropped show ?thesis by (auto split: prod.splits)
  next
    case 2
    with eq dropped sup show ?thesis by (auto split: prod.splits)
  next
    case 3
    then have "0 < r" using rd by (auto simp: sys_read_def Let_def split: if_splits list.splits rx_item.splits)
    then have r: "r = int (length data)" using sys_read_length [OF rd] by simp
    show ?thesis
    proof (cases "c_lastbyte c - c_currentbyte c + 1 < r")
      case False
      with eq 3 have "store_data i data w1 d = (stop, w', d')" by simp
      with False show ?thesis using p assms(3) r by (intro store_data_progress [of rs b z d i data w1]) simp_all
    next
      case True
      obtain w2 d2 where dr: "drop_conn i w1 (note_if verbose (conn_text i '' finished'') d) = (w2, d2)" by fastforce
      have s: "0 \<le> c_lastbyte c - c_currentbyte c + 1"
          "store_data i (take (nat (c_lastbyte c - c_currentbyte c + 1)) data) w2 d2 = (stop, w', d')"
        using eq 3 True dr by (auto simp: res_elims)
      have "same_range c (d_conn d2 ! i)" using drop_conn_facts(3) [OF dr] p(3) assms(3) len by (simp add: d_def set_conn_def)
      then show ?thesis
        using s dropped [OF dr] assms(3) by (intro store_data_progress [OF _ _ _ _ s(2)]) (auto simp: same_range_def)
    qed
  qed
qed

lemma check_timeout_progress:
  assumes "progress rs b z d" "d_ready d \<noteq> 1" "check_timeout i w d = (w', d')"
  shows "progress rs b z d' \<and> d_ready d' \<noteq> 1"
proof -
  have "progress rs b z d3 \<and> d_ready d3 \<noteq> 1" if "drop_conn i w1 (note_if v m d) = (w3, d3)" for v m w1 w3 d3
    using drop_conn_progress [OF _ that] drop_conn_facts(1) [OF that] assms(1,2) by simp
  with assms show ?thesis by (auto simp: check_timeout_def split: prod.splits if_splits)
qed

lemma handle_conns_progress:
  "progress rs b z d \<Longrightarrow> d_ready d \<noteq> 1 \<Longrightarrow> \<forall>i \<in> set is. i < length rs \<Longrightarrow>
    handle_conns rdy is w d = Inr (stop, w', d') \<Longrightarrow> progress rs b z d' \<and> d_ready d' \<noteq> 1"
proof (induction "is" arbitrary: w d)
  case Nil
  then show ?case by simp
next
  case (Cons i "is")
  consider "\<not> c_enabled (d_conn d ! i)" | "c_enabled (d_conn d ! i)" "c_fd (d_conn d ! i) \<in> set rdy"
    | "c_enabled (d_conn d ! i)" "c_fd (d_conn d ! i) \<notin> set rdy" by blast
  then show ?case
  proof cases
    case 1
    with Cons show ?thesis by simp
  next
    case 2
    with Cons.prems(4) obtain s1 w1 d1 where r: "receive i w d = Inr (s1, w1, d1)"
        "(if s1 then Inr (True, w1, d1) else handle_conns rdy is w1 d1) = Inr (stop, w', d')"
      by (auto simp: res_elims)
    have "progress rs b z d1 \<and> d_ready d1 \<noteq> 1"
      using receive_progress [OF Cons.prems(1,2) _ r(1)] Cons.prems(3) by simp
    with r(2) Cons.IH [of d1 w1] Cons.prems(3) show ?thesis by (auto split: if_splits)
  next
    case 3
    obtain w1 d1 where c: "check_timeout i w d = (w1, d1)" by fastforce
    from 3 Cons.prems(4) c have "handle_conns rdy is w1 d1 = Inr (stop, w', d')" by simp
    moreover have "progress rs b z d1" "d_ready d1 \<noteq> 1"
      using check_timeout_progress [OF Cons.prems(1,2) c] by blast+
    ultimately show ?thesis using Cons.IH Cons.prems(3) by simp
  qed
qed

lemma ServerSide_do_progress:
  assumes "progress rs b z d0" "d_ready d0 = 0" "ServerSide_do w0 d0 = Inr (w', d')"
  shows "progress rs b z d'"
proof -
  obtain r w1 where r: "draw w0 = (r, w1)" by fastforce
  obtain w2 d where s: "do_save w1 d0 = (w2, d)" by fastforce
  have p: "progress rs b z d" "d_ready d \<noteq> 1" "n_conns d = length rs"
    using do_save_progress [OF assms(1) s] s assms(2) progress_length [of rs b z d]
    by (auto simp: do_save_def split: prod.splits if_splits)
  obtain rdy w3 where sel: "sys_select w2 = (rdy, w3)" by fastforce
  show ?thesis
  proof (cases "r mod 20 = 1")
    case True
    with assms r show ?thesis by (simp add: ServerSide_do_def)
  next
    case run: False
    show ?thesis
    proof (cases "foldl (\<lambda>m c. max m (c_fd c)) 0 (take (n_conns d) (d_conn d)) = 0")
      case True
      with assms(3) r s run have "do_check w2 d = Inr (w', d')" by (simp add: ServerSide_do_def)
      with p(1) show ?thesis by (rule do_check_progress)
    next
      case False
      show ?thesis
      proof (cases rdy)
        case None
        with assms(3) r s run False sel p(1) show ?thesis
          by (auto simp: ServerSide_do_def intro: progress_not_ready)
      next
        case (Some l)
        with assms(3) r s run False sel obtain stop w4 d4 where h: "handle_conns l [0..<n_conns d] w3 d = Inr (stop, w4, d4)"
            "(if stop \<or> d_ready d4 \<noteq> 0 then Inr (w4, d4) else do_check w4 d4) = Inr (w', d')"
          by (auto simp: ServerSide_do_def res_elims)
        have "progress rs b z d4" using handle_conns_progress [OF p(1,2) _ h(1)] p(3) by simp
        with h(2) do_check_progress show ?thesis by (metis Inr_inject prod.inject)
      qed
    qed
  qed
qed

lemma download_step_progress:
  assumes "progress rs b z d" "download_step (w, d) (w', d')"
  shows "progress rs b z d'"
  using assms(2) ServerSide_do_progress [OF assms(1)] run_thread_progress [OF assms(1)]
  by (blast elim: download_stepE)

lemma download_progress:
  assumes "download_step\<^sup>*\<^sup>* (w, d) (w', d')" "progress rs b z d"
  shows "progress rs b z d'"
  using assms
proof (induction "(w', d')" arbitrary: w' d' rule: rtranclp_induct)
  case base
  then show ?case by simp
next
  case (step y)
  then show ?case by (cases y) (blast intro: download_step_progress)
qed

subsection \<open>How far a download can get\<close>

lemma room_nonneg [simp]: "0 \<le> room r"
  by (simp add: room_def)

lemma advanced_le:
  assumes "\<forall>i<length rs. conn_in (rs ! i) (cs ! i)"
  shows "advanced rs cs \<le> sum_list (map room rs)"
proof -
  have "advanced rs cs \<le> (\<Sum>i<length rs. room (rs ! i))"
    unfolding advanced_def using assms by (intro sum_mono) (auto simp: conn_in_def)
  then show ?thesis by (simp add: sum_list_sum_nth lessThan_atLeast0)
qed

lemma progress_bound: "progress rs b z d \<Longrightarrow> d_bytes_done d \<le> b + sum_list (map room rs)"
  using advanced_le [of rs "d_conn d"] by (simp add: progress_def)

text \<open>When all room is used, every connection is at the end of its range.\<close>

lemma progress_complete:
  assumes "progress rs b z d" "d_bytes_done d = b + sum_list (map room rs)" "i < length rs"
  shows "c_currentbyte (d_conn d ! i) = fst (rs ! i) + room (rs ! i)"
proof -
  let ?x = "\<lambda>i. c_currentbyte (d_conn d ! i) - fst (rs ! i)"
  have le: "?x j \<le> room (rs ! j)" if "j < length rs" for j
    using assms(1) that by (auto simp: progress_def conn_in_def)
  have "(\<Sum>j<length rs. ?x j) = (\<Sum>j<length rs. room (rs ! j))"
    using assms(1,2) by (simp add: progress_def advanced_def sum_list_sum_nth lessThan_atLeast0)
  then have "(\<Sum>j<length rs. room (rs ! j) - ?x j) = 0" by (simp add: sum_subtractf)
  then have "\<forall>j \<in> {..<length rs}. room (rs ! j) - ?x j = 0"
    by (subst (asm) sum_nonneg_eq_0_iff) (use le in auto)
  with assms(3) have "room (rs ! i) - ?x i = 0" by blast
  then show ?thesis by simp
qed

text \<open>
  The state after \<open>ServerSide_new\<close>: only the first connection has been used.
\<close>

definition fresh :: "downloader \<Rightarrow> bool" where
  "fresh d =
     (1 \<le> k_num_connections (d_conf d) \<and> length (d_conn d) = n_conns d \<and>
      (\<forall>c \<in> set (tl (d_conn d)). c_currentbyte c = 0 \<and> c_lastbyte c = 0) \<and>
      d_bytes_done d = 0 \<and> c_supported (d_conn d ! 0) \<and> d_ready d = 0 \<and> 0 < d_size d)"

definition divide_ranges :: "int \<Rightarrow> nat \<Rightarrow> (int \<times> int) list" where
  "divide_ranges z n = (0, z div int n - 1) # replicate (n - 1) (0, 0)"

lemma c_div_pos: "0 \<le> a \<Longrightarrow> 0 < b \<Longrightarrow> c_div a b = a div b"
  by (auto simp: c_div_def sgn_if)

lemma divide_progress:
  assumes "fresh d" "divide d = Inr d'"
  shows "progress (divide_ranges (d_size d) (n_conns d)) 0 (d_size d) d'"
proof -
  have f: "0 < k_num_connections (d_conf d)" "length (d_conn d) = n_conns d"
      "\<forall>c \<in> set (tl (d_conn d)). c_currentbyte c = 0 \<and> c_lastbyte c = 0"
      "d_bytes_done d = 0" "c_supported (d_conn d ! 0)" "d_ready d = 0" "0 < d_size d"
    using assms(1) by (simp_all add: fresh_def)
  obtain c cs where cs: "d_conn d = c # cs" using f(1,2) by (cases "d_conn d") (auto simp: n_conns_def)
  let ?q = "d_size d div k_num_connections (d_conf d)"
  have q: "0 \<le> ?q" "c_div (d_size d) (k_num_connections (d_conf d)) = ?q"
    using f(1,7) by (simp_all add: pos_imp_zdiv_nonneg_iff c_div_pos)
  have n: "int (n_conns d) = k_num_connections (d_conf d)" using f(1) by (simp add: n_conns_def)
  have d': "d' = d\<lparr>d_conn := c\<lparr>c_currentbyte := 0, c_lastbyte := ?q - 1\<rparr> # cs\<rparr>"
    using assms(2) cs q(2) f(1) by (auto simp: divide_def)
  have len: "length (divide_ranges (d_size d) (n_conns d)) = n_conns d" "length cs = n_conns d - 1"
    using f(2) cs by (auto simp: divide_ranges_def)
  have "\<forall>i<n_conns d. conn_in (divide_ranges (d_size d) (n_conns d) ! i) (d_conn d' ! i)
      \<and> c_currentbyte (d_conn d' ! i) - fst (divide_ranges (d_size d) (n_conns d) ! i) = 0"
  proof (intro allI impI)
    fix i assume i: "i < n_conns d"
    show "conn_in (divide_ranges (d_size d) (n_conns d) ! i) (d_conn d' ! i)
      \<and> c_currentbyte (d_conn d' ! i) - fst (divide_ranges (d_size d) (n_conns d) ! i) = 0"
    proof (cases i)
      case 0
      then show ?thesis using q by (simp add: divide_ranges_def d' conn_in_def room_def n)
    next
      case (Suc j)
      then have "j < length cs" using i len by simp
      then have "c_currentbyte (cs ! j) = 0 \<and> c_lastbyte (cs ! j) = 0" using f(3) cs by simp
      then show ?thesis using Suc i by (simp add: divide_ranges_def d' conn_in_def room_def)
    qed
  qed
  then show ?thesis
    using f len cs by (simp add: progress_def d' n_conns_def advanced_def)
qed

lemma divide_ranges_room:
  assumes "0 < n" "0 \<le> z"
  shows "sum_list (map room (divide_ranges z n)) = z div int n + int (n - 1)"
  using assms by (simp add: divide_ranges_def room_def sum_list_replicate pos_imp_zdiv_nonneg_iff)

lemma divide_fresh: "fresh d \<Longrightarrow> divide d = Inr d' \<Longrightarrow> d_size d' = d_size d \<and> n_conns d' = n_conns d \<and> d_conf d' = d_conf d"
  by (auto simp: divide_def n_conns_def split: list.splits if_splits)

lemma open_scratch_progress:
  assumes "fresh d" "open_scratch w d = Inr (ok, w', d')"
  shows "progress (divide_ranges (d_size d) (n_conns d)) 0 (d_size d) d'"
proof -
  obtain d1 where d1: "divide d = Inr d1"
    using assms(2) by (auto simp: open_scratch_def res_elims)
  have "progress (divide_ranges (d_size d) (n_conns d)) 0 (d_size d) d1"
    using assms(1) d1 by (rule divide_progress)
  then have p: "progress (divide_ranges (d_size d) (n_conns d)) 0 (d_size d) (d1\<lparr>d_outfd := x\<rparr>)" for x
    by (auto simp: progress_def n_conns_def)
  obtain out w1 where o: "open_create (d_filename d) w = (out, w1)" by fastforce
  have "d' = d1\<lparr>d_outfd := out\<rparr> \<or> (\<exists>t. d' = add_message t (d1\<lparr>d_outfd := out\<rparr>))"
    using assms(2) d1 o by (auto simp: open_scratch_def Let_def res_elims split: prod.splits if_splits)
  with p [of out] show ?thesis by auto
qed

text \<open>\<open>ServerSide_start\<close> keeps the ranges.\<close>

lemma start_set_ranges:
  "start_set serv i cs us ifs = Inr (cs', us', ifs') \<Longrightarrow>
    length cs' = length cs \<and> (\<forall>j<length cs. c_currentbyte (cs' ! j) = c_currentbyte (cs ! j) \<and>
      c_lastbyte (cs' ! j) = c_lastbyte (cs ! j) \<and> (c_supported (cs ! j) \<longrightarrow> c_supported (cs' ! j)))"
proof (induction cs arbitrary: i us ifs cs')
  case Nil
  then show ?case by simp
next
  case (Cons c cs)
  obtain ok c1 cs1 where s: "conn_set serv (hd us) c = Inr (ok, c1)"
      "start_set serv (Suc i) cs (rotate1 us) (rotate1 ifs) = Inr (cs1, us', ifs')"
      "cs' = c1\<lparr>c_local_if := hd ifs, c_supported := (i \<noteq> 0 \<or> c_supported c1)\<rparr> # cs1"
    using Cons.prems by (auto simp: res_elims)
  show ?case
  proof (intro conjI allI impI)
    show "length cs' = length (c # cs)" using Cons.IH [OF s(2)] s(3) by simp
    fix j assume "j < length (c # cs)"
    then show "c_currentbyte (cs' ! j) = c_currentbyte ((c # cs) ! j)"
        "c_lastbyte (cs' ! j) = c_lastbyte ((c # cs) ! j)" "c_supported ((c # cs) ! j) \<Longrightarrow> c_supported (cs' ! j)"
      using Cons.IH [OF s(2)] s(3) conn_set_range [OF s(1)] by (cases j; simp add: same_range_def)+
  qed
qed

lemma start_threads_progress:
  "progress rs b z d \<Longrightarrow> start_threads is w d = Inr (w', d') \<Longrightarrow> progress rs b z d'"
proof (induction "is" arbitrary: w d)
  case Nil
  then show ?case by simp
next
  case (Cons i "is")
  show ?case
  proof (cases "c_currentbyte (d_conn d ! i) \<le> c_lastbyte (d_conn d ! i)")
    case False
    with Cons show ?thesis by simp
  next
    case True
    obtain d1 where n1: "note_start i d = Inr d1" using Cons.prems(2) True by (auto simp: res_elims)
    obtain w2 d2 where n2: "create_thread i w d1 = (w2, d2)" by fastforce
    have n: "note_start i d = Inr d1" "create_thread i w d1 = (w2, d2)" "start_threads is w2 d2 = Inr (w', d')"
      using Cons.prems(2) True n1 n2 by simp_all
    then have "progress rs b z d2"
      using Cons.prems(1) note_start_progress create_thread_progress by metis
    then show ?thesis using n(3) by (rule Cons.IH)
  qed
qed

lemma ServerSide_start_progress:
  assumes "progress rs b z d" "rs \<noteq> []" "ServerSide_start w d = Inr (w', d')"
  shows "progress rs b z d'"
proof -
  obtain cs us ifs where s: "start_set (w_services w) 0 (d_conn d) (d_url d) (k_interfaces (d_conf d)) = Inr (cs, us, ifs)"
    using assms(3) by (auto simp: ServerSide_start_def res_elims)
  define d0 where "d0 = d\<lparr>d_conn := cs, d_url := us, d_conf := (d_conf d)\<lparr>k_interfaces := ifs\<rparr>\<rparr>"
  obtain w1 d1 where t: "start_threads [0..<length cs] w (note_if (0 < k_verbose (d_conf d)) ''Starting download'' d0) = Inr (w1, d1)"
    using assms(3) s by (auto simp: ServerSide_start_def res_elims d0_def)
  have d': "\<exists>t. d' = d1\<lparr>d_start_time := t, d_ready := 0\<rparr>"
    using assms(3) s t by (auto simp: ServerSide_start_def d0_def split: prod.splits)
  note f = start_set_ranges [OF s]
  have "advanced rs cs = advanced rs (d_conn d)"
    unfolding advanced_def using f assms(1) by (intro sum.cong) (auto simp: progress_def)
  then have "progress rs b z d0"
    using f assms(1,2) by (auto simp: progress_def d0_def n_conns_def conn_in_def)
  then have "progress rs b z d1" using start_threads_progress [OF _ t] by simp
  with d' show ?thesis by (auto simp: progress_def n_conns_def)
qed

text \<open>
  From a fresh start with \<open>n\<close> connections at most \<open>size / n + n - 1\<close> bytes are downloaded,
  because all ranges but the first are those of an empty structure.
\<close>

lemma download_limit:
  assumes "fresh d" "open_scratch w d = Inr (ok, w1, d1)" "ServerSide_start w1 d1 = Inr (w2, d2)"
    "download_step\<^sup>*\<^sup>* (w2, d2) (w3, d3)"
  shows "d_bytes_done d3 \<le> d_size d div int (n_conns d) + int (n_conns d - 1)"
    and "d_ready d3 = 1 \<Longrightarrow> d_bytes_done d3 = d_size d"
proof -
  have "progress (divide_ranges (d_size d) (n_conns d)) 0 (d_size d) d1"
    using assms(1,2) by (rule open_scratch_progress)
  then have "progress (divide_ranges (d_size d) (n_conns d)) 0 (d_size d) d2"
    using ServerSide_start_progress [OF _ _ assms(3)] by (simp add: divide_ranges_def)
  with assms(4) have p: "progress (divide_ranges (d_size d) (n_conns d)) 0 (d_size d) d3"
    by (rule download_progress)
  show "d_bytes_done d3 \<le> d_size d div int (n_conns d) + int (n_conns d - 1)"
    using progress_bound [OF p] divide_ranges_room [of "n_conns d" "d_size d"] assms(1)
    by (simp add: fresh_def n_conns_def)
  show "d_ready d3 = 1 \<Longrightarrow> d_bytes_done d3 = d_size d" using p by (simp add: progress_def)
qed

subsection \<open>The state file\<close>

lemma file_write_end:
  assumes "fd \<in> set (w_open w)" "\<forall>n. w_disk_ok w n" "w_files w (w_path w fd) = Some f" "w_pos w fd = int (length f)"
  shows "\<exists>w'. file_write fd s w = (True, w') \<and> w_files w' = (w_files w)(w_path w fd := Some (f @ s)) \<and>
    w_pos w' fd = int (length (f @ s)) \<and> w_open w' = w_open w \<and> w_disk_ok w' = w_disk_ok w \<and>
    w_path w' = w_path w \<and> w_deny w' = w_deny w"
  using assms by (simp add: file_write_def file_of_def Let_def)

lemma write_all_end:
  "fd \<in> set (w_open w) \<Longrightarrow> \<forall>n. w_disk_ok w n \<Longrightarrow> w_files w (w_path w fd) = Some f \<Longrightarrow> w_pos w fd = int (length f) \<Longrightarrow>
    w_files (write_all fd ss w) = (w_files w)(w_path w fd := Some (f @ concat ss)) \<and> w_deny (write_all fd ss w) = w_deny w"
proof (induction ss arbitrary: w f)
  case Nil
  then show ?case by (simp add: fun_upd_idem)
next
  case (Cons s ss)
  obtain w' where w': "file_write fd s w = (True, w')" "w_files w' = (w_files w)(w_path w fd := Some (f @ s))"
      "w_pos w' fd = int (length (f @ s))" "w_open w' = w_open w" "w_disk_ok w' = w_disk_ok w"
      "w_path w' = w_path w" "w_deny w' = w_deny w"
    using file_write_end [OF Cons.prems, of s] by blast
  have "w_files (write_all fd ss w') = (w_files w')(w_path w' fd := Some ((f @ s) @ concat ss))
      \<and> w_deny (write_all fd ss w') = w_deny w'"
    using Cons.prems w' by (intro Cons.IH) simp_all
  then show ?case using w' by simp
qed

lemma save_state_file:
  assumes "c_supported (d_conn d ! 0)" "\<not> w_deny w (state_name d)" "\<forall>n. w_disk_ok w n" "0 \<le> w_next_fd w"
  shows "w_files (save_state w d) = (w_files w)(state_name d := Some (concat (state_values d)))"
    and "w_deny (save_state w d) = w_deny w"
proof -
  let ?w1 = "snd (new_fd (state_name d) (w\<lparr>w_files := (w_files w)(state_name d := Some [])\<rparr>))"
  let ?fd = "w_next_fd w"
  have o: "open_trunc (state_name d) w = (?fd, ?w1)" "?fd \<noteq> -1"
    using assms(2,4) by (simp_all add: open_trunc_def new_fd_def Let_def)
  have "w_files (write_all ?fd (state_values d) ?w1) = (w_files ?w1)(w_path ?w1 ?fd := Some ([] @ concat (state_values d)))
      \<and> w_deny (write_all ?fd (state_values d) ?w1) = w_deny ?w1"
    using assms(3) by (intro write_all_end) (simp_all add: new_fd_def Let_def)
  then show "w_files (save_state w d) = (w_files w)(state_name d := Some (concat (state_values d)))"
      "w_deny (save_state w d) = w_deny w"
    using assms(1) o by (simp_all add: save_state_def sys_close_def new_fd_def Let_def)
qed

lemma read_currents_values:
  "length xs = length cs \<Longrightarrow> list_all in_llong xs \<Longrightarrow> 0 \<le> w_pos w fd \<Longrightarrow>
    drop (nat (w_pos w fd)) (file_of fd w) = concat (map (le_bytes 8) xs) \<Longrightarrow>
    \<exists>w'. read_currents fd w cs = (map2 (\<lambda>c x. c\<lparr>c_currentbyte := x\<rparr>) cs xs, w')"
proof (induction xs cs arbitrary: w rule: list_induct2)
  case Nil
  then show ?case by simp
next
  case (Cons x xs c cs)
  let ?w1 = "w\<lparr>w_pos := (w_pos w)(fd := w_pos w fd + 8)\<rparr>"
  have r: "read_int fd 8 (c_currentbyte c) w = (x, ?w1)"
    using Cons.prems read_int_at [of "le_bytes 8 x" 8 w fd "concat (map (le_bytes 8) xs)"] int8.dec_enc [of x] by simp
  have "drop (nat (w_pos ?w1 fd)) (file_of fd ?w1) = concat (map (le_bytes 8) xs)"
  proof -
    have "nat (w_pos w fd + 8) = 8 + nat (w_pos w fd)" using Cons.prems(2) by simp
    then have "drop (nat (w_pos w fd + 8)) (file_of fd w) = drop 8 (drop (nat (w_pos w fd)) (file_of fd w))" by (simp add: add.commute)
    also have "\<dots> = concat (map (le_bytes 8) xs)" using Cons.prems(3) by simp
    finally show ?thesis by (simp add: file_of_def)
  qed
  then obtain w' where "read_currents fd ?w1 cs = (map2 (\<lambda>c x. c\<lparr>c_currentbyte := x\<rparr>) cs xs, w')"
    using Cons.IH [of ?w1] Cons.prems(1,2) by auto
  with r show ?case by simp
qed

lemma map2_currents:
  "length xs = length cs \<Longrightarrow> map c_currentbyte (map2 (\<lambda>c x. c\<lparr>c_currentbyte := x\<rparr>) cs xs) = xs"
  by (induction xs cs rule: list_induct2) auto

definition saveable :: "downloader \<Rightarrow> bool" where
  "saveable d =
     (1 \<le> k_num_connections (d_conf d) \<and> in_int (k_num_connections (d_conf d)) \<and> length (d_conn d) = n_conns d \<and>
      in_llong (d_bytes_done d) \<and> (\<forall>c \<in> set (d_conn d). in_llong (c_currentbyte c)))"

lemma open_resume_reads:
  assumes "saveable d" "d_conn d0 \<noteq> []" "w_pos w fd = 0" "file_of fd w = concat (state_values d)"
  shows "\<exists>ok w' d'. open_resume fd w d0 = Inr (ok, w', d') \<and>
    k_num_connections (d_conf d') = k_num_connections (d_conf d) \<and> d_bytes_done d' = d_bytes_done d \<and>
    map c_currentbyte (d_conn d') = map c_currentbyte (d_conn d)"
proof -
  let ?n = "k_num_connections (d_conf d)" and ?xs = "map c_currentbyte (d_conn d)"
  have s: "1 \<le> ?n" "in_int ?n" "length (d_conn d) = nat ?n" "in_llong (d_bytes_done d)" "list_all in_llong ?xs"
    using assms(1) by (simp_all add: saveable_def n_conns_def list_all_iff)
  have f: "file_of fd w = le_bytes 4 ?n @ le_bytes 8 (d_bytes_done d) @ concat (map (le_bytes 8) ?xs)"
    using assms(4) s(3) by (simp add: state_values_def n_conns_def comp_def)
  let ?w1 = "w\<lparr>w_pos := (w_pos w)(fd := 4)\<rparr>" and ?w2 = "w\<lparr>w_pos := (w_pos w)(fd := 12)\<rparr>"
  have r1: "read_int fd 4 old w = (?n, ?w1)" for old
    using read_int_at [of "le_bytes 4 ?n" 4 w fd] assms(3) f int4.dec_enc [OF s(2)] by simp
  have r2: "read_int fd 8 old ?w1 = (d_bytes_done d, ?w2)" for old
    using read_int_at [of "le_bytes 8 (d_bytes_done d)" 8 ?w1 fd] f int8.dec_enc [OF s(4)] by (simp add: file_of_def)
  obtain c cs where cs: "d_conn d0 = c # cs" using assms(2) by (cases "d_conn d0") auto
  define d1 where "d1 = d0\<lparr>d_conf := (d_conf d0)\<lparr>k_num_connections := ?n\<rparr>, d_conn := c # replicate (nat ?n - 1) conn_zero\<rparr>"
  have rz: "resize_conns ?n d0 = Inr d1" using s(1) cs by (simp add: resize_conns_def d1_def)
  define d2 where "d2 = d1\<lparr>d_conn := c\<lparr>c_currentbyte := 0, c_lastbyte := c_div (d_size d1) ?n - 1\<rparr> # replicate (nat ?n - 1) conn_zero\<rparr>"
  have dv: "divide d1 = Inr d2" using s(1) by (simp add: divide_def d1_def d2_def)
  have "length ?xs = length (d_conn d2)" using s(1,3) by (simp add: d2_def)
  moreover have "drop (nat (w_pos ?w2 fd)) (file_of fd ?w2) = concat (map (le_bytes 8) ?xs)"
    using f by (simp add: file_of_def)
  ultimately obtain w3 where r3: "read_currents fd ?w2 (d_conn d2) = (map2 (\<lambda>c x. c\<lparr>c_currentbyte := x\<rparr>) (d_conn d2) ?xs, w3)"
    using read_currents_values [of ?xs "d_conn d2" ?w2 fd] s(5) by auto
  have m: "map c_currentbyte (map2 (\<lambda>c x. c\<lparr>c_currentbyte := x\<rparr>) (d_conn d2) ?xs) = ?xs"
    using \<open>length ?xs = length (d_conn d2)\<close> by (rule map2_currents)
  have "d_conf d2 = (d_conf d0)\<lparr>k_num_connections := ?n\<rparr>" by (simp add: d2_def d1_def)
  with rz dv r1 r2 r3 m show ?thesis
    by (auto simp: open_resume_def Let_def add_message_def split: prod.split)
qed

text \<open>What \<open>save_state\<close> writes, the next \<open>ServerSide_open\<close> of the same file reads.\<close>

lemma save_open:
  assumes "saveable d" "c_supported (d_conn d ! 0)" "d_conn d0 \<noteq> []" "c_supported (d_conn d0 ! 0)"
    "d_filename d0 = d_filename d" "\<not> w_deny w (state_name d)" "\<forall>n. w_disk_ok w n"
    "0 \<le> w_next_fd w" "0 \<le> w_next_fd (save_state w d)"
  shows "\<exists>ok w' d'. ServerSide_open (save_state w d) d0 = Inr (ok, w', d') \<and>
    k_num_connections (d_conf d') = k_num_connections (d_conf d) \<and> d_bytes_done d' = d_bytes_done d \<and>
    map c_currentbyte (d_conn d') = map c_currentbyte (d_conn d)"
proof -
  let ?d = "(note_if (0 < k_verbose (d_conf d0)) (''Opening output file '' @ d_filename d0) d0)\<lparr>d_outfd := -1\<rparr>"
  let ?w = "save_state w d"
  have nm: "state_name ?d = state_name d" using assms(5) by (simp add: state_name_def note_if_def add_message_def)
  have fl: "w_files ?w (state_name d) = Some (concat (state_values d))" "\<not> w_deny ?w (state_name d)"
    using save_state_file [OF assms(2,6,7,8)] assms(6) by simp_all
  obtain fd w1 where o: "open_read (state_name d) ?w = (fd, w1)" by fastforce
  have w1: "fd \<noteq> -1" "w_pos w1 fd = 0" "file_of fd w1 = concat (state_values d)"
    using o fl assms(9) by (auto simp: open_read_def new_fd_def Let_def file_of_def)
  have "d_conn ?d \<noteq> []" "c_supported (d_conn ?d ! 0)" using assms(3,4) by simp_all
  then show ?thesis
    using open_resume_reads [OF assms(1) _ w1(2,3), of ?d] w1(1) nm o
    by (simp add: ServerSide_open_def Let_def)
qed

subsection \<open>What a new download looks like\<close>

definition pristine :: "downloader \<Rightarrow> bool" where
  "pristine d =
     (1 \<le> k_num_connections (d_conf d) \<and> length (d_conn d) = n_conns d \<and> set (tl (d_conn d)) \<subseteq> {conn_zero} \<and>
      d_bytes_done d = 0)"

lemma tl_update_first [simp]: "tl (xs[0 := x]) = tl xs"
  by (cases xs) auto

lemma pristine_simps [simp]:
  "pristine (set_conn 0 c d) = pristine d" "pristine (add_message t d) = pristine d"
  "pristine (note_if v t d) = pristine d" "pristine (d\<lparr>d_ready := r\<rparr>) = pristine d"
  "pristine (d\<lparr>d_url := u\<rparr>) = pristine d" "pristine (d\<lparr>d_size := z\<rparr>) = pristine d"
  "pristine (d\<lparr>d_filename := f\<rparr>) = pristine d" "pristine (d\<lparr>d_delay_time := t2\<rparr>) = pristine d"
  by (auto simp: pristine_def set_conn_def n_conns_def add_message_def note_if_def)

lemma new_failed_pristine:
  "pristine d \<Longrightarrow> new_failed w c d = Inr (w', d') \<Longrightarrow> pristine d' \<and> d_ready d' = -1"
  by (auto simp: new_failed_def res_elims)

lemma new_connect_pristine:
  assumes "pristine d" "d_ready d = 0" "new_connect w d = Inr (w', d')"
  shows "pristine d' \<and> d_ready d' \<in> {0, -1}"
proof -
  obtain ok w1 c1 where i: "conn_init (d_conf d) w (d_conn d ! 0) = Inr (ok, w1, c1)"
    using assms(3) by (auto simp: new_connect_def res_elims)
  let ?d1 = "set_conn 0 c1 d"
  show ?thesis
  proof (cases ok)
    case False
    with assms(3) i have "new_failed w1 c1 ?d1 = Inr (w', d')" by (simp add: new_connect_def Let_def)
    with assms(1) new_failed_pristine [of ?d1] show ?thesis by auto
  next
    case True
    with assms(3) i obtain ok2 w2 c2 where j: "conn_info (d_conf d) w1 c1 = Inr (ok2, w2, c2)"
      by (auto simp: new_connect_def Let_def res_elims)
    let ?d2 = "set_conn 0 c2 ?d1"
    show ?thesis
    proof (cases ok2)
      case False
      with True assms(3) i j have "new_failed w2 c2 ?d2 = Inr (w', d')" by (simp add: new_connect_def Let_def)
      with assms(1) new_failed_pristine [of ?d2] show ?thesis by auto
    next
      case k: True
      have "\<exists>v t u f. d' = note_if v t (?d2\<lparr>d_url := u, d_size := c_size c2\<rparr>) \<or>
          d' = (note_if v t (?d2\<lparr>d_url := u, d_size := c_size c2\<rparr>))\<lparr>d_filename := f\<rparr>"
        using True k assms(3) i j unfolding new_connect_def Let_def
        by (simp add: res_elims split: if_splits) blast+
      then show ?thesis using assms(1,2) by auto
    qed
  qed
qed

lemma ServerSide_new_pristine:
  assumes "ServerSide_new k0 urls w = Inr (w', d)"
  shows "pristine d \<and> d_ready d \<in> {0, -1}"
proof -
  obtain k delay resized where k: "speed_limit k0 = (k, delay, resized)" by (metis prod_cases3)
  note eq = assms [unfolded ServerSide_new_def k prod.case, unfolded rbind_Inr]
  obtain us where n: "1 \<le> k_num_connections k" "copy_urls urls = Inr us"
    using eq by (auto simp: guard_c_Inr rbind_Inr)
  define d0 where "d0 = note_if resized ''Buffer resized for this speed.''
                 ((downloader_zero k)\<lparr>d_delay_time := delay, d_url := us\<rparr>)"
  have p0: "pristine d0" "d_ready d0 = 0"
    using n(1) by (auto simp: d0_def pristine_def downloader_zero_def n_conns_def note_if_def add_message_def)
  obtain ok c1 where c1: "conn_set (w_services w) (hd us) (d_conn d0 ! 0) = Inr (ok, c1)"
      "(if \<not> ok then Inr (w, (add_message (''Could not parse URL.'' @ [NL]) (set_conn 0 c1 d0))\<lparr>d_ready := -1\<rparr>)
        else rbind (local_name k (c_file c1)) (\<lambda>name.
          new_connect w ((set_conn 0 (c1\<lparr>c_local_if := hd (k_interfaces k)\<rparr>) d0)
          \<lparr>d_conf := k\<lparr>k_interfaces := rotate1 (k_interfaces k)\<rparr>, d_filename := name\<rparr>))) = Inr (w', d)"
    using eq n unfolding d0_def Let_def by (auto simp: rbind_Inr guard_c_Inr)
  show ?thesis
  proof (cases ok)
    case False
    with c1(2) have "d = (add_message (''Could not parse URL.'' @ [NL]) (set_conn 0 c1 d0))\<lparr>d_ready := -1\<rparr>" by simp
    with p0(1) show ?thesis by simp
  next
    case True
    define d1 where "d1 name = (set_conn 0 (c1\<lparr>c_local_if := hd (k_interfaces k)\<rparr>) d0)
          \<lparr>d_conf := k\<lparr>k_interfaces := rotate1 (k_interfaces k)\<rparr>, d_filename := name\<rparr>" for name
    obtain name where "new_connect w (d1 name) = Inr (w', d)"
      using c1(2) True by (auto simp: res_elims d1_def)
    moreover have "pristine (d1 name)" "d_ready (d1 name) = 0"
      using p0 n(1) by (auto simp: d1_def pristine_def n_conns_def set_conn_def d0_def note_if_def add_message_def
          downloader_zero_def)
    ultimately show ?thesis using new_connect_pristine by blast
  qed
qed

lemma pristine_fresh:
  "pristine d \<Longrightarrow> d_ready d = 0 \<Longrightarrow> c_supported (d_conn d ! 0) \<Longrightarrow> 0 < d_size d \<Longrightarrow> fresh d"
  by (auto simp: pristine_def fresh_def conn_zero_def)

subsection \<open>Where the data goes\<close>

lemma store_data_file:
  assumes "d_outfd d \<in> set (w_open w)" "w_disk_ok w (w_writes w)" "w_seek_ok w"
    "0 \<le> c_currentbyte (d_conn d ! i)" "i < length (d_conn d)"
  shows "\<exists>w' d'. store_data i data w d = (False, w', d') \<and>
    file_of (d_outfd d) w' = write_at (nat (c_currentbyte (d_conn d ! i))) data (file_of (d_outfd d) w) \<and>
    c_currentbyte (d_conn d' ! i) = c_currentbyte (d_conn d ! i) + int (length data) \<and>
    d_bytes_done d' = d_bytes_done d + int (length data)"
  using assms by (simp add: store_data_def file_seek_def file_write_def file_of_def set_conn_def Let_def)

lemma store_data_failed:
  assumes "\<not> w_disk_ok w (w_writes w)"
  shows "\<exists>w' d'. store_data i data w d = (True, w', d') \<and> d_ready d' = -1 \<and> d_conn d' = d_conn d \<and> d_bytes_done d' = d_bytes_done d"
  using assms by (auto simp: store_data_def file_seek_def file_write_def Let_def add_message_def)

subsection \<open>Contract\<close>


definition example_download :: downloader where
  "example_download = (downloader_zero (conf_default\<lparr>k_num_connections := 2, k_verbose := 0\<rparr>))
     \<lparr>d_filename := ''f'', d_size := 100000, d_url := [''http://h/f''],
      d_conn := [conn_zero\<lparr>c_supported := True\<rparr>, conn_zero]\<rparr>"

definition example_running :: downloader where
  "example_running = example_download\<lparr>d_outfd := 3, d_next_state := 9,
     d_conn := [conn_zero\<lparr>c_supported := True, c_proto := PROTO_HTTP, c_fd := 5, c_enabled := True, c_lastbyte := 49999\<rparr>,
                conn_zero\<lparr>c_currentbyte := 50000, c_lastbyte := 99999\<rparr>]\<rparr>"

definition example_traffic :: world where
  "example_traffic = example_world\<lparr>w_open := [3, 5], w_rx := (\<lambda>_. [Data ''abc'']), w_select := (\<lambda>_. Some [5])\<rparr>"

lemma progress_two:
  "length (d_conn d) = 2 \<Longrightarrow> progress [r, s] b z d \<longleftrightarrow>
     n_conns d = 2 \<and> conn_in r (d_conn d ! 0) \<and> conn_in s (d_conn d ! 1) \<and>
     d_bytes_done d = b + (c_currentbyte (d_conn d ! 0) - fst r) + (c_currentbyte (d_conn d ! 1) - fst s) \<and>
     d_size d = z \<and> c_supported (d_conn d ! 0) \<and> (d_ready d = 1 \<longrightarrow> d_bytes_done d = z)"
  by (auto simp: progress_def less_Suc_eq advanced_def numeral_2_eq_2)

lemma example_round:
  "\<exists>w' d'. ServerSide_do example_traffic example_running = Inr (w', d') \<and> d_bytes_done d' = 3"
proof -
  have "case  ServerSide_do example_traffic example_running of Inl e \<Rightarrow> False | Inr (w', d') \<Rightarrow> d_bytes_done d' = 3"
    by code_simp
  then show ?thesis by (auto split: sum.splits)
qed


text \<open>C6: a fresh download with several connections cannot finish.  \<open>ServerSide_divide\<close> sets the range of the first
  connection only (its loop body is missing), so after opening an output file without saved state and starting, no sequence
  of rounds and thread turns receives more than \<open>size / n + n - 1\<close> bytes.  Unless that is the whole file, the download is
  never declared complete.\<close>

theorem download_cannot_finish:
  assumes "fresh d" "w_files w (state_name d) = None" "ServerSide_open w d = Inr (ok, w1, d1)"
    "ServerSide_start w1 d1 = Inr (w2, d2)" "download_step\<^sup>*\<^sup>* (w2, d2) (w3, d3)"
    "d_size d div int (n_conns d) + int (n_conns d) - 1 < d_size d"
  shows "d_ready d3 \<noteq> 1 \<and> d_bytes_done d3 < d_size d"
proof -
  define e where "e = (note_if (0 < k_verbose (d_conf d)) (''Opening output file '' @ d_filename d) d)\<lparr>d_outfd := -1\<rparr>"
  have e: "fresh e" "d_size e = d_size d" "n_conns e = n_conns d"
    using assms(1) by (auto simp: e_def note_if_def add_message_def fresh_def n_conns_def)
  have "ServerSide_open w d = open_scratch w e"
    using assms(1,2) by (auto simp: ServerSide_open_def open_read_def fresh_def e_def [symmetric] Let_def note_if_def
        add_message_def state_name_def e_def)
  then have open': "open_scratch w e = Inr (ok, w1, d1)" using assms(3) by simp
  note lim = download_limit [OF e(1) open' assms(4,5)]
  have "1 \<le> n_conns d" using assms(1) unfolding fresh_def n_conns_def by linarith
  then have "int (n_conns d - 1) = int (n_conns d) - 1" by simp
  with lim e assms(6) show ?thesis by auto
qed

lemma example_start:
  "\<exists>ok w1 d1 w2 d2. ServerSide_open example_world example_download = Inr (ok, w1, d1) \<and>
     ServerSide_start w1 d1 = Inr (w2, d2)"
proof -
  have "case ServerSide_open example_world example_download of Inl e \<Rightarrow> False | Inr (ok, w1, d1) \<Rightarrow>
      (case ServerSide_start w1 d1 of Inl e \<Rightarrow> False | Inr (w2, d2) \<Rightarrow> True)"
    by code_simp
  then show ?thesis by (fastforce simp: case_res_iff split: prod.splits)
qed

theorem download_cannot_finish_witness:
  "\<exists>ok w1 d1 w2 d2. ServerSide_open example_world example_download = Inr (ok, w1, d1) \<and>
     ServerSide_start w1 d1 = Inr (w2, d2) \<and>
     (\<forall>w3 d3. download_step\<^sup>*\<^sup>* (w2, d2) (w3, d3) \<longrightarrow> d_ready d3 \<noteq> 1 \<and> d_bytes_done d3 < 100000)"
proof -
  obtain ok w1 d1 w2 d2 where s: "ServerSide_open example_world example_download = Inr (ok, w1, d1)"
      "ServerSide_start w1 d1 = Inr (w2, d2)"
    using example_start by blast
  have f: "fresh example_download" "w_files example_world (state_name example_download) = None"
      "d_size example_download = 100000" "n_conns example_download = 2"
    by (simp_all add: fresh_def example_download_def example_world_def downloader_zero_def conf_default_def n_conns_def
        conn_zero_def)
  have "d_ready d3 \<noteq> 1 \<and> d_bytes_done d3 < 100000" if "download_step\<^sup>*\<^sup>* (w2, d2) (w3, d3)" for w3 d3
    using download_cannot_finish [OF f(1,2) s that] f(3,4) by simp
  with s show ?thesis by blast
qed

text \<open>C16: the state file restores a download.  What \<open>save_state\<close> writes, \<open>ServerSide_open\<close> reads back for the same
  output file name: the number of connections, the count of received bytes and the position of every connection, whatever
  the new downloader held.\<close>

theorem state_file_roundtrip:
  assumes "saveable d" "c_supported (d_conn d ! 0)" "d_conn d0 \<noteq> []" "c_supported (d_conn d0 ! 0)"
    "d_filename d0 = d_filename d" "\<not> w_deny w (state_name d)" "\<forall>n. w_disk_ok w n"
    "0 \<le> w_next_fd w" "0 \<le> w_next_fd (save_state w d)"
  shows "\<exists>ok w' d'. ServerSide_open (save_state w d) d0 = Inr (ok, w', d') \<and>
    k_num_connections (d_conf d') = k_num_connections (d_conf d) \<and> d_bytes_done d' = d_bytes_done d \<and>
    map c_currentbyte (d_conn d') = map c_currentbyte (d_conn d)"
  using assms by (rule save_open)

theorem state_file_roundtrip_witness:
  "\<exists>ok w' d'. ServerSide_open (save_state example_world (example_running\<lparr>d_bytes_done := 77\<rparr>)) example_download = Inr (ok, w', d') \<and>
    k_num_connections (d_conf d') = 2 \<and> d_bytes_done d' = 77 \<and> map c_currentbyte (d_conn d') = [0, 50000]"
proof -
  let ?d = "example_running\<lparr>d_bytes_done := 77\<rparr>"
  have z: "c_currentbyte conn_zero = 0" by (simp add: conn_zero_def)
  note defs = example_running_def example_download_def downloader_zero_def n_conns_def
  have "saveable ?d" by (simp add: saveable_def defs in_int_def in_llong_def z)
  moreover have "0 \<le> w_next_fd (save_state example_world ?d)" by code_simp
  ultimately show ?thesis
    using state_file_roundtrip [of ?d example_download example_world] by (simp add: defs example_world_def z)
qed

text \<open>Received bytes land at their place in the file.  \<open>store_data\<close> writes the bytes of connection \<open>i\<close> at the
  connection's position in the output file, leaves every other byte alone and advances the position and the total by the
  same amount; when the disk refuses the write nothing advances and the download is marked failed.\<close>

lemma store_data_places_bytes:
  assumes "d_outfd d \<in> set (w_open w)" "w_seek_ok w" "0 \<le> c_currentbyte (d_conn d ! i)" "i < length (d_conn d)"
  shows "if w_disk_ok w (w_writes w)
    then \<exists>w' d'. store_data i data w d = (False, w', d') \<and>
      file_of (d_outfd d) w' = write_at (nat (c_currentbyte (d_conn d ! i))) data (file_of (d_outfd d) w) \<and>
      c_currentbyte (d_conn d' ! i) = c_currentbyte (d_conn d ! i) + int (length data) \<and>
      d_bytes_done d' = d_bytes_done d + int (length data)
    else \<exists>w' d'. store_data i data w d = (True, w', d') \<and> d_ready d' = -1 \<and> d_conn d' = d_conn d \<and>
      d_bytes_done d' = d_bytes_done d"
  using store_data_file [OF assms(1) _ assms(2-4)] store_data_failed by auto

lemma store_data_places_bytes_witness:
  "\<exists>w' d'. store_data 1 ''xyz'' example_world (example_running\<lparr>d_outfd := 3\<rparr>) = (False, w', d') \<and>
     file_of 3 w' = write_at 50000 ''xyz'' [] \<and> c_currentbyte (d_conn d' ! 1) = 50003 \<and> d_bytes_done d' = 3"
  using store_data_places_bytes [of "example_running\<lparr>d_outfd := 3\<rparr>" example_world 1 "''xyz''"]
  by (simp add: example_running_def example_download_def downloader_zero_def example_world_def file_of_def)

end
