(* ===== verification/AxelDivide.thy ===== *)
theory AxelDivide
  imports Downloader
begin

text \<open>
  \<^verbatim>\<open>axel_divide\<close> of \<^verbatim>\<open>src/test04/client/axel-2.4-packetloss(axel.c)/axel.c\<close>:
  the division of the file the product's \<open>divide\<close> was made from, which gives every connection
  a range.  The contract of a division is the locale \<open>range_partition\<close>.
\<close>

text \<open>The loop: \<open>prev\<close> is the last byte of the connection before, \<open>q\<close> the quotient.\<close>

fun divide_chain :: "int \<Rightarrow> int \<Rightarrow> conn list \<Rightarrow> conn list" where
  "divide_chain q prev [] = []"
| "divide_chain q prev (c # cs) =
     c\<lparr>c_currentbyte := prev + 1, c_lastbyte := prev + 1 + q\<rparr> # divide_chain q (prev + 1 + q) cs"

definition axel_divide :: "int \<Rightarrow> conn list \<Rightarrow> conn list res" where
  "axel_divide sz cs =
     (case cs of
        [] \<Rightarrow> Inl Out_of_bounds
      | c # rest \<Rightarrow>
          let n = length cs; q = c_div sz (int n);
              cs1 = c\<lparr>c_currentbyte := 0, c_lastbyte := q - 1\<rparr> # divide_chain q (q - 1) rest
          in Inr (cs1[n - 1 := (cs1 ! (n - 1))\<lparr>c_lastbyte := sz - 1\<rparr>]))"

subsection \<open>The contract of a division\<close>

text \<open>
  \<open>ok z n\<close> says for which sizes and numbers of connections the division is meant; connection
  \<open>i\<close> gets the bytes from \<open>lo z n i\<close> to \<open>hi z n i\<close>.
\<close>

locale range_partition =
  fixes ok :: "int \<Rightarrow> nat \<Rightarrow> bool" and lo hi :: "int \<Rightarrow> nat \<Rightarrow> nat \<Rightarrow> int"
  assumes some: "ok z n \<Longrightarrow> 0 < n"
    and first: "ok z n \<Longrightarrow> lo z n 0 = 0"
    and adjacent: "ok z n \<Longrightarrow> Suc i < n \<Longrightarrow> lo z n (Suc i) = hi z n i + 1"
    and final: "ok z n \<Longrightarrow> hi z n (n - 1) = z - 1"
    and ordered: "ok z n \<Longrightarrow> i < n \<Longrightarrow> lo z n i \<le> hi z n i + 1"
begin

lemma lo_mono: "ok z n \<Longrightarrow> i \<le> j \<Longrightarrow> j < n \<Longrightarrow> lo z n i \<le> lo z n j"
proof (induction j)
  case 0
  then show ?case by simp
next
  case (Suc j)
  show ?case
  proof (cases "i = Suc j")
    case False
    with Suc have "lo z n i \<le> lo z n j" by simp
    also have "\<dots> \<le> hi z n j + 1" using ordered [of z n j] Suc.prems by simp
    also have "\<dots> = lo z n (Suc j)" using adjacent [of z n j] Suc.prems by simp
    finally show ?thesis .
  qed simp
qed

lemma hi_before: "ok z n \<Longrightarrow> i < j \<Longrightarrow> j < n \<Longrightarrow> hi z n i < lo z n j"
  using adjacent [of z n i] lo_mono [of z n "Suc i" j] by simp

text \<open>Every byte of the file is in exactly one range.\<close>

lemma covered: "ok z n \<Longrightarrow> 0 \<le> b \<Longrightarrow> k < n \<Longrightarrow> b \<le> hi z n k \<Longrightarrow> \<exists>i \<le> k. lo z n i \<le> b \<and> b \<le> hi z n i"
proof (induction k)
  case 0
  then show ?case using first by auto
next
  case (Suc k)
  show ?case
  proof (cases "b \<le> hi z n k")
    case True
    with Suc obtain i where "i \<le> k" "lo z n i \<le> b" "b \<le> hi z n i" by auto
    then show ?thesis using le_SucI by blast
  next
    case False
    with Suc.prems adjacent [of z n k] show ?thesis by (intro exI [of _ "Suc k"]) simp
  qed
qed

lemma unique_range:
  assumes "ok z n" "0 \<le> b" "b < z"
  shows "\<exists>!i. i < n \<and> lo z n i \<le> b \<and> b \<le> hi z n i"
proof (rule ex_ex1I)
  show "\<exists>i. i < n \<and> lo z n i \<le> b \<and> b \<le> hi z n i"
    using covered [of z n b "n - 1"] some [OF assms(1)] final [OF assms(1)] assms
    by (metis Suc_pred' le_imp_less_Suc lessI linorder_not_le zle_diff1_eq)
  show "i = j" if "i < n \<and> lo z n i \<le> b \<and> b \<le> hi z n i" "j < n \<and> lo z n j \<le> b \<and> b \<le> hi z n j" for i j
    using hi_before [OF assms(1), of i j] hi_before [OF assms(1), of j i] that by (metis linorder_neqE_nat order.strict_trans2 not_le)
qed

lemma total_room: "ok z n \<Longrightarrow> k < n \<Longrightarrow> (\<Sum>i\<le>k. room (lo z n i, hi z n i)) = hi z n k + 1"
proof (induction k)
  case 0
  then show ?case using first ordered [of z n 0] by (simp add: room_def)
next
  case (Suc k)
  then show ?case using adjacent [of z n k] ordered [of z n "Suc k"] by (simp add: room_def)
qed

end

subsection \<open>The division meets the contract\<close>

definition axel_lo :: "int \<Rightarrow> nat \<Rightarrow> nat \<Rightarrow> int" where
  "axel_lo z n i = (case axel_divide z (replicate n conn_zero) of Inl e \<Rightarrow> 0 | Inr cs \<Rightarrow> c_currentbyte (cs ! i))"

definition axel_hi :: "int \<Rightarrow> nat \<Rightarrow> nat \<Rightarrow> int" where
  "axel_hi z n i = (case axel_divide z (replicate n conn_zero) of Inl e \<Rightarrow> 0 | Inr cs \<Rightarrow> c_lastbyte (cs ! i))"

text \<open>The number of connections is not larger than the size allows.\<close>

definition axel_ok :: "int \<Rightarrow> nat \<Rightarrow> bool" where
  "axel_ok z n = (0 < n \<and> 0 \<le> z \<and> int n \<le> z div int n + z mod int n + 2)"

lemma divide_chain_length [simp]: "length (divide_chain q p cs) = length cs"
  by (induction q p cs rule: divide_chain.induct) auto

lemma divide_chain_nth:
  "i < length cs \<Longrightarrow> c_currentbyte (divide_chain q p cs ! i) = p + 1 + int i * (q + 1)
    \<and> c_lastbyte (divide_chain q p cs ! i) = p + 1 + int i * (q + 1) + q"
proof (induction q p cs arbitrary: i rule: divide_chain.induct)
  case (2 q p c cs)
  then show ?case by (cases i) (auto simp: algebra_simps)
qed simp

lemma axel_divide_ranges:
  assumes "cs \<noteq> []" "0 \<le> z" "q = z div int (length cs)"
  shows "\<exists>cs'. axel_divide z cs = Inr cs' \<and> length cs' = length cs \<and>
    (\<forall>i<length cs. c_currentbyte (cs' ! i) = (if i = 0 then 0 else q + (int i - 1) * (q + 1)) \<and>
      c_lastbyte (cs' ! i) = (if i = length cs - 1 then z - 1 else q - 1 + int i * (q + 1)))"
proof -
  obtain c rest where cs: "cs = c # rest" using assms(1) by (cases cs) auto
  have q: "c_div z (int (length cs)) = q" using assms by (simp add: c_div_pos)
  define cs1 where "cs1 = c\<lparr>c_currentbyte := 0, c_lastbyte := q - 1\<rparr> # divide_chain q (q - 1) rest"
  let ?m = "length cs - 1"
  let ?r = "cs1[?m := (cs1 ! ?m)\<lparr>c_lastbyte := z - 1\<rparr>]"
  have "axel_divide z cs = Inr ?r"
    by (simp only: axel_divide_def cs list.case Let_def q [unfolded cs] cs1_def)
  moreover have len: "length cs1 = length cs" by (simp add: cs1_def cs)
  moreover have "c_currentbyte (?r ! i) = (if i = 0 then 0 else q + (int i - 1) * (q + 1)) \<and>
      c_lastbyte (?r ! i) = (if i = ?m then z - 1 else q - 1 + int i * (q + 1))" if "i < length cs" for i
  proof -
    have v: "c_currentbyte (cs1 ! i) = (if i = 0 then 0 else q + (int i - 1) * (q + 1)) \<and>
        c_lastbyte (cs1 ! i) = q - 1 + int i * (q + 1)"
    proof (cases i)
      case 0
      then show ?thesis by (simp add: cs1_def)
    next
      case (Suc j)
      then have "j < length rest" using that cs by simp
      from divide_chain_nth [OF this, of q "q - 1"] show ?thesis by (simp add: cs1_def Suc algebra_simps)
    qed
    show ?thesis using v that len by (cases "i = ?m") (auto simp: nth_list_update)
  qed
  ultimately show ?thesis by auto
qed

lemma axel_bounds:
  assumes "0 < n" "0 \<le> z" "i < n" "q = z div int n"
  shows "axel_lo z n i = (if i = 0 then 0 else q + (int i - 1) * (q + 1))"
    and "axel_hi z n i = (if i = n - 1 then z - 1 else q - 1 + int i * (q + 1))"
proof -
  obtain cs' where "axel_divide z (replicate n conn_zero) = Inr cs'"
      "\<forall>i<n. c_currentbyte (cs' ! i) = (if i = 0 then 0 else q + (int i - 1) * (q + 1)) \<and>
        c_lastbyte (cs' ! i) = (if i = n - 1 then z - 1 else q - 1 + int i * (q + 1))"
    using axel_divide_ranges [of "replicate n conn_zero" z q] assms by auto
  then show "axel_lo z n i = (if i = 0 then 0 else q + (int i - 1) * (q + 1))"
      "axel_hi z n i = (if i = n - 1 then z - 1 else q - 1 + int i * (q + 1))"
    using assms(3) by (simp_all add: axel_lo_def axel_hi_def)
qed

text \<open>The last connection starts within the file exactly when there are not too many.\<close>

lemma axel_last_start:
  assumes "1 < n" "0 \<le> z"
  shows "axel_lo z n (n - 1) \<le> z \<longleftrightarrow> int n \<le> z div int n + z mod int n + 2"
proof -
  let ?q = "z div int n" and ?r = "z mod int n"
  have "int (n - 1) = int n - 1" using assms(1) by simp
  then have "axel_lo z n (n - 1) = ?q + (int n - 2) * (?q + 1)"
    using axel_bounds(1) [of n z "n - 1"] assms by simp
  also have "\<dots> = ?q * int n + int n - ?q - 2" by (simp add: algebra_simps)
  finally have "axel_lo z n (n - 1) = ?q * int n + int n - ?q - 2" .
  moreover have "z = ?q * int n + ?r" by simp
  ultimately show ?thesis by linarith
qed

interpretation axel: range_partition axel_ok axel_lo axel_hi
proof
  fix z n assume ok: "axel_ok z n"
  then show n: "0 < n" by (simp add: axel_ok_def)
  have z: "0 \<le> z" using ok by (simp add: axel_ok_def)
  let ?q = "z div int n"
  have q: "0 \<le> ?q" using z n by (simp add: pos_imp_zdiv_nonneg_iff)
  show "axel_lo z n 0 = 0" using axel_bounds(1) [OF n z n refl] by simp
  show "axel_hi z n (n - 1) = z - 1" using axel_bounds(2) [OF n z _ refl, of "n - 1"] n by simp
  show "axel_lo z n (Suc i) = axel_hi z n i + 1" if "Suc i < n" for i
    using axel_bounds [OF n z _ refl, of "Suc i"] axel_bounds [OF n z _ refl, of i] that
    by (cases "i = n - 1") (auto simp: algebra_simps)
  show "axel_lo z n i \<le> axel_hi z n i + 1" if i: "i < n" for i
  proof (cases "i = n - 1")
    case False
    then show ?thesis using axel_bounds [OF n z i refl] q by (auto simp: algebra_simps)
  next
    case True
    then show ?thesis
      using axel_bounds [OF n z i refl] axel_last_start [of n z] z ok by (cases "n = 1") (auto simp: axel_ok_def)
  qed
qed

subsection \<open>A download over such ranges\<close>

definition axel_ranges :: "int \<Rightarrow> nat \<Rightarrow> (int \<times> int) list" where
  "axel_ranges z n = map (\<lambda>i. (axel_lo z n i, axel_hi z n i)) [0..<n]"

lemma axel_ranges_room:
  assumes "axel_ok z n"
  shows "sum_list (map room (axel_ranges z n)) = z"
proof -
  have n: "0 < n" using axel.some [OF assms] .
  have "sum_list (map room (axel_ranges z n)) = (\<Sum>i\<le>n - 1. room (axel_lo z n i, axel_hi z n i))"
  proof -
    have "{..n - 1} = {0..<n}" using n by auto
    then show ?thesis by (simp add: axel_ranges_def sum_list_sum_nth)
  qed
  also have "\<dots> = z" using axel.total_room [OF assms, of "n - 1"] axel.final [OF assms] n by simp
  finally show ?thesis .
qed

text \<open>The number of bytes reaches the size only when every byte of the file was stored.\<close>

lemma axel_complete:
  assumes "axel_ok z n" "progress (axel_ranges z n) 0 z d" "d_bytes_done d = z" "0 \<le> b" "b < z"
  shows "\<exists>i<n. axel_lo z n i \<le> b \<and> b < c_currentbyte (d_conn d ! i)"
proof -
  obtain i where i: "i < n" "axel_lo z n i \<le> b" "b \<le> axel_hi z n i"
    using axel.unique_range [OF assms(1,4,5)] by blast
  have "c_currentbyte (d_conn d ! i) = axel_lo z n i + room (axel_lo z n i, axel_hi z n i)"
    using progress_complete [OF assms(2), of i] assms(3) i(1) axel_ranges_room [OF assms(1)]
    by (simp add: axel_ranges_def)
  with i show ?thesis by (intro exI [of _ i]) (simp add: room_def)
qed

subsection \<open>Contract\<close>

text \<open>C17: \<open>axel_divide\<close> partitions the file.  When the connections are not too many for the file
  (\<open>n \<le> size / n + size mod n + 2\<close>), every byte of the file lies in the range of exactly one connection.\<close>

theorem axel_divide_partition:
  assumes "axel_ok z (length cs)" "axel_divide z cs = Inr cs'" "0 \<le> b" "b < z"
  shows "\<exists>!i. i < length cs' \<and> c_currentbyte (cs' ! i) \<le> b \<and> b \<le> c_lastbyte (cs' ! i)"
proof -
  have n: "cs \<noteq> []" "0 \<le> z" "0 < length cs" using assms(1) by (auto simp: axel_ok_def)
  obtain c where c: "axel_divide z cs = Inr c" "length c = length cs"
      "\<forall>i<length cs. c_currentbyte (c ! i) = axel_lo z (length cs) i \<and> c_lastbyte (c ! i) = axel_hi z (length cs) i"
    using axel_divide_ranges [OF n(1,2) refl] axel_bounds [OF n(3,2) _ refl] by auto
  have "cs' = c" using c(1) assms(2) by simp
  then have "(i < length cs' \<and> c_currentbyte (cs' ! i) \<le> b \<and> b \<le> c_lastbyte (cs' ! i)) =
      (i < length cs \<and> axel_lo z (length cs) i \<le> b \<and> b \<le> axel_hi z (length cs) i)" for i
    using c(2,3) by auto
  with axel.unique_range [OF assms(1,3,4)] show ?thesis by simp
qed

theorem axel_divide_partition_witness:
  "\<exists>cs'. axel_divide 10 (replicate 3 conn_zero) = Inr cs' \<and> map (\<lambda>c. (c_currentbyte c, c_lastbyte c)) cs' = [(0, 2), (3, 6), (7, 9)] \<and>
     (\<exists>!i. i < length cs' \<and> c_currentbyte (cs' ! i) \<le> 6 \<and> 6 \<le> c_lastbyte (cs' ! i))"
proof -
  have "case axel_divide 10 (replicate 3 conn_zero) of Inl e \<Rightarrow> False
      | Inr cs' \<Rightarrow> map (\<lambda>c. (c_currentbyte c, c_lastbyte c)) cs' = [(0, 2), (3, 6), (7, 9)]"
    by code_simp
  then obtain cs' where c: "axel_divide 10 (replicate 3 conn_zero) = Inr cs'"
      "map (\<lambda>c. (c_currentbyte c, c_lastbyte c)) cs' = [(0, 2), (3, 6), (7, 9)]"
    by (elim res_okE)
  have "axel_ok 10 (length (replicate 3 conn_zero))" by (simp add: axel_ok_def)
  from axel_divide_partition [OF this c(1), of 6] c show ?thesis by simp
qed

text \<open>The bound is sharp.  With at least two connections the range of the last one starts within the file, or
  directly behind it, exactly when \<open>n \<le> size / n + size mod n + 2\<close>; with more connections than that some are sent
  behind the end of the file.\<close>

lemma axel_divide_last_range:
  assumes "1 < length cs" "0 \<le> z" "axel_divide z cs = Inr cs'"
  shows "c_currentbyte (last cs') \<le> z \<longleftrightarrow> axel_ok z (length cs)"
proof -
  have n: "cs \<noteq> []" "0 < length cs" "length cs - 1 < length cs" using assms(1) by auto
  obtain c where c: "axel_divide z cs = Inr c" "length c = length cs"
      "c_currentbyte (c ! (length cs - 1)) = axel_lo z (length cs) (length cs - 1)"
    using axel_divide_ranges [OF n(1) assms(2) refl] axel_bounds(1) [OF n(2) assms(2) n(3) refl] n(3) by auto
  have "cs' = c" "c \<noteq> []" using c(1,2) assms(3) n(1) by auto
  then have "c_currentbyte (last cs') = axel_lo z (length cs) (length cs - 1)"
    using c(2,3) by (simp add: last_conv_nth)
  then show ?thesis using axel_last_start [OF assms(1,2)] n(2) assms(2) by (simp add: axel_ok_def)
qed

lemma axel_divide_last_range_witness:
  "\<exists>cs'. axel_divide 5 (replicate 5 conn_zero) = Inr cs' \<and> \<not> c_currentbyte (last cs') \<le> 5"
proof -
  have "case axel_divide 5 (replicate 5 conn_zero) of Inl e \<Rightarrow> False | Inr cs' \<Rightarrow> True" by code_simp
  then obtain cs' where c: "axel_divide 5 (replicate 5 conn_zero) = Inr cs'" by (elim res_okE)
  then show ?thesis using axel_divide_last_range [of "replicate 5 conn_zero" 5 cs'] by (simp add: axel_ok_def)
qed

text \<open>With these ranges a finished download is a complete file.  If the ranges of \<open>axel_divide\<close> fit the file and
  the count of received bytes has reached its size, every byte of the file lies before the position of the connection whose
  range holds it: it has been received.\<close>

lemma axel_divide_complete:
  assumes "axel_ok z n" "progress (axel_ranges z n) 0 z d" "d_bytes_done d = z" "0 \<le> b" "b < z"
  shows "\<exists>i<n. axel_lo z n i \<le> b \<and> b < c_currentbyte (d_conn d ! i)"
  using assms by (rule axel_complete)

lemma axel_divide_complete_witness:
  "\<exists>i<2. axel_lo 10 2 i \<le> 7 \<and> 7 < c_currentbyte (d_conn (example_download\<lparr>d_size := 10, d_bytes_done := 10,
     d_conn := [conn_zero\<lparr>c_supported := True, c_currentbyte := 5, c_lastbyte := 4\<rparr>,
                conn_zero\<lparr>c_currentbyte := 10, c_lastbyte := 9\<rparr>]\<rparr>) ! i)"
proof (rule axel_divide_complete)
  let ?d = "example_download\<lparr>d_size := 10, d_bytes_done := 10,
     d_conn := [conn_zero\<lparr>c_supported := True, c_currentbyte := 5, c_lastbyte := 4\<rparr>,
                conn_zero\<lparr>c_currentbyte := 10, c_lastbyte := 9\<rparr>]\<rparr>"
  have r: "axel_ranges 10 2 = [(0, 4), (5, 9)]" by code_simp
  show "progress (axel_ranges 10 2) 0 10 ?d"
    unfolding r by (subst progress_two) (simp_all add: n_conns_def example_download_def downloader_zero_def conn_in_def room_def)
qed (simp_all add: axel_ok_def)

end
