(* ===== verification/Search.thy ===== *)
theory Search
  imports Downloader "HOL-Library.Multiset"
begin

text \<open>
  \<^verbatim>\<open>final/client/ServerSide/search.c\<close>: the search for mirrors of a file: the list that
  a search engine returns, the speed tests that run in threads of their own, and the order by
  speed.
\<close>

text \<open>\<open>search_t\<close>; \<open>s_start\<close> is \<open>speed_start_time\<close>.\<close>

record search =
  s_url :: string
  s_start :: rat
  s_speed :: int
  s_size :: int

definition search_zero :: search where
  "search_zero = \<lparr>s_url = '''', s_start = 0, s_speed = 0, s_size = 0\<rparr>"

abbreviation (input) SPEED_ACTIVE :: int where "SPEED_ACTIVE \<equiv> -1"
abbreviation (input) SPEED_ERROR :: int where "SPEED_ERROR \<equiv> -2"
abbreviation (input) SPEED_DONE :: int where "SPEED_DONE \<equiv> -3"

text \<open>
  The last place of \<open>needle\<close>, from the end downwards; the loop stops before index 0, so a needle
  at the very start is not found.
\<close>

fun strrstr_from :: "nat \<Rightarrow> string \<Rightarrow> string \<Rightarrow> nat option" where
  "strrstr_from 0 hay needle = None"
| "strrstr_from (Suc i) hay needle =
     (if is_prefix needle (drop (Suc i) hay) then Some (Suc i) else strrstr_from i hay needle)"

definition strrstr :: "string \<Rightarrow> string \<Rightarrow> nat option" where
  "strrstr hay needle = strrstr_from (length hay - length needle) hay needle"

subsection \<open>The list of mirrors\<close>

definition search_query :: "string \<Rightarrow> int \<Rightarrow> int \<Rightarrow> string" where
  "search_query name amount sz =
     ''http://www.filesearching.com/cgi-bin/s?q='' @ name @ ''&w=a&l=en&t=f&e=on&m='' @ int_str amount @
     ''&o=n&s1='' @ int_str sz @ ''&s2='' @ int_str sz @ ''&x=15&y=15''"

text \<open>
  The reply: everything the connection sends, and the size of the block, which is doubled when it
  is nearly full.
\<close>

function read_reply :: "int \<Rightarrow> nat \<Rightarrow> string \<Rightarrow> world \<Rightarrow> string \<times> nat \<times> world" where
  "read_reply fd cap acc w =
     (case sys_read fd (cap - length acc) w of (r, s, w') \<Rightarrow>
        if r \<le> 0 then (acc, cap, w')
        else read_reply fd (if cap \<le> length (acc @ s) + 10 then 2 * cap else cap) (acc @ s) w')"
  by pat_completeness auto
termination
  by (relation "measure (\<lambda>(fd, cap, acc, w). rx_size w fd)") (auto intro: sys_read_decreases [OF sym])

declare read_reply.simps [simp del]

text \<open>
  The block as a string.  The reply is not terminated: behind it are the rest of the query, which
  was printed into the same block, or the old contents of the heap (\<open>junk\<close>), up to the half
  that was cleared when the block was doubled.
\<close>

definition reply_text :: "string \<Rightarrow> string \<Rightarrow> nat \<Rightarrow> (nat \<Rightarrow> char) \<Rightarrow> string res" where
  "reply_text query reply cap junk =
     (let behind = (if length reply \<le> length query then drop (length reply) query @ [NUL]
                    else if cap = 8192 then map junk [length reply..<cap]
                    else map junk [length reply..<cap div 2] @ [NUL])
      in if NUL \<in> set (reply @ behind) then Inr (cstring (reply @ behind)) else Inl Over_read)"

text \<open>
  One line of the list: the address behind its last link, up to a space.  What the code does not
  find is a null pointer it goes on with.  The result is the address and the rest behind the line.
\<close>

definition list_entry :: "string \<Rightarrow> (string \<times> string) res" where
  "list_entry s1 =
     (case strchr s1 NL of
        None \<Rightarrow> Inl Null_deref
      | Some e \<Rightarrow>
          (case strrstr (take e s1) ''<a href='' of
             None \<Rightarrow> Inl Null_deref
           | Some a \<Rightarrow>
               let s2 = drop (a + 8) s1 in
               (case strchr s2 CHR '' '' of
                  None \<Rightarrow> Inl Null_deref
                | Some b \<Rightarrow>
                    let rest = dropWhile (\<lambda>c. c \<noteq> NL) (NUL # drop (Suc b) s2) in
                    if rest = [] then Inl Over_read else Inr (take b s2, tl rest))))"

text \<open>
  The loop: \<open>i\<close> entries of the result are filled; the original address is not taken twice.
  \<open>fuel\<close> is the length of the text, which every entry shortens.
\<close>

fun list_loop :: "nat \<Rightarrow> nat \<Rightarrow> int \<Rightarrow> string \<Rightarrow> search list \<Rightarrow> search list res" where
  "list_loop 0 i amount s1 res = Inr (take i res)"
| "list_loop (Suc n) i amount s1 res =
     (if is_prefix ''</pre>'' s1 \<or> amount \<le> int i \<or> s1 = [] then Inr (take i res)
      else rbind (list_entry s1) (\<lambda>(url, rest).
           if url = s_url (res ! 0) then list_loop n i amount rest res
           else rbind (guard_c (i < length res) Out_of_bounds) (\<lambda>_.
                rbind (strncpy_buf MAX_STRING url) (\<lambda>u.
                list_loop n (Suc i) amount rest (res[i := (res ! i)\<lparr>s_url := u, s_size := s_size (res ! 0)\<rparr>])))))"

definition parse_list :: "int \<Rightarrow> string \<Rightarrow> search list \<Rightarrow> search list res" where
  "parse_list amount s res =
     (case strstr s ''<pre class=list'' of
        None \<Rightarrow> Inl Null_deref
      | Some k \<Rightarrow>
          (case strchr (drop k s) NL of
             None \<Rightarrow> Inl Null_deref
           | Some e \<Rightarrow>
               let s1 = drop (Suc e) (drop k s) in
               if strstr s1 ''</pre>'' = None then Inr (take 1 res)
               else list_loop (length s1) 1 amount s1 res))"

text \<open>
  \<open>search_makelist\<close>: \<open>None\<close> is the result -1, otherwise the filled entries (their number is
  the value).  The original address is measured first.
\<close>

definition makelist_query :: "conf \<Rightarrow> string \<Rightarrow> search list \<Rightarrow> world \<Rightarrow> (search list option \<times> world) res" where
  "makelist_query k query res w =
     rbind (conn_set (w_services w) query conn_zero) (\<lambda>(ok, c).
     if \<not> ok then Inr (Some (take 1 res), w) else
     rbind (conn_setup k w c) (\<lambda>(ok1, w1, c1).
     if \<not> ok1 then Inr (Some (take 1 res), w1) else
     rbind (conn_exec w1 c1) (\<lambda>(ok2, w2, c2).
     if \<not> ok2 then Inr (Some (take 1 res), w2) else
     case read_reply (c_fd c2) 8192 [] w2 of (s, cap, w3) \<Rightarrow>
     case conn_disconnect w3 c2 of (w4, c4) \<Rightarrow>
     rbind (reply_text query s cap (w_heap w4 (w_waits w4))) (\<lambda>t.
     rbind (parse_list (k_search_amount k) t res) (\<lambda>l. Inr (Some l, w4))))))"

definition search_makelist :: "conf \<Rightarrow> string \<Rightarrow> world \<Rightarrow> (search list option \<times> world) res" where
  "search_makelist k url w0 =
     (case gettime w0 of (t, w1) \<Rightarrow>
     rbind (conn_set (w_services w1) url conn_zero) (\<lambda>(ok, c).
     if \<not> ok then Inr (None, w1) else
     rbind (conn_init k w1 c) (\<lambda>(ok1, w2, c1).
     if \<not> ok1 then Inr (None, w2) else
     rbind (conn_info k w2 c1) (\<lambda>(ok2, w3, c2).
     if \<not> ok2 then Inr (None, w3) else
     rbind (strcpy_buf MAX_STRING url) (\<lambda>u.
     case gettime w3 of (t2, w4) \<Rightarrow>
     let res = (replicate (nat (k_search_amount k) + 1) search_zero)
                 [0 := search_zero\<lparr>s_url := u, s_speed := trunc_int (1 + 1000 * (t2 - t)), s_size := c_size c2\<rparr>];
         query = search_query (c_file c2) (k_search_amount k) (c_size c2) in
     case conn_disconnect w4 c2 of (w5, c5) \<Rightarrow>
     if 8192 \<le> length query then Inl Buffer_overflow
     else makelist_query k query res w5)))))"

subsection \<open>Testing the speed\<close>

text \<open>The body of the thread of one mirror.\<close>

definition search_speedtest :: "conf \<Rightarrow> search \<Rightarrow> world \<Rightarrow> (search \<times> world) res" where
  "search_speedtest k r w =
     rbind (conn_set (w_services w) (s_url r) conn_zero) (\<lambda>(ok, c).
     if \<not> ok then Inr (r\<lparr>s_speed := SPEED_ERROR\<rparr>, fst (conn_disconnect w c)) else
     rbind (conn_init k w c) (\<lambda>(ok1, w1, c1).
     if \<not> ok1 then Inr (r\<lparr>s_speed := SPEED_ERROR\<rparr>, fst (conn_disconnect w1 c1)) else
     rbind (conn_info k w1 c1) (\<lambda>(ok2, w2, c2).
     if \<not> ok2 \<or> c_size c2 \<noteq> s_size r
     then Inr (r\<lparr>s_speed := SPEED_ERROR\<rparr>, fst (conn_disconnect w2 c2))
     else case gettime w2 of (t, w3) \<Rightarrow>
       Inr (r\<lparr>s_speed := trunc_int (1 + 1000 * (t - s_start r))\<rparr>, fst (conn_disconnect w3 c2)))))"

text \<open>
  The scheduler: the results, how many tests run, how many entries are done and how many of them
  have a speed.
\<close>

record sched =
  z_res :: "search list"
  z_running :: int
  z_done :: nat
  z_correct :: nat

definition sched_init :: "search list \<Rightarrow> sched" where
  "sched_init res = \<lparr>z_res = map (\<lambda>r. if s_speed r \<noteq> 0 then r\<lparr>s_start := 0\<rparr> else r) res, z_running = 0,
     z_done = length (filter (\<lambda>r. s_speed r \<noteq> 0) res), z_correct = length (filter (\<lambda>r. 0 < s_speed r) res)\<rparr>"

text \<open>
  What the loop does with one entry: \<open>Some\<close> when it acts (the inner loop then starts again).
  The last component is false when a thread could not be created.
\<close>

definition sched_entry :: "conf \<Rightarrow> nat \<Rightarrow> world \<Rightarrow> sched \<Rightarrow> (bool \<times> sched) option \<times> world" where
  "sched_entry k i w z =
     (let r = z_res z ! i; put = (\<lambda>r'. (z_res z)[i := r']) in
      if z_running z < k_search_threads k \<and> s_speed r = 0
      then (case gettime w of (t, w1) \<Rightarrow> case thread_create w1 of (ok, w2) \<Rightarrow>
              let z1 = z\<lparr>z_res := put (r\<lparr>s_speed := SPEED_ACTIVE, s_start := t\<rparr>)\<rparr>
              in (Some (ok, if ok then z1\<lparr>z_running := z_running z + 1\<rparr> else z1), w2))
      else case (if s_speed r = SPEED_ACTIVE then gettime w else (0, w)) of (t, w1) \<Rightarrow>
        if s_speed r = SPEED_ACTIVE \<and> s_start r + of_int (k_search_timeout k) < t
        then (Some (True, z\<lparr>z_res := put (r\<lparr>s_speed := SPEED_DONE\<rparr>), z_running := z_running z - 1, z_done := Suc (z_done z)\<rparr>), w1)
        else if 0 < s_speed r \<and> s_start r \<noteq> 0
        then (Some (True, z\<lparr>z_res := put (r\<lparr>s_start := 0\<rparr>), z_running := z_running z - 1,
                          z_correct := Suc (z_correct z), z_done := Suc (z_done z)\<rparr>), w1)
        else if s_speed r = SPEED_ERROR
        then (Some (True, z\<lparr>z_res := put (r\<lparr>s_speed := SPEED_DONE\<rparr>), z_running := z_running z - 1, z_done := Suc (z_done z)\<rparr>), w1)
        else (None, w1))"

fun sched_scan :: "conf \<Rightarrow> nat list \<Rightarrow> world \<Rightarrow> sched \<Rightarrow> bool \<times> sched \<times> world" where
  "sched_scan k [] w z = (True, z, w)"
| "sched_scan k (i # is) w z =
     (case sched_entry k i w z of
        (None, w1) \<Rightarrow> sched_scan k is w1 z
      | (Some (ok, z1), w1) \<Rightarrow> (ok, z1, w1))"

text \<open>
  One pass of the outer loop, and the steps of the whole: a pass while not all entries are done,
  or a running test that ends.  (A test whose thread was cancelled does not end; the clock never
  reads zero.)
\<close>

definition sched_pass :: "conf \<Rightarrow> world \<Rightarrow> sched \<Rightarrow> bool \<times> sched \<times> world" where
  "sched_pass k w z = sched_scan k [0..<length (z_res z)] w z"

inductive sched_step :: "conf \<Rightarrow> sched \<Rightarrow> sched \<Rightarrow> bool" for k where
  pass: "z_done z < length (z_res z) \<Longrightarrow> \<forall>n. 0 < w_clock w n \<Longrightarrow> sched_pass k w z = (True, z', w') \<Longrightarrow> sched_step k z z'"
| test_ends: "i < length (z_res z) \<Longrightarrow> s_speed (z_res z ! i) = SPEED_ACTIVE \<Longrightarrow> s_start (z_res z ! i) \<noteq> 0 \<Longrightarrow>
    search_speedtest k (z_res z ! i) w = Inr (r, w') \<Longrightarrow>
    s_speed r = SPEED_ERROR \<or> 0 < s_speed r \<Longrightarrow>
    sched_step k z (z\<lparr>z_res := (z_res z)[i := r]\<rparr>)"

subsection \<open>The order by speed\<close>

definition search_sortlist_qsort :: "search \<Rightarrow> search \<Rightarrow> int" where
  "search_sortlist_qsort a b =
     (if s_speed a < 0 \<and> 0 < s_speed b then 1
      else if 0 < s_speed a \<and> s_speed b < 0 then -1
      else if s_speed a < s_speed b then -1
      else if s_speed b < s_speed a then 1 else 0)"

text \<open>\<open>qsort\<close>: any list with the same elements in the order of the comparison.\<close>

definition sortlist_result :: "search list \<Rightarrow> search list \<Rightarrow> bool" where
  "sortlist_result res out = (mset out = mset res \<and> sorted_wrt (\<lambda>a b. search_sortlist_qsort a b \<le> 0) out)"

subsection \<open>The last occurrence\<close>

lemma strrstr_from_Some:
  "strrstr_from n hay needle = Some i \<Longrightarrow>
    0 < i \<and> i \<le> n \<and> is_prefix needle (drop i hay) \<and> (\<forall>j. i < j \<and> j \<le> n \<longrightarrow> \<not> is_prefix needle (drop j hay))"
proof (induction n)
  case 0
  then show ?case by simp
next
  case (Suc n)
  show ?case
  proof (cases "is_prefix needle (drop (Suc n) hay)")
    case True
    with Suc.prems show ?thesis by auto
  next
    case False
    with Suc show ?thesis by (auto simp: le_Suc_eq)
  qed
qed

lemma strrstr_from_None:
  "strrstr_from n hay needle = None \<Longrightarrow> 0 < j \<Longrightarrow> j \<le> n \<Longrightarrow> \<not> is_prefix needle (drop j hay)"
  by (induction n) (auto simp: le_Suc_eq split: if_splits)

subsection \<open>The states of a test\<close>

definition test_finished :: "search \<Rightarrow> bool" where
  "test_finished r = (s_speed r = SPEED_DONE \<or> 0 < s_speed r \<and> s_start r = 0)"

definition test_running :: "search \<Rightarrow> bool" where
  "test_running r = (s_start r \<noteq> 0 \<and> (s_speed r = SPEED_ACTIVE \<or> s_speed r = SPEED_ERROR \<or> 0 < s_speed r))"

definition test_good :: "search \<Rightarrow> bool" where
  "test_good r = (0 < s_speed r \<and> s_start r = 0)"

definition sched_ok :: "sched \<Rightarrow> bool" where
  "sched_ok z =
     ((\<forall>r \<in> set (z_res z). s_speed r = 0 \<or> test_finished r \<or> test_running r) \<and>
      z_running z = int (length (filter test_running (z_res z))) \<and>
      z_done z = length (filter test_finished (z_res z)) \<and>
      z_correct z = length (filter test_good (z_res z)))"

lemma filter_update:
  "i < length xs \<Longrightarrow> length (filter P (xs[i := y])) + of_bool (P (xs ! i)) = length (filter P xs) + (of_bool (P y) :: nat)"
proof (induction xs arbitrary: i)
  case Nil
  then show ?case by simp
next
  case (Cons x xs)
  then show ?case by (cases i) auto
qed

text \<open>Replacing one entry: the counters move with its state.\<close>

lemma sched_ok_update:
  assumes "sched_ok z" "i < length (z_res z)" "z_res z' = (z_res z)[i := r]"
    "s_speed r = 0 \<or> test_finished r \<or> test_running r"
    "z_running z' + of_bool (test_running (z_res z ! i)) = z_running z + of_bool (test_running r)"
    "z_done z' + of_bool (test_finished (z_res z ! i)) = z_done z + of_bool (test_finished r)"
    "z_correct z' + of_bool (test_good (z_res z ! i)) = z_correct z + of_bool (test_good r)"
  shows "sched_ok z'"
proof -
  have "\<forall>x \<in> set ((z_res z)[i := r]). s_speed x = 0 \<or> test_finished x \<or> test_running x"
    using assms(1,4) set_update_subset_insert [of "z_res z" i r] by (auto simp: sched_ok_def)
  moreover note upd = filter_update [OF assms(2), of _ r, folded assms(3)]
  have "z_running z' = int (length (filter test_running (z_res z')))"
    using arg_cong [OF upd [of test_running], of int] assms(1,5) by (simp add: sched_ok_def)
  moreover have "z_done z' = length (filter test_finished (z_res z'))"
    using upd [of test_finished] assms(1,6) by (simp add: sched_ok_def)
  moreover have "z_correct z' = length (filter test_good (z_res z'))"
    using upd [of test_good] assms(1,7) by (simp add: sched_ok_def)
  ultimately show ?thesis by (simp add: sched_ok_def assms(3))
qed

lemma sched_init_ok:
  assumes "\<forall>r \<in> set res. 0 \<le> s_speed r"
  shows "sched_ok (sched_init res)"
proof -
  let ?f = "\<lambda>r. if s_speed r \<noteq> 0 then r\<lparr>s_start := 0\<rparr> else r"
  have s: "test_running (?f r) = False" "test_finished (?f r) = (s_speed r \<noteq> 0)" "test_good (?f r) = (0 < s_speed r)"
    if "r \<in> set res" for r
    using assms that by (force simp: test_running_def test_finished_def test_good_def)+
  have "\<not> test_running x" if "x \<in> set (map ?f res)" for x
  proof -
    from that obtain r where "x = ?f r" "r \<in> set res" unfolding set_map by (rule imageE)
    with s(1) show ?thesis by metis
  qed
  then have "filter test_running (map ?f res) = []" unfolding filter_empty_conv by blast
  moreover have "length (filter test_finished (map ?f res)) = length (filter (\<lambda>r. s_speed r \<noteq> 0) res)"
    using s(2) by (simp add: filter_map comp_def cong: filter_cong)
  moreover have "length (filter test_good (map ?f res)) = length (filter (\<lambda>r. 0 < s_speed r) res)"
    using s(3) by (simp add: filter_map comp_def cong: filter_cong)
  moreover have "\<forall>r \<in> set (map ?f res). s_speed r = 0 \<or> test_finished r \<or> test_running r"
  proof
    fix x assume "x \<in> set (map ?f res)"
    then obtain r where r: "x = ?f r" "r \<in> set res" unfolding set_map by (rule imageE)
    show "s_speed x = 0 \<or> test_finished x \<or> test_running x"
      using s(2) [OF r(2)] r(1) by (cases "s_speed r = 0") simp_all
  qed
  ultimately show ?thesis by (simp add: sched_ok_def sched_init_def)
qed

lemma sched_entry_ok:
  assumes "sched_ok z" "i < length (z_res z)" "\<forall>n. 0 < w_clock w n" "sched_entry k i w z = (Some (True, z'), w')"
  shows "sched_ok z'" and "length (z_res z') = length (z_res z)"
proof -
  define r where "r = z_res z ! i"
  obtain t w1 where t: "gettime w = (t, w1)" "0 < t"
    using assms(3) by (auto simp: gettime_def)
  have r: "s_speed r = 0 \<or> test_finished r \<or> test_running r"
    using assms(1,2) by (auto simp: sched_ok_def r_def)
  consider "z_running z < k_search_threads k" "s_speed r = 0"
      "z' = z\<lparr>z_res := (z_res z)[i := r\<lparr>s_speed := SPEED_ACTIVE, s_start := t\<rparr>], z_running := z_running z + 1\<rparr>"
    | "s_speed r = SPEED_ACTIVE \<or> s_speed r = SPEED_ERROR"
      "z' = z\<lparr>z_res := (z_res z)[i := r\<lparr>s_speed := SPEED_DONE\<rparr>], z_running := z_running z - 1, z_done := Suc (z_done z)\<rparr>"
    | "0 < s_speed r" "s_start r \<noteq> 0"
      "z' = z\<lparr>z_res := (z_res z)[i := r\<lparr>s_start := 0\<rparr>], z_running := z_running z - 1,
               z_correct := Suc (z_correct z), z_done := Suc (z_done z)\<rparr>"
    using assms(4) t(1) unfolding sched_entry_def r_def [symmetric] Let_def
    by (auto split: prod.splits if_splits)
  then have "sched_ok z' \<and> length (z_res z') = length (z_res z)"
  proof cases
    case 1
    then have "sched_ok z'" using t(2)
      by (intro sched_ok_update [OF assms(1,2), folded r_def, of z' "r\<lparr>s_speed := SPEED_ACTIVE, s_start := t\<rparr>"])
        (simp_all add: test_finished_def test_running_def test_good_def)
    with 1 show ?thesis by simp
  next
    case 2
    then have "s_start r \<noteq> 0" using r by (auto simp: test_finished_def test_running_def)
    with 2 have "sched_ok z'"
      by (intro sched_ok_update [OF assms(1,2), folded r_def, of z' "r\<lparr>s_speed := SPEED_DONE\<rparr>"])
        (auto simp: test_finished_def test_running_def test_good_def)
    with 2 show ?thesis by simp
  next
    case 3
    then have "sched_ok z'"
      by (intro sched_ok_update [OF assms(1,2), folded r_def, of z' "r\<lparr>s_start := 0\<rparr>"])
        (simp_all add: test_finished_def test_running_def test_good_def)
    with 3 show ?thesis by simp
  qed
  then show "sched_ok z'" "length (z_res z') = length (z_res z)" by blast+
qed

lemma sched_scan_ok:
  "sched_ok z \<Longrightarrow> \<forall>i \<in> set is. i < length (z_res z) \<Longrightarrow> \<forall>n. 0 < w_clock w n \<Longrightarrow>
    sched_scan k is w z = (True, z', w') \<Longrightarrow> sched_ok z' \<and> length (z_res z') = length (z_res z)"
proof (induction "is" arbitrary: w)
  case Nil
  then show ?case by simp
next
  case (Cons i "is")
  obtain r w1 where e: "sched_entry k i w z = (r, w1)" by fastforce
  show ?case
  proof (cases r)
    case None
    have "w_clock w1 = w_clock w"
      using e None by (auto simp: sched_entry_def Let_def gettime_def split: prod.splits if_splits)
    moreover have "sched_scan k is w1 z = (True, z', w')" using Cons.prems(4) e None by simp
    ultimately show ?thesis using Cons.IH [OF Cons.prems(1), of w1] Cons.prems(2,3) by simp
  next
    case (Some p)
    then have "sched_entry k i w z = (Some (True, z'), w1)" using Cons.prems(4) e by (cases p) simp
    moreover have "i < length (z_res z)" using Cons.prems(2) by simp
    ultimately show ?thesis using sched_entry_ok [OF Cons.prems(1) _ Cons.prems(3)] by blast
  qed
qed

lemma search_speedtest_start: "search_speedtest k r w = Inr (r', w') \<Longrightarrow> s_start r' = s_start r"
  by (auto simp: search_speedtest_def res_elims gettime_def split: if_splits)

lemma sched_step_ok:
  assumes "sched_step k z z'" "sched_ok z"
  shows "sched_ok z' \<and> length (z_res z') = length (z_res z)"
  using assms
proof (induction rule: sched_step.induct)
  case (pass z w z' w')
  then show ?case using sched_scan_ok [of z "[0..<length (z_res z)]" w k z' w'] by (simp add: sched_pass_def)
next
  case (test_ends i z w r w')
  let ?z = "z\<lparr>z_res := (z_res z)[i := r]\<rparr>"
  have "s_start r \<noteq> 0" using search_speedtest_start [OF test_ends(4)] test_ends(3) by simp
  then have "sched_ok ?z"
    using test_ends
    by (intro sched_ok_update [of z i ?z r]) (auto simp: test_finished_def test_running_def test_good_def)
  then show ?case by simp
qed

text \<open>
  Whatever the order in which the tests end: when the loop is left no test runs, every entry has a
  verdict, and the value is the number of entries with a speed.
\<close>

lemma sched_end:
  assumes "(sched_step k)\<^sup>*\<^sup>* (sched_init res) z" "\<forall>r \<in> set res. 0 \<le> s_speed r" "z_done z = length (z_res z)"
  shows "length (z_res z) = length res" "z_running z = 0"
    "\<forall>r \<in> set (z_res z). s_speed r = SPEED_DONE \<or> 0 < s_speed r"
    "z_correct z = length (filter (\<lambda>r. 0 < s_speed r) (z_res z))"
proof -
  have "sched_ok z \<and> length (z_res z) = length res"
    using assms(1)
  proof (induction rule: rtranclp_induct)
    case base
    then show ?case using sched_init_ok [OF assms(2)] by (simp add: sched_init_def)
  next
    case (step y z)
    then show ?case using sched_step_ok by metis
  qed
  then have ok: "sched_ok z" and "length (z_res z) = length res" by blast+
  then show "length (z_res z) = length res" by simp
  have "length (filter test_finished (z_res z)) = length (z_res z)" using ok assms(3) by (simp add: sched_ok_def)
  then have fin: "\<forall>r \<in> set (z_res z). test_finished r"
    by (metis filter_True length_filter_less nat_less_le)
  then show "\<forall>r \<in> set (z_res z). s_speed r = SPEED_DONE \<or> 0 < s_speed r"
    by (auto simp: test_finished_def)
  have "\<forall>r \<in> set (z_res z). \<not> test_running r" using fin by (auto simp: test_finished_def test_running_def)
  then have "filter test_running (z_res z) = []" by (simp add: filter_empty_conv)
  then show "z_running z = 0" using ok by (simp add: sched_ok_def)
  have "filter test_good (z_res z) = filter (\<lambda>r. 0 < s_speed r) (z_res z)"
    using fin by (intro filter_cong) (auto simp: test_finished_def test_good_def)
  then show "z_correct z = length (filter (\<lambda>r. 0 < s_speed r) (z_res z))" using ok by (simp add: sched_ok_def)
qed

subsection \<open>The order\<close>

text \<open>
  With a verdict for every entry the comparison is an order: by speed, the entries without one
  behind the others.
\<close>

definition speed_rank :: "search \<Rightarrow> bool \<times> int" where
  "speed_rank r = (s_speed r < 0, s_speed r)"

lemma qsort_le_iff:
  assumes "s_speed a \<noteq> 0" "s_speed b \<noteq> 0"
  shows "search_sortlist_qsort a b \<le> 0 \<longleftrightarrow>
    (0 < s_speed a \<and> s_speed b < 0) \<or> ((s_speed a < 0) = (s_speed b < 0) \<and> s_speed a \<le> s_speed b)"
  using assms by (auto simp: search_sortlist_qsort_def)

lemma sortlist_order:
  assumes "sortlist_result res out" "\<forall>r \<in> set res. s_speed r \<noteq> 0" "i < j" "j < length out"
  shows "(0 < s_speed (out ! i) \<and> s_speed (out ! j) < 0) \<or>
    ((s_speed (out ! i) < 0) = (s_speed (out ! j) < 0) \<and> s_speed (out ! i) \<le> s_speed (out ! j))"
proof -
  have "set out = set res" using assms(1) mset_eq_setD by (auto simp: sortlist_result_def)
  then have "s_speed (out ! i) \<noteq> 0" "s_speed (out ! j) \<noteq> 0" using assms(2-4) by auto
  moreover have "search_sortlist_qsort (out ! i) (out ! j) \<le> 0"
    using assms(1,3,4) sorted_wrt_nth_less [of "\<lambda>a b. search_sortlist_qsort a b \<le> 0" out i j]
    by (simp add: sortlist_result_def)
  ultimately show ?thesis using qsort_le_iff by blast
qed

text \<open>With an entry that was never tested it is none.\<close>

lemma qsort_cycle:
  assumes "s_speed a = 5" "s_speed b = -1" "s_speed c = 0"
  shows "search_sortlist_qsort a b < 0 \<and> search_sortlist_qsort b c < 0 \<and> search_sortlist_qsort c a < 0"
  using assms by (simp add: search_sortlist_qsort_def)

subsection \<open>Contract\<close>


definition example_mirror :: search where
  "example_mirror = \<lparr>s_url = ''http://m/f'', s_start = 0, s_speed = 0, s_size = 0\<rparr>"

lemma example_timeout:
  "\<exists>z1 z. sched_step conf_default (sched_init [example_mirror]) z1 \<and> sched_step conf_default z1 z \<and>
     z_done z = 1 \<and> length (z_res z) = 1"
proof -
  let ?w1 = "example_world\<lparr>w_clock := \<lambda>_. 1\<rparr>" and ?w2 = "example_world\<lparr>w_clock := \<lambda>_. 100\<rparr>"
  have "case sched_pass conf_default ?w1 (sched_init [example_mirror]) of (ok1, z1, w1) \<Rightarrow>
      (case sched_pass conf_default ?w2 z1 of (ok2, z, w2) \<Rightarrow>
        ok1 \<and> z_done (sched_init [example_mirror]) < length (z_res (sched_init [example_mirror])) \<and>
        z_done z1 < length (z_res z1) \<and> ok2 \<and> z_done z = 1 \<and> length (z_res z) = 1)"
    by code_simp
  then obtain z1 w1 z w2 where p: "sched_pass conf_default ?w1 (sched_init [example_mirror]) = (True, z1, w1)"
      "sched_pass conf_default ?w2 z1 = (True, z, w2)" "z_done z1 < length (z_res z1)" "z_done z = 1" "length (z_res z) = 1"
      "z_done (sched_init [example_mirror]) < length (z_res (sched_init [example_mirror]))"
    by (auto split: prod.splits)
  have "sched_step conf_default (sched_init [example_mirror]) z1"
    by (rule sched_step.pass [OF p(6) _ p(1)]) simp
  moreover have "sched_step conf_default z1 z" by (rule sched_step.pass [OF p(3) _ p(2)]) simp
  ultimately show ?thesis using p(4,5) by blast
qed


text \<open>The result list is sorted by speed.  When no mirror has speed zero, any output the C library's sort may give
  for the comparison function has the measured mirrors first, the failed ones behind them, and the speeds ascending in
  each group.\<close>

lemma sortlist_by_speed:
  assumes "sortlist_result res out" "\<forall>r \<in> set res. s_speed r \<noteq> 0" "i < j" "j < length out"
  shows "(0 < s_speed (out ! i) \<and> s_speed (out ! j) < 0) \<or>
    ((s_speed (out ! i) < 0) = (s_speed (out ! j) < 0) \<and> s_speed (out ! i) \<le> s_speed (out ! j))"
  using assms by (rule sortlist_order)

lemma sortlist_by_speed_witness:
  "let m = (\<lambda>v. example_mirror\<lparr>s_speed := v\<rparr>); out = [m 2, m 7, m (-3)]
   in (0 < s_speed (out ! 1) \<and> s_speed (out ! 2) < 0) \<or>
      ((s_speed (out ! 1) < 0) = (s_speed (out ! 2) < 0) \<and> s_speed (out ! 1) \<le> s_speed (out ! 2))"
  unfolding Let_def
  by (rule sortlist_by_speed [where res = "[example_mirror\<lparr>s_speed := 7\<rparr>, example_mirror\<lparr>s_speed := -3\<rparr>, example_mirror\<lparr>s_speed := 2\<rparr>]"])
    (simp_all add: sortlist_result_def search_sortlist_qsort_def add_mset_commute)

end
