(* ===== verification/TextUi.thy ===== *)
theory TextUi
  imports Search
begin

text \<open>
  \<^verbatim>\<open>final/client/ServerSide/text.c\<close>: the command line client.  The options, the choice of
  the output file, the main loop around \<open>ServerSide_do\<close>, and the texts it shows.

  \<open>getopt_long\<close> is the C library's: the options are given as the list it delivers, a character
  and an argument each.
\<close>

subsection \<open>Options\<close>

text \<open>What the option loop writes: the configuration, the output name and its own variables.\<close>

record options =
  o_conf :: conf
  o_fn :: string
  o_search :: bool
  o_verb :: int         \<comment> \<open>\<open>j\<close>: -1, or the verbosity counted from the options\<close>
  o_head :: nat         \<comment> \<open>\<open>cur_head\<close>\<close>

definition options_init :: "conf \<Rightarrow> options" where
  "options_init k = \<lparr>o_conf = k, o_fn = '''', o_search = False, o_verb = -1, o_head = 0\<rparr>"

text \<open>
  \<open>if (!sscanf(optarg, "%i", &x))\<close>: \<open>None\<close> is a matching failure, \<open>Some None\<close> an input
  failure, which counts as true and leaves the variable alone.
\<close>

definition option_number :: "string \<Rightarrow> int option option res" where
  "option_number s =
     (case scan_num 0 None s of
        Scan_eof \<Rightarrow> Inr (Some None)
      | Scan_fail \<Rightarrow> Inr None
      | Scan_ok v r \<Rightarrow> if in_int v then Inr (Some (Some v)) else Inl Int_overflow)"

definition set_option_number :: "string \<Rightarrow> (int \<Rightarrow> conf \<Rightarrow> conf) \<Rightarrow> options \<Rightarrow> (int + options) res" where
  "set_option_number arg upd st =
     rbind (option_number arg) (\<lambda>r.
     Inr (case r of
            None \<Rightarrow> Inl 1
          | Some None \<Rightarrow> Inr st
          | Some (Some v) \<Rightarrow> Inr (st\<lparr>o_conf := upd v (o_conf st)\<rparr>)))"

text \<open>
  One option: \<open>Inl n\<close> is the exit with status \<open>n\<close>.  \<open>null_ok\<close> is whether
  \<open>/dev/null\<close> takes the place of the closed standard output.
\<close>

definition option_step :: "bool \<Rightarrow> char \<Rightarrow> string option \<Rightarrow> options \<Rightarrow> (int + options) res" where
  "option_step null_ok opt arg st =
     (let k = o_conf st; a = (case arg of None \<Rightarrow> '''' | Some s \<Rightarrow> s) in
      if opt = CHR ''U'' then rbind (strncpy_buf MAX_STRING a) (\<lambda>t. Inr (Inr (st\<lparr>o_conf := k\<lparr>k_user_agent := t\<rparr>\<rparr>)))
      else if opt = CHR ''H''
      then rbind (guard_c (o_head st < length (k_add_header k)) Out_of_bounds) (\<lambda>_.
           rbind (strncpy_buf MAX_STRING a) (\<lambda>t.
           Inr (Inr (st\<lparr>o_conf := k\<lparr>k_add_header := (k_add_header k)[o_head st := t]\<rparr>, o_head := Suc (o_head st)\<rparr>))))
      else if opt = CHR ''s'' then set_option_number a (\<lambda>v k. k\<lparr>k_max_speed := v\<rparr>) st
      else if opt = CHR ''n'' then set_option_number a (\<lambda>v k. k\<lparr>k_num_connections := v\<rparr>) st
      else if opt = CHR ''o'' then rbind (strncpy_buf MAX_STRING a) (\<lambda>t. Inr (Inr (st\<lparr>o_fn := t\<rparr>)))
      else if opt = CHR ''S''
      then (if arg = None then Inr (Inr (st\<lparr>o_search := True\<rparr>))
            else set_option_number a (\<lambda>v k. k\<lparr>k_search_top := v\<rparr>) (st\<lparr>o_search := True\<rparr>))
      else if opt = CHR ''a'' then Inr (Inr (st\<lparr>o_conf := k\<lparr>k_alternate_output := 1\<rparr>\<rparr>))
      else if opt = CHR ''N'' then Inr (Inr (st\<lparr>o_conf := k\<lparr>k_http_proxy := ''''\<rparr>\<rparr>))
      else if opt = CHR ''h'' then Inr (Inl 0)
      else if opt = CHR ''v'' then Inr (Inr (st\<lparr>o_verb := (if o_verb st = -1 then 1 else o_verb st + 1)\<rparr>))
      else if opt = CHR ''V'' then Inr (Inl 0)
      else if opt = CHR ''q''
      then (if null_ok then Inr (Inr (st\<lparr>o_conf := k\<lparr>k_verbose := -1\<rparr>\<rparr>)) else Inr (Inl 1))
      else Inr (Inl 1))"

fun option_loop :: "bool \<Rightarrow> (char \<times> string option) list \<Rightarrow> options \<Rightarrow> (int + options) res" where
  "option_loop null_ok [] st =
     Inr (Inr (st\<lparr>o_conf := (o_conf st)\<lparr>k_add_header_count := int (o_head st),
                 k_verbose := (if -1 < o_verb st then o_verb st else k_verbose (o_conf st))\<rparr>\<rparr>))"
| "option_loop null_ok ((opt, arg) # opts) st =
     rbind (option_step null_ok opt arg st) (\<lambda>r.
     case r of Inl n \<Rightarrow> Inr (Inl n) | Inr st' \<Rightarrow> option_loop null_ok opts st')"

text \<open>
  The address: from the first argument, or, for a dash, the first line of the standard input, which
  \<open>scanf\<close> writes with its terminator into \<open>MAX_STRING\<close> bytes.  An argument of exactly
  \<open>MAX_STRING\<close> characters passes the test.
\<close>

definition url_argument :: "string list \<Rightarrow> string \<Rightarrow> (int + string) res" where
  "url_argument args inp =
     (case args of
        [] \<Rightarrow> Inr (Inl 1)
      | a # _ \<Rightarrow>
          if a = ''-''
          then (let l = take 1024 (takeWhile (\<lambda>c. c \<noteq> NL) inp)
                in if l = [] then Inr (Inl 1) else rbind (strcpy_buf MAX_STRING l) (\<lambda>t. Inr (Inr t)))
          else if MAX_STRING < length a then Inr (Inl 1) else Inr (Inr a))"

subsection \<open>The output file\<close>

text \<open>
  With the option \<open>-o\<close>: the name, in the directory it names if it is one (\<open>is_dir\<close>).  A
  state file without data is removed.
\<close>

definition output_option :: "(string \<Rightarrow> bool) \<Rightarrow> string \<Rightarrow> string \<Rightarrow> world \<Rightarrow> (int + string \<times> world) res" where
  "output_option is_dir fn name w =
     (if is_dir fn \<and> MAX_STRING < length fn + 1 + length name + 1 then Inr (Inl 1)
      else let f = (if is_dir fn then fn @ ''/'' @ name else fn)
           in rbind (strcpy_buf MAX_STRING (f @ ''.st'')) (\<lambda>st.
              if file_exists f w \<and> \<not> file_exists st w then Inr (Inl 1)
              else let w1 = (if file_exists st w \<and> \<not> file_exists f w then file_unlink st w else w)
                   in rbind (strcpy_buf MAX_STRING f) (\<lambda>g. Inr (Inr (g, w1)))))"

text \<open>
  Without it: the first of the name and the name with \<open>.0\<close>, \<open>.1\<close>, ... that can be used, as
  a new file or, with a server that supports it, to resume.  \<open>None\<close>: the fuel was used up.
\<close>

definition usable :: "world \<Rightarrow> bool \<Rightarrow> string \<Rightarrow> bool" where
  "usable w supported f =
     (if file_exists f w then supported \<and> file_exists (f @ ''.st'') w else \<not> file_exists (f @ ''.st'') w)"

fun pick_name :: "nat \<Rightarrow> world \<Rightarrow> bool \<Rightarrow> string \<Rightarrow> string \<Rightarrow> nat \<Rightarrow> string option res" where
  "pick_name 0 w supported base f i = Inr None"
| "pick_name (Suc n) w supported base f i =
     rbind (strcpy_buf MAX_STRING (f @ ''.st'')) (\<lambda>_.
     if usable w supported f then Inr (Some f)
     else rbind (strcpy_buf MAX_STRING (base @ ''.'' @ int_str (int i))) (\<lambda>f'.
          pick_name n w supported base f' (Suc i)))"

subsection \<open>The main loop\<close>

text \<open>
  The loop runs while the download is not ready and no signal has come; \<open>stops n\<close> is whether
  a signal has come before step \<open>n\<close>.  A step is a round of the loop, after which the messages
  are printed and freed, or one of a set-up thread, which adds no message.
\<close>

inductive main_loop :: "(nat \<Rightarrow> bool) \<Rightarrow> nat \<Rightarrow> world \<times> downloader \<Rightarrow> world \<times> downloader \<Rightarrow> bool" for stops where
  leave: "d_ready d \<noteq> 0 \<or> stops n \<Longrightarrow> main_loop stops n (w, d) (w, d)"
| again: "d_ready d = 0 \<Longrightarrow> \<not> stops n \<Longrightarrow> download_step (w, d) (w1, d1) \<Longrightarrow>
    main_loop stops (Suc n) (w1, d1\<lparr>d_message := []\<rparr>) s \<Longrightarrow> main_loop stops n (w, d) s"

definition exit_status :: "downloader \<Rightarrow> int" where
  "exit_status d = (if d_ready d \<noteq> 0 then 0 else 2)"

subsection \<open>Texts\<close>

text \<open>The value of a \<open>float\<close>: 24 significant bits, ties to even.\<close>

fun float_shift :: "nat \<Rightarrow> nat" where
  "float_shift a = (if a < 2 ^ 24 then 0 else Suc (float_shift (a div 2)))"

declare float_shift.simps [simp del]

definition float_round :: "nat \<Rightarrow> nat" where
  "float_round a =
     (let s = float_shift a; q = a div 2 ^ s; r = a mod 2 ^ s
      in (if 2 ^ s < 2 * r \<or> (2 ^ s = 2 * r \<and> odd q) then q + 1 else q) * 2 ^ s)"

text \<open>\<open>%.1f\<close> of a value that is not negative: rounded to tenths, ties to even.\<close>

definition round_half_even :: "rat \<Rightarrow> int" where
  "round_half_even x =
     (let f = \<lfloor>x\<rfloor>; d = x - of_int f
      in if d < 1 / 2 then f else if 1 / 2 < d then f + 1 else if even f then f else f + 1)"

definition fmt1 :: "rat \<Rightarrow> string" where
  "fmt1 x = (let t = round_half_even (10 * x) in int_str (t div 10) @ ''.'' @ int_str (t mod 10))"

definition size_human :: "int \<Rightarrow> string" where
  "size_human v =
     (if v = 1 then int_str v @ '' byte''
      else if v < 1024 then int_str v @ '' bytes''
      else if v < 10485760 then fmt1 (of_nat (float_round (nat v)) / 1024) @ '' kilobytes''
      else fmt1 (of_nat (float_round (nat v)) / 1048576) @ '' megabytes'')"

definition c_mod :: "int \<Rightarrow> int \<Rightarrow> int" where
  "c_mod a b = a - b * c_div a b"

definition pad_left :: "char \<Rightarrow> nat \<Rightarrow> string \<Rightarrow> string" where
  "pad_left c n s = replicate (n - length s) c @ s"

abbreviation pad2 :: "int \<Rightarrow> string" where "pad2 x \<equiv> pad_left CHR ''0'' 2 (int_str x)"

definition time_human :: "int \<Rightarrow> string" where
  "time_human v =
     (if v = 1 then int_str v @ '' second''
      else if v < 60 then int_str v @ '' seconds''
      else if v < 3600 then int_str (c_div v 60) @ '':'' @ pad2 (c_mod v 60) @ '' seconds''
      else int_str (c_div v 3600) @ '':'' @ pad2 (c_mod (c_div v 60) 60) @ '':'' @ pad2 (c_mod v 60) @ '' seconds'')"

text \<open>\<open>print_commas\<close>: the marks of the line that is being filled.\<close>

definition print_commas :: "int \<Rightarrow> string" where
  "print_commas done =
     (let j0 = c_mod (c_div done 1024) 50; j = nat (if j0 = 0 then 50 else j0)
      in ''       '' @ concat (map (\<lambda>i. if i mod 10 = 0 then '' ,'' else '','') [0..<j]))"

text \<open>The dots of one round: one for every full kilobyte, 50 in a line; \<open>rate\<close> ends a line.\<close>

definition progress_dots :: "int \<Rightarrow> int \<Rightarrow> string \<Rightarrow> string" where
  "progress_dots prev now rate =
     (let p = c_div prev 1024
      in concat (map (\<lambda>i. let k = int i + p in
           (if c_mod k 50 = 0 then (if 1024 \<le> prev then ''  ['' @ rate @ ''KB/s]'' @ [NL] else '''')
            else if c_mod k 10 = 0 then '' '' else '''') @ ''.'')
         [0..<nat (c_div now 1024 - p)]))"

text \<open>The remaining time of the alternate output.\<close>

definition eta_text :: "int \<Rightarrow> string" where
  "eta_text seconds0 =
     (let minutes0 = c_div seconds0 60; seconds = seconds0 - minutes0 * 60;
          hours0 = c_div minutes0 60; minutes = minutes0 - hours0 * 60;
          days = c_div hours0 24; hours = hours0 - days * 24
      in if days \<noteq> 0 then '' ['' @ pad_left CHR '' '' 2 (int_str days) @ ''d'' @ pad_left CHR '' '' 2 (int_str hours) @ '']''
         else if hours \<noteq> 0 then '' ['' @ pad_left CHR '' '' 2 (int_str hours) @ ''h'' @ pad2 minutes @ '']''
         else '' ['' @ pad2 minutes @ '':'' @ pad2 seconds @ '']'')"

subsection \<open>Facts about the options\<close>

text \<open>At most ten headers are stored, and their number is what the connections read.\<close>

definition heads_ok :: "options \<Rightarrow> bool" where
  "heads_ok st = (o_head st \<le> length (k_add_header (o_conf st)) \<and> length (k_add_header (o_conf st)) = MAX_ADD_HEADERS)"

lemma set_option_number_heads:
  assumes "set_option_number a upd st = Inr (Inr st')" "heads_ok st" "\<And>v k. k_add_header (upd v k) = k_add_header k"
  shows "heads_ok st'"
proof -
  obtain r where "option_number a = Inr r" "(case r of None \<Rightarrow> Inl (1 :: int) | Some None \<Rightarrow> Inr st
      | Some (Some v) \<Rightarrow> Inr (st\<lparr>o_conf := upd v (o_conf st)\<rparr>)) = Inr st'"
    using assms(1) by (auto simp: set_option_number_def res_elims)
  then show ?thesis using assms(2,3) by (cases r rule: option.exhaust) (auto simp: heads_ok_def split: option.splits)
qed

lemma option_step_heads:
  assumes "option_step null_ok opt arg st = Inr (Inr st')" "heads_ok st"
  shows "heads_ok st'"
proof -
  have st1: "heads_ok (st\<lparr>o_search := True\<rparr>)" using assms(2) by (simp add: heads_ok_def)
  consider (num) a upd st0 where "set_option_number a upd st0 = Inr (Inr st')" "heads_ok st0"
      "\<And>v k. k_add_header (upd v k) = k_add_header k"
    | (head) t where "o_head st < length (k_add_header (o_conf st))"
      "st' = st\<lparr>o_conf := (o_conf st)\<lparr>k_add_header := (k_add_header (o_conf st))[o_head st := t]\<rparr>, o_head := Suc (o_head st)\<rparr>"
    | (other) "o_head st' = o_head st" "k_add_header (o_conf st') = k_add_header (o_conf st)"
  proof -
    have n: thesis if "opt = CHR ''s'' \<or> opt = CHR ''n'' \<or> opt = CHR ''S''"
      using that assms st1 num [of _ "\<lambda>v k. k\<lparr>k_max_speed := v\<rparr>" st] num [of _ "\<lambda>v k. k\<lparr>k_num_connections := v\<rparr>" st]
        num [of _ "\<lambda>v k. k\<lparr>k_search_top := v\<rparr>" "st\<lparr>o_search := True\<rparr>"] other
      by (auto simp: option_step_def Let_def split: if_splits)
    have h: thesis if "opt = CHR ''H''"
      using that assms(1) head by (auto simp: option_step_def Let_def res_elims split: if_splits)
    have thesis if "\<not> (opt = CHR ''s'' \<or> opt = CHR ''n'' \<or> opt = CHR ''S'')" "opt \<noteq> CHR ''H''"
      using that assms(1) by (intro other) (auto simp: option_step_def Let_def res_elims split: if_splits)
    with n h show thesis by blast
  qed
  then show ?thesis
  proof cases
    case num
    then show ?thesis by (rule set_option_number_heads)
  next
    case head
    with assms(2) show ?thesis by (simp add: heads_ok_def)
  next
    case other
    with assms(2) show ?thesis by (simp add: heads_ok_def)
  qed
qed

lemma option_loop_heads:
  "option_loop null_ok opts st = Inr (Inr st') \<Longrightarrow> heads_ok st \<Longrightarrow>
    heads_ok st' \<and> k_add_header_count (o_conf st') = int (o_head st')"
proof (induction null_ok opts st rule: option_loop.induct)
  case (1 null_ok st)
  then show ?case by (auto simp: heads_ok_def)
next
  case (2 null_ok opt arg opts st)
  then obtain r where r: "option_step null_ok opt arg st = Inr r"
      "(case r of Inl n \<Rightarrow> Inr (Inl n) | Inr st1 \<Rightarrow> option_loop null_ok opts st1) = Inr (Inr st')"
    by (auto simp: res_elims)
  then obtain st1 where "r = Inr st1" by (cases r) auto
  with r 2 option_step_heads show ?case by auto
qed

lemma add_headers_ok: "i + n \<le> length hs \<Longrightarrow> \<exists>h'. add_headers n i hs h = Inr h'"
  by (induction n arbitrary: i h) auto

lemma setup_http_defined:
  assumes "option_loop null_ok opts (options_init k) = Inr (Inr st)" "length (k_add_header k) = MAX_ADD_HEADERS"
  shows "\<exists>c'. setup_http (o_conf st) c = Inr c'"
proof -
  have "heads_ok (options_init k)" using assms(2) by (simp add: heads_ok_def options_init_def)
  from option_loop_heads [OF assms(1) this]
  have "nat (k_add_header_count (o_conf st)) \<le> length (k_add_header (o_conf st))" by (simp add: heads_ok_def)
  with add_headers_ok [of 0 "nat (k_add_header_count (o_conf st))" "k_add_header (o_conf st)"]
  obtain h' where "add_headers (nat (k_add_header_count (o_conf st))) 0 (k_add_header (o_conf st))
      (http_addheader (''User-Agent: '' @ k_user_agent (o_conf st))
        (http_get (snprintf_buf MAX_STRING (c_dir c @ c_file c))
          ((c_http c)\<lparr>h_firstbyte := c_currentbyte c, h_lastbyte := c_lastbyte c\<rparr>))) = Inr h'"
    by auto
  then show ?thesis by (simp add: setup_http_def Let_def)
qed

subsection \<open>Facts about the output file\<close>

lemma pick_name_usable:
  "pick_name n w rsm base f i = Inr (Some g) \<Longrightarrow> usable w rsm g \<and> length g + 3 < MAX_STRING"
  by (induction n arbitrary: f i) (auto simp: res_elims split: if_splits)

lemma length_nat_str_mono: "i \<le> j \<Longrightarrow> length (nat_str i) \<le> length (nat_str j)"
proof (induction j arbitrary: i rule: nat_str.induct)
  case (1 j)
  show ?case
  proof (cases "i < 10")
    case True
    then have "length (nat_str i) = 1" by (subst nat_str.simps) simp
    moreover have "1 \<le> length (nat_str j)" using nat_str_not_Nil [of j] by (cases "nat_str j") auto
    ultimately show ?thesis by simp
  next
    case False
    then have "\<not> j < 10" using "1.prems" by simp
    moreover from this have "length (nat_str (i div 10)) \<le> length (nat_str (j div 10))"
      using "1.prems" by (intro "1.IH") (auto intro: div_le_mono)
    ultimately show ?thesis using False by (simp add: nat_str.simps [of i] nat_str.simps [of j])
  qed
qed

text \<open>
  When one of the numbered names can be used, the loop ends with the first one that can, after at
  most as many steps.
\<close>

lemma pick_name_ends:
  "usable w rsm (base @ ''.'' @ nat_str m) \<Longrightarrow> length base + length (nat_str m) + 4 < MAX_STRING \<Longrightarrow>
    length f + 3 < MAX_STRING \<Longrightarrow> i \<le> m \<Longrightarrow> \<exists>g. pick_name (Suc (Suc (m - i))) w rsm base f i = Inr (Some g)"
proof (induction "m - i" arbitrary: f i)
  case 0
  then have "i = m" by simp
  with 0 show ?case by (simp add: buf_fits int_str_def)
next
  case (Suc k)
  then have k: "m - i = Suc (m - Suc i)" "k = m - Suc i" "Suc i \<le> m" by simp_all
  let ?f = "base @ ''.'' @ nat_str i"
  have len: "length ?f + 3 < MAX_STRING"
    using Suc.prems(2,4) length_nat_str_mono [of i m] by simp
  obtain g where "pick_name (Suc (Suc (m - Suc i))) w rsm base ?f (Suc i) = Inr (Some g)"
    using Suc.hyps(1) [OF k(2) Suc.prems(1,2) len k(3)] by blast
  then show ?case
    using Suc.prems(3) len by (simp add: k(1) buf_fits int_str_def del: pick_name.simps(2) add: pick_name.simps(2) [of "Suc (Suc (m - Suc i))"])
qed

subsection \<open>Facts about the texts\<close>

lemma time_human_parts:
  assumes "3600 \<le> v"
  shows "\<exists>h m s. time_human v = int_str h @ '':'' @ pad2 m @ '':'' @ pad2 s @ '' seconds'' \<and>
    v = 3600 * h + 60 * m + s \<and> 0 \<le> m \<and> m < 60 \<and> 0 \<le> s \<and> s < 60"
proof -
  have d: "c_div v 60 = v div 60" "c_div v 3600 = v div 3600" "c_mod v 60 = v mod 60"
      "c_mod (v div 60) 60 = v div 60 mod 60"
    using assms by (simp_all add: c_div_pos c_mod_def minus_mult_div_eq_mod pos_imp_zdiv_nonneg_iff)
  define h m r where hmr: "h = v div 60 div 60" "m = v div 60 mod 60" "r = v mod 60"
  have "v div 3600 = h" using zdiv_zmult2_eq [of 60 v 60] by (simp add: hmr)
  then have t: "time_human v = int_str h @ '':'' @ pad2 m @ '':'' @ pad2 r @ '' seconds''"
    using assms unfolding time_human_def d hmr by simp
  have "60 * h + m = v div 60" "60 * (v div 60) + r = v" unfolding hmr by (rule mult_div_mod_eq)+
  then have "v = 3600 * h + 60 * m + r" by linarith
  moreover have "0 \<le> m" "m < 60" "0 \<le> r" "r < 60" unfolding hmr by simp_all
  ultimately show ?thesis using t by blast
qed

lemma round_half_even_error: "\<bar>of_int (round_half_even x) - x\<bar> \<le> 1 / 2"
proof -
  have "0 \<le> x - of_int \<lfloor>x\<rfloor>" "x - of_int \<lfloor>x\<rfloor> < 1" by linarith+
  then show ?thesis by (auto simp: round_half_even_def Let_def abs_le_iff)
qed

lemma float_round_exact: "a < 2 ^ 24 \<Longrightarrow> float_round a = a"
  by (simp add: float_round_def float_shift.simps [of a])

lemma size_human_kilobytes:
  assumes "1024 \<le> v" "v < 10485760"
  shows "\<exists>t. size_human v = int_str (t div 10) @ ''.'' @ int_str (t mod 10) @ '' kilobytes'' \<and>
    \<bar>of_int t / 10 - (of_int v :: rat) / 1024\<bar> \<le> 1 / 20"
proof -
  have "float_round (nat v) = nat v" using assms by (intro float_round_exact) (simp add: nat_less_iff)
  then have f: "(of_nat (float_round (nat v)) :: rat) = of_int v" using assms by simp
  define t where "t = round_half_even (10 * (of_int v / 1024))"
  have "\<bar>of_int t - 10 * ((of_int v :: rat) / 1024)\<bar> \<le> 1 / 2" unfolding t_def by (rule round_half_even_error)
  then have "\<bar>of_int t / 10 - (of_int v :: rat) / 1024\<bar> \<le> 1 / 20" by (simp add: abs_le_iff field_simps)
  moreover have "size_human v = int_str (t div 10) @ ''.'' @ int_str (t mod 10) @ '' kilobytes''"
    using assms f by (simp add: size_human_def fmt1_def t_def Let_def)
  ultimately show ?thesis by blast
qed

definition count_char :: "char \<Rightarrow> string \<Rightarrow> nat" where
  "count_char c s = length (filter (\<lambda>x. x = c) s)"

lemma count_concat: "count_char c (concat ss) = sum_list (map (count_char c) ss)"
  by (induction ss) (simp_all add: count_char_def)

text \<open>Each round prints one dot for every kilobyte boundary it passes.\<close>

lemma progress_dots_count:
  assumes "CHR ''.'' \<notin> set rate" "0 \<le> prev" "prev \<le> now"
  shows "int (count_char CHR ''.'' (progress_dots prev now rate)) = now div 1024 - prev div 1024"
proof -
  have r: "filter (\<lambda>x. x = CHR ''.'') rate = []" using assms(1) by (auto simp: filter_empty_conv)
  have "count_char CHR ''.'' (progress_dots prev now rate) = (\<Sum>i\<leftarrow>[0..<nat (c_div now 1024 - c_div prev 1024)]. 1)"
    unfolding progress_dots_def Let_def count_concat map_map comp_def
    by (rule arg_cong [where f = sum_list]) (auto simp: count_char_def r)
  also have "\<dots> = nat (c_div now 1024 - c_div prev 1024)" by (simp add: sum_list_triv)
  finally show ?thesis using assms(2,3) by (simp add: c_div_pos zdiv_mono1)
qed

lemma print_commas_count:
  assumes "0 \<le> n"
  shows "int (count_char CHR '','' (print_commas n)) = (if n div 1024 mod 50 = 0 then 50 else n div 1024 mod 50)"
proof -
  define j where "j = nat (if n div 1024 mod 50 = 0 then 50 else n div 1024 mod 50)"
  have m: "c_mod (c_div n 1024) 50 = n div 1024 mod 50"
    using assms by (simp add: c_mod_def c_div_pos minus_mult_div_eq_mod)
  have "count_char CHR '','' (concat (map (\<lambda>i. if i mod 10 = 0 then '' ,'' else '','') [0..<j])) = (\<Sum>i\<leftarrow>[0..<j]. 1)"
    unfolding count_concat map_map comp_def
    by (rule arg_cong [where f = sum_list]) (auto simp: count_char_def)
  also have "\<dots> = j" by (simp add: sum_list_triv)
  finally have c: "count_char CHR '','' (concat (map (\<lambda>i. if i mod 10 = 0 then '' ,'' else '','') [0..<j])) = j" .
  have "count_char CHR '','' (''       '' @ s) = count_char CHR '','' s" for s by (simp add: count_char_def)
  with c have "count_char CHR '','' (print_commas n) = j"
    unfolding print_commas_def Let_def m j_def [symmetric] by simp
  then show ?thesis by (simp add: j_def)
qed

text \<open>A fatal error ends the program with the status of a success.\<close>

lemma exit_status_error: "d_ready d = -1 \<Longrightarrow> exit_status d = 0"
  by (simp add: exit_status_def)

subsection \<open>Contract\<close>



text \<open>C23: the search for an output name ends and finds a usable one.  If some numbered name \<open>base.m\<close> is usable and
  the names fit the buffer, the loop of \<open>main\<close> returns a name, and that name is usable: no file of the name exists, or
  one with saved state that the server can resume.\<close>

theorem output_name_found:
  assumes "usable w rsm (base @ ''.'' @ nat_str m)" "length base + length (nat_str m) + 4 < MAX_STRING" "length base + 3 < MAX_STRING"
  shows "\<exists>g. pick_name (Suc (Suc m)) w rsm base base 0 = Inr (Some g) \<and> usable w rsm g \<and> length g + 3 < MAX_STRING"
proof -
  obtain g where g: "pick_name (Suc (Suc (m - 0))) w rsm base base 0 = Inr (Some g)"
    using pick_name_ends [OF assms le0] by blast
  from g pick_name_usable [OF g] show ?thesis by simp
qed

theorem output_name_found_witness:
  "\<exists>g. pick_name (Suc (Suc 1)) (example_world\<lparr>w_files := \<lambda>p. if p \<in> {''a'', ''a.0''} then Some [] else None\<rparr>) True ''a'' ''a'' 0
      = Inr (Some g) \<and>
     usable (example_world\<lparr>w_files := \<lambda>p. if p \<in> {''a'', ''a.0''} then Some [] else None\<rparr>) True g \<and> length g + 3 < MAX_STRING"
  by (rule output_name_found) (simp_all add: usable_def file_exists_def print_eval)

text \<open>\<open>size_human\<close> rounds correctly in its kilobyte range.  From 1 KB to 10 MB it prints tenths of a kilobyte
  within a twentieth of the true value, although it computes in single precision.\<close>

lemma size_human_rounds:
  assumes "1024 \<le> v" "v < 10485760"
  shows "\<exists>t. size_human v = int_str (t div 10) @ ''.'' @ int_str (t mod 10) @ '' kilobytes'' \<and>
    \<bar>of_int t / 10 - (of_int v :: rat) / 1024\<bar> \<le> 1 / 20"
  using assms by (rule size_human_kilobytes)

lemma size_human_rounds_witness:
  "\<exists>t. size_human 1536 = int_str (t div 10) @ ''.'' @ int_str (t mod 10) @ '' kilobytes'' \<and>
    \<bar>of_int t / 10 - (of_int 1536 :: rat) / 1024\<bar> \<le> 1 / 20"
  by (rule size_human_rounds) simp_all

text \<open>The progress display draws one dot per kilobyte: between two counts of received bytes \<open>print_dots\<close> prints
  exactly as many dots as whole kilobytes were completed.\<close>

lemma progress_dots_exact:
  assumes "CHR ''.'' \<notin> set rate" "0 \<le> prev" "prev \<le> now"
  shows "int (count_char CHR ''.'' (progress_dots prev now rate)) = now div 1024 - prev div 1024"
  using assms by (rule progress_dots_count)

lemma progress_dots_exact_witness:
  "int (count_char CHR ''.'' (progress_dots 500 103000 ''12'')) = 103000 div 1024 - 500 div 1024"
  by (rule progress_dots_exact) simp_all

end
