(* ===== verification/TsBytes.thy ===== *)
theory TsBytes
  imports CBase "HOL-Library.Word"
begin

unbundle bit_operations_syntax

text \<open>
  Bytes and machine words of the Tsunami programs: the little endian memory layout of the host
  and the network byte order of the protocol (\<open>htons\<close>, \<open>htonl\<close> of the C library, and
  \<open>htonll\<close> of \<^verbatim>\<open>common/common.c\<close>).
\<close>

type_synonym u8 = "8 word"
type_synonym u16 = "16 word"
type_synonym u32 = "32 word"
type_synonym u64 = "64 word"

subsection \<open>Layout in memory\<close>

fun le_list :: "nat \<Rightarrow> 'a::len word \<Rightarrow> u8 list" where
  "le_list 0 w = []"
| "le_list (Suc n) w = ucast w # le_list n (drop_bit 8 w)"

fun le_word :: "u8 list \<Rightarrow> 'a::len word" where
  "le_word [] = 0"
| "le_word (b # bs) = ucast b OR push_bit 8 (le_word bs)"

definition be_list :: "nat \<Rightarrow> 'a::len word \<Rightarrow> u8 list" where
  "be_list n w = rev (le_list n w)"

definition be_word :: "u8 list \<Rightarrow> 'a::len word" where
  "be_word bs = le_word (rev bs)"

lemma le_list_length [simp]: "length (le_list n w) = n"
  by (induction n arbitrary: w) auto

lemma be_list_length [simp]: "length (be_list n w) = n"
  by (simp add: be_list_def)

lemma le_list_nth: "i < n \<Longrightarrow> le_list n w ! i = ucast (drop_bit (8 * i) w)"
proof (induction n arbitrary: w i)
  case (Suc n)
  then show ?case by (cases i) (simp_all add: ac_simps)
qed simp

lemma bit_le_word: "bit (le_word bs :: 'a::len word) k \<longleftrightarrow> k < LENGTH('a) \<and> k div 8 < length bs \<and> bit (bs ! (k div 8)) (k mod 8)"
proof (induction bs arbitrary: k)
  case (Cons b bs)
  show ?case
  proof (cases "k < 8")
    case True
    then show ?thesis
      by (auto simp: bit_simps bit_word_ucast_iff)
  next
    case False
    then have "\<not> bit b k" using bit_imp_le_length [of b k] by auto
    moreover have "(k - 8) div 8 = k div 8 - 1" "(k - 8) mod 8 = k mod 8" "0 < k div 8" using False by (auto simp: le_div_geq le_mod_geq not_less)
    ultimately show ?thesis
      using False Cons.IH [of "k - 8"] by (cases "k div 8") (auto simp: bit_simps bit_word_ucast_iff)
  qed
qed simp

lemma le_word_list:
  assumes "LENGTH('a) \<le> 8 * n"
  shows "le_word (le_list n w) = (w :: 'a::len word)"
proof (rule bit_word_eqI)
  fix k assume k: "k < LENGTH('a)"
  with assms have "k div 8 < n" by simp
  moreover have "k mod 8 < LENGTH('a)" using le_less_trans [OF mod_less_eq_dividend k] .
  ultimately show "bit (le_word (le_list n w) :: 'a word) k = bit w k"
    using k by (simp add: bit_le_word le_list_nth bit_word_ucast_iff bit_drop_bit_eq)
qed

lemma be_word_list: "LENGTH('a) \<le> 8 * n \<Longrightarrow> be_word (be_list n w) = (w :: 'a::len word)"
  by (simp add: be_word_def be_list_def le_word_list)

lemma le_list_word:
  assumes "8 * length bs = LENGTH('a)"
  shows "le_list (length bs) (le_word bs :: 'a::len word) = bs"
proof (rule nth_equalityI)
  fix i assume "i < length (le_list (length bs) (le_word bs :: 'a word))"
  then have i: "i < length bs" by simp
  show "le_list (length bs) (le_word bs :: 'a word) ! i = bs ! i"
  proof (rule bit_word_eqI)
    fix k assume k: "k < LENGTH(8)"
    then have "(8 * i + k) div 8 = i" "(8 * i + k) mod 8 = k" "8 * i + k < LENGTH('a)" using i assms by auto
    with i k show "bit (le_list (length bs) (le_word bs :: 'a word) ! i) k = bit (bs ! i) k"
      by (simp add: le_list_nth bit_word_ucast_iff bit_drop_bit_eq bit_le_word)
  qed
qed simp

subsection \<open>Network byte order\<close>

text \<open>On the little endian host \<open>htonl\<close> and \<open>htons\<close> reverse the bytes of the word.\<close>

definition htonl :: "u32 \<Rightarrow> u32" where
  "htonl w = push_bit 24 (w AND 0xFF) OR push_bit 8 (w AND 0xFF00) OR (drop_bit 8 w AND 0xFF00) OR drop_bit 24 w"

definition htons :: "u16 \<Rightarrow> u16" where
  "htons w = push_bit 8 (w AND 0xFF) OR drop_bit 8 w"

text \<open>\<open>htonll\<close> tests the byte order once, with \<open>5 != htons(5)\<close>.\<close>

definition htonll :: "u64 \<Rightarrow> u64" where
  "htonll w =
     (if 5 \<noteq> htons 5
      then push_bit 32 (ucast (htonl (ucast (w AND 0xFFFFFFFF)))) OR ucast (htonl (ucast (drop_bit 32 w)))
      else w)"

definition ntohll :: "u64 \<Rightarrow> u64" where
  "ntohll w = htonll w"

lemma bit_htonl:
  "bit (htonl w) k \<longleftrightarrow> k < 32 \<and> bit w (8 * (3 - k div 8) + k mod 8)"
proof -
  have m: "(0xFF :: u32) = mask 8" "(0xFF00 :: u32) = push_bit 8 (mask 8)" by (simp_all add: mask_numeral)
  have e: "bit (htonl w) k \<longleftrightarrow> k < 32 \<and>
      (24 \<le> k \<and> bit w (k - 24) \<or> 8 \<le> k \<and> 8 \<le> k - 8 \<and> k - 8 < 16 \<and> bit w (k - 8) \<or>
       8 \<le> k \<and> k < 16 \<and> bit w (k + 8) \<or> bit w (k + 24))"
    unfolding htonl_def m by (auto simp: bit_simps add.commute dest: bit_imp_le_length)
  consider "k < 8" | "8 \<le> k" "k < 16" | "16 \<le> k" "k < 24" | "24 \<le> k" "k < 32" | "32 \<le> k" by linarith
  then show ?thesis
  proof cases
    case 1
    then have "8 * (3 - k div 8) + k mod 8 = k + 24" by simp
    with 1 e show ?thesis by (auto simp: add.commute)
  next
    case 2
    then have "k div 8 = 1" "k mod 8 = k - 8" by (simp_all add: div_nat_eqI mod_if)
    with 2 e show ?thesis by (auto simp: add.commute dest: bit_imp_le_length)
  next
    case 3
    then have "k div 8 = 2" "k mod 8 = k - 16" by (simp_all add: div_nat_eqI mod_if)
    with 3 e show ?thesis by (auto simp: add.commute dest: bit_imp_le_length)
  next
    case 4
    then have "k div 8 = 3" "k mod 8 = k - 24" by (simp_all add: div_nat_eqI mod_if)
    with 4 e show ?thesis by (auto simp: add.commute dest: bit_imp_le_length)
  next
    case 5
    then show ?thesis by (auto dest: bit_imp_le_length)
  qed
qed

lemma htonl_memory: "le_list 4 (htonl w) = be_list 4 w"
proof (rule nth_equalityI)
  fix i assume "i < length (le_list 4 (htonl w))"
  then have i: "i < 4" by simp
  show "le_list 4 (htonl w) ! i = be_list 4 w ! i"
  proof (rule bit_word_eqI)
    fix k assume k: "k < LENGTH(8)"
    then have "(8 * i + k) div 8 = i" "(8 * i + k) mod 8 = k" "8 * i + k < 32" using i by auto
    with i k show "bit (le_list 4 (htonl w) ! i) k = bit (be_list 4 w ! i) k"
      by (simp add: be_list_def rev_nth le_list_nth bit_word_ucast_iff bit_drop_bit_eq bit_htonl)
  qed
qed simp

lemma htonl_htonl [simp]: "htonl (htonl w) = w"
proof (rule bit_word_eqI)
  fix k assume "k < LENGTH(32)"
  then have "k div 8 \<le> 3" "k < 32" by auto
  moreover from this have "8 * (3 - k div 8) + k mod 8 < 32" by auto
  ultimately show "bit (htonl (htonl w)) k = bit w k"
    by (simp add: bit_htonl)
qed

text \<open>On this host the test succeeds, and the two halves are reversed and exchanged.\<close>

lemma htons_5: "5 \<noteq> htons 5"
  by (simp add: htons_def)

lemma bit_htonll:
  "bit (htonll w) k \<longleftrightarrow> k < 64 \<and> bit w (8 * (7 - k div 8) + k mod 8)"
proof -
  have m: "(0xFFFFFFFF :: u64) = mask 32" by (simp add: mask_numeral)
  have e: "bit (htonll w) k \<longleftrightarrow> k < 64 \<and> (32 \<le> k \<and> bit (htonl (ucast (w AND mask 32))) (k - 32) \<or>
      bit (htonl (ucast (drop_bit 32 w))) k)"
    using htons_5 unfolding htonll_def m by (auto simp: bit_simps bit_word_ucast_iff dest: bit_imp_le_length)
  show ?thesis
  proof (cases "k < 32")
    case True
    then have "k div 8 \<le> 3" by simp
    then have "8 * (7 - k div 8) + k mod 8 = 32 + (8 * (3 - k div 8) + k mod 8)" "8 * (3 - k div 8) + k mod 8 < 32" by auto
    with True e show ?thesis by (auto simp: bit_htonl bit_simps bit_word_ucast_iff ac_simps)
  next
    case False
    then obtain j where j: "k = 4 * 8 + j" using le_Suc_ex [of 32 k] by auto
    have q: "k div 8 = 4 + j div 8" unfolding j by simp
    have "k mod 8 = j mod 8" using mod_mult_self3 [of 4 8 j] unfolding j .
    note q = q this
    have "8 * (3 - j div 8) + j mod 8 < 32" by auto
    with e j q show ?thesis
      by (auto simp: bit_htonl bit_simps bit_word_ucast_iff)
  qed
qed

lemma htonll_memory: "le_list 8 (htonll w) = be_list 8 w"
proof (rule nth_equalityI)
  fix i assume "i < length (le_list 8 (htonll w))"
  then have i: "i < 8" by simp
  show "le_list 8 (htonll w) ! i = be_list 8 w ! i"
  proof (rule bit_word_eqI)
    fix k assume k: "k < LENGTH(8)"
    then have "(8 * i + k) div 8 = i" "(8 * i + k) mod 8 = k" "8 * i + k < 64" using i by auto
    with i k show "bit (le_list 8 (htonll w) ! i) k = bit (be_list 8 w ! i) k"
      by (simp add: be_list_def rev_nth le_list_nth bit_word_ucast_iff bit_drop_bit_eq bit_htonll)
  qed
qed simp

end
