(* ===== verification/TsMd5.thy ===== *)
theory TsMd5
  imports TsBytes
begin

unbundle bit_operations_syntax

text \<open>
  The two implementations of MD5 in \<^verbatim>\<open>common/md5.c\<close> of tsunami-udp: the table-driven
  \<open>md5_digest\<close> for little endian machines, and the incremental one
  (\<open>md5_init\<close>, \<open>md5_append\<close>, \<open>md5_finish\<close>) with the unrolled \<open>md5_process\<close>.
  Both are compared with the padding and block structure of RFC 1321.
\<close>

subsection \<open>The compression function, with tables\<close>

definition rotate_left :: "u32 \<Rightarrow> nat \<Rightarrow> u32" where
  "rotate_left x n = push_bit n x OR drop_bit (32 - n) x"

definition md5_T :: "u32 list" where
  "md5_T =
     [0xd76aa478, 0xe8c7b756, 0x242070db, 0xc1bdceee, 0xf57c0faf, 0x4787c62a, 0xa8304613, 0xfd469501,
      0x698098d8, 0x8b44f7af, 0xffff5bb1, 0x895cd7be, 0x6b901122, 0xfd987193, 0xa679438e, 0x49b40821,
      0xf61e2562, 0xc040b340, 0x265e5a51, 0xe9b6c7aa, 0xd62f105d, 0x02441453, 0xd8a1e681, 0xe7d3fbc8,
      0x21e1cde6, 0xc33707d6, 0xf4d50d87, 0x455a14ed, 0xa9e3e905, 0xfcefa3f8, 0x676f02d9, 0x8d2a4c8a,
      0xfffa3942, 0x8771f681, 0x6d9d6122, 0xfde5380c, 0xa4beea44, 0x4bdecfa9, 0xf6bb4b60, 0xbebfbc70,
      0x289b7ec6, 0xeaa127fa, 0xd4ef3085, 0x04881d05, 0xd9d4d039, 0xe6db99e5, 0x1fa27cf8, 0xc4ac5665,
      0xf4292244, 0x432aff97, 0xab9423a7, 0xfc93a039, 0x655b59c3, 0x8f0ccc92, 0xffeff47d, 0x85845dd1,
      0x6fa87e4f, 0xfe2ce6e0, 0xa3014314, 0x4e0811a1, 0xf7537e82, 0xbd3af235, 0x2ad7d2bb, 0xeb86d391]"

definition md5_pad_bytes :: "u8 list" where
  "md5_pad_bytes = 0x80 # replicate 63 0"

definition md5_table :: "(nat \<times> nat) list" where
  "md5_table =
     [( 0, 7), ( 1,12), ( 2,17), ( 3,22), ( 4, 7), ( 5,12), ( 6,17), ( 7,22),
      ( 8, 7), ( 9,12), (10,17), (11,22), (12, 7), (13,12), (14,17), (15,22),
      ( 1, 5), ( 6, 9), (11,14), ( 0,20), ( 5, 5), (10, 9), (15,14), ( 4,20),
      ( 9, 5), (14, 9), ( 3,14), ( 8,20), (13, 5), ( 2, 9), ( 7,14), (12,20),
      ( 5, 4), ( 8,11), (11,16), (14,23), ( 1, 4), ( 4,11), ( 7,16), (10,23),
      (13, 4), ( 0,11), ( 3,16), ( 6,23), ( 9, 4), (12,11), (15,16), ( 2,23),
      ( 0, 6), ( 7,10), (14,15), ( 5,21), (12, 6), ( 3,10), (10,15), ( 1,21),
      ( 8, 6), (15,10), ( 6,15), (13,21), ( 4, 6), (11,10), ( 2,15), ( 9,21)]"

definition md5_F :: "u32 \<Rightarrow> u32 \<Rightarrow> u32 \<Rightarrow> u32" where
  "md5_F x y z = (x AND y) OR (NOT x AND z)"

definition md5_G :: "u32 \<Rightarrow> u32 \<Rightarrow> u32 \<Rightarrow> u32" where
  "md5_G x y z = (x AND z) OR (y AND NOT z)"

definition md5_H :: "u32 \<Rightarrow> u32 \<Rightarrow> u32 \<Rightarrow> u32" where
  "md5_H x y z = x XOR y XOR z"

definition md5_I :: "u32 \<Rightarrow> u32 \<Rightarrow> u32 \<Rightarrow> u32" where
  "md5_I x y z = y XOR (x OR NOT z)"

definition md5_dispatch :: "(u32 \<Rightarrow> u32 \<Rightarrow> u32 \<Rightarrow> u32) list" where
  "md5_dispatch = [md5_F, md5_G, md5_H, md5_I]"

text \<open>One step of the inner loop of \<open>md5_digest\<close>: \<open>st\<close> is the array \<open>state\<close>.\<close>

definition md5_step :: "u32 list \<Rightarrow> nat \<Rightarrow> u32 list \<Rightarrow> u32 list" where
  "md5_step X j st =
     (let func = (md5_dispatch ! (j div 16)) (st ! ((4 - j mod 4 + 1) mod 4)) (st ! ((4 - j mod 4 + 2) mod 4))
                   (st ! ((4 - j mod 4 + 3) mod 4));
          sum = st ! ((4 - j mod 4) mod 4) + func + X ! fst (md5_table ! j) + md5_T ! j
      in st[(4 - j mod 4) mod 4 := st ! ((4 - j mod 4 + 1) mod 4) + rotate_left sum (snd (md5_table ! j))])"

definition md5_block :: "u32 list \<Rightarrow> u32 list \<Rightarrow> u32 list" where
  "md5_block X st = map2 (+) (fold (md5_step X) [0..<64] st) st"

definition md5_start :: "u32 list" where
  "md5_start = [0x67452301, 0xefcdab89, 0x98badcfe, 0x10325476]"

text \<open>Sixteen words over 64 bytes, as a little endian machine sees them.\<close>

fun le_words :: "u8 list \<Rightarrow> u32 list" where
  "le_words (a # b # c # d # r) = le_word [a, b, c, d] # le_words r"
| "le_words r = []"

text \<open>The contents of \<open>X\<close> for block \<open>i\<close>: the three branches of the loop.\<close>

definition md5_fill :: "u8 list \<Rightarrow> nat \<Rightarrow> nat \<Rightarrow> u32 list" where
  "md5_fill buffer blocks i =
     (let size = length buffer; part = take (size mod 64) (drop (64 * i) buffer) @ take (64 - size mod 64) md5_pad_bytes
      in if i + 1 < blocks then le_words (take 64 (drop (64 * i) buffer))
         else if i + 1 = blocks
         then (if 64 * (i + 1) > size then le_words part else le_words (take 64 (drop (64 * i) buffer)))
         else (le_words (if 64 * i > size then replicate 64 0 else part))[14 := of_nat (size * 8), 15 := 0])"

definition md5_digest :: "u8 list \<Rightarrow> u8 list" where
  "md5_digest buffer =
     (let size = length buffer; blocks = (if size mod 64 > 56 then size div 64 + 1 else size div 64)
      in concat (map (le_list 4)
           (fold (\<lambda>i. md5_block (md5_fill buffer blocks i)) [0..<blocks + 1] md5_start)))"

subsection \<open>The compression function, unrolled\<close>

definition T_MASK :: u32 where
  "T_MASK = NOT 0"

definition aladdin_T :: "u32 list" where
  "aladdin_T =
     [T_MASK XOR 0x28955b87, T_MASK XOR 0x173848a9, 0x242070db, T_MASK XOR 0x3e423111,
      T_MASK XOR 0x0a83f050, 0x4787c62a, T_MASK XOR 0x57cfb9ec, T_MASK XOR 0x02b96afe,
      0x698098d8, T_MASK XOR 0x74bb0850, T_MASK XOR 0x0000a44e, T_MASK XOR 0x76a32841,
      0x6b901122, T_MASK XOR 0x02678e6c, T_MASK XOR 0x5986bc71, 0x49b40821,
      T_MASK XOR 0x09e1da9d, T_MASK XOR 0x3fbf4cbf, 0x265e5a51, T_MASK XOR 0x16493855,
      T_MASK XOR 0x29d0efa2, 0x02441453, T_MASK XOR 0x275e197e, T_MASK XOR 0x182c0437,
      0x21e1cde6, T_MASK XOR 0x3cc8f829, T_MASK XOR 0x0b2af278, 0x455a14ed,
      T_MASK XOR 0x561c16fa, T_MASK XOR 0x03105c07, 0x676f02d9, T_MASK XOR 0x72d5b375,
      T_MASK XOR 0x0005c6bd, T_MASK XOR 0x788e097e, 0x6d9d6122, T_MASK XOR 0x021ac7f3,
      T_MASK XOR 0x5b4115bb, 0x4bdecfa9, T_MASK XOR 0x0944b49f, T_MASK XOR 0x4140438f,
      0x289b7ec6, T_MASK XOR 0x155ed805, T_MASK XOR 0x2b10cf7a, 0x04881d05,
      T_MASK XOR 0x262b2fc6, T_MASK XOR 0x1924661a, 0x1fa27cf8, T_MASK XOR 0x3b53a99a,
      T_MASK XOR 0x0bd6ddbb, 0x432aff97, T_MASK XOR 0x546bdc58, T_MASK XOR 0x036c5fc6,
      0x655b59c3, T_MASK XOR 0x70f3336d, T_MASK XOR 0x00100b82, T_MASK XOR 0x7a7ba22e,
      0x6fa87e4f, T_MASK XOR 0x01d3191f, T_MASK XOR 0x5cfebceb, 0x4e0811a1,
      T_MASK XOR 0x08ac817d, T_MASK XOR 0x42c50dca, 0x2ad7d2bb, T_MASK XOR 0x14792c6e]"

text \<open>
  The 64 uses of the macro \<open>SET(a, b, c, d, k, s, Ti)\<close>, in order: the function of the round, the four
  registers (0 to 3 for \<open>a\<close> to \<open>d\<close>), \<open>k\<close> and \<open>s\<close>.
\<close>

type_synonym md5_set = "(u32 \<Rightarrow> u32 \<Rightarrow> u32 \<Rightarrow> u32) \<times> nat \<times> nat \<times> nat \<times> nat \<times> nat \<times> nat"

definition md5_sets :: "md5_set list" where
  "md5_sets =
     [(md5_F, 0, 1, 2, 3, 0, 7), (md5_F, 3, 0, 1, 2, 1, 12), (md5_F, 2, 3, 0, 1, 2, 17), (md5_F, 1, 2, 3, 0, 3, 22),
      (md5_F, 0, 1, 2, 3, 4, 7), (md5_F, 3, 0, 1, 2, 5, 12), (md5_F, 2, 3, 0, 1, 6, 17), (md5_F, 1, 2, 3, 0, 7, 22),
      (md5_F, 0, 1, 2, 3, 8, 7), (md5_F, 3, 0, 1, 2, 9, 12), (md5_F, 2, 3, 0, 1, 10, 17), (md5_F, 1, 2, 3, 0, 11, 22),
      (md5_F, 0, 1, 2, 3, 12, 7), (md5_F, 3, 0, 1, 2, 13, 12), (md5_F, 2, 3, 0, 1, 14, 17), (md5_F, 1, 2, 3, 0, 15, 22),
      (md5_G, 0, 1, 2, 3, 1, 5), (md5_G, 3, 0, 1, 2, 6, 9), (md5_G, 2, 3, 0, 1, 11, 14), (md5_G, 1, 2, 3, 0, 0, 20),
      (md5_G, 0, 1, 2, 3, 5, 5), (md5_G, 3, 0, 1, 2, 10, 9), (md5_G, 2, 3, 0, 1, 15, 14), (md5_G, 1, 2, 3, 0, 4, 20),
      (md5_G, 0, 1, 2, 3, 9, 5), (md5_G, 3, 0, 1, 2, 14, 9), (md5_G, 2, 3, 0, 1, 3, 14), (md5_G, 1, 2, 3, 0, 8, 20),
      (md5_G, 0, 1, 2, 3, 13, 5), (md5_G, 3, 0, 1, 2, 2, 9), (md5_G, 2, 3, 0, 1, 7, 14), (md5_G, 1, 2, 3, 0, 12, 20),
      (md5_H, 0, 1, 2, 3, 5, 4), (md5_H, 3, 0, 1, 2, 8, 11), (md5_H, 2, 3, 0, 1, 11, 16), (md5_H, 1, 2, 3, 0, 14, 23),
      (md5_H, 0, 1, 2, 3, 1, 4), (md5_H, 3, 0, 1, 2, 4, 11), (md5_H, 2, 3, 0, 1, 7, 16), (md5_H, 1, 2, 3, 0, 10, 23),
      (md5_H, 0, 1, 2, 3, 13, 4), (md5_H, 3, 0, 1, 2, 0, 11), (md5_H, 2, 3, 0, 1, 3, 16), (md5_H, 1, 2, 3, 0, 6, 23),
      (md5_H, 0, 1, 2, 3, 9, 4), (md5_H, 3, 0, 1, 2, 12, 11), (md5_H, 2, 3, 0, 1, 15, 16), (md5_H, 1, 2, 3, 0, 2, 23),
      (md5_I, 0, 1, 2, 3, 0, 6), (md5_I, 3, 0, 1, 2, 7, 10), (md5_I, 2, 3, 0, 1, 14, 15), (md5_I, 1, 2, 3, 0, 5, 21),
      (md5_I, 0, 1, 2, 3, 12, 6), (md5_I, 3, 0, 1, 2, 3, 10), (md5_I, 2, 3, 0, 1, 10, 15), (md5_I, 1, 2, 3, 0, 1, 21),
      (md5_I, 0, 1, 2, 3, 8, 6), (md5_I, 3, 0, 1, 2, 15, 10), (md5_I, 2, 3, 0, 1, 6, 15), (md5_I, 1, 2, 3, 0, 13, 21),
      (md5_I, 0, 1, 2, 3, 4, 6), (md5_I, 3, 0, 1, 2, 11, 10), (md5_I, 2, 3, 0, 1, 2, 15), (md5_I, 1, 2, 3, 0, 9, 21)]"

definition md5_set_step :: "u32 list \<Rightarrow> md5_set \<times> u32 \<Rightarrow> u32 list \<Rightarrow> u32 list" where
  "md5_set_step X op r =
     (case op of ((f, a, b, c, d, k, s), Ti) \<Rightarrow>
        let t = r ! a + f (r ! b) (r ! c) (r ! d) + X ! k + Ti in r[a := rotate_left t s + r ! b])"

definition md5_process :: "u32 list \<Rightarrow> u8 list \<Rightarrow> u32 list" where
  "md5_process abcd data = map2 (+) abcd (fold (md5_set_step (le_words data)) (zip md5_sets aladdin_T) abcd)"

subsection \<open>The incremental interface\<close>

record md5_state =
  md5_count0 :: u32
  md5_count1 :: u32
  md5_abcd :: "u32 list"
  md5_buf :: "u8 list"

text \<open>\<open>buf\<close> is an uninitialised array of 64 bytes.\<close>

definition md5_init :: "u8 list \<Rightarrow> md5_state" where
  "md5_init garbage = \<lparr>md5_count0 = 0, md5_count1 = 0,
     md5_abcd = [0x67452301, T_MASK XOR 0x10325476, T_MASK XOR 0x67452301, 0x10325476], md5_buf = garbage\<rparr>"

definition put_bytes :: "nat \<Rightarrow> u8 list \<Rightarrow> u8 list \<Rightarrow> u8 list" where
  "put_bytes off bs buf = take off buf @ bs @ drop (off + length bs) buf"

text \<open>The loop over the full blocks, and the copy of the rest.\<close>

function md5_blocks :: "u8 list \<Rightarrow> md5_state \<Rightarrow> md5_state" where
  "md5_blocks p s =
     (if 64 \<le> length p then md5_blocks (drop 64 p) (s\<lparr>md5_abcd := md5_process (md5_abcd s) (take 64 p)\<rparr>)
      else if p \<noteq> [] then s\<lparr>md5_buf := put_bytes 0 p (md5_buf s)\<rparr> else s)"
  by pat_completeness auto
termination by (relation "measure (\<lambda>(p, s). length p)") auto

declare md5_blocks.simps [simp del]

definition md5_append :: "md5_state \<Rightarrow> u8 list \<Rightarrow> md5_state" where
  "md5_append s data =
     (let nbytes = length data; offset = unat (drop_bit 3 (md5_count0 s)) mod 64; nbits = of_nat (8 * nbytes) :: u32 in
      if nbytes = 0 then s
      else
        let c0 = md5_count0 s + nbits;
            c1 = md5_count1 s + of_nat (nbytes div 2 ^ 29) + (if c0 < nbits then 1 else 0);
            s1 = s\<lparr>md5_count0 := c0, md5_count1 := c1\<rparr>
        in if offset = 0 then md5_blocks data s1
           else
             let copy = (if offset + nbytes > 64 then 64 - offset else nbytes);
                 s2 = s1\<lparr>md5_buf := put_bytes offset (take copy data) (md5_buf s1)\<rparr>
             in if offset + copy < 64 then s2
                else md5_blocks (drop copy data) (s2\<lparr>md5_abcd := md5_process (md5_abcd s2) (md5_buf s2)\<rparr>))"

definition md5_finish :: "md5_state \<Rightarrow> u8 list" where
  "md5_finish s =
     (let data = le_list 4 (md5_count0 s) @ le_list 4 (md5_count1 s);
          s1 = md5_append s (take (Suc (unat ((55 - drop_bit 3 (md5_count0 s)) AND 63))) md5_pad_bytes);
          s2 = md5_append s1 data
      in concat (map (le_list 4) (md5_abcd s2)))"

text \<open>The version of \<open>md5_digest\<close> for big endian machines.\<close>

definition md5_digest_aladdin :: "u8 list \<Rightarrow> u8 list \<Rightarrow> u8 list" where
  "md5_digest_aladdin garbage buffer = md5_finish (md5_append (md5_init garbage) buffer)"

subsection \<open>The two compression functions agree\<close>

definition md5_op :: "nat \<Rightarrow> md5_set" where
  "md5_op j = (md5_dispatch ! (j div 16), (4 - j mod 4) mod 4, (4 - j mod 4 + 1) mod 4, (4 - j mod 4 + 2) mod 4,
     (4 - j mod 4 + 3) mod 4, fst (md5_table ! j), snd (md5_table ! j))"

lemma aladdin_T: "aladdin_T = md5_T"
  by (simp add: aladdin_T_def md5_T_def T_MASK_def)

lemma md5_sets: "md5_sets = map md5_op [0..<64]"
  by (simp add: md5_sets_def md5_op_def md5_dispatch_def md5_table_def upt_conv_Cons)

lemma zip_map_nth: "length xs = n \<Longrightarrow> zip (map f [0..<n]) xs = map (\<lambda>j. (f j, xs ! j)) [0..<n]"
  by (simp add: list_eq_iff_nth_eq)

lemma md5_set_step_op: "md5_set_step X (md5_op j, md5_T ! j) = md5_step X j"
  by (rule ext) (simp add: md5_set_step_def md5_op_def md5_step_def Let_def case_prod_beta
      add.commute [of "rotate_left a b" for a b])

lemma md5_process_block: "md5_process abcd data = md5_block (le_words data) abcd"
proof -
  have "zip md5_sets aladdin_T = map (\<lambda>j. (md5_op j, md5_T ! j)) [0..<64]"
    unfolding md5_sets aladdin_T by (rule zip_map_nth) (simp add: md5_T_def)
  then have "fold (md5_set_step (le_words data)) (zip md5_sets aladdin_T) abcd = fold (md5_step (le_words data)) [0..<64] abcd"
    by (simp add: fold_map comp_def md5_set_step_op)
  then show ?thesis
    by (simp add: md5_process_def md5_block_def list_eq_iff_nth_eq add.commute)
qed

subsection \<open>RFC 1321\<close>

text \<open>The message is padded to a multiple of 64 bytes with its length in bits at the end, and compressed block by block.\<close>

definition md5_pad :: "u8 list \<Rightarrow> u8 list" where
  "md5_pad m = m @ 0x80 # replicate ((119 - length m mod 64) mod 64) 0 @ le_list 8 (of_nat (8 * length m) :: u64)"

function md5_run :: "u32 list \<Rightarrow> u8 list \<Rightarrow> u32 list" where
  "md5_run st m = (if 64 \<le> length m then md5_run (md5_block (le_words (take 64 m)) st) (drop 64 m) else st)"
  by pat_completeness auto
termination by (relation "measure (\<lambda>(st, m). length m)") auto

declare md5_run.simps [simp del]

definition md5_rfc :: "u8 list \<Rightarrow> u8 list" where
  "md5_rfc m = concat (map (le_list 4) (md5_run md5_start (md5_pad m)))"

definition tail64 :: "u8 list \<Rightarrow> u8 list" where
  "tail64 m = drop (64 * (length m div 64)) m"

lemma tail64_length [simp]: "length (tail64 m) = length m mod 64"
  by (simp add: tail64_def minus_mult_div_eq_mod)

lemma tail64_drop: "64 \<le> length m \<Longrightarrow> tail64 (drop 64 m) = tail64 m"
  by (simp add: tail64_def le_div_geq add.commute)

lemma tail64_short: "length m < 64 \<Longrightarrow> tail64 m = m"
  by (simp add: tail64_def)

lemma md5_run_short: "length m < 64 \<Longrightarrow> md5_run st m = st"
  by (simp add: md5_run.simps)

lemma md5_run_block: "length b = 64 \<Longrightarrow> md5_run st (b @ p) = md5_run (md5_block (le_words b) st) p"
  by (simp add: md5_run.simps [of st])

lemma md5_run_split: "md5_run st (m @ d) = md5_run (md5_run st m) (tail64 m @ d)"
proof (induction st m rule: md5_run.induct)
  case (1 st m)
  show ?case
  proof (cases "64 \<le> length m")
    case True
    with 1 show ?thesis by (simp add: md5_run.simps [of st] tail64_drop)
  next
    case False
    then show ?thesis by (simp add: md5_run_short tail64_short)
  qed
qed

lemma tail64_append: "tail64 (m @ d) = tail64 (tail64 m @ d)"
proof -
  let ?q = "length m div 64"
  have "(64 * ?q + (length m mod 64 + length d)) div 64 = ?q + (length m mod 64 + length d) div 64"
    by (rule div_mult_self4) simp
  then have "(length m + length d) div 64 = ?q + (length m mod 64 + length d) div 64"
    unfolding add.assoc [symmetric] mult_div_mod_eq .
  then have e: "64 * ((length m + length d) div 64) = 64 * ((length m mod 64 + length d) div 64) + 64 * ?q" by simp
  show ?thesis
    unfolding tail64_def [of "m @ d"] tail64_def [of "tail64 m @ d"] length_append tail64_length e
    unfolding drop_drop [symmetric] by (simp add: tail64_def)
qed

lemma md5_run_index:
  "md5_run st m = fold (\<lambda>i. md5_block (le_words (take 64 (drop (64 * i) m)))) [0..<length m div 64] st"
proof (induction st m rule: md5_run.induct)
  case (1 st m)
  show ?case
  proof (cases "64 \<le> length m")
    case True
    then have "length m div 64 = Suc (length (drop 64 m) div 64)" by (simp add: le_div_geq)
    then have "fold (\<lambda>i. md5_block (le_words (take 64 (drop (64 * i) m)))) [0..<length m div 64] st =
        fold (\<lambda>i. md5_block (le_words (take 64 (drop (64 * i) (drop 64 m))))) [0..<length (drop 64 m) div 64]
          (md5_block (le_words (take 64 m)) st)"
      by (simp only: upt_conv_Cons [OF zero_less_Suc] map_Suc_upt [symmetric] fold_simps fold_map)
        (simp add: comp_def add.commute)
    with 1 True show ?thesis by (simp add: md5_run.simps [of st])
  qed (simp add: md5_run_short)
qed

subsection \<open>The incremental interface computes the digest\<close>

lemma put_bytes_length [simp]: "off + length bs \<le> length buf \<Longrightarrow> length (put_bytes off bs buf) = length buf"
  by (simp add: put_bytes_def)

lemma put_bytes_take: "off + length bs \<le> length buf \<Longrightarrow> take (off + length bs) (put_bytes off bs buf) = take off buf @ bs"
  by (simp add: put_bytes_def)

lemma md5_blocks_run:
  "length (md5_buf s) = 64 \<Longrightarrow>
   (\<exists>b. md5_blocks p s = s\<lparr>md5_abcd := md5_run (md5_abcd s) p, md5_buf := b\<rparr> \<and> length b = 64 \<and>
        take (length p mod 64) b = tail64 p)"
proof (induction p s rule: md5_blocks.induct)
  case (1 p s)
  show ?case
  proof (cases "64 \<le> length p")
    case True
    then obtain b where b: "md5_blocks (drop 64 p) (s\<lparr>md5_abcd := md5_process (md5_abcd s) (take 64 p)\<rparr>) =
        s\<lparr>md5_abcd := md5_run (md5_process (md5_abcd s) (take 64 p)) (drop 64 p), md5_buf := b\<rparr>" "length b = 64"
        "take (length (drop 64 p) mod 64) b = tail64 (drop 64 p)"
      using 1 by fastforce
    have "length (drop 64 p) mod 64 = length p mod 64" using True by (simp add: le_mod_geq)
    with b True show ?thesis
      by (intro exI [of _ b]) (simp add: md5_blocks.simps [of p] md5_run.simps [of _ p] md5_process_block tail64_drop)
  next
    case False
    show ?thesis
    proof (cases "p = []")
      case True
      then show ?thesis using 1 by (intro exI [of _ "md5_buf s"]) (simp add: md5_blocks.simps md5_run_short tail64_short)
    next
      case ne: False
      then show ?thesis using 1 False put_bytes_take [of 0 p "md5_buf s"]
        by (intro exI [of _ "put_bytes 0 p (md5_buf s)"]) (simp add: md5_blocks.simps md5_run_short tail64_short)
    qed
  qed
qed

text \<open>A state represents the message whose pieces were appended.\<close>

definition md5_repr :: "md5_state \<Rightarrow> u8 list \<Rightarrow> bool" where
  "md5_repr s m =
     (md5_count0 s = of_nat (8 * length m) \<and> md5_count1 s = of_nat (8 * length m div 2 ^ 32) \<and>
      md5_abcd s = md5_run md5_start m \<and> length (md5_buf s) = 64 \<and> take (length m mod 64) (md5_buf s) = tail64 m)"

lemma md5_init_repr: "length g = 64 \<Longrightarrow> md5_repr (md5_init g) []"
  by (simp add: md5_repr_def md5_init_def T_MASK_def md5_start_def md5_run_short tail64_def)

lemma unat_of_nat_u32: "unat (of_nat k :: u32) = k mod 2 ^ 32"
  by (simp add: unsigned_of_nat take_bit_eq_mod)

lemma unat_drop_bit_u32: "unat (drop_bit 3 (w :: u32)) = unat w div 8"
  by (simp add: drop_bit_eq_div unat_div)

lemma md5_offset: "unat (drop_bit 3 (of_nat (8 * n) :: u32)) mod 64 = n mod 64"
proof -
  have "8 * n mod 2 ^ 32 = 8 * (n mod 2 ^ 29)" using mult_mod_right [of 8 n "2 ^ 29"] by simp
  then have "unat (drop_bit 3 (of_nat (8 * n) :: u32)) = n mod 2 ^ 29"
    unfolding unat_drop_bit_u32 unat_of_nat_u32 by simp
  moreover have "n mod 2 ^ 29 mod 64 = n mod 64" by (simp add: mod_mod_cancel)
  ultimately show ?thesis by (simp del: of_nat_mult)
qed

lemma add_div_carry: "(a + n) div b = a div b + (a mod b + n) div b" for a b n :: nat
proof (cases "b = 0")
  case False
  have "(b * (a div b) + (a mod b + n)) div b = a div b + (a mod b + n) div b"
    by (rule div_mult_self4) (fact False)
  then show ?thesis unfolding add.assoc [symmetric] mult_div_mod_eq .
qed simp

lemma md5_carry:
  fixes a n :: nat
  assumes "n < 2 ^ 32"
  shows "(of_nat (a div 2 ^ 32) :: u32) + (if (of_nat a + of_nat n :: u32) < of_nat n then 1 else 0)
    = of_nat ((a + n) div 2 ^ 32)"
proof -
  define b :: nat where "b = 2 ^ 32"
  define r where "r = a mod b"
  have b: "0 < b" by (simp add: b_def)
  then have r: "r < b" by (simp add: r_def)
  have n: "n < b" using assms by (simp add: b_def)
  have "(of_nat a + of_nat n :: u32) = of_nat (a + n)" by simp
  then have u: "unat (of_nat a + of_nat n :: u32) = (r + n) mod b" "unat (of_nat n :: u32) = n"
    using n by (simp_all only: unat_of_nat_u32 b_def [symmetric] r_def mod_add_left_eq mod_less)
  have lt: "(of_nat a + of_nat n :: u32) < of_nat n \<longleftrightarrow> b \<le> r + n"
  proof (cases "b \<le> r + n")
    case True
    then have "(r + n) mod b = r + n - b" using r n by (simp add: mod_if)
    then show ?thesis using True r u unfolding word_less_nat_alt by linarith
  next
    case False
    then show ?thesis using u unfolding word_less_nat_alt by simp
  qed
  have "(r + n) div b = (if b \<le> r + n then 1 else 0)"
    using r n by (auto simp: div_nat_eqI)
  then have "(a + n) div b = a div b + (if b \<le> r + n then 1 else 0)"
    unfolding add_div_carry [of a n b] r_def by simp
  then show ?thesis using lt by (simp add: b_def)
qed

lemma md5_append_repr:
  assumes "md5_repr s m" "length d < 2 ^ 29"
  shows "md5_repr (md5_append s d) (m @ d)"
proof (cases "d = []")
  case True
  then show ?thesis using assms(1) by (simp add: md5_append_def)
next
  case False
  define off where "off = length m mod 64"
  have offs: "unat (drop_bit 3 (md5_count0 s)) mod 64 = off"
    using assms(1) md5_offset by (simp add: md5_repr_def off_def)
  let ?n = "length d" and ?c0 = "md5_count0 s + of_nat (8 * length d)"
  let ?c1 = "md5_count1 s + of_nat (length d div 2 ^ 29) + (if ?c0 < of_nat (8 * length d) then 1 else 0)"
  define s1 where "s1 = s\<lparr>md5_count0 := ?c0, md5_count1 := ?c1\<rparr>"
  have o: "off < 64" "length (md5_buf s) = 64" "take off (md5_buf s) = tail64 m" "length (tail64 m) = off"
    using assms(1) by (simp_all add: md5_repr_def off_def)
  have cnt: "?c0 = of_nat (8 * length (m @ d))" "?c1 = of_nat (8 * length (m @ d) div 2 ^ 32)"
    using assms md5_carry [of "8 * ?n" "8 * length m"] by (simp_all add: md5_repr_def distrib_left)
  have run: "md5_run md5_start (m @ d) = md5_run (md5_abcd s) (tail64 m @ d)"
    using assms(1) md5_run_split by (simp add: md5_repr_def)
  have tl: "tail64 (m @ d) = tail64 (tail64 m @ d)" "length (m @ d) mod 64 = (off + ?n) mod 64"
    using tail64_append by (simp_all add: off_def mod_add_left_eq)
  have repr: "md5_repr t (m @ d)"
    if "t = s1\<lparr>md5_abcd := md5_run (md5_abcd s) (tail64 m @ d), md5_buf := b\<rparr>" "length b = 64"
      "take ((off + ?n) mod 64) b = tail64 (tail64 m @ d)" for t b
    using that cnt run tl by (simp add: md5_repr_def s1_def)
  consider "off = 0" | "off \<noteq> 0" "off + ?n < 64" | "off \<noteq> 0" "64 \<le> off + ?n" by linarith
  then show ?thesis
  proof cases
    case 1
    then have "md5_append s d = md5_blocks d s1"
      using offs False by (simp add: md5_append_def s1_def Let_def)
    moreover have "tail64 m = []" using 1 o by simp
    moreover obtain b where "md5_blocks d s1 = s1\<lparr>md5_abcd := md5_run (md5_abcd s1) d, md5_buf := b\<rparr>" "length b = 64"
        "take (?n mod 64) b = tail64 d"
      using md5_blocks_run [of s1 d] o(2) by (auto simp: s1_def)
    ultimately show ?thesis using 1 by (intro repr) (auto simp: s1_def)
  next
    case 2
    define b where "b = put_bytes off d (md5_buf s)"
    have "md5_append s d = s1\<lparr>md5_buf := b\<rparr>"
      using offs False 2 by (simp add: md5_append_def s1_def b_def Let_def)
    moreover have "length (tail64 m @ d) < 64" using 2 o by simp
    moreover have "take (off + ?n) b = tail64 m @ d" using 2 o put_bytes_take [of off d "md5_buf s"] by (simp add: b_def)
    moreover have "length b = 64" using 2 o by (simp add: b_def)
    ultimately show ?thesis using 2 by (intro repr) (auto simp: s1_def md5_run_short tail64_short)
  next
    case 3
    define c where "c = 64 - off"
    define b where "b = put_bytes off (take c d) (md5_buf s)"
    have c: "off + c = 64" "c \<le> ?n" using 3 o by (simp_all add: c_def)
    have b: "b = tail64 m @ take c d"
      using put_bytes_take [of off "take c d" "md5_buf s"] c o by (simp add: b_def)
    then have lb: "length b = 64" using c o by simp
    have cc: "(if off + ?n > 64 then 64 - off else ?n) = c" using 3 by (auto simp: c_def)
    define s2 where "s2 = s1\<lparr>md5_buf := b, md5_abcd := md5_process (md5_abcd s) b\<rparr>"
    have a: "md5_append s d = md5_blocks (drop c d) s2"
      using offs False 3 c unfolding md5_append_def Let_def offs cc by (simp add: s1_def s2_def b_def)
    obtain b' where b': "md5_blocks (drop c d) s2 = s2\<lparr>md5_abcd := md5_run (md5_abcd s2) (drop c d), md5_buf := b'\<rparr>"
        "length b' = 64" "take (length (drop c d) mod 64) b' = tail64 (drop c d)"
      using md5_blocks_run [of s2 "drop c d"] lb by (auto simp: s2_def)
    have split: "tail64 m @ d = b @ drop c d" by (simp add: b)
    have "md5_run (md5_abcd s) (tail64 m @ d) = md5_run (md5_abcd s2) (drop c d)"
      unfolding split md5_run_block [OF lb] by (simp add: s2_def md5_process_block)
    moreover have "tail64 (tail64 m @ d) = tail64 (drop c d)" unfolding split using tail64_drop [of "b @ drop c d"] lb by simp
    moreover have "(off + ?n) mod 64 = length (drop c d) mod 64"
    proof -
      have "off + ?n = 64 + length (drop c d)" using c by simp
      then show ?thesis by simp
    qed
    ultimately show ?thesis using a b' by (intro repr [of _ b']) (simp_all add: s2_def)
  qed
qed

lemma md5_pad_count:
  "unat ((55 - drop_bit 3 (of_nat (8 * n) :: u32)) AND 63) = (119 - n mod 64) mod 64"
proof -
  define w where "w = drop_bit 3 (of_nat (8 * n) :: u32)"
  have w: "unat w mod 64 = n mod 64" unfolding w_def by (rule md5_offset)
  have "unat ((55 - w) AND 63) = unat (55 - w) mod 64"
    using take_bit_eq_mod [of 6 "unat (55 - w)"] by (simp add: take_bit_eq_mask mask_numeral unsigned_and_eq)
  also have "unat (55 - w) = (55 + 2 ^ 32 - unat w) mod 2 ^ 32"
  proof (cases "w \<le> 55")
    case True
    then have "unat w \<le> 55" "unat (55 - w) = 55 - unat w" using unat_sub [OF True] by (simp_all add: word_le_nat_alt)
    moreover from this have "55 + 2 ^ 32 - unat w = 55 - unat w + 2 ^ 32" by simp
    moreover have "55 - unat w < 2 ^ 32" by simp
    ultimately show ?thesis by (simp only: mod_add_self2 mod_less)
  next
    case False
    then show ?thesis using unat_sub_if_size [of 55 w] unsigned_less [of w]
      by (simp add: word_le_nat_alt word_size)
  qed
  also have "(55 + 2 ^ 32 - unat w) mod 2 ^ 32 mod 64 = (55 + 2 ^ 32 - unat w) mod 64" by (simp add: mod_mod_cancel)
  also have "\<dots> = (119 - n mod 64) mod 64"
  proof -
    have "unat w < 2 ^ 32" using unsigned_less [of w] by simp
    moreover have "n mod 64 < 64" by simp
    moreover define v where "v = unat w"
    ultimately have v: "v < 2 ^ 32" "v mod 64 = n mod 64" "n mod 64 < 64" using w by simp_all
    then have q: "v = 64 * (v div 64) + n mod 64" using mult_div_mod_eq [of 64 v] by simp
    have "v div 64 < 2 ^ 26" using v(1) by (intro less_mult_imp_div_less) simp
    then obtain d where d: "67108863 = v div 64 + d" using le_Suc_ex [of "v div 64" 67108863] by auto
    have "55 + 2 ^ 32 = 119 + 64 * (67108863 :: nat)" by simp
    then have "55 + 2 ^ 32 - v = 119 + 64 * (v div 64 + d) - (64 * (v div 64) + n mod 64)"
      using q unfolding d [symmetric] by simp
    also have "\<dots> = (119 - n mod 64) + d * 64" using v(3) by simp
    finally show ?thesis unfolding v_def [symmetric] by (simp only: mod_mult_self1)
  qed
  finally show ?thesis unfolding w_def .
qed

lemma bit_word_of_nat: "bit (of_nat k :: 'a::len word) j \<longleftrightarrow> j < LENGTH('a) \<and> bit k j"
  by transfer (simp add: bit_take_bit_iff bit_of_nat_iff)

lemma bit_div_32: "bit (k div 4294967296 :: nat) j = bit k (32 + j)"
  using bit_drop_bit_eq [of 32 k] by (simp add: drop_bit_eq_div)

lemma le_list_halves:
  "le_list 4 (of_nat k :: u32) @ le_list 4 (of_nat (k div 2 ^ 32) :: u32) = le_list 8 (of_nat k :: u64)"
proof (rule nth_equalityI)
  fix i assume "i < length (le_list 4 (of_nat k :: u32) @ le_list 4 (of_nat (k div 2 ^ 32) :: u32))"
  then have i: "i < 8" by simp
  show "(le_list 4 (of_nat k :: u32) @ le_list 4 (of_nat (k div 2 ^ 32) :: u32)) ! i = le_list 8 (of_nat k :: u64) ! i"
  proof (rule bit_word_eqI)
    fix j assume "j < LENGTH(8)"
    then have "8 * (i - 4) + j < 32" "i < 4 \<Longrightarrow> 8 * i + j < 32" "\<not> i < 4 \<Longrightarrow> 8 * i + j = 32 + (8 * (i - 4) + j)"
      "8 * i + j < 64" using i by auto
    then show "bit ((le_list 4 (of_nat k :: u32) @ le_list 4 (of_nat (k div 2 ^ 32) :: u32)) ! i) j
        = bit (le_list 8 (of_nat k :: u64) ! i) j"
      using i by (cases "i < 4") (simp_all add: nth_append le_list_nth bit_word_ucast_iff bit_drop_bit_eq bit_word_of_nat
          bit_div_32 add.assoc)
  qed
qed simp

lemma md5_finish_repr:
  assumes "md5_repr s m"
  shows "md5_finish s = md5_rfc m"
proof -
  let ?z = "(119 - length m mod 64) mod 64"
  have c: "md5_count0 s = of_nat (8 * length m)" "md5_count1 s = of_nat (8 * length m div 2 ^ 32)"
    using assms by (simp_all add: md5_repr_def)
  have z: "unat ((55 - drop_bit 3 (md5_count0 s)) AND 63) = ?z" unfolding c by (rule md5_pad_count)
  have len: "le_list 4 (md5_count0 s) @ le_list 4 (md5_count1 s) = le_list 8 (of_nat (8 * length m) :: u64)"
    unfolding c by (rule le_list_halves)
  have pad: "take (Suc ?z) md5_pad_bytes = 0x80 # replicate ?z 0" by (simp add: md5_pad_bytes_def)
  have "md5_repr (md5_append s (take (Suc ?z) md5_pad_bytes)) (m @ take (Suc ?z) md5_pad_bytes)"
    using assms by (rule md5_append_repr) (simp add: md5_pad_bytes_def)
  then have "md5_repr (md5_append (md5_append s (take (Suc ?z) md5_pad_bytes)) (le_list 8 (of_nat (8 * length m) :: u64)))
      ((m @ take (Suc ?z) md5_pad_bytes) @ le_list 8 (of_nat (8 * length m) :: u64))"
    by (rule md5_append_repr) simp
  then have "md5_abcd (md5_append (md5_append s (take (Suc ?z) md5_pad_bytes)) (le_list 8 (of_nat (8 * length m) :: u64)))
      = md5_run md5_start (md5_pad m)"
    by (simp add: md5_repr_def md5_pad_def pad)
  then show ?thesis by (simp add: md5_finish_def Let_def z len md5_rfc_def)
qed

subsection \<open>The table-driven digest\<close>

lemma le_words_append: "length x = 4 * n \<Longrightarrow> le_words (x @ y) = le_words x @ le_words y"
proof (induction n arbitrary: x)
  case (Suc n)
  then have "length x = Suc (Suc (Suc (Suc (4 * n))))" by simp
  then obtain a b c d r where "x = a # b # c # d # r" "length r = 4 * n"
    by (auto simp: length_Suc_conv)
  with Suc show ?case by simp
qed simp

lemma le_words_length: "length x = 4 * n \<Longrightarrow> length (le_words x) = n"
proof (induction n arbitrary: x)
  case (Suc n)
  then have "length x = Suc (Suc (Suc (Suc (4 * n))))" by simp
  then obtain a b c d r where "x = a # b # c # d # r" "length r = 4 * n"
    by (auto simp: length_Suc_conv)
  with Suc show ?case by simp
qed simp

lemma le_words_one: "length x = 4 \<Longrightarrow> le_words x = [le_word x]"
  by (auto simp: numeral_eq_Suc length_Suc_conv)

text \<open>Storing the bit count into words 14 and 15 is the same as appending it to the bytes.\<close>

lemma le_words_count:
  assumes "length x = 56" "length y = 8"
  shows "(le_words (x @ y))[14 := v, 15 := w] = le_words (x @ le_list 4 v @ le_list 4 w)"
proof -
  have split: "y = take 4 y @ drop 4 y" by simp
  have "le_words y = [le_word (take 4 y), le_word (drop 4 y)]"
    using le_words_append [of "take 4 y" 1 "drop 4 y"] assms le_words_one [of "take 4 y"] le_words_one [of "drop 4 y"] by simp
  moreover have "le_words (le_list 4 v @ le_list 4 w) = [v, w]"
    using le_words_append [of "le_list 4 v" 1 "le_list 4 w"] le_words_one [of "le_list 4 v"] le_words_one [of "le_list 4 w"]
    by (simp add: le_word_list)
  moreover have "length (le_words x) = 14" using le_words_length [of x 14] assms by simp
  ultimately show ?thesis using le_words_append [of x 14] assms by (simp add: list_update_append)
qed

lemma md5_pad_short:
  assumes "length m mod 64 < 56" "length m < 2 ^ 29"
  shows "md5_pad m = m @ 0x80 # replicate (55 - length m mod 64) 0 @ le_list 4 (of_nat (8 * length m) :: u32) @ le_list 4 (0 :: u32)"
proof -
  define r where "r = length m mod 64"
  have "(119 - r) mod 64 = (55 - r + 64) mod 64" using assms(1) by (intro arg_cong [of _ _ "\<lambda>x. x mod 64"]) (simp add: r_def)
  then have "(119 - r) mod 64 = 55 - r" by simp
  moreover have "8 * length m div 2 ^ 32 = 0" using assms(2) by simp
  ultimately show ?thesis
    unfolding md5_pad_def r_def [symmetric] le_list_halves [symmetric] by (simp del: of_nat_mult)
qed

lemma md5_pad_long:
  assumes "56 < length m mod 64" "length m < 2 ^ 29"
  shows "md5_pad m = m @ 0x80 # replicate (63 - length m mod 64) 0 @ replicate 56 0 @
    le_list 4 (of_nat (8 * length m) :: u32) @ le_list 4 (0 :: u32)"
proof -
  define r where "r = length m mod 64"
  have r: "56 < r" "r < 64" using assms(1) by (simp_all add: r_def)
  then have "(119 - r) mod 64 = 63 - r + 56" by simp
  moreover have "8 * length m div 2 ^ 32 = 0" using assms(2) by simp
  ultimately show ?thesis
    unfolding md5_pad_def r_def [symmetric] le_list_halves [symmetric] by (simp only: replicate_add) simp
qed

definition digest_blocks :: "u8 list \<Rightarrow> nat" where
  "digest_blocks m = (if length m mod 64 > 56 then length m div 64 + 1 else length m div 64)"

lemma block_in_message: "64 * i + 64 \<le> length m \<Longrightarrow> take 64 (drop (64 * i) (m @ x)) = take 64 (drop (64 * i) m)"
  by simp

lemma take_pad_bytes: "0 < n \<Longrightarrow> n \<le> 64 \<Longrightarrow> take n md5_pad_bytes = 0x80 # replicate (n - 1) 0"
  by (cases n) (simp_all add: md5_pad_bytes_def)

lemma md5_fill_block:
  assumes "length m < 2 ^ 29" "length m mod 64 \<noteq> 56" "i \<le> digest_blocks m"
  shows "md5_fill m (digest_blocks m) i = le_words (take 64 (drop (64 * i) (md5_pad m)))"
proof -
  define q r where "q = length m div 64" and "r = length m mod 64"
  have n: "length m = 64 * q + r" "r < 64" by (simp_all add: q_def r_def)
  define t where "t = drop (64 * q) m"
  have t: "length t = r" by (simp add: t_def n)
  have tk: "take (64 - r) md5_pad_bytes = 0x80 # replicate (63 - r) 0" using n take_pad_bytes [of "64 - r"] by simp
  consider "i < q" | "r < 56" "i = q" | "56 < r" "i = q" | "56 < r" "i = q + 1"
    using assms(2,3) unfolding digest_blocks_def q_def [symmetric] r_def [symmetric] by (cases "56 < r") force+
  then show ?thesis
  proof cases
    case 1
    then have "64 * i + 64 \<le> length m" using n by simp
    moreover have "i + 1 \<le> digest_blocks m" using 1 by (simp add: digest_blocks_def q_def)
    ultimately show ?thesis by (simp add: md5_fill_def md5_pad_def Let_def)
  next
    case 2
    then have b: "digest_blocks m = q" by (simp add: digest_blocks_def q_def r_def)
    let ?L = "le_list 4 (of_nat (8 * length m) :: u32) @ le_list 4 (0 :: u32)"
    have "take 64 (drop (64 * i) (md5_pad m)) = (t @ 0x80 # replicate (55 - r) 0) @ ?L"
      using md5_pad_short [of m] 2 assms(1) t n by (simp add: r_def [symmetric] t_def)
    moreover have "take (64 - r) md5_pad_bytes = (0x80 # replicate (55 - r) 0) @ replicate 8 0"
      unfolding tk using 2 by (simp add: replicate_add [symmetric])
    moreover have "md5_fill m (digest_blocks m) i = (le_words (t @ take (64 - r) md5_pad_bytes))[14 := of_nat (length m * 8), 15 := 0]"
      using 2 t n by (simp add: md5_fill_def Let_def b r_def [symmetric] t_def [symmetric])
    ultimately show ?thesis
      using le_words_count [of "t @ 0x80 # replicate (55 - r) 0" "replicate 8 0" "of_nat (length m * 8)" 0] 2 t
      by (simp add: mult.commute)
  next
    case 3
    then have b: "digest_blocks m = q + 1" by (simp add: digest_blocks_def q_def r_def)
    have s: "64 - r = Suc (63 - r)" using n by simp
    have "take 64 (drop (64 * i) (md5_pad m)) = t @ 0x80 # replicate (63 - r) 0"
      using md5_pad_long [of m] 3 assms(1) t n s by (simp add: r_def [symmetric] t_def)
    moreover have "md5_fill m (digest_blocks m) i = le_words (t @ take (64 - r) md5_pad_bytes)"
      using 3 t n by (simp add: md5_fill_def Let_def b r_def [symmetric] t_def [symmetric])
    ultimately show ?thesis using tk by simp
  next
    case 4
    then have b: "digest_blocks m = q + 1" by (simp add: digest_blocks_def q_def r_def)
    let ?L = "le_list 4 (of_nat (8 * length m) :: u32) @ le_list 4 (0 :: u32)"
    have s: "64 - r = Suc (63 - r)" using n by simp
    have "drop (64 * i) (md5_pad m) = replicate 56 0 @ ?L"
      using md5_pad_long [of m] 4 assms(1) t n s by (simp add: r_def [symmetric])
    moreover have "md5_fill m (digest_blocks m) i = (le_words (replicate 56 0 @ replicate 8 0))[14 := of_nat (length m * 8), 15 := 0]"
      using 4 n by (simp add: md5_fill_def Let_def b replicate_add [symmetric])
    ultimately show ?thesis
      using le_words_count [of "replicate 56 0" "replicate 8 0" "of_nat (length m * 8)" 0] by (simp add: mult.commute)
  qed
qed

lemma md5_pad_blocks:
  assumes "length m < 2 ^ 29" "length m mod 64 \<noteq> 56"
  shows "length (md5_pad m) div 64 = digest_blocks m + 1"
proof -
  define q r where "q = length m div 64" and "r = length m mod 64"
  have n: "length m = 64 * q + r" "r < 64" by (simp_all add: q_def r_def)
  have "length (md5_pad m) = 64 * (digest_blocks m + 1)"
    using md5_pad_short [of m] md5_pad_long [of m] assms n(2)
    by (cases "56 < r") (simp_all add: digest_blocks_def q_def [symmetric] r_def [symmetric] n(1))
  then show ?thesis by simp
qed

lemma md5_digest_blocks:
  "md5_digest m = concat (map (le_list 4)
     (fold (\<lambda>i. md5_block (md5_fill m (digest_blocks m) i)) [0..<digest_blocks m + 1] md5_start))"
  by (simp add: md5_digest_def digest_blocks_def Let_def)

lemma md5_digest_rfc:
  assumes "length m < 2 ^ 29" "length m mod 64 \<noteq> 56"
  shows "md5_digest m = md5_rfc m"
proof -
  have "fold (\<lambda>i. md5_block (md5_fill m (digest_blocks m) i)) [0..<digest_blocks m + 1] md5_start = md5_run md5_start (md5_pad m)"
    unfolding md5_run_index md5_pad_blocks [OF assms]
    by (rule fold_cong) (auto simp: md5_fill_block [OF assms])
  then show ?thesis by (simp add: md5_digest_blocks md5_rfc_def)
qed

lemma md5_pieces_repr:
  assumes "md5_repr s m" "\<forall>d\<in>set pieces. length d < 2 ^ 29"
  shows "md5_repr (fold (\<lambda>d s. md5_append s d) pieces s) (m @ concat pieces)"
  using assms
proof (induction pieces arbitrary: s m)
  case (Cons d ds)
  then show ?case using md5_append_repr [of s m d] Cons.IH [of "md5_append s d" "m @ d"] by simp
qed simp

text \<open>When 56 bytes are left after the last full block, \<open>(size % 64) > 56\<close> is false and no block is added for the padding.\<close>

lemma md5_fill_gap:
  assumes "length m < 2 ^ 29" "length m mod 64 = 56" "i \<le> length m div 64"
  shows "md5_fill m (length m div 64) i = le_words (take 64 (drop (64 * i) (m @ le_list 8 (of_nat (8 * length m) :: u64))))"
proof (cases "i < length m div 64")
  case True
  then have "64 * i + 64 \<le> 64 * (length m div 64)" by simp
  also have "\<dots> \<le> length m" by simp
  finally have "64 * i + 64 \<le> length m" .
  then show ?thesis using True by (simp add: md5_fill_def Let_def)
next
  case False
  then have i: "i = length m div 64" using assms by simp
  define q t where "q = length m div 64" and "t = drop (64 * (length m div 64)) m"
  have n: "length m = 64 * q + 56" using assms(2) mult_div_mod_eq [of 64 "length m"] by (simp add: q_def)
  then have t: "length t = 56" by (simp add: t_def)
  have c: "8 * length m div 2 ^ 32 = 0" using assms(1) by simp
  have "md5_fill m (length m div 64) i = (le_words (t @ take 8 md5_pad_bytes))[14 := of_nat (length m * 8), 15 := 0]"
    using t n assms(2) unfolding i by (simp add: md5_fill_def Let_def q_def [symmetric] t_def)
  also have "\<dots> = le_words (t @ le_list 4 (of_nat (length m * 8) :: u32) @ le_list 4 (0 :: u32))"
    using t by (intro le_words_count) (simp_all add: md5_pad_bytes_def)
  also have "le_list 4 (of_nat (length m * 8) :: u32) @ le_list 4 (0 :: u32) = le_list 8 (of_nat (8 * length m) :: u64)"
    unfolding le_list_halves [symmetric] c by (simp add: mult.commute)
  finally show ?thesis using t n unfolding i by (simp add: t_def)
qed

lemma md5_digest_gap:
  assumes "length m < 2 ^ 29" "length m mod 64 = 56"
  shows "md5_digest m = concat (map (le_list 4) (md5_run md5_start (m @ le_list 8 (of_nat (8 * length m) :: u64))))"
proof -
  let ?p = "m @ le_list 8 (of_nat (8 * length m) :: u64)"
  have "length ?p div 64 = length m div 64 + 1"
    using assms(2) mult_div_mod_eq [of 64 "length m"] by (simp add: div_nat_eqI)
  then have "fold (\<lambda>i. md5_block (md5_fill m (length m div 64) i)) [0..<length m div 64 + 1] md5_start = md5_run md5_start ?p"
    unfolding md5_run_index by (intro fold_cong) (auto simp: md5_fill_gap [OF assms])
  then show ?thesis using assms(2) by (simp add: md5_digest_blocks digest_blocks_def)
qed

lemma md5_digest_abc:
  "md5_digest [0x61, 0x62, 0x63] =
     [0x90, 0x01, 0x50, 0x98, 0x3c, 0xd2, 0x4f, 0xb0, 0xd6, 0x96, 0x3f, 0x7d, 0x28, 0xe1, 0x7f, 0x72]"
  by code_simp

subsection \<open>Contract\<close>

text \<open>C27: the incremental implementation, used by the code on big endian machines, computes the MD5 digest
  of RFC 1321: whatever the pieces (each under 2^29 bytes) in which the message is appended, and
  whatever the uninitialised buffer holds, \<open>md5_finish\<close> returns the digest of the concatenation,
  with every piece buffered, the 64-bit bit count carried between its halves and the padding computed from it.
\<close>

theorem md5_incremental:
  assumes "length garbage = 64" "\<forall>d\<in>set pieces. length d < 2 ^ 29"
  shows "md5_finish (fold (\<lambda>d s. md5_append s d) pieces (md5_init garbage)) = md5_rfc (concat pieces)"
  using md5_finish_repr [OF md5_pieces_repr [OF md5_init_repr [OF assms(1)] assms(2)]] by simp

theorem md5_incremental_witness:
  "md5_finish (fold (\<lambda>d s. md5_append s d) [[0x61], [], [0x62, 0x63]] (md5_init (replicate 64 7))) =
     md5_rfc [0x61, 0x62, 0x63]"
  using md5_incremental [of "replicate 64 7" "[[0x61], [], [0x62, 0x63]]"] by simp

text \<open>The table-driven \<open>md5_digest\<close> returns the same digest as the incremental implementation for every
  message under 2^29 bytes whose length is not 56 modulo 64: the partial block, the padding and the
  bit count are laid out as RFC 1321 asks, and its 64 steps through the dispatch table are the unrolled ones.
\<close>

lemma md5_digest_agree:
  assumes "length m < 2 ^ 29" "length m mod 64 \<noteq> 56" "length garbage = 64"
  shows "md5_digest m = md5_digest_aladdin garbage m"
  using md5_digest_rfc [OF assms(1,2)] md5_finish_repr [OF md5_append_repr [OF md5_init_repr [OF assms(3)] assms(1)]]
  by (simp add: md5_digest_aladdin_def)

lemma md5_digest_agree_witness:
  "md5_digest_aladdin (replicate 64 9) [0x61, 0x62, 0x63] =
     [0x90, 0x01, 0x50, 0x98, 0x3c, 0xd2, 0x4f, 0xb0, 0xd6, 0x96, 0x3f, 0x7d, 0x28, 0xe1, 0x7f, 0x72]"
  using md5_digest_agree [of "[0x61, 0x62, 0x63]" "replicate 64 9"] md5_digest_abc by simp

text \<open>For a message of 56 bytes modulo 64 the table-driven \<open>md5_digest\<close> adds no block for the padding
  (it tests \<open>> 56\<close>, where 56 bytes leave no room for the padding byte either): it compresses the message
  followed by its bit count alone. For 56 zero bytes the result differs from the digest of RFC 1321,
  so machines of different byte order would not authenticate with such a secret.
\<close>

lemma md5_digest_56:
  "(length m < 2 ^ 29 \<and> length m mod 64 = 56 \<longrightarrow>
      md5_digest m = concat (map (le_list 4) (md5_run md5_start (m @ le_list 8 (of_nat (8 * length m) :: u64))))) \<and>
   md5_digest (replicate 56 0) \<noteq> md5_rfc (replicate 56 0)"
proof (rule conjI)
  show "length m < 2 ^ 29 \<and> length m mod 64 = 56 \<longrightarrow>
      md5_digest m = concat (map (le_list 4) (md5_run md5_start (m @ le_list 8 (of_nat (8 * length m) :: u64))))"
    using md5_digest_gap by blast
  show "md5_digest (replicate 56 0) \<noteq> md5_rfc (replicate 56 0)" by code_simp
qed

lemma md5_digest_56_witness:
  "md5_digest (replicate 56 1) =
     concat (map (le_list 4) (md5_run md5_start (replicate 56 1 @ [0xC0, 1, 0, 0, 0, 0, 0, 0])))"
proof -
  have "le_list 8 (of_nat (8 * 56) :: u64) = [0xC0, 1, 0, 0, 0, 0, 0, 0]" by code_simp
  then show ?thesis using md5_digest_56 [of "replicate 56 1"] by simp
qed

end
