(* ===== verification/TsCommon.thy ===== *)
theory TsCommon
  imports TsMd5
begin

unbundle bit_operations_syntax

text \<open>
  What the Tsunami client and server share: \<^verbatim>\<open>common/common.c\<close> and \<^verbatim>\<open>include/tsunami.h\<close>.

  A socket is the segments it will deliver and how it ends.  \<open>read\<close> returns at most the
  bytes asked for, from one segment; at the end of the stream it returns 0, on a reset connection -1.
\<close>

subsection \<open>Constants and messages\<close>

definition PROTOCOL_REVISION :: u32 where "PROTOCOL_REVISION = 0x20061025"
definition REQUEST_RETRANSMIT :: u16 where "REQUEST_RETRANSMIT = 0"
definition REQUEST_RESTART :: u16 where "REQUEST_RESTART = 1"
definition REQUEST_STOP :: u16 where "REQUEST_STOP = 2"
definition REQUEST_ERROR_RATE :: u16 where "REQUEST_ERROR_RATE = 3"

definition TS_BLOCK_ORIGINAL :: u16 where "TS_BLOCK_ORIGINAL = 79"
definition TS_BLOCK_TERMINATE :: u16 where "TS_BLOCK_TERMINATE = 88"
definition TS_BLOCK_RETRANSMISSION :: u16 where "TS_BLOCK_RETRANSMISSION = 82"

text \<open>The structure is sent as it lies in memory: its fields are in network byte order, with two bytes of padding.\<close>

record retransmission =
  request_type :: u16
  rq_block :: u32
  rq_error_rate :: u32

definition retransmission_bytes :: "retransmission \<Rightarrow> u8 list" where
  "retransmission_bytes r = le_list 2 (request_type r) @ [0, 0] @ le_list 4 (rq_block r) @ le_list 4 (rq_error_rate r)"

definition retransmission_of :: "u8 list \<Rightarrow> retransmission" where
  "retransmission_of bs = \<lparr>request_type = le_word (take 2 bs), rq_block = le_word (take 4 (drop 4 bs)),
     rq_error_rate = le_word (take 4 (drop 8 bs))\<rparr>"

lemma retransmission_length [simp]: "length (retransmission_bytes r) = 12"
  by (simp add: retransmission_bytes_def)

lemma retransmission_roundtrip [simp]: "retransmission_of (retransmission_bytes r) = r"
  by (simp add: retransmission_of_def retransmission_bytes_def le_word_list)

lemma htons_htons [simp]: "htons (htons w) = w"
proof (rule bit_word_eqI)
  fix k assume k: "k < LENGTH(16)"
  have m: "(0xFF :: u16) = mask 8" by (simp add: mask_numeral)
  show "bit (htons (htons w)) k = bit w k"
    using k unfolding htons_def m by (auto simp: bit_simps)
qed

subsection \<open>Elapsed time\<close>

type_synonym timeval = "int \<times> int"   \<comment> \<open>\<open>tv_sec\<close> and \<open>tv_usec\<close>\<close>

text \<open>The loop that turns seconds into microseconds, with the 64-bit accumulator.\<close>

function usec_loop :: "u64 \<Rightarrow> int \<Rightarrow> int \<Rightarrow> u64" where
  "usec_loop result now_sec old_sec =
     (if old_sec < now_sec then usec_loop (result + 1000000) (now_sec - 1) old_sec else result)"
  by pat_completeness auto
termination by (relation "measure (\<lambda>(r, n, old). nat (n - old))") auto

declare usec_loop.simps [simp del]

definition get_usec_since :: "timeval \<Rightarrow> timeval \<Rightarrow> u64" where
  "get_usec_since now old = usec_loop 0 (fst now) (fst old) + of_int (snd now - snd old)"

lemma usec_loop_eq: "usec_loop r n old = r + (if old < n then of_int (1000000 * (n - old)) else 0)"
proof (induction r n old rule: usec_loop.induct)
  case (1 r n old)
  show ?case
  proof (cases "old < n")
    case True
    show ?thesis
    proof (cases "old < n - 1")
      case lt: True
      have "of_int (1000000 * (n - old)) = (1000000 :: u64) + of_int (1000000 * (n - 1 - old))"
        by (simp add: algebra_simps)
      then show ?thesis using 1 True lt by (simp add: usec_loop.simps [of r] add.assoc)
    next
      case False
      then have "n = old + 1" using True by simp
      then show ?thesis using 1 by (simp add: usec_loop.simps [of r])
    qed
  qed (simp add: usec_loop.simps)
qed

lemma get_usec_since_forward:
  assumes "fst old \<le> fst now"
  shows "get_usec_since now old = of_int (1000000 * (fst now - fst old) + (snd now - snd old))"
  using assms by (cases "fst old = fst now") (simp_all add: get_usec_since_def usec_loop_eq)

lemma get_usec_since_past: "fst now < fst old \<Longrightarrow> get_usec_since now old = of_int (snd now - snd old)"
  by (simp add: get_usec_since_def usec_loop_eq)

subsection \<open>The proof of the shared secret\<close>

text \<open>
  \<open>secret\<close> is without its terminator; with an empty one the index is taken modulo 0, which the
  processor traps.
\<close>

definition xor_secret :: "u8 list \<Rightarrow> u8 list \<Rightarrow> u8 list" where
  "xor_secret buffer secret = map (\<lambda>i. buffer ! i XOR secret ! (i mod length secret)) [0..<length buffer]"

definition prepare_proof :: "u8 list \<Rightarrow> u8 list \<Rightarrow> u8 list res" where
  "prepare_proof buffer secret =
     (if secret = [] \<and> buffer \<noteq> [] then Inl Div_by_zero else Inr (md5_digest (xor_secret buffer secret)))"

lemma xor_secret_length [simp]: "length (xor_secret buffer secret) = length buffer"
  by (simp add: xor_secret_def)

lemma xor_secret_twice: "xor_secret (xor_secret buffer secret) secret = buffer"
  by (rule nth_equalityI) (simp_all add: xor_secret_def xor.assoc)

subsection \<open>Sockets\<close>

datatype sock_end = Eof | Reset

record conn_in =
  segs :: "u8 list list"
  sock_end :: sock_end

fun sys_read :: "nat \<Rightarrow> conn_in \<Rightarrow> (u8 list \<times> conn_in) option" where
  "sys_read n c =
     (case segs c of
        [] \<Rightarrow> (case sock_end c of Eof \<Rightarrow> Some ([], c) | Reset \<Rightarrow> None)
      | s # ss \<Rightarrow> Some (take n s, c\<lparr>segs := if length s \<le> n then ss else drop n s # ss\<rparr>))"

text \<open>\<open>full_read\<close> loops until it has all bytes; a result is what it stored, with the rest of the stream.\<close>

partial_function (option) full_read :: "nat \<Rightarrow> conn_in \<Rightarrow> (u8 list \<times> conn_in) option" where
  "full_read n c =
     (if n = 0 then Some ([], c)
      else case sys_read n c of
          None \<Rightarrow> Some ([], c)
        | Some (bs, c1) \<Rightarrow> Option.bind (full_read (n - length bs) c1) (\<lambda>(r, c2). Some (bs @ r, c2)))"

text \<open>The stream of a well-formed socket has no empty segments.\<close>

definition conn_ok :: "conn_in \<Rightarrow> bool" where
  "conn_ok c = ([] \<notin> set (segs c))"

lemma sys_read_ok:
  "conn_ok c \<Longrightarrow> sys_read n c = Some (bs, c1) \<Longrightarrow>
   conn_ok c1 \<and> sock_end c1 = sock_end c \<and> concat (segs c) = bs @ concat (segs c1) \<and> length bs \<le> n \<and>
   (0 < n \<and> segs c \<noteq> [] \<longrightarrow> bs \<noteq> [])"
  by (auto simp: conn_ok_def split: list.splits sock_end.splits if_splits)


definition stream :: "conn_in \<Rightarrow> u8 list" where
  "stream c = concat (segs c)"

declare sys_read.simps [simp del]

lemma full_read_0 [simp]: "full_read 0 c = Some ([], c)"
  by (subst full_read.simps) simp

lemma conn_segs_ne: "conn_ok c \<Longrightarrow> segs c \<noteq> [] \<longleftrightarrow> stream c \<noteq> []"
  by (cases "segs c") (auto simp: conn_ok_def stream_def)

lemma sys_read_Some:
  assumes "conn_ok c" "stream c \<noteq> []" "0 < n"
  obtains bs c1 where "sys_read n c = Some (bs, c1)" "conn_ok c1" "sock_end c1 = sock_end c" "stream c = bs @ stream c1"
    "length bs \<le> n" "bs \<noteq> []"
proof -
  from assms obtain s ss where s: "segs c = s # ss" "s \<noteq> []"
    by (cases "segs c") (auto simp: stream_def conn_ok_def)
  then obtain bs c1 where "sys_read n c = Some (bs, c1)" by (simp add: sys_read.simps)
  with that sys_read_ok [OF assms(1) this] s assms(3) show ?thesis by (auto simp: stream_def)
qed

lemma full_read_complete:
  "conn_ok c \<Longrightarrow> n \<le> length (stream c) \<Longrightarrow>
   \<exists>c1. full_read n c = Some (take n (stream c), c1) \<and> stream c1 = drop n (stream c) \<and> conn_ok c1 \<and> sock_end c1 = sock_end c"
proof (induction n arbitrary: c rule: less_induct)
  case (less n)
  show ?case
  proof (cases "n = 0")
    case False
    then have "stream c \<noteq> []" using less.prems by auto
    with less.prems(1) False obtain bs c1 where r: "sys_read n c = Some (bs, c1)" "conn_ok c1" "sock_end c1 = sock_end c"
        "stream c = bs @ stream c1" "length bs \<le> n" "bs \<noteq> []"
      by (auto elim: sys_read_Some [of c n])
    then have "n - length bs < n" "n - length bs \<le> length (stream c1)" using False less.prems(2) by auto
    from less.IH [OF this(1) r(2) this(2)] r show ?thesis
      by (subst full_read.simps) (auto simp: False)
  qed (use less.prems in simp)
qed

text \<open>A peer that closes the connection too early leaves \<open>full_read\<close> in its loop: \<open>read\<close> returns 0 for ever.\<close>

lemma full_read_returns:
  "full_read n c = Some y \<Longrightarrow> conn_ok c \<Longrightarrow> sock_end c = Eof \<Longrightarrow> n \<le> length (stream c)"
proof (induction n c y rule: full_read.raw_induct [rotated, consumes 1])
  case (1 f n c y)
  show ?case
  proof (cases "n = 0 \<or> sys_read n c = None")
    case True
    then show ?thesis using "1.prems"(2) by (auto simp: sys_read.simps split: list.splits)
  next
    case False
    then obtain bs c1 where r: "sys_read n c = Some (bs, c1)" by auto
    with False "1.hyps" obtain z where "f (n - length bs) c1 = Some z" by (auto simp: bind_eq_Some_conv)
    moreover have "conn_ok c1" "sock_end c1 = Eof" "stream c = bs @ stream c1"
      using sys_read_ok [OF "1.prems"(1) r] "1.prems"(2) by (simp_all add: stream_def)
    ultimately show ?thesis using "1.IH" by fastforce
  qed
qed

lemma full_read_reset:
  "conn_ok c \<Longrightarrow> length (stream c) < n \<Longrightarrow> sock_end c = Reset \<Longrightarrow>
   \<exists>c1. full_read n c = Some (stream c, c1)"
proof (induction n arbitrary: c rule: less_induct)
  case (less n)
  show ?case
  proof (cases "stream c = []")
    case True
    then have "segs c = []" using conn_segs_ne less.prems(1) by blast
    then show ?thesis using less.prems True by (subst full_read.simps) (simp add: sys_read.simps)
  next
    case False
    with less.prems obtain bs c1 where r: "sys_read n c = Some (bs, c1)" "conn_ok c1" "sock_end c1 = sock_end c"
        "stream c = bs @ stream c1" "length bs \<le> n" "bs \<noteq> []"
      by (auto elim: sys_read_Some [of c n])
    then have "n - length bs < n" "length (stream c1) < n - length bs" using less.prems by auto
    from less.IH [OF this(1) r(2) this(2)] r less.prems show ?thesis
      by (subst full_read.simps) auto
  qed
qed

text \<open>\<open>full_write\<close> against what the calls of \<open>write\<close> accept (\<open>None\<close>: an error); the bytes sent, whose number it returns.\<close>

fun full_write :: "nat option list \<Rightarrow> u8 list \<Rightarrow> u8 list" where
  "full_write ws [] = []"
| "full_write [] bs = bs"
| "full_write (None # ws) bs = []"
| "full_write (Some k # ws) bs = take k bs @ full_write ws (drop k bs)"

lemma full_write_prefix: "\<exists>rest. bs = full_write ws bs @ rest"
proof (induction ws bs rule: full_write.induct)
  case (4 k ws b bs)
  then obtain rest where "drop k (b # bs) = full_write ws (drop k (b # bs)) @ rest" by blast
  then show ?case by (metis append.assoc append_take_drop_id full_write.simps(4))
qed auto

lemma full_write_all: "None \<notin> set ws \<Longrightarrow> full_write ws bs = bs"
  by (induction ws bs rule: full_write.induct) auto

subsection \<open>Lines\<close>

text \<open>\<open>buffer\<close> is what the loop has stored; \<open>None\<close>: the connection ended within the line.\<close>

function read_line_loop :: "nat \<Rightarrow> u8 list \<Rightarrow> conn_in \<Rightarrow> (u8 list \<times> conn_in) option" where
  "read_line_loop len buffer c =
     (case sys_read 1 c of
        None \<Rightarrow> None
      | Some (bs, c1) \<Rightarrow>
          if bs = [] then None
          else if hd bs \<noteq> 0 \<and> hd bs \<noteq> 10 \<and> length buffer + 1 < len
          then read_line_loop len (buffer @ [hd bs]) c1
          else Some (buffer, c1))"
  by pat_completeness auto
termination by (relation "measure (\<lambda>(len, buffer, c). len - length buffer)") auto

declare read_line_loop.simps [simp del]

definition read_line :: "conn_in \<Rightarrow> nat \<Rightarrow> (u8 list \<times> conn_in) option" where
  "read_line c buffer_length = read_line_loop buffer_length [] c"

lemma sys_read_1:
  assumes "conn_ok c" "stream c = b # r"
  shows "\<exists>c1. sys_read 1 c = Some ([b], c1) \<and> conn_ok c1 \<and> stream c1 = r"
proof -
  obtain bs c1 where x: "sys_read 1 c = Some (bs, c1)" "conn_ok c1" "stream c = bs @ stream c1" "length bs \<le> 1" "bs \<noteq> []"
    using assms by (elim sys_read_Some [of c 1]) auto
  then have "length bs = 1" by (cases bs) auto
  then have "bs = [b]" "stream c1 = r" using x assms(2) by (auto simp: length_Suc_conv)
  with x show ?thesis by blast
qed

lemma read_line_loop_line:
  "conn_ok c \<Longrightarrow> stream c = line @ e # rest \<Longrightarrow> 0 \<notin> set line \<Longrightarrow> 10 \<notin> set line \<Longrightarrow> e = 0 \<or> e = 10 \<Longrightarrow>
   length buffer + length line < len \<Longrightarrow>
   \<exists>c1. read_line_loop len buffer c = Some (buffer @ line, c1) \<and> stream c1 = rest \<and> conn_ok c1"
proof (induction line arbitrary: c buffer)
  case Nil
  then obtain c1 where "sys_read 1 c = Some ([e], c1)" "stream c1 = rest" "conn_ok c1" using sys_read_1 [of c e rest] by auto
  then show ?case using Nil by (subst read_line_loop.simps) auto
next
  case (Cons b line)
  then obtain c1 where r: "sys_read 1 c = Some ([b], c1)" "conn_ok c1" "stream c1 = line @ e # rest"
    using sys_read_1 [of c b] by auto
  have "\<exists>c2. read_line_loop len (buffer @ [b]) c1 = Some ((buffer @ [b]) @ line, c2) \<and> stream c2 = rest \<and> conn_ok c2"
    using Cons.prems r by (intro Cons.IH) auto
  then show ?case using Cons.prems r by (subst read_line_loop.simps) auto
qed

text \<open>A line that does not fit: the character at the place of the terminator is read and lost.\<close>

lemma read_line_loop_long:
  "conn_ok c \<Longrightarrow> stream c = line @ b # rest \<Longrightarrow> 0 \<notin> set line \<Longrightarrow> 10 \<notin> set line \<Longrightarrow>
   length buffer + length line + 1 = len \<Longrightarrow>
   \<exists>c1. read_line_loop len buffer c = Some (buffer @ line, c1) \<and> stream c1 = rest \<and> conn_ok c1"
proof (induction line arbitrary: c buffer)
  case Nil
  then obtain c1 where "sys_read 1 c = Some ([b], c1)" "stream c1 = rest" "conn_ok c1" using sys_read_1 [of c b rest] by auto
  then show ?case using Nil by (subst read_line_loop.simps) auto
next
  case (Cons a line)
  then obtain c1 where r: "sys_read 1 c = Some ([a], c1)" "conn_ok c1" "stream c1 = line @ b # rest"
    using sys_read_1 [of c a] by auto
  have "\<exists>c2. read_line_loop len (buffer @ [a]) c1 = Some ((buffer @ [a]) @ line, c2) \<and> stream c2 = rest \<and> conn_ok c2"
    using Cons.prems r by (intro Cons.IH) auto
  then show ?case using Cons.prems r by (subst read_line_loop.simps) auto
qed

subsection \<open>Contract\<close>

text \<open>
  \<open>get_usec_since\<close> counts the microseconds from an earlier time exactly, modulo the 64 bits of its
  result; from a time in a later second it returns the difference of the microsecond fields alone, reduced
  modulo 2^64 when negative, which the caller's comparison with the update period takes for a long time.
\<close>

lemma get_usec_since_exact:
  "get_usec_since now old =
     (if fst old \<le> fst now then of_int (1000000 * (fst now - fst old) + (snd now - snd old))
      else of_int (snd now - snd old))"
  using get_usec_since_forward get_usec_since_past by simp

text \<open>\<open>full_read\<close> returns exactly when the bytes arrive or the connection is reset: it delivers the
  next \<open>n\<close> bytes of the stream in order, across segment boundaries; on a reset it returns what came
  before; when the peer closed the connection too early it never returns.
\<close>

lemma full_read_spec:
  assumes "conn_ok c"
  shows "case full_read n c of
      None \<Rightarrow> length (stream c) < n \<and> sock_end c = Eof
    | Some (bs, c1) \<Rightarrow>
        if n \<le> length (stream c) then bs = take n (stream c) \<and> stream c1 = drop n (stream c) \<and> conn_ok c1
        else bs = stream c \<and> sock_end c = Reset"
proof (cases "n \<le> length (stream c)")
  case True
  then show ?thesis using full_read_complete [OF assms True] by auto
next
  case False
  show ?thesis
  proof (cases "full_read n c")
    case None
    then have "sock_end c = Eof" using full_read_reset [OF assms, of n] False by (cases "sock_end c") auto
    then show ?thesis using None False by simp
  next
    case (Some y)
    then have "sock_end c = Reset" using full_read_returns [OF Some assms] False by (cases "sock_end c") auto
    then show ?thesis using full_read_reset [OF assms, of n] False Some by auto
  qed
qed

lemma full_read_spec_witness:
  "let c = \<lparr>segs = [[1, 2], [3, 4, 5]], sock_end = Eof\<rparr> in
   case full_read 3 c of None \<Rightarrow> False | Some (bs, c1) \<Rightarrow> bs = [1, 2, 3] \<and> stream c1 = [4, 5]"
  using full_read_spec [of "\<lparr>segs = [[1, 2], [3, 4, 5]], sock_end = Eof\<rparr>" 3]
  by (auto simp: conn_ok_def stream_def numeral_3_eq_3 split: option.splits)

text \<open>
  \<open>read_line\<close> returns a line without its terminator (a newline or a null byte) and leaves the stream
  behind it, when the line fits the buffer; of a longer line it returns the first
  \<open>buffer_length - 1\<close> bytes and loses the next one, and the following call continues in the middle of the line.
\<close>

lemma read_line_spec:
  assumes "conn_ok c" "stream c = line @ e # rest" "0 \<notin> set line" "10 \<notin> set line"
    "(e = 0 \<or> e = 10) \<and> length line < len \<or> length line + 1 = len"
  shows "\<exists>c1. read_line c len = Some (line, c1) \<and> stream c1 = rest"
  using read_line_loop_line [OF assms(1-4), of "[]" len] read_line_loop_long [OF assms(1-4), of "[]" len] assms(5)
  by (auto simp: read_line_def)

lemma read_line_spec_witness:
  "(\<exists>c1. read_line \<lparr>segs = [[102], [10, 103]], sock_end = Eof\<rparr> 1024 = Some ([102], c1) \<and> stream c1 = [103]) \<and>
   (\<exists>c1. read_line \<lparr>segs = [[102, 105], [108, 101, 10]], sock_end = Eof\<rparr> 3 = Some ([102, 105], c1) \<and> stream c1 = [101, 10])"
  using read_line_spec [of "\<lparr>segs = [[102], [10, 103]], sock_end = Eof\<rparr>" "[102]" 10 "[103]" 1024]
    read_line_spec [of "\<lparr>segs = [[102, 105], [108, 101, 10]], sock_end = Eof\<rparr>" "[102, 105]" 108 "[101, 10]" 3]
  by (simp add: conn_ok_def stream_def)

end
