(* ===== verification/TsHandshake.thy ===== *)
theory TsHandshake
  imports TsCommon
begin

unbundle bit_operations_syntax

text \<open>
  The exchange before a Tsunami transfer: the protocol revision and the proof of the shared secret, both
  sides (\<^verbatim>\<open>ttp_negotiate\<close> and \<^verbatim>\<open>ttp_authenticate\<close> of \<^verbatim>\<open>client/protocol.c\<close> and \<^verbatim>\<open>server/protocol.c\<close>).
\<close>

subsection \<open>Protocol revision\<close>

text \<open>
  The client reads and writes the control connection through \<open>stdio\<close>: its input is the bytes that
  will arrive, \<open>fread\<close> fails when there are fewer than asked for, and \<open>wr\<close> tells whether
  \<open>fwrite\<close> and \<open>fflush\<close> succeed.  Results are the status, the bytes written and the rest of the input.

  The server uses \<open>full_read\<close> and \<open>full_write\<close>, which return the number of bytes moved, so its tests
  \<open>status < 0\<close> never succeed: what is missing of a value keeps the uninitialised contents \<open>garbage\<close>.
\<close>

definition client_negotiate :: "bool \<Rightarrow> u8 list \<Rightarrow> int \<times> u8 list \<times> u8 list" where
  "client_negotiate wr inp =
     (let client_revision = htonl PROTOCOL_REVISION; out = le_list 4 client_revision in
      if \<not> wr then (-1, [], inp)
      else if length inp < 4 then (-1, out, inp)
      else (if client_revision = le_word (take 4 inp) then 0 else -1, out, drop 4 inp))"

definition fill_from :: "u8 list \<Rightarrow> u8 list \<Rightarrow> u8 list" where
  "fill_from bs garbage = bs @ drop (length bs) garbage"

definition server_negotiate :: "nat option list \<Rightarrow> u8 list \<Rightarrow> conn_in \<Rightarrow> (int \<times> u8 list \<times> conn_in) option" where
  "server_negotiate ws garbage c =
     (let server_revision = htonl PROTOCOL_REVISION; out = full_write ws (le_list 4 server_revision) in
      Option.bind (full_read 4 c) (\<lambda>(bs, c1).
        let client_revision = le_word (fill_from bs garbage)
        in Some (if client_revision = server_revision then 0 else -1, out, c1)))"

subsection \<open>Authentication\<close>

text \<open>\<open>md5\<close> is the implementation of \<open>md5_digest\<close> for the byte order of the machine.\<close>

type_synonym md5_impl = "u8 list \<Rightarrow> u8 list"

definition proof_of :: "md5_impl \<Rightarrow> u8 list \<Rightarrow> u8 list \<Rightarrow> u8 list res" where
  "proof_of md5 buffer secret =
     (if secret = [] \<and> buffer \<noteq> [] then Inl Div_by_zero else Inr (md5 (xor_secret buffer secret)))"

lemma prepare_proof_of: "prepare_proof = proof_of md5_digest"
  by (simp add: prepare_proof_def proof_of_def fun_eq_iff)

text \<open>The client overwrites its secret; the result has the secret as the caller finds it afterwards.\<close>

definition client_authenticate ::
    "md5_impl \<Rightarrow> bool \<Rightarrow> u8 list \<Rightarrow> u8 list \<Rightarrow> (int \<times> u8 list \<times> u8 list \<times> u8 list) res" where
  "client_authenticate md5 wr inp secret =
     (if length inp < 64 then Inr (-1, [], inp, secret)
      else rbind (proof_of md5 (take 64 inp) secret) (\<lambda>digest.
        let secret' = replicate (length secret) 0; rest = drop 64 inp in
        if \<not> wr then Inr (-1, [], rest, secret')
        else case rest of
            [] \<Rightarrow> Inr (-1, take 16 digest, rest, secret')
          | result # rest' \<Rightarrow> Inr (if result = 0 then 0 else -1, take 16 digest, rest', secret')))"

text \<open>
  The server: \<open>random\<close> is what \<open>get_random_data\<close> produced, \<open>w1\<close> and \<open>w2\<close> what its two writes accept.
  \<open>None\<close>: the call does not return.
\<close>

definition server_authenticate ::
    "md5_impl \<Rightarrow> u8 list option \<Rightarrow> nat option list \<Rightarrow> nat option list \<Rightarrow> u8 list \<Rightarrow> u8 list \<Rightarrow> conn_in \<Rightarrow>
     (int \<times> u8 list \<times> conn_in) res option" where
  "server_authenticate md5 random w1 w2 secret garbage c =
     (case random of None \<Rightarrow> Some (Inr (-1, [], c))
      | Some rnd \<Rightarrow>
          Option.bind (full_read 16 c) (\<lambda>(bs, c1). Some
            (rbind (proof_of md5 rnd secret) (\<lambda>server_digest.
              if fill_from bs garbage \<noteq> server_digest
              then Inr (-1, full_write w1 rnd @ full_write w2 [1], c1)
              else Inr (0, full_write w1 rnd @ full_write w2 [0], c1)))))"

lemma md5_run_length [simp]: "length st = 4 \<Longrightarrow> length (md5_run st m) = 4"
proof (induction st m rule: md5_run.induct)
  case (1 st m)
  have "length (fold (md5_step X) js st) = length st" for X js st
    by (induction js arbitrary: st) (simp_all add: md5_step_def Let_def)
  then show ?case using 1 by (simp add: md5_run.simps [of st] md5_block_def)
qed

lemma md5_rfc_length [simp]: "length (md5_rfc m) = 16"
proof -
  have "length (concat (map (le_list 4) xs)) = 4 * length xs" for xs :: "u32 list"
    by (induction xs) simp_all
  then show ?thesis by (simp add: md5_rfc_def md5_start_def)
qed

text \<open>An implementation of MD5 that is right on the 64 bytes of a challenge.\<close>

definition md5_good :: "md5_impl \<Rightarrow> bool" where
  "md5_good md5 = (\<forall>m. length m = 64 \<longrightarrow> md5 m = md5_rfc m)"

lemma md5_good_table: "md5_good md5_digest"
  by (simp add: md5_good_def md5_digest_rfc)

lemma md5_good_aladdin: "length g = 64 \<Longrightarrow> md5_good (md5_digest_aladdin g)"
  using md5_finish_repr [OF md5_append_repr [OF md5_init_repr]] by (simp add: md5_good_def md5_digest_aladdin_def)

lemma xor_secret_inj: "xor_secret x secret = xor_secret y secret \<Longrightarrow> x = y"
  by (metis xor_secret_twice)

subsection \<open>Contract\<close>

text \<open>The two sides negotiate successfully exactly on the same protocol revision: a client and a server
  of this code accept each other, and each refuses a peer whose four bytes differ from its own.
\<close>

lemma negotiate_revision:
  assumes "conn_ok c" "stream c = bs @ later" "length bs = 4" "length garbage = 4"
  shows "(\<exists>c1. server_negotiate [] garbage c =
      Some (if bs = be_list 4 PROTOCOL_REVISION then 0 else -1, be_list 4 PROTOCOL_REVISION, c1) \<and> stream c1 = later) \<and>
    client_negotiate True (bs @ rest) =
      (if bs = be_list 4 PROTOCOL_REVISION then 0 else -1, be_list 4 PROTOCOL_REVISION, rest)"
proof -
  have w: "le_list (length bs) (le_word bs :: u32) = bs" using assms(3) by (intro le_list_word) simp
  have eq: "le_word bs = htonl PROTOCOL_REVISION \<longleftrightarrow> bs = be_list 4 PROTOCOL_REVISION"
  proof
    assume "le_word bs = htonl PROTOCOL_REVISION"
    then have "le_list 4 (le_word bs :: u32) = be_list 4 PROTOCOL_REVISION" by (simp add: htonl_memory)
    then show "bs = be_list 4 PROTOCOL_REVISION" using w assms(3) by simp
  next
    assume "bs = be_list 4 PROTOCOL_REVISION"
    then show "le_word bs = htonl PROTOCOL_REVISION" by (simp add: htonl_memory [symmetric] le_word_list)
  qed
  obtain c1 where "full_read 4 c = Some (bs, c1)" "stream c1 = later"
    using full_read_complete [of c 4] assms by auto
  moreover have "fill_from bs garbage = bs" using assms(3,4) by (simp add: fill_from_def)
  moreover have "htonl PROTOCOL_REVISION = le_word bs \<longleftrightarrow> bs = be_list 4 PROTOCOL_REVISION" using eq by metis
  ultimately show ?thesis using assms(3)
    by (simp add: server_negotiate_def client_negotiate_def Let_def eq htonl_memory full_write_all)
qed

lemma negotiate_revision_witness:
  "\<exists>c1. server_negotiate [] [9, 9, 9, 9] \<lparr>segs = [be_list 4 PROTOCOL_REVISION], sock_end = Eof\<rparr> =
     Some (0, be_list 4 PROTOCOL_REVISION, c1)"
proof -
  have "be_list 4 PROTOCOL_REVISION \<noteq> []" by (metis be_list_length list.size(3) zero_neq_numeral)
  then show ?thesis
    using negotiate_revision [of "\<lparr>segs = [be_list 4 PROTOCOL_REVISION], sock_end = Eof\<rparr>" "be_list 4 PROTOCOL_REVISION"
        "[]" "[9, 9, 9, 9]" "[]"]
    by (simp add: conn_ok_def stream_def del: full_read.simps) blast
qed

text \<open>C26: a client and a server with the same non-empty secret authenticate, whatever the challenge and
  whichever of the two MD5 implementations each uses: the client answers the challenge with 16 bytes, the
  server that reads them returns success and sends the byte 0, on which the client returns success with
  its copy of the secret overwritten.
\<close>

theorem authenticate_same_secret:
  assumes "md5_good mc" "md5_good ms" "secret \<noteq> []" "length random = 64" "length garbage = 16"
  shows "\<exists>digest. client_authenticate mc True (random @ 0 # rest) secret = Inr (0, digest, rest, replicate (length secret) 0) \<and>
    (\<forall>c later. conn_ok c \<and> stream c = digest @ later \<longrightarrow>
      (\<exists>c1. server_authenticate ms (Some random) [] [] secret garbage c = Some (Inr (0, random @ [0], c1)) \<and> stream c1 = later))"
proof -
  define digest where "digest = md5_rfc (xor_secret random secret)"
  have l: "length digest = 16" by (simp add: digest_def)
  have m: "mc (xor_secret random secret) = digest" "ms (xor_secret random secret) = digest"
    using assms by (simp_all add: md5_good_def digest_def)
  have s: "\<exists>c1. server_authenticate ms (Some random) [] [] secret garbage c = Some (Inr (0, random @ [0], c1)) \<and> stream c1 = later"
    if c: "conn_ok c" "stream c = digest @ later" for c later
  proof -
    obtain c1 where "full_read 16 c = Some (digest, c1)" "stream c1 = later"
      using full_read_complete [OF c(1), of 16] c(2) l by auto
    moreover have "full_write [] random = random" by (simp add: full_write_all)
    ultimately show ?thesis
      using assms(3,5) m l by (cases random) (simp_all add: server_authenticate_def fill_from_def proof_of_def)
  qed
  show ?thesis
    using assms(3,4) m l s by (intro exI [of _ digest]) (simp add: client_authenticate_def proof_of_def Let_def)
qed

theorem authenticate_same_secret_witness:
  "\<exists>digest. client_authenticate (md5_digest_aladdin (replicate 64 0)) True (replicate 64 5 @ [0]) [107, 105] =
     Inr (0, digest, [], [0, 0])"
proof -
  have "md5_good (md5_digest_aladdin (replicate 64 0))" by (simp add: md5_good_aladdin)
  moreover have "replicate (length [107, 105 :: u8]) (0 :: u8) = [0, 0]" by (simp add: numeral_2_eq_2)
  ultimately show ?thesis
    using authenticate_same_secret [of "md5_digest_aladdin (replicate 64 0)" md5_digest "[107, 105]" "replicate 64 5" "replicate 16 0" "[]"]
      md5_good_table by auto
qed

text \<open>An answer recorded for one challenge is accepted for another only if MD5 collides on two
  different inputs of 64 bytes: the server compares with the digest of its own challenge.
\<close>

lemma authenticate_replay:
  assumes "server_authenticate md5 (Some rnd) w1 w2 secret garbage c = Some (Inr (0, out, c1))"
    "conn_ok c" "stream c = md5 (xor_secret old secret) @ later" "length (md5 (xor_secret old secret)) = 16"
    "length rnd = 64" "length old = 64" "length garbage = 16" "old \<noteq> rnd"
  shows "\<exists>x y. x \<noteq> y \<and> length x = 64 \<and> length y = 64 \<and> md5 x = md5 y"
proof -
  obtain c2 where "full_read 16 c = Some (md5 (xor_secret old secret), c2)"
    using full_read_complete [OF assms(2), of 16] assms(3,4) by auto
  then have "md5 (xor_secret old secret) = md5 (xor_secret rnd secret)"
    using assms(1,4,5,7) by (auto simp: server_authenticate_def fill_from_def proof_of_def split: if_splits)
  moreover have "xor_secret old secret \<noteq> xor_secret rnd secret" using assms(8) xor_secret_inj by blast
  ultimately show ?thesis using assms(5,6) by (metis xor_secret_length)
qed

lemma authenticate_replay_witness:
  "\<exists>x y :: u8 list. x \<noteq> y \<and> length x = 64 \<and> length y = 64 \<and> take 16 x = take 16 y"
proof -
  let ?md5 = "take 16 :: md5_impl" and ?c = "\<lparr>segs = [replicate 16 0], sock_end = Eof\<rparr>"
  let ?rnd = "replicate 64 1 :: u8 list" and ?old = "replicate 16 1 @ replicate 48 2 :: u8 list"
  have x: "xor_secret ?rnd [1] = replicate 64 0"
    by (rule nth_equalityI) (simp_all add: xor_secret_def)
  have y: "take 16 (xor_secret ?old [1]) = replicate 16 0"
    by (rule nth_equalityI) (simp_all add: xor_secret_def nth_append)
  obtain c1 where "full_read 16 ?c = Some (replicate 16 0, c1)"
    using full_read_complete [of ?c 16] by (auto simp: conn_ok_def stream_def)
  then have "server_authenticate ?md5 (Some ?rnd) [] [] [1] (replicate 16 0) ?c = Some (Inr (0, ?rnd @ [0], c1))"
    by (simp add: server_authenticate_def fill_from_def proof_of_def full_write_all x)
  moreover have "?old \<noteq> ?rnd"
  proof
    assume "?old = ?rnd"
    then have "?old ! 16 = ?rnd ! 16" by simp
    then show False by (simp add: nth_append)
  qed
  ultimately show ?thesis
    by (intro authenticate_replay [of ?md5 ?rnd "[]" "[]" "[1]" "replicate 16 0" ?c _ c1 ?old "[]"])
      (simp_all add: conn_ok_def stream_def y)
qed

end
