(* ===== verification/TsListing.thy ===== *)
theory TsListing
  imports TsCommon CStrings
begin

unbundle bit_operations_syntax

text \<open>
  Which file is asked for: the line with the name, the list of shared files (\<open>dir\<close> in the client) and the
  request for all of them (\<open>get *\<close>); \<^verbatim>\<open>server/protocol.c\<close> and \<^verbatim>\<open>client/command.c\<close>.
  Shared files are pairs of a name and a size.  The server's \<open>allhook\<close> program is not modelled.
\<close>

subsection \<open>Strings in memory\<close>

definition bytes_of :: "string \<Rightarrow> u8 list" where
  "bytes_of s = map (\<lambda>c. of_nat (of_char c)) s"

definition chars_of :: "u8 list \<Rightarrow> string" where
  "chars_of bs = map (\<lambda>b. char_of (unat b)) bs"

definition c_str :: "u8 list \<Rightarrow> u8 list" where
  "c_str mem = takeWhile (\<lambda>b. b \<noteq> 0) mem"

definition dec :: "nat \<Rightarrow> u8 list" where
  "dec n = bytes_of (nat_str n)"

text \<open>\<open>atoi\<close>, \<open>atol\<close> and \<open>sscanf\<close> with \<open>%u\<close>; a number outside of the type is undefined.\<close>

definition c_number :: "(int \<Rightarrow> bool) \<Rightarrow> u8 list \<Rightarrow> int res" where
  "c_number ok s =
     (case scan_num 10 None (chars_of s) of
        Scan_ok v r \<Rightarrow> if ok v then Inr v else Inl Int_overflow
      | _ \<Rightarrow> Inr 0)"

text \<open>\<open>fread_line\<close>: the status, the buffer and the rest of the input.\<close>

fun fread_line_loop :: "nat \<Rightarrow> nat \<Rightarrow> u8 list \<Rightarrow> u8 list \<Rightarrow> int \<times> u8 list \<times> u8 list" where
  "fread_line_loop len off buffer [] = (-1, buffer, [])"
| "fread_line_loop len off buffer (b # rest) =
     (if b \<noteq> 0 \<and> b \<noteq> 10 \<and> off + 1 < len then fread_line_loop len (off + 1) (buffer[off := b]) rest
      else (0, buffer[off := 0], rest))"

definition fread_line :: "nat \<Rightarrow> u8 list \<Rightarrow> u8 list \<Rightarrow> int \<times> u8 list \<times> u8 list" where
  "fread_line len buffer inp = fread_line_loop len 0 buffer inp"

subsection \<open>The server\<close>

type_synonym share = "u8 list \<times> nat"

definition TS_DIRLIST_HACK_CMD :: "u8 list" where
  "TS_DIRLIST_HACK_CMD = bytes_of ''!#DIR??''"

definition total_files :: "share list \<Rightarrow> nat" where
  "total_files files = length files mod 2 ^ 16"

definition file_name_size :: "share list \<Rightarrow> nat" where
  "file_name_size files = sum_list (map (\<lambda>(name, sz). length name + 1) files) mod 2 ^ 16"

definition dir_reply :: "share list \<Rightarrow> u8 list" where
  "dir_reply files = dec (total_files files) @ 0 #
     concat (map (\<lambda>(name, sz). name @ 0 # take 19 (dec sz) @ [0]) (take (total_files files) files))"

definition field10 :: "nat \<Rightarrow> u8 list" where
  "field10 n = take 9 (dec n) @ replicate (10 - length (take 9 (dec n))) 0"

definition multi_reply :: "share list \<Rightarrow> u8 list" where
  "multi_reply files = field10 (file_name_size files) @ field10 (total_files files) @
     concat (map (\<lambda>(name, sz). name @ [0]) (take (total_files files) files))"

text \<open>
  The name the client asks for in the end, with what was written before; no name after a listing.  \<open>None\<close>: the
  server waits for ever.
\<close>

definition server_request :: "share list \<Rightarrow> conn_in \<Rightarrow> (u8 list \<times> u8 list option \<times> conn_in) res option" where
  "server_request files c =
     (case read_line c 1024 of None \<Rightarrow> Some (Inl Fatal_exit)
      | Some (name, c1) \<Rightarrow>
          if name = TS_DIRLIST_HACK_CMD then
            Option.bind (full_read 1 c1) (\<lambda>(_, c2). Some (Inr (dir_reply files, None, c2)))
          else if name = bytes_of ''*'' then
            Option.bind (full_read 8 c1) (\<lambda>(_, c2). Option.bind (full_read 8 c2) (\<lambda>(_, c3).
              case read_line c3 1024 of None \<Rightarrow> Some (Inl Fatal_exit)
              | Some (name1, c4) \<Rightarrow> Some (Inr (multi_reply files, Some name1, c4))))
          else Some (Inr ([], Some name, c1)))"

subsection \<open>The client\<close>

text \<open>
  \<open>command_dir\<close>: the status, the bytes sent, the lines shown and the rest of the input; \<open>mem\<close> is the
  uninitialised array \<open>read_str\<close> of 2048 bytes.
\<close>

fun dir_loop :: "nat \<Rightarrow> u8 list \<Rightarrow> u8 list \<Rightarrow> (share list \<times> u8 list) res" where
  "dir_loop 0 mem inp = Inr ([], inp)"
| "dir_loop (Suc n) mem inp =
     (let (status1, mem1, inp1) = fread_line 2047 mem inp;
          (status2, mem2, inp2) = fread_line 2047 mem1 inp1
      in rbind (c_number in_llong (c_str mem2)) (\<lambda>filelen.
         rbind (dir_loop n mem2 inp2) (\<lambda>(shown, rest).
           Inr ((c_str mem1, nat (filelen mod 2 ^ 64)) # shown, rest))))"

definition command_dir :: "u8 list \<Rightarrow> u8 list \<Rightarrow> (int \<times> u8 list \<times> share list \<times> u8 list) res" where
  "command_dir mem inp =
     (let request = TS_DIRLIST_HACK_CMD @ [10] in
      case inp of [] \<Rightarrow> Inr (-1, request, [], [])
      | result # inp1 \<Rightarrow>
          if result = 8 then Inr (-1, request, [], inp1)
          else
            let (status, mem1, inp2) = fread_line 2046 (tl mem) inp1; read_str = result # mem1
            in rbind (c_number in_int (c_str read_str)) (\<lambda>v.
               rbind (dir_loop (nat (v mod 2 ^ 16)) read_str inp2) (\<lambda>(shown, rest).
                 Inr (0, request @ [0], shown, rest))))"

text \<open>
  The start of \<open>command_get\<close> for the name \<open>*\<close>: the status, the bytes sent, the names of the files it will get
  and the rest of the input.  The server answers 0 files with nothing more, so the client waits for a byte that
  does not come: \<open>None\<close>.
\<close>

fun names_loop :: "nat \<Rightarrow> u8 list \<Rightarrow> u8 list \<Rightarrow> u8 list list \<times> u8 list" where
  "names_loop 0 mem inp = ([], inp)"
| "names_loop (Suc n) mem inp =
     (let (status, mem1, inp1) = fread_line 1024 mem inp; (names, rest) = names_loop n mem1 inp1
      in (c_str mem1 # names, rest))"

definition get_all_names :: "u8 list \<Rightarrow> u8 list \<Rightarrow> u8 list \<Rightarrow> (int \<times> u8 list \<times> u8 list list \<times> u8 list) res option" where
  "get_all_names count_mem mem inp =
     (let star = bytes_of ''*'' @ [10]; got_size = bytes_of ''got size''; inp1 = drop 10 inp;
          file_count = put_bytes 0 (take 10 inp1) count_mem; inp2 = drop 10 inp1
      in if inp1 = [] then Some (Inr (-1, star @ got_size, [], []))
         else case c_number (\<lambda>v. 0 \<le> v \<and> v < 2 ^ 32) (c_str file_count) of Inl e \<Rightarrow> Some (Inl e)
           | Inr f_total \<Rightarrow>
               if f_total = 0 then (if inp2 = [] then None else Some (Inr (-1, star @ got_size, [], drop 1 inp2)))
               else let (names, rest) = names_loop (nat f_total) mem inp2
                    in Some (Inr (0, star @ got_size @ bytes_of ''got list'', names, rest)))"

subsection \<open>Lines and numbers\<close>

lemma chars_of_bytes_of [simp]: "chars_of (bytes_of s) = s"
  by (simp add: chars_of_def bytes_of_def comp_def unat_of_nat char_of_mod_256 map_idI)

lemma bytes_of_nth_zero: "b \<in> set (dec n) \<Longrightarrow> b \<noteq> 0 \<and> b \<noteq> 10 \<and> b \<noteq> 8"
proof -
  assume "b \<in> set (dec n)"
  then obtain d where d: "d < 10" "b = of_nat (of_char (digit_char d))"
    using nat_str_digits by (auto simp: dec_def bytes_of_def)
  then have "d \<in> set [0..<10]" by simp
  then show ?thesis using d(2) by (auto simp: digit_char_def upt_rec)
qed

lemma dec_ne [simp]: "dec n \<noteq> []"
  by (simp add: dec_def bytes_of_def)

lemma c_number_dec: "ok (int n) \<Longrightarrow> c_number ok (dec n) = Inr (int n)"
  using scan_num_nat_str [of "[]" 10 n] by (simp add: c_number_def dec_def)

lemma nat_str_length: "n < 10 ^ k \<Longrightarrow> 0 < k \<Longrightarrow> length (nat_str n) \<le> k"
proof (induction n arbitrary: k rule: nat_str.induct)
  case (1 n)
  show ?case
  proof (cases "n < 10")
    case True
    then show ?thesis using "1.prems" by (subst nat_str.simps) simp
  next
    case False
    then have "1 < k" using "1.prems" by (cases "k = 1") auto
    then obtain j where j: "k = Suc j" "0 < j" by (cases k) auto
    then have "n div 10 < 10 ^ j" using "1.prems" by simp
    then show ?thesis using 1(1) [OF False _ j(2)] False j by (subst nat_str.simps) simp
  qed
qed

lemma dec_length: "n < 10 ^ k \<Longrightarrow> 0 < k \<Longrightarrow> length (dec n) \<le> k"
  by (simp add: dec_def bytes_of_def nat_str_length)

lemma fread_line_loop_line:
  "0 \<notin> set line \<Longrightarrow> 10 \<notin> set line \<Longrightarrow> off + length line < len \<Longrightarrow> off + length line < length buffer \<Longrightarrow>
   fread_line_loop len off buffer (line @ 0 # rest) = (0, put_bytes off (line @ [0]) buffer, rest)"
proof (induction line arbitrary: off buffer)
  case Nil
  then show ?case by (simp add: put_bytes_def upd_conv_take_nth_drop)
next
  case (Cons b line)
  have "put_bytes (off + 1) (line @ [0]) (buffer[off := b]) = put_bytes off ((b # line) @ [0]) buffer"
    using Cons.prems by (simp add: put_bytes_def take_Suc_conv_app_nth)
  then show ?case using Cons by simp
qed

lemma c_str_line: "0 \<notin> set line \<Longrightarrow> c_str (line @ 0 # r) = line"
  by (induction line) (auto simp: c_str_def)

lemma fread_line_line:
  assumes "0 \<notin> set line" "10 \<notin> set line" "length line < len" "length line < length buffer"
  shows "\<exists>mem. fread_line len buffer (line @ 0 # rest) = (0, mem, rest) \<and> c_str mem = line \<and> length mem = length buffer \<and>
    (\<exists>r. mem = line @ 0 # r)"
  using fread_line_loop_line [of line 0 len buffer rest] assms c_str_line [of line]
  by (simp add: fread_line_def put_bytes_def)

lemma dec_line: "0 \<notin> set (dec n)" "10 \<notin> set (dec n)"
  using bytes_of_nth_zero by blast+

text \<open>A file that can be listed: a name without line ends, shorter than the client's array, a size that fits.\<close>

definition share_ok :: "share \<Rightarrow> bool" where
  "share_ok sh = (0 \<notin> set (fst sh) \<and> 10 \<notin> set (fst sh) \<and> length (fst sh) < 1024 \<and> snd sh < 2 ^ 63)"

lemma dir_loop_shares:
  "list_all share_ok files \<Longrightarrow> length mem = 2048 \<Longrightarrow>
   dir_loop (length files) mem (concat (map (\<lambda>(name, sz). name @ 0 # take 19 (dec sz) @ [0]) files) @ rest) =
     Inr (files, rest)"
proof (induction files arbitrary: mem)
  case (Cons sh files)
  obtain name sz where sh: "sh = (name, sz)" by (cases sh)
  let ?rest = "concat (map (\<lambda>(name, sz). name @ 0 # take 19 (dec sz) @ [0]) files) @ rest"
  have ok: "0 \<notin> set name" "10 \<notin> set name" "length name < 1024" "sz < 2 ^ 63"
    using Cons.prems(1) by (auto simp: sh share_ok_def)
  have l: "length (dec sz) \<le> 19" using ok(4) by (intro dec_length) simp_all
  then have t: "take 19 (dec sz) = dec sz" by simp
  obtain m1 where m1: "fread_line 2047 mem (name @ 0 # dec sz @ 0 # ?rest) = (0, m1, dec sz @ 0 # ?rest)" "c_str m1 = name"
      "length m1 = 2048"
    using fread_line_line [of name 2047 mem "dec sz @ 0 # ?rest"] ok(1-3) Cons.prems(2) by auto
  obtain m2 where m2: "fread_line 2047 m1 (dec sz @ 0 # ?rest) = (0, m2, ?rest)" "c_str m2 = dec sz" "length m2 = 2048"
    using fread_line_line [of "dec sz" 2047 m1 ?rest] dec_line l m1(3) by auto
  have "in_llong (int sz)" using ok(4) by (simp add: in_llong_def)
  then have "c_number in_llong (c_str m2) = Inr (int sz)" unfolding m2(2) by (rule c_number_dec)
  moreover have "nat (int sz mod 2 ^ 64) = sz" using ok(4) by simp
  moreover have "dir_loop (length files) m2 ?rest = Inr (files, rest)"
    using Cons.IH [OF _ m2(3)] Cons.prems(1) by simp
  ultimately show ?case using m1 m2(1) by (simp add: sh t)
qed simp

lemma names_loop_shares:
  "list_all share_ok files \<Longrightarrow> length mem = 1024 \<Longrightarrow>
   names_loop (length files) mem (concat (map (\<lambda>(name, sz). name @ [0]) files) @ rest) = (map fst files, rest)"
proof (induction files arbitrary: mem)
  case (Cons sh files)
  obtain name sz where sh: "sh = (name, sz)" by (cases sh)
  let ?rest = "concat (map (\<lambda>(name, sz). name @ [0]) files) @ rest"
  obtain m1 where m1: "fread_line 1024 mem (name @ 0 # ?rest) = (0, m1, ?rest)" "c_str m1 = name" "length m1 = 1024"
    using fread_line_line [of name 1024 mem ?rest] Cons.prems by (auto simp: sh share_ok_def)
  then show ?case using Cons.IH [OF _ m1(3)] Cons.prems(1) by (simp add: sh)
qed simp

lemma field10: "n < 2 ^ 16 \<Longrightarrow> \<exists>r. field10 n = dec n @ 0 # r \<and> length (field10 n) = 10"
proof -
  assume "n < 2 ^ 16"
  then have "length (dec n) \<le> 5" by (intro dec_length) simp_all
  then have "field10 n = dec n @ 0 # replicate (9 - length (dec n)) 0"
    by (simp add: field10_def Suc_diff_le flip: replicate_Suc)
  moreover have "length (field10 n) = 10" using \<open>length (dec n) \<le> 5\<close> by (simp add: field10_def)
  ultimately show ?thesis by simp
qed

lemma server_request_star:
  assumes "conn_ok c" "stream c = bytes_of ''*'' @ 10 # g @ h @ name @ 10 # later"
    "length g = 8" "length h = 8" "0 \<notin> set name" "10 \<notin> set name" "length name < 1024"
  shows "\<exists>c1. server_request files c = Some (Inr (multi_reply files, Some name, c1)) \<and> stream c1 = later \<and> conn_ok c1"
proof -
  obtain c1 where c1: "read_line c 1024 = Some (bytes_of ''*'', c1)" "stream c1 = g @ h @ name @ 10 # later" "conn_ok c1"
    using read_line_loop_line [OF assms(1,2), of "[]" 1024] by (auto simp: read_line_def bytes_of_def)
  obtain c2 where c2: "full_read 8 c1 = Some (g, c2)" "stream c2 = h @ name @ 10 # later" "conn_ok c2"
    using full_read_complete [OF c1(3), of 8] c1(2) assms(3) by auto
  obtain c3 where c3: "full_read 8 c2 = Some (h, c3)" "stream c3 = name @ 10 # later" "conn_ok c3"
    using full_read_complete [OF c2(3), of 8] c2(2) assms(4) by auto
  obtain c4 where c4: "read_line c3 1024 = Some (name, c4)" "stream c4 = later" "conn_ok c4"
    using read_line_loop_line [OF c3(3,2), of "[]" 1024] assms(5-7) by (auto simp: read_line_def)
  have "bytes_of ''*'' \<noteq> TS_DIRLIST_HACK_CMD" by (simp add: TS_DIRLIST_HACK_CMD_def bytes_of_def)
  then show ?thesis using c1 c2 c3 c4 by (simp add: server_request_def)
qed

lemma server_request_name:
  assumes "conn_ok c" "stream c = name @ 10 # later" "0 \<notin> set name" "10 \<notin> set name" "length name < 1024"
    "name \<noteq> TS_DIRLIST_HACK_CMD" "name \<noteq> bytes_of ''*''"
  shows "\<exists>c1. server_request files c = Some (Inr ([], Some name, c1)) \<and> stream c1 = later \<and> conn_ok c1"
  using read_line_loop_line [OF assms(1,2), of "[]" 1024] assms(3-7) by (auto simp: read_line_def server_request_def)

subsection \<open>Contract\<close>

text \<open>C28: \<open>dir\<close> in the client shows exactly the files the server shares, with their sizes: the text the server writes
  is parsed back by the client, whatever its uninitialised buffer holds, and after the client's last byte the server is
  ready for the next request on the same connection.
\<close>

theorem dir_listing_roundtrip:
  assumes "list_all share_ok files" "length files < 2 ^ 16" "length mem = 2048"
    "conn_ok c" "stream c = TS_DIRLIST_HACK_CMD @ 10 # 0 # later"
  shows "command_dir mem (dir_reply files) = Inr (0, TS_DIRLIST_HACK_CMD @ [10, 0], files, []) \<and>
    (\<exists>c1. server_request files c = Some (Inr (dir_reply files, None, c1)) \<and> stream c1 = later)"
proof -
  let ?n = "length files"
  let ?list = "concat (map (\<lambda>(name, sz). name @ 0 # take 19 (dec sz) @ [0]) files)"
  have n: "total_files files = ?n" using assms(2) by (simp add: total_files_def)
  then have reply: "dir_reply files = dec ?n @ 0 # ?list" by (simp add: dir_reply_def)
  obtain b ds where b: "dec ?n = b # ds" by (metis dec_ne list.exhaust)
  then have b8: "b \<noteq> 8" "0 \<notin> set ds" "10 \<notin> set ds" using bytes_of_nth_zero [of b ?n] dec_line [of ?n] by auto
  have "length (dec ?n) \<le> 5" using assms(2) by (intro dec_length) simp_all
  then have "length ds < 2046" "length ds < length (tl mem)" using b assms(3) by simp_all
  from fread_line_line [OF b8(2,3) this, of ?list] obtain m1 r where
    m1: "fread_line 2046 (tl mem) (ds @ 0 # ?list) = (0, m1, ?list)" "length m1 = 2047" "m1 = ds @ 0 # r"
    using assms(3) by (elim exE conjE) simp
  have "c_str (b # m1) = dec ?n" using m1(3) b c_str_line [of "dec ?n" r] dec_line [of ?n] by simp
  moreover have "in_int (int ?n)" using assms(2) by (simp add: in_int_def)
  ultimately have v: "c_number in_int (c_str (b # m1)) = Inr (int ?n)" using c_number_dec by metis
  have "dir_loop ?n (b # m1) ?list = Inr (files, [])" using dir_loop_shares [OF assms(1), of "b # m1" "[]"] m1(2) by simp
  moreover have "nat (int ?n mod 2 ^ 16) = ?n" using assms(2) by simp
  ultimately have "command_dir mem (dir_reply files) = Inr (0, TS_DIRLIST_HACK_CMD @ [10, 0], files, [])"
    using m1(1) b8 v by (simp add: command_dir_def reply b)
  moreover have "\<exists>c1. server_request files c = Some (Inr (dir_reply files, None, c1)) \<and> stream c1 = later"
  proof -
    have "0 \<notin> set TS_DIRLIST_HACK_CMD" "10 \<notin> set TS_DIRLIST_HACK_CMD" "length TS_DIRLIST_HACK_CMD < 1024"
      by (simp_all add: TS_DIRLIST_HACK_CMD_def bytes_of_def)
    then obtain c1 where c1: "read_line c 1024 = Some (TS_DIRLIST_HACK_CMD, c1)" "stream c1 = 0 # later" "conn_ok c1"
      using read_line_loop_line [OF assms(4,5), of "[]" 1024] by (auto simp: read_line_def)
    obtain c2 where "full_read 1 c1 = Some ([0], c2)" "stream c2 = later"
      using full_read_complete [OF c1(3), of 1] c1(2) by auto
    then show ?thesis using c1 by (simp add: server_request_def)
  qed
  ultimately show ?thesis by blast
qed

theorem dir_listing_roundtrip_witness:
  "command_dir (replicate 2048 9) (dir_reply [([97, 98], 1234), ([99], 0)]) =
     Inr (0, TS_DIRLIST_HACK_CMD @ [10, 0], [([97, 98], 1234), ([99], 0)], [])"
proof -
  let ?c = "\<lparr>segs = [TS_DIRLIST_HACK_CMD @ [10, 0]], sock_end = Eof\<rparr>"
  have "conn_ok ?c" "stream ?c = TS_DIRLIST_HACK_CMD @ 10 # 0 # []" by (simp_all add: conn_ok_def stream_def)
  then show ?thesis
    using dir_listing_roundtrip [of "[([97, 98], 1234), ([99], 0)]" "replicate 2048 9" ?c "[]"] by (simp add: share_ok_def)
qed

text \<open>\<open>get *\<close> agrees on the list of files: when the server shares at least one file, the client learns the names in
  order, and the server takes the name the client asks for first, with the two acknowledgements in between
  consumed; when it shares none, the client waits for a byte that the server does not send.
\<close>

lemma get_all_names_agree:
  assumes "list_all share_ok files" "length files < 2 ^ 16" "length count_mem = 10" "length mem = 1024"
    "conn_ok c" "stream c = bytes_of ''*'' @ 10 # bytes_of ''got size'' @ bytes_of ''got list'' @ name @ 10 # later"
    "0 \<notin> set name" "10 \<notin> set name" "length name < 1024"
  shows "get_all_names count_mem mem (multi_reply files) =
      (if files = [] then None
       else Some (Inr (0, bytes_of ''*'' @ 10 # bytes_of ''got size'' @ bytes_of ''got list'', map fst files, []))) \<and>
    (\<exists>c1. server_request files c = Some (Inr (multi_reply files, Some name, c1)) \<and> stream c1 = later)"
proof -
  let ?n = "length files" and ?list = "concat (map (\<lambda>(name, sz). name @ [0]) files)"
  have n: "total_files files = ?n" using assms(2) by (simp add: total_files_def)
  then have reply: "multi_reply files = field10 (file_name_size files) @ field10 ?n @ ?list" by (simp add: multi_reply_def)
  have "file_name_size files < 2 ^ 16" by (simp add: file_name_size_def)
  then have l1: "length (field10 (file_name_size files)) = 10" using field10 by blast
  obtain r where f: "field10 ?n = dec ?n @ 0 # r" "length (field10 ?n) = 10" using field10 [OF assms(2)] by blast
  then have "put_bytes 0 (field10 ?n) count_mem = dec ?n @ 0 # r" using assms(3) by (simp add: put_bytes_def)
  then have "c_str (put_bytes 0 (field10 ?n) count_mem) = dec ?n" using c_str_line dec_line by simp
  then have v: "c_number (\<lambda>v. 0 \<le> v \<and> v < 2 ^ 32) (c_str (put_bytes 0 (field10 ?n) count_mem)) = Inr (int ?n)"
    using assms(2) by (simp add: c_number_dec)
  define inp1 where "inp1 = drop 10 (multi_reply files)"
  have inp1: "inp1 = field10 ?n @ ?list" using l1 by (simp add: inp1_def reply)
  then have "take (length (field10 ?n)) inp1 = field10 ?n" "drop (length (field10 ?n)) inp1 = ?list" by simp_all
  then have d: "take 10 inp1 = field10 ?n" "drop 10 inp1 = ?list" unfolding f(2) .
  have "inp1 \<noteq> []" using inp1 f(2) by force
  have "names_loop ?n mem ?list = (map fst files, [])" using names_loop_shares [OF assms(1,4), of "[]"] by simp
  then have "get_all_names count_mem mem (multi_reply files) =
      (if files = [] then None
       else Some (Inr (0, bytes_of ''*'' @ 10 # bytes_of ''got size'' @ bytes_of ''got list'', map fst files, [])))"
    using v d \<open>inp1 \<noteq> []\<close> by (simp add: get_all_names_def Let_def flip: inp1_def)
  then show ?thesis
    using server_request_star [OF assms(5,6)] assms(7-9) by (auto simp: bytes_of_def)
qed

lemma get_all_names_agree_witness:
  "get_all_names (replicate 10 7) (replicate 1024 9) (multi_reply [([97, 98], 1234), ([99], 0)]) =
     Some (Inr (0, bytes_of ''*'' @ 10 # bytes_of ''got size'' @ bytes_of ''got list'', [[97, 98], [99]], []))"
proof -
  let ?c = "\<lparr>segs = [bytes_of ''*'' @ 10 # bytes_of ''got size'' @ bytes_of ''got list'' @ [99, 10]], sock_end = Eof\<rparr>"
  have "conn_ok ?c" "stream ?c = bytes_of ''*'' @ 10 # bytes_of ''got size'' @ bytes_of ''got list'' @ [99] @ 10 # []"
    by (simp_all add: conn_ok_def stream_def)
  then show ?thesis
    using get_all_names_agree [of "[([97, 98], 1234), ([99], 0)]" "replicate 10 7" "replicate 1024 9" ?c "[99]" "[]"]
    by (simp add: share_ok_def)
qed

end
