(* ===== verification/TsServer.thy ===== *)
theory TsServer
  imports TsHandshake TsListing Complex_Main
begin

unbundle bit_operations_syntax

text \<open>
  The Tsunami server: opening a transfer, the datagrams and the answers to requests
  (\<^verbatim>\<open>server/protocol.c\<close>, \<^verbatim>\<open>server/io.c\<close>) and the transmission loop of
  \<^verbatim>\<open>client_handler\<close> (\<^verbatim>\<open>server/main.c\<close>).  Numbers of C type \<open>u_int32_t\<close> are natural
  numbers with the reduction modulo 2^32 written out as \<open>w32\<close>.
\<close>

subsection \<open>Parameters and state\<close>

definition w32 :: "nat \<Rightarrow> nat" where
  "w32 n = n mod 2 ^ 32"

record srv_par =
  p_block_size :: nat
  p_file_size :: nat
  p_block_count :: nat
  p_target_rate :: nat
  p_error_rate :: nat
  p_ipd_time :: nat
  p_slower_num :: nat
  p_slower_den :: nat
  p_faster_num :: nat
  p_faster_den :: nat

text \<open>
  The transfer: the file and the position in it, the static variable \<open>last_block\<close> of
  \<open>build_datagram\<close>, the current block and inter-packet delay; and the locals of
  \<open>client_handler\<close>: the buffers \<open>datagram\<close> and \<open>retransmission\<close> with the bytes received into
  the latter, the counter of the heartbeat.  \<open>sv_out\<close> collects the datagrams sent.
\<close>

record srv =
  sv_data :: "u8 list"
  sv_pos :: nat
  sv_last :: nat
  sv_block :: nat
  sv_ipd :: rat
  sv_dgram :: "u8 list"
  sv_mem :: "u8 list"
  sv_rlen :: nat
  sv_dead :: nat
  sv_out :: "u8 list list"

subsection \<open>Opening a transfer\<close>

text \<open>
  What \<open>ttp_open_transfer\<close> reads behind the name and computes from it, the size of the file being known.
  Both divisions trap on a zero chosen by the client.
\<close>

definition read_params :: "u8 list \<Rightarrow> srv_par" where
  "read_params bs = \<lparr>
     p_block_size = unat (htonl (le_word (take 4 bs))), p_file_size = 0, p_block_count = 0,
     p_target_rate = unat (htonl (le_word (take 4 (drop 4 bs)))),
     p_error_rate = unat (htonl (le_word (take 4 (drop 8 bs)))), p_ipd_time = 0,
     p_slower_num = unat (htons (le_word (take 2 (drop 12 bs)))),
     p_slower_den = unat (htons (le_word (take 2 (drop 14 bs)))),
     p_faster_num = unat (htons (le_word (take 2 (drop 16 bs)))),
     p_faster_den = unat (htons (le_word (take 2 (drop 18 bs))))\<rparr>"

definition set_counts :: "nat \<Rightarrow> srv_par \<Rightarrow> srv_par res" where
  "set_counts fsize par =
     (if p_block_size par = 0 \<or> p_target_rate par = 0 then Inl Div_by_zero
      else Inr (par\<lparr>p_file_size := fsize,
        p_block_count := w32 (fsize div p_block_size par + (if fsize mod p_block_size par \<noteq> 0 then 1 else 0)),
        p_ipd_time := w32 (1000000 * 8 * p_block_size par div p_target_rate par)\<rparr>))"

definition transfer_reply :: "srv_par \<Rightarrow> nat \<Rightarrow> u8 list" where
  "transfer_reply par epoch =
     le_list 8 (htonll (of_nat (p_file_size par))) @ le_list 4 (htonl (of_nat (p_block_size par))) @
     le_list 4 (htonl (of_nat (p_block_count par))) @ le_list 4 (htonl (of_nat epoch))"

text \<open>
  \<open>file\<close> is what \<open>fopen\<close> finds under the name; a missing file is answered with the byte 8.  The results are
  the status, the bytes written, the parameters with the contents of the file, and the connection.
\<close>

definition server_open_transfer ::
    "share list \<Rightarrow> (u8 list \<Rightarrow> u8 list option) \<Rightarrow> nat \<Rightarrow> conn_in \<Rightarrow>
     (int \<times> u8 list \<times> (srv_par \<times> u8 list) option \<times> conn_in) res option" where
  "server_open_transfer shares file epoch c =
     (case server_request shares c of None \<Rightarrow> None
      | Some (Inl e) \<Rightarrow> Some (Inl e)
      | Some (Inr (out, None, c1)) \<Rightarrow> Some (Inr (-1, out, None, c1))
      | Some (Inr (out, Some name, c1)) \<Rightarrow>
          (case file name of None \<Rightarrow> Some (Inr (-1, out @ [8], None, c1))
           | Some content \<Rightarrow>
               Option.bind (full_read 20 c1) (\<lambda>(bs, c2). Some
                 (rbind (set_counts (length content) (read_params bs)) (\<lambda>par.
                    Inr (0, out @ 0 # transfer_reply par epoch, Some (par, content), c2))))))"

definition open_srv :: "srv_par \<Rightarrow> u8 list \<Rightarrow> srv \<Rightarrow> srv" where
  "open_srv par content st = st\<lparr>sv_data := content, sv_pos := 0, sv_block := 0,
     sv_ipd := of_nat (w32 (3 * p_ipd_time par)), sv_rlen := 0, sv_dead := 0\<rparr>"

subsection \<open>Datagrams\<close>

definition build_datagram :: "srv_par \<Rightarrow> nat \<Rightarrow> u16 \<Rightarrow> srv \<Rightarrow> srv" where
  "build_datagram par block_index block_type st =
     (let pos = (if block_index \<noteq> w32 (sv_last st + 1)
                 then p_block_size par * w32 (block_index + (2 ^ 32 - 1)) else sv_pos st);
          got = take (p_block_size par) (drop pos (sv_data st));
          header = le_list 4 (htonl (of_nat block_index)) @ le_list 2 (htons block_type)
      in st\<lparr>sv_pos := pos + length got, sv_last := block_index,
            sv_dgram := put_bytes 0 header (put_bytes 6 got (sv_dgram st))\<rparr>)"

text \<open>The inter-packet delay, in rational numbers for the code's \<open>double\<close>.\<close>

definition adjust_ipd :: "srv_par \<Rightarrow> nat \<Rightarrow> rat \<Rightarrow> rat" where
  "adjust_ipd par rate ipd =
     (let ipd1 = (if rate > p_error_rate par
          then let factor1 = of_nat (p_slower_num par) / of_nat (p_slower_den par) - 1;
                   factor2 = (1 + of_nat rate - of_nat (p_error_rate par)) / (100000 - of_nat (p_error_rate par))
               in ipd * (1 + factor1 * factor2)
          else ipd * (of_nat (p_faster_num par) / of_nat (p_faster_den par)))
      in max (min ipd1 10000) (of_nat (p_ipd_time par)))"

text \<open>
  \<open>ttp_accept_retransmit\<close> on the structure in memory, which it converts to host byte order in place;
  \<open>sent\<close> is the result of \<open>sendto\<close>.
\<close>

definition host_order :: "retransmission \<Rightarrow> u8 list \<Rightarrow> u8 list" where
  "host_order rq mem = put_bytes 8 (le_list 4 (htonl (rq_error_rate rq))) (put_bytes 4 (le_list 4 (htonl (rq_block rq))) mem)"

definition ttp_accept_retransmit :: "srv_par \<Rightarrow> bool \<Rightarrow> srv \<Rightarrow> int \<times> srv" where
  "ttp_accept_retransmit par sent st0 =
     (let rq = retransmission_of (sv_mem st0); block = unat (htonl (rq_block rq));
          rate = unat (htonl (rq_error_rate rq)); type = htons (request_type rq);
          st = st0\<lparr>sv_mem := host_order rq (sv_mem st0)\<rparr> in
      if type = REQUEST_ERROR_RATE then (0, st\<lparr>sv_ipd := adjust_ipd par rate (sv_ipd st)\<rparr>)
      else if type = REQUEST_RESTART
        then if block = 0 \<or> block > p_block_count par then (-1, st) else (0, st\<lparr>sv_block := block\<rparr>)
      else if type = REQUEST_RETRANSMIT
        then let st1 = build_datagram par block TS_BLOCK_RETRANSMISSION st
             in if sent then (0, st1\<lparr>sv_out := sv_out st1 @ [sv_dgram st1]\<rparr>) else (-1, st1)
      else (-1, st))"

subsection \<open>The transmission loop\<close>

text \<open>
  What one iteration meets: what \<open>read\<close> finds (nothing: \<open>errno\<close> is \<open>EAGAIN\<close>; bytes; or a
  failure, on which the process exits), the result of \<open>sendto\<close>, and the clock: half a second passed
  since the last report, the heartbeat timed out.
\<close>

datatype rd = Rd_none | Rd_bytes "u8 list" | Rd_fail

record tick =
  t_read :: rd
  t_sent :: bool
  t_report_due :: bool
  t_timeout :: bool

datatype srv_next = Srv_continue | Srv_stopped | Srv_timeout | Srv_exit

definition fake_report :: "u8 list \<Rightarrow> u8 list" where
  "fake_report mem = put_bytes 4 (le_list 4 (0 :: u32)) (put_bytes 8 (le_list 4 (htonl 100000))
     (put_bytes 0 (le_list 2 (htons REQUEST_ERROR_RATE)) mem))"

definition heartbeat :: "srv_par \<Rightarrow> tick \<Rightarrow> srv \<Rightarrow> srv_next \<times> srv" where
  "heartbeat par tk st =
     (if sv_dead st > 2048 then
        let st1 = st\<lparr>sv_dead := 0\<rparr> in
        if \<not> t_report_due tk then (Srv_continue, st1)
        else
          let st2 = snd (ttp_accept_retransmit par (t_sent tk) (st1\<lparr>sv_mem := fake_report (sv_mem st1)\<rparr>))
          in (if t_timeout tk then Srv_timeout else Srv_continue, st2)
      else (Srv_continue, st\<lparr>sv_dead := w32 (sv_dead st + 1)\<rparr>))"

definition read_request :: "tick \<Rightarrow> srv \<Rightarrow> srv" where
  "read_request tk st =
     (case t_read tk of Rd_none \<Rightarrow> st | Rd_fail \<Rightarrow> st
      | Rd_bytes bs0 \<Rightarrow> let bs = take (12 - sv_rlen st) bs0
          in st\<lparr>sv_mem := put_bytes (sv_rlen st) bs (sv_mem st), sv_rlen := sv_rlen st + length bs\<rparr>)"

definition send_next :: "srv_par \<Rightarrow> tick \<Rightarrow> srv \<Rightarrow> srv_next \<times> srv" where
  "send_next par tk st =
     (let block = min (w32 (sv_block st + 1)) (p_block_count par);
          block_type = (if block = p_block_count par then TS_BLOCK_TERMINATE else TS_BLOCK_ORIGINAL);
          st1 = build_datagram par block block_type (st\<lparr>sv_block := block\<rparr>)
      in if t_sent tk then heartbeat par tk (st1\<lparr>sv_out := sv_out st1 @ [sv_dgram st1]\<rparr>)
         else (Srv_continue, st1))"

definition server_iter :: "srv_par \<Rightarrow> tick \<Rightarrow> srv \<Rightarrow> srv_next \<times> srv" where
  "server_iter par tk st0 =
     (let st = read_request tk st0 in
      if t_read tk = Rd_fail then (Srv_exit, st)
      else if sv_rlen st = 12 then
        let st1 = st\<lparr>sv_dead := 0\<rparr> in
        if htons (request_type (retransmission_of (sv_mem st1))) = REQUEST_STOP then (Srv_stopped, st1)
        else let st2 = snd (ttp_accept_retransmit par (t_sent tk) st1) in heartbeat par tk (st2\<lparr>sv_rlen := 0\<rparr>)
      else if sv_rlen st < 12 then send_next par tk st
      else heartbeat par tk (st\<lparr>sv_rlen := 0\<rparr>))"

text \<open>The loop \<open>while (xfer->block <= param->block_count)\<close> over the iterations a list of ticks describes.\<close>

fun server_loop :: "srv_par \<Rightarrow> tick list \<Rightarrow> srv \<Rightarrow> srv_next \<times> srv" where
  "server_loop par [] st = (Srv_continue, st)"
| "server_loop par (tk # tks) st =
     (if sv_block st \<le> p_block_count par then
        case server_iter par tk st of
          (Srv_continue, st1) \<Rightarrow> server_loop par tks st1
        | (r, st1) \<Rightarrow> (r, st1)
      else (Srv_stopped, st))"

subsection \<open>Every datagram carries its block\<close>

definition block_data :: "srv_par \<Rightarrow> u8 list \<Rightarrow> nat \<Rightarrow> u8 list" where
  "block_data par content b = take (p_block_size par) (drop ((b - 1) * p_block_size par) content)"

definition par_ok :: "srv_par \<Rightarrow> u8 list \<Rightarrow> bool" where
  "par_ok par content =
     (0 < p_block_size par \<and> p_file_size par = length content \<and> p_block_count par + 1 < 2 ^ 32 \<and>
      p_block_count par = length content div p_block_size par + (if length content mod p_block_size par \<noteq> 0 then 1 else 0))"

text \<open>
  Between two calls of \<open>build_datagram\<close> the position in the file is right for the block after
  \<open>last_block\<close>, while that is a block of the file.
\<close>

definition srv_ok :: "srv_par \<Rightarrow> u8 list \<Rightarrow> srv \<Rightarrow> bool" where
  "srv_ok par content st =
     (sv_data st = content \<and> length (sv_dgram st) = 6 + p_block_size par \<and> length (sv_mem st) = 12 \<and>
      sv_block st \<le> p_block_count par \<and> sv_last st < 2 ^ 32 \<and>
      (sv_last st < p_block_count par \<longrightarrow> sv_pos st = sv_last st * p_block_size par))"

definition carries :: "srv_par \<Rightarrow> u8 list \<Rightarrow> u8 list \<Rightarrow> nat \<Rightarrow> bool" where
  "carries par content dg b =
     (length dg = 6 + p_block_size par \<and> take 4 dg = be_list 4 (of_nat b :: u32) \<and>
      take (length (block_data par content b)) (drop 6 dg) = block_data par content b)"

lemma full_block:
  assumes "par_ok par content" "1 \<le> b" "b < p_block_count par"
  shows "b * p_block_size par \<le> length content"
proof -
  have "b \<le> length content div p_block_size par" using assms by (auto simp: par_ok_def split: if_splits)
  then have "b * p_block_size par \<le> length content div p_block_size par * p_block_size par" by (rule mult_le_mono1)
  then show ?thesis using div_times_less_eq_dividend order_trans by blast
qed

lemma full_block_length:
  assumes "par_ok par content" "1 \<le> b" "b < p_block_count par"
  shows "length (block_data par content b) = p_block_size par"
proof -
  have "(b - 1) * p_block_size par + p_block_size par = b * p_block_size par"
    using assms(2) by (cases b) simp_all
  then show ?thesis using full_block [OF assms] by (auto simp: block_data_def min_def)
qed

lemma w32_pred: "1 \<le> b \<Longrightarrow> b < 2 ^ 32 \<Longrightarrow> w32 (b + (2 ^ 32 - 1)) = b - 1"
proof -
  assume b: "1 \<le> b" "b < 2 ^ 32"
  then have "b + (2 ^ 32 - 1) = (b - 1) + 2 ^ 32" by simp
  then have "w32 (b + (2 ^ 32 - 1)) = ((b - 1) + 2 ^ 32) mod 2 ^ 32" by (simp only: w32_def)
  also have "\<dots> = b - 1" unfolding mod_add_self2 using b by (intro mod_less) simp
  finally show ?thesis .
qed

lemma build_datagram_ok:
  assumes "par_ok par content" "srv_ok par content st" "1 \<le> b" "b \<le> p_block_count par"
    and st'_def: "st' = build_datagram par b ty st"
  shows "srv_ok par content st'" "carries par content (sv_dgram st') b" "sv_last st' = b"
    "sv_dgram st' = be_list 4 (of_nat b :: u32) @ le_list 2 (htons ty) @ block_data par content b @
       drop (6 + length (block_data par content b)) (sv_dgram st)"
proof -
  let ?bs = "p_block_size par" and ?d = "block_data par content b"
  have b32: "b < 2 ^ 32" using assms by (simp add: par_ok_def)
  have pos: "(if b \<noteq> w32 (sv_last st + 1) then ?bs * w32 (b + (2 ^ 32 - 1)) else sv_pos st) = (b - 1) * ?bs"
  proof (cases "b = w32 (sv_last st + 1)")
    case True
    moreover have "sv_last st + 1 < 2 ^ 32"
    proof (rule ccontr)
      assume "\<not> sv_last st + 1 < 2 ^ 32"
      then have "sv_last st + 1 = 2 ^ 32" using assms(2) by (simp add: srv_ok_def)
      then have "b = 0" using True by (simp add: w32_def)
      then show False using assms(3) by simp
    qed
    ultimately have "b = sv_last st + 1" by (simp add: w32_def)
    then show ?thesis using assms(2,4) True by (simp add: srv_ok_def)
  next
    case False
    then show ?thesis using w32_pred [OF assms(3) b32] by (simp add: mult.commute)
  qed
  have got: "take ?bs (drop ((b - 1) * ?bs) (sv_data st)) = ?d"
    using assms(2) by (simp add: block_data_def srv_ok_def)
  have le: "length ?d \<le> ?bs" by (simp add: block_data_def)
  have len: "length (sv_dgram st) = 6 + ?bs" using assms(2) by (simp add: srv_ok_def)
  have st': "st' = st\<lparr>sv_pos := (b - 1) * ?bs + length ?d, sv_last := b,
      sv_dgram := put_bytes 0 (le_list 4 (htonl (of_nat b)) @ le_list 2 (htons ty)) (put_bytes 6 ?d (sv_dgram st))\<rparr>"
    unfolding st'_def build_datagram_def Let_def pos got ..
  show "sv_last st' = b" by (simp add: st')
  show dg: "sv_dgram st' = be_list 4 (of_nat b :: u32) @ le_list 2 (htons ty) @ ?d @ drop (6 + length ?d) (sv_dgram st)"
    using len le by (simp add: st' put_bytes_def htonl_memory)
  show "carries par content (sv_dgram st') b"
    unfolding carries_def dg using len le by simp
  have "b < p_block_count par \<Longrightarrow> (b - 1) * ?bs + length ?d = b * ?bs"
    using full_block_length [OF assms(1,3)] assms(3) by (cases b) simp_all
  then show "srv_ok par content st'"
    using assms(2) b32 len le dg by (simp add: srv_ok_def st')
qed

definition outs_ok :: "srv_par \<Rightarrow> u8 list \<Rightarrow> u8 list list \<Rightarrow> bool" where
  "outs_ok par content out = (\<forall>dg\<in>set out. \<exists>b. 1 \<le> b \<and> b \<le> p_block_count par \<and> carries par content dg b)"

text \<open>A request the client may send: a block to retransmit is a block of the file.\<close>

definition msg_ok :: "srv_par \<Rightarrow> retransmission \<Rightarrow> bool" where
  "msg_ok par rq =
     (htons (request_type rq) = REQUEST_RETRANSMIT \<longrightarrow>
        1 \<le> unat (htonl (rq_block rq)) \<and> unat (htonl (rq_block rq)) \<le> p_block_count par)"

lemma request_codes [simp]:
  "REQUEST_ERROR_RATE \<noteq> REQUEST_RETRANSMIT" "REQUEST_RESTART \<noteq> REQUEST_RETRANSMIT" "REQUEST_STOP \<noteq> REQUEST_RETRANSMIT"
  "REQUEST_ERROR_RATE \<noteq> REQUEST_RESTART" "REQUEST_ERROR_RATE \<noteq> REQUEST_STOP" "REQUEST_RESTART \<noteq> REQUEST_STOP"
  "REQUEST_RETRANSMIT \<noteq> REQUEST_ERROR_RATE" "REQUEST_RETRANSMIT \<noteq> REQUEST_RESTART" "REQUEST_RETRANSMIT \<noteq> REQUEST_STOP"
  "REQUEST_RESTART \<noteq> REQUEST_ERROR_RATE" "REQUEST_STOP \<noteq> REQUEST_ERROR_RATE" "REQUEST_STOP \<noteq> REQUEST_RESTART"
  by (simp_all add: REQUEST_ERROR_RATE_def REQUEST_RETRANSMIT_def REQUEST_RESTART_def REQUEST_STOP_def)

lemma host_order_length [simp]: "length mem = 12 \<Longrightarrow> length (host_order rq mem) = 12"
  by (simp add: host_order_def put_bytes_def)

lemma fake_report_length [simp]: "length mem = 12 \<Longrightarrow> length (fake_report mem) = 12"
  by (simp add: fake_report_def put_bytes_def)

lemma fake_report_of: "length mem = 12 \<Longrightarrow> retransmission_of (fake_report mem) =
    \<lparr>request_type = htons REQUEST_ERROR_RATE, rq_block = 0, rq_error_rate = htonl 100000\<rparr>"
  by (simp add: retransmission_of_def fake_report_def put_bytes_def le_word_list min_def)

lemma accept_ok:
  assumes "par_ok par content" "srv_ok par content st" "outs_ok par content (sv_out st)"
    and "msg_ok par (retransmission_of (sv_mem st))"
    and st'_def: "st' = snd (ttp_accept_retransmit par sent st)"
  shows "srv_ok par content st' \<and> outs_ok par content (sv_out st') \<and> sv_rlen st' = sv_rlen st"
proof -
  define rq where "rq = retransmission_of (sv_mem st)"
  define block where "block = unat (htonl (rq_block rq))"
  define st1 where "st1 = st\<lparr>sv_mem := host_order rq (sv_mem st)\<rparr>"
  have st1: "srv_ok par content st1" "outs_ok par content (sv_out st1)" "sv_rlen st1 = sv_rlen st"
    using assms(2,3) by (simp_all add: st1_def srv_ok_def)
  have acc: "st' = (if htons (request_type rq) = REQUEST_ERROR_RATE
      then st1\<lparr>sv_ipd := adjust_ipd par (unat (htonl (rq_error_rate rq))) (sv_ipd st1)\<rparr>
      else if htons (request_type rq) = REQUEST_RESTART
        then if block = 0 \<or> block > p_block_count par then st1 else st1\<lparr>sv_block := block\<rparr>
      else if htons (request_type rq) = REQUEST_RETRANSMIT
        then let st2 = build_datagram par block TS_BLOCK_RETRANSMISSION st1
             in if sent then st2\<lparr>sv_out := sv_out st2 @ [sv_dgram st2]\<rparr> else st2
      else st1)"
    by (simp add: st'_def ttp_accept_retransmit_def Let_def rq_def block_def st1_def)
  show ?thesis
  proof (cases "htons (request_type rq) = REQUEST_RETRANSMIT")
    case True
    define st2 where "st2 = build_datagram par block TS_BLOCK_RETRANSMISSION st1"
    have b: "1 \<le> block" "block \<le> p_block_count par"
      using assms(4) True by (simp_all add: msg_ok_def rq_def block_def)
    have st2: "srv_ok par content st2" "carries par content (sv_dgram st2) block"
      using build_datagram_ok [OF assms(1) st1(1) b st2_def] by blast+
    have same: "sv_out st2 = sv_out st1" "sv_rlen st2 = sv_rlen st1" by (simp_all add: st2_def build_datagram_def Let_def)
    have "st' = (if sent then st2\<lparr>sv_out := sv_out st2 @ [sv_dgram st2]\<rparr> else st2)"
      using acc True by (simp add: st2_def Let_def)
    moreover have "srv_ok par content (st2\<lparr>sv_out := sv_out st2 @ [sv_dgram st2]\<rparr>)" using st2(1) by (simp add: srv_ok_def)
    moreover have "outs_ok par content (sv_out st2 @ [sv_dgram st2])"
      using st1(2) st2(2) b same by (auto simp: outs_ok_def)
    ultimately show ?thesis using st2 st1 same by (simp add: outs_ok_def)
  next
    case False
    then show ?thesis using st1 unfolding acc by (auto simp: srv_ok_def)
  qed
qed

lemma heartbeat_ok:
  assumes "par_ok par content" "srv_ok par content st" "outs_ok par content (sv_out st)"
  shows "srv_ok par content (snd (heartbeat par tk st)) \<and> outs_ok par content (sv_out (snd (heartbeat par tk st))) \<and>
    sv_rlen (snd (heartbeat par tk st)) = sv_rlen st"
proof -
  define st1 where "st1 = st\<lparr>sv_dead := 0\<rparr>"
  define st2 where "st2 = st1\<lparr>sv_mem := fake_report (sv_mem st1)\<rparr>"
  have "length (sv_mem st1) = 12" using assms(2) by (simp add: srv_ok_def st1_def)
  then have "msg_ok par (retransmission_of (sv_mem st2))" by (simp add: st2_def msg_ok_def fake_report_of)
  moreover have "srv_ok par content st2" "outs_ok par content (sv_out st2)"
    using assms(2,3) by (simp_all add: srv_ok_def st1_def st2_def)
  ultimately have "srv_ok par content (snd (ttp_accept_retransmit par (t_sent tk) st2)) \<and>
      outs_ok par content (sv_out (snd (ttp_accept_retransmit par (t_sent tk) st2))) \<and>
      sv_rlen (snd (ttp_accept_retransmit par (t_sent tk) st2)) = sv_rlen st2"
    using accept_ok [OF assms(1)] by blast
  then show ?thesis
    using assms(2,3) by (auto simp: heartbeat_def Let_def st1_def st2_def srv_ok_def)
qed

lemma send_next_ok:
  assumes "par_ok par content" "srv_ok par content st" "outs_ok par content (sv_out st)" "0 < p_block_count par"
  shows "srv_ok par content (snd (send_next par tk st)) \<and> outs_ok par content (sv_out (snd (send_next par tk st))) \<and>
    sv_rlen (snd (send_next par tk st)) = sv_rlen st"
proof -
  define b where "b = min (w32 (sv_block st + 1)) (p_block_count par)"
  define ty where "ty = (if b = p_block_count par then TS_BLOCK_TERMINATE else TS_BLOCK_ORIGINAL)"
  define st1 where "st1 = build_datagram par b ty (st\<lparr>sv_block := b\<rparr>)"
  have "w32 (sv_block st + 1) = sv_block st + 1"
    using assms(1,2) by (simp add: par_ok_def srv_ok_def w32_def)
  then have b: "1 \<le> b" "b \<le> p_block_count par" using assms(4) by (simp_all add: b_def)
  have st0: "srv_ok par content (st\<lparr>sv_block := b\<rparr>)" using assms(2) b by (simp add: srv_ok_def)
  have st1: "srv_ok par content st1" "carries par content (sv_dgram st1) b"
    using build_datagram_ok [OF assms(1) st0 b st1_def] by blast+
  have same: "sv_out st1 = sv_out st" "sv_rlen st1 = sv_rlen st" by (simp_all add: st1_def build_datagram_def Let_def)
  define st2 where "st2 = st1\<lparr>sv_out := sv_out st1 @ [sv_dgram st1]\<rparr>"
  have "srv_ok par content st2" "outs_ok par content (sv_out st2)"
    using st1 assms(3) b same by (auto simp: st2_def srv_ok_def outs_ok_def)
  then have "srv_ok par content (snd (heartbeat par tk st2)) \<and> outs_ok par content (sv_out (snd (heartbeat par tk st2))) \<and>
      sv_rlen (snd (heartbeat par tk st2)) = sv_rlen st2"
    using heartbeat_ok [OF assms(1)] by blast
  moreover have "send_next par tk st = (if t_sent tk then heartbeat par tk st2 else (Srv_continue, st1))"
    by (simp add: send_next_def Let_def b_def ty_def st1_def st2_def)
  ultimately show ?thesis using st1 assms(3) same by (simp add: st2_def)
qed

definition tick_ok :: "srv_par \<Rightarrow> tick \<Rightarrow> bool" where
  "tick_ok par tk =
     (case t_read tk of Rd_none \<Rightarrow> True | Rd_fail \<Rightarrow> True
      | Rd_bytes bs \<Rightarrow> length bs = 12 \<and> msg_ok par (retransmission_of bs))"

lemma server_iter_ok:
  assumes "par_ok par content" "srv_ok par content st" "outs_ok par content (sv_out st)" "0 < p_block_count par"
    "tick_ok par tk" "sv_rlen st = 0"
  shows "srv_ok par content (snd (server_iter par tk st)) \<and> outs_ok par content (sv_out (snd (server_iter par tk st))) \<and>
    (fst (server_iter par tk st) = Srv_continue \<longrightarrow> sv_rlen (snd (server_iter par tk st)) = 0)"
proof (cases "t_read tk")
  case Rd_none
  then have "server_iter par tk st = send_next par tk st" using assms(6) by (simp add: server_iter_def read_request_def)
  then show ?thesis using send_next_ok [OF assms(1-4), of tk] assms(6) by simp
next
  case Rd_fail
  then show ?thesis using assms by (simp add: server_iter_def read_request_def)
next
  case (Rd_bytes bs)
  define st1 where "st1 = st\<lparr>sv_mem := put_bytes 0 bs (sv_mem st), sv_rlen := 12\<rparr>\<lparr>sv_dead := 0\<rparr>"
  have bs: "length bs = 12" "msg_ok par (retransmission_of bs)" using assms(5) Rd_bytes by (simp_all add: tick_ok_def)
  have mem: "put_bytes 0 bs (sv_mem st) = bs" using bs(1) assms(2) by (simp add: put_bytes_def srv_ok_def)
  have st1: "srv_ok par content st1" "outs_ok par content (sv_out st1)" "sv_mem st1 = bs"
    using assms(2,3) bs mem by (simp_all add: st1_def srv_ok_def)
  define st2 where "st2 = snd (ttp_accept_retransmit par (t_sent tk) st1)\<lparr>sv_rlen := 0\<rparr>"
  have "srv_ok par content st2" "outs_ok par content (sv_out st2)" "sv_rlen st2 = 0"
    using accept_ok [OF assms(1) st1(1,2), of "snd (ttp_accept_retransmit par (t_sent tk) st1)" "t_sent tk"] st1(3) bs(2)
    by (simp_all add: st2_def srv_ok_def)
  then have h: "srv_ok par content (snd (heartbeat par tk st2)) \<and> outs_ok par content (sv_out (snd (heartbeat par tk st2))) \<and>
      sv_rlen (snd (heartbeat par tk st2)) = 0"
    using heartbeat_ok [OF assms(1), of st2 tk] by simp
  have "server_iter par tk st =
      (if htons (request_type (retransmission_of (sv_mem st1))) = REQUEST_STOP then (Srv_stopped, st1)
       else heartbeat par tk st2)"
    using Rd_bytes bs(1) assms(6) by (simp add: server_iter_def read_request_def Let_def st1_def st2_def)
  then show ?thesis using h st1 by auto
qed

lemma server_loop_ok:
  assumes "par_ok par content" "0 < p_block_count par"
  shows "srv_ok par content st \<Longrightarrow> outs_ok par content (sv_out st) \<Longrightarrow> \<forall>tk\<in>set tks. tick_ok par tk \<Longrightarrow> sv_rlen st = 0 \<Longrightarrow>
    outs_ok par content (sv_out (snd (server_loop par tks st)))"
proof (induction tks arbitrary: st)
  case (Cons tk tks)
  obtain r st1 where it: "server_iter par tk st = (r, st1)" by (cases "server_iter par tk st")
  then have st1: "srv_ok par content st1" "outs_ok par content (sv_out st1)" "r = Srv_continue \<Longrightarrow> sv_rlen st1 = 0"
    using server_iter_ok [OF assms(1) Cons.prems(1,2) assms(2), of tk] Cons.prems(3,4) by simp_all
  then show ?case using Cons.IH [OF st1(1,2)] Cons.prems(2,3) it by (cases r) simp_all
qed simp

lemma open_srv_first:
  assumes "par_ok par content" "0 < p_block_count par" "length (sv_dgram st) = 6 + p_block_size par" "length (sv_mem st) = 12"
    "sv_last st < 2 ^ 32" "sv_out st = []"
    and st'_def: "st' = snd (send_next par tk (open_srv par content st))"
  shows "srv_ok par content st' \<and> outs_ok par content (sv_out st') \<and> sv_rlen st' = 0"
proof (cases "sv_last st = 0")
  case True
  then have "srv_ok par content (open_srv par content st)" using assms by (simp add: srv_ok_def open_srv_def)
  then show ?thesis
    using send_next_ok [OF assms(1) _ _ assms(2), of "open_srv par content st" tk] assms(6)
    by (simp add: st'_def outs_ok_def open_srv_def)
next
  case False
  text \<open>The first block is 1 and \<open>last_block + 1\<close> is not, so the datagram is built as if \<open>last_block\<close> were the last block.\<close>
  define st0 where "st0 = (open_srv par content st)\<lparr>sv_last := p_block_count par\<rparr>"
  have b: "min (w32 (0 + 1)) (p_block_count par) = 1" using assms(2) by (simp add: w32_def)
  have "w32 (sv_last st + 1) \<noteq> 1"
    using assms(5) False by (cases "sv_last st + 1 < 2 ^ 32") (simp_all add: w32_def mod_if)
  moreover have "w32 (p_block_count par + 1) \<noteq> 1" using assms(1,2) by (simp add: par_ok_def w32_def)
  ultimately have "build_datagram par 1 ty ((open_srv par content st)\<lparr>sv_block := 1\<rparr>) =
      build_datagram par 1 ty (st0\<lparr>sv_block := 1\<rparr>)" for ty
    by (simp add: build_datagram_def Let_def st0_def open_srv_def)
  then have "send_next par tk (open_srv par content st) = send_next par tk st0"
    using b by (simp add: send_next_def Let_def open_srv_def st0_def)
  moreover have "srv_ok par content st0" "outs_ok par content (sv_out st0)" "sv_rlen st0 = 0"
    using assms(1,2,3,4,6) by (simp_all add: srv_ok_def par_ok_def st0_def open_srv_def outs_ok_def)
  ultimately show ?thesis using send_next_ok [OF assms(1) _ _ assms(2), of st0 tk] by (simp add: st'_def)
qed

subsection \<open>The order of the blocks\<close>

text \<open>Without requests: the blocks in order, then the last one again and again.\<close>

definition quiet :: tick where
  "quiet = \<lparr>t_read = Rd_none, t_sent = True, t_report_due = False, t_timeout = False\<rparr>"

lemma heartbeat_quiet: "fst (heartbeat par quiet st) = Srv_continue \<and>
    sv_out (snd (heartbeat par quiet st)) = sv_out st \<and> sv_block (snd (heartbeat par quiet st)) = sv_block st \<and>
    sv_rlen (snd (heartbeat par quiet st)) = sv_rlen st"
  by (simp add: heartbeat_def quiet_def Let_def)

lemma quiet_loop:
  assumes "p_block_count par + 1 < 2 ^ 32"
  shows "sv_rlen st = 0 \<Longrightarrow> sv_block st \<le> p_block_count par \<Longrightarrow>
    \<exists>st'. server_loop par (replicate n quiet) st = (Srv_continue, st') \<and>
      (\<exists>dgs. sv_out st' = sv_out st @ dgs \<and> length dgs = n \<and>
        (\<forall>i<n. let b = min (sv_block st + i + 1) (p_block_count par) in
           take 6 (dgs ! i) = be_list 4 (of_nat b :: u32) @
             le_list 2 (htons (if b = p_block_count par then TS_BLOCK_TERMINATE else TS_BLOCK_ORIGINAL))))"
proof (induction n arbitrary: st)
  case (Suc n)
  define b where "b = min (sv_block st + 1) (p_block_count par)"
  define ty where "ty = (if b = p_block_count par then TS_BLOCK_TERMINATE else TS_BLOCK_ORIGINAL)"
  define st1 where "st1 = build_datagram par b ty (st\<lparr>sv_block := b\<rparr>)"
  define st2 where "st2 = snd (heartbeat par quiet (st1\<lparr>sv_out := sv_out st1 @ [sv_dgram st1]\<rparr>))"
  have w: "w32 (sv_block st + 1) = sv_block st + 1" using assms Suc.prems(2) by (simp add: w32_def)
  have "server_iter par quiet st = heartbeat par quiet (st1\<lparr>sv_out := sv_out st1 @ [sv_dgram st1]\<rparr>)"
    using Suc.prems(1) w
    by (simp add: server_iter_def read_request_def quiet_def send_next_def Let_def b_def st1_def ty_def)
  then have it: "server_iter par quiet st = (Srv_continue, st2)"
    using heartbeat_quiet [of par "st1\<lparr>sv_out := sv_out st1 @ [sv_dgram st1]\<rparr>"] by (simp add: st2_def prod_eq_iff)
  have same: "sv_out st1 = sv_out st" "sv_rlen st1 = 0" "sv_block st1 = b"
    using Suc.prems(1) by (simp_all add: st1_def build_datagram_def Let_def)
  then have st2: "sv_out st2 = sv_out st @ [sv_dgram st1]" "sv_rlen st2 = 0" "sv_block st2 = b"
    using heartbeat_quiet by (simp_all add: st2_def)
  have hd: "take 6 (sv_dgram st1) = be_list 4 (of_nat b :: u32) @ le_list 2 (htons ty)"
    by (simp add: st1_def build_datagram_def Let_def put_bytes_def htonl_memory)
  have "sv_block st2 \<le> p_block_count par" by (simp add: st2 b_def)
  from Suc.IH [OF st2(2) this] obtain st' dgs where ih: "server_loop par (replicate n quiet) st2 = (Srv_continue, st')"
      "sv_out st' = sv_out st2 @ dgs" "length dgs = n"
      "\<forall>i<n. let c = min (sv_block st2 + i + 1) (p_block_count par) in
         take 6 (dgs ! i) = be_list 4 (of_nat c :: u32) @
           le_list 2 (htons (if c = p_block_count par then TS_BLOCK_TERMINATE else TS_BLOCK_ORIGINAL))"
    by blast
  have step: "min (sv_block st2 + i + 1) (p_block_count par) = min (sv_block st + Suc i + 1) (p_block_count par)" for i
    by (simp add: st2 b_def min_def)
  have "let c = min (sv_block st + i + 1) (p_block_count par) in
         take 6 ((sv_dgram st1 # dgs) ! i) = be_list 4 (of_nat c :: u32) @
           le_list 2 (htons (if c = p_block_count par then TS_BLOCK_TERMINATE else TS_BLOCK_ORIGINAL))"
    if "i < Suc n" for i
  proof (cases i)
    case 0
    then show ?thesis using hd by (simp add: Let_def b_def ty_def)
  next
    case (Suc j)
    then show ?thesis using ih(4) that step [of j] by (simp add: Let_def)
  qed
  then have "\<exists>dgs'. sv_out st' = sv_out st @ dgs' \<and> length dgs' = Suc n \<and>
      (\<forall>i<Suc n. let b = min (sv_block st + i + 1) (p_block_count par) in
         take 6 (dgs' ! i) = be_list 4 (of_nat b :: u32) @
           le_list 2 (htons (if b = p_block_count par then TS_BLOCK_TERMINATE else TS_BLOCK_ORIGINAL)))"
    using ih(2,3) st2(1) by (intro exI [of _ "sv_dgram st1 # dgs"]) simp
  then show ?case using ih(1) it Suc.prems(2) by simp
qed simp

lemma set_counts_par_ok:
  assumes "set_counts (length content) par = Inr par'" "p_block_size par * (2 ^ 32 - 2) \<ge> length content"
  shows "par_ok par' content"
proof -
  have bs: "0 < p_block_size par" using assms(1) by (simp add: set_counts_def split: if_splits)
  let ?n = "length content div p_block_size par + (if length content mod p_block_size par \<noteq> 0 then 1 else 0)"
  have "?n \<le> 2 ^ 32 - 2"
  proof (cases "length content mod p_block_size par = 0")
    case True
    then show ?thesis using div_le_mono [OF assms(2), of "p_block_size par"] bs by simp
  next
    case False
    have "length content div p_block_size par < 2 ^ 32 - 2"
    proof (rule ccontr)
      assume "\<not> length content div p_block_size par < 2 ^ 32 - 2"
      then have "p_block_size par * (2 ^ 32 - 2) \<le> p_block_size par * (length content div p_block_size par)" by simp
      moreover have "p_block_size par * (length content div p_block_size par) < length content"
        using False mult_div_mod_eq [of "p_block_size par" "length content"] by linarith
      ultimately show False using assms(2) by linarith
    qed
    then show ?thesis using False by simp
  qed
  then have "w32 ?n = ?n" "?n + 1 < 2 ^ 32" by (simp_all add: w32_def)
  moreover have "par' = par\<lparr>p_file_size := length content, p_block_count := w32 ?n,
      p_ipd_time := w32 (1000000 * 8 * p_block_size par div p_target_rate par)\<rparr>"
    using assms(1) by (simp add: set_counts_def split: if_splits)
  ultimately show ?thesis using bs by (simp add: par_ok_def)
qed

definition example_par :: srv_par where
  "example_par = \<lparr>p_block_size = 4, p_file_size = 10, p_block_count = 3, p_target_rate = 1000000, p_error_rate = 7500,
     p_ipd_time = 32, p_slower_num = 25, p_slower_den = 24, p_faster_num = 5, p_faster_den = 6\<rparr>"

definition example_content :: "u8 list" where
  "example_content = [1, 2, 3, 4, 5, 6, 7, 8, 9, 10]"

definition example_srv :: srv where
  "example_srv = \<lparr>sv_data = [], sv_pos = 77, sv_last = 9, sv_block = 5, sv_ipd = 0, sv_dgram = replicate 10 0,
     sv_mem = replicate 12 0, sv_rlen = 3, sv_dead = 0, sv_out = []\<rparr>"

lemma example_par_ok: "par_ok example_par example_content"
  by (simp add: par_ok_def example_par_def example_content_def)

lemma server_outs_ok:
  assumes "par_ok par content" "0 < p_block_count par" "length (sv_dgram st) = 6 + p_block_size par" "length (sv_mem st) = 12"
    "sv_last st < 2 ^ 32" "sv_out st = []" "t_read tk = Rd_none" "\<forall>tk\<in>set tks. tick_ok par tk"
  shows "outs_ok par content (sv_out (snd (server_loop par (tk # tks) (open_srv par content st))))"
proof -
  have first: "server_iter par tk (open_srv par content st) = send_next par tk (open_srv par content st)"
    using assms(7) by (simp add: server_iter_def read_request_def open_srv_def)
  obtain r st1 where it: "send_next par tk (open_srv par content st) = (r, st1)"
    by (cases "send_next par tk (open_srv par content st)")
  then have "srv_ok par content st1" "outs_ok par content (sv_out st1)" "sv_rlen st1 = 0"
    using open_srv_first [OF assms(1-6), of st1 tk] by simp_all
  then have "outs_ok par content (sv_out (snd (server_loop par tks st1)))" "outs_ok par content (sv_out st1)"
    using server_loop_ok [OF assms(1,2), of st1 tks] assms(8) by blast+
  then show ?thesis using first it by (cases r) (simp_all add: open_srv_def)
qed

subsection \<open>Contract\<close>

text \<open>The parameters a server computes for a file describe it: with a block size under which the block
  count fits 32 bits, the count is the number of blocks of the file, a partial last one included; a
  block size or target rate of zero sent by the client makes the process divide by zero.
\<close>

lemma set_counts_spec:
  "(p_block_size par = 0 \<or> p_target_rate par = 0 \<longleftrightarrow> set_counts (length content) par = Inl Div_by_zero) \<and>
   (\<forall>par'. set_counts (length content) par = Inr par' \<and> length content \<le> p_block_size par * (2 ^ 32 - 2) \<longrightarrow>
      par_ok par' content \<and> (p_block_count par' - 1) * p_block_size par' \<le> length content \<and>
      length content \<le> p_block_count par' * p_block_size par')"
proof (intro conjI allI impI)
  show "p_block_size par = 0 \<or> p_target_rate par = 0 \<longleftrightarrow> set_counts (length content) par = Inl Div_by_zero"
    by (simp add: set_counts_def)
next
  fix par' assume "set_counts (length content) par = Inr par' \<and> length content \<le> p_block_size par * (2 ^ 32 - 2)"
  then have ok: "par_ok par' content" using set_counts_par_ok by blast
  then show "par_ok par' content" .
  let ?bs = "p_block_size par'" and ?q = "length content div p_block_size par'"
  have n: "?bs * ?q + length content mod ?bs = length content" by simp
  show "(p_block_count par' - 1) * ?bs \<le> length content"
    using ok n by (auto simp: par_ok_def algebra_simps diff_mult_distrib2)
  have "length content mod ?bs < ?bs" using ok by (simp add: par_ok_def)
  then have "length content < ?bs * ?q + ?bs" using n by linarith
  moreover have "length content mod ?bs = 0 \<Longrightarrow> length content = ?bs * ?q" using n by linarith
  moreover have "p_block_count par' * ?bs = ?bs * ?q + (if length content mod ?bs \<noteq> 0 then ?bs else 0)"
    using ok by (simp add: par_ok_def algebra_simps)
  ultimately show "length content \<le> p_block_count par' * ?bs" by (auto split: if_splits)
qed

lemma set_counts_spec_witness:
  "\<exists>par'. set_counts (length example_content) example_par = Inr par' \<and> par_ok par' example_content"
proof -
  obtain par' where "set_counts (length example_content) example_par = Inr par'"
    by (simp add: set_counts_def example_par_def)
  moreover have "length example_content \<le> p_block_size example_par * (2 ^ 32 - 2)"
    by (simp add: example_content_def example_par_def)
  ultimately show ?thesis using set_counts_spec [of example_par example_content] by blast
qed



text \<open>While the client is silent, the server sends the blocks 1, 2, ... of the file in order, marked as
  originals, and then the last block again and again, marked as the end of the transmission.
\<close>

lemma server_blast_order:
  assumes "p_block_count par + 1 < 2 ^ 32" "sv_out st = []"
  shows "\<exists>st'. server_loop par (replicate n quiet) (open_srv par content st) = (Srv_continue, st') \<and> length (sv_out st') = n \<and>
    (\<forall>i<n. take 6 (sv_out st' ! i) = be_list 4 (of_nat (min (i + 1) (p_block_count par)) :: u32) @
       le_list 2 (htons (if p_block_count par \<le> i + 1 then TS_BLOCK_TERMINATE else TS_BLOCK_ORIGINAL)))"
proof -
  obtain st' dgs where l: "server_loop par (replicate n quiet) (open_srv par content st) = (Srv_continue, st')"
      "sv_out st' = sv_out (open_srv par content st) @ dgs" "length dgs = n"
      "\<forall>i<n. let b = min (sv_block (open_srv par content st) + i + 1) (p_block_count par) in
         take 6 (dgs ! i) = be_list 4 (of_nat b :: u32) @
           le_list 2 (htons (if b = p_block_count par then TS_BLOCK_TERMINATE else TS_BLOCK_ORIGINAL))"
    using quiet_loop [OF assms(1), of "open_srv par content st" n] by (auto simp: open_srv_def)
  then show ?thesis using assms(2)
    by (intro exI [of _ st']) (auto simp: open_srv_def Let_def min_def)
qed

lemma server_blast_order_witness:
  "\<exists>st'. server_loop example_par (replicate 4 quiet) (open_srv example_par example_content example_srv) = (Srv_continue, st') \<and>
    length (sv_out st') = 4 \<and> take 6 (sv_out st' ! 3) = be_list 4 (3 :: u32) @ le_list 2 (htons TS_BLOCK_TERMINATE)"
proof -
  have "p_block_count example_par + 1 < 2 ^ 32" "sv_out example_srv = []" "p_block_count example_par = 3"
    by (simp_all add: example_par_def example_srv_def)
  from server_blast_order [OF this(1,2), of 4 example_content] this(3) show ?thesis by fastforce
qed

text \<open>A request to restart at block \<open>b\<close> is answered from block \<open>b + 1\<close> on: the loop increments
  \<open>xfer->block\<close> before it builds the next datagram, so the block the client named as its first missing
  one is not sent again by the restart.
\<close>

lemma restart_skips_block:
  assumes "sv_rlen st = 0" "length (sv_mem st) = 12" "1 \<le> b" "b < p_block_count par" "p_block_count par + 1 < 2 ^ 32"
    "sv_block st \<le> p_block_count par"
    and tk: "tk = quiet\<lparr>t_read := Rd_bytes (retransmission_bytes \<lparr>request_type = htons REQUEST_RESTART,
       rq_block = htonl (of_nat b), rq_error_rate = 0\<rparr>)\<rparr>"
  shows "\<exists>st' dg. server_loop par [tk, quiet] st = (Srv_continue, st') \<and>
    sv_out st' = sv_out st @ [dg] \<and> take 4 dg = be_list 4 (of_nat (b + 1) :: u32)"
proof -
  define st1 where "st1 = snd (heartbeat par tk ((snd (ttp_accept_retransmit par True
      (st\<lparr>sv_mem := retransmission_bytes \<lparr>request_type = htons REQUEST_RESTART,
        rq_block = htonl (of_nat b), rq_error_rate = 0\<rparr>, sv_rlen := 12, sv_dead := 0\<rparr>))\<lparr>sv_rlen := 0\<rparr>)))"
  have b: "unat (of_nat b :: u32) = b"
  proof -
    have "b < 2 ^ 32" using assms(4,5) by simp
    then show ?thesis by (simp add: unsigned_of_nat take_bit_eq_mod)
  qed
  have st1: "sv_block st1 = b" "sv_rlen st1 = 0" "sv_out st1 = sv_out st" "sv_dead st1 = 1"
    using assms(3,4) b by (simp_all add: st1_def ttp_accept_retransmit_def heartbeat_def Let_def w32_def)
  have it: "server_iter par tk st = (Srv_continue, st1)"
    using assms(1,2) unfolding tk st1_def
    by (simp add: server_iter_def read_request_def put_bytes_def heartbeat_def Let_def ttp_accept_retransmit_def quiet_def)
  have "sv_block st1 \<le> p_block_count par" using st1(1) assms(4) by simp
  then obtain st' dgs where l: "server_loop par (replicate 1 quiet) st1 = (Srv_continue, st')" "sv_out st' = sv_out st1 @ dgs"
      "length dgs = 1" "\<forall>i<1. let c = min (sv_block st1 + i + 1) (p_block_count par) in
         take 6 (dgs ! i) = be_list 4 (of_nat c :: u32) @
           le_list 2 (htons (if c = p_block_count par then TS_BLOCK_TERMINATE else TS_BLOCK_ORIGINAL))"
    using quiet_loop [OF assms(5) st1(2), of 1] by blast
  then obtain dg where dg: "dgs = [dg]" by (auto simp: length_Suc_conv)
  have "min (sv_block st1 + 0 + 1) (p_block_count par) = b + 1" using st1(1) assms(4) by simp
  then have "take 6 dg = be_list 4 (of_nat (b + 1) :: u32) @
      le_list 2 (htons (if b + 1 = p_block_count par then TS_BLOCK_TERMINATE else TS_BLOCK_ORIGINAL))"
    using l(4) dg by (simp add: Let_def del: of_nat_add of_nat_Suc)
  then have "take 4 (take 6 dg) = be_list 4 (of_nat (b + 1) :: u32)" by simp
  then have "take 4 dg = be_list 4 (of_nat (b + 1) :: u32)" by simp
  then show ?thesis using l(1,2) dg it st1(3) assms(6) by (intro exI [of _ st'] exI [of _ dg]) simp
qed

lemma restart_skips_block_witness:
  "\<exists>st' dg. server_loop (example_par\<lparr>p_block_count := 9\<rparr>) [quiet\<lparr>t_read := Rd_bytes (retransmission_bytes
      \<lparr>request_type = htons REQUEST_RESTART, rq_block = htonl 2, rq_error_rate = 0\<rparr>)\<rparr>, quiet]
      (example_srv\<lparr>sv_rlen := 0\<rparr>) = (Srv_continue, st') \<and>
    sv_out st' = [dg] \<and> take 4 dg = be_list 4 (3 :: u32)"
  using restart_skips_block [of "example_srv\<lparr>sv_rlen := 0\<rparr>" 2 "example_par\<lparr>p_block_count := 9\<rparr>"]
  by (simp add: example_srv_def example_par_def)

text \<open>The rate control keeps the inter-packet delay between the one of the target rate and 10 ms (or the
  target's, if that is longer), and reacts in the right direction: an error rate above the threshold never
  shortens a delay in that range, when the slowdown factor is at least 1, and one below never lengthens it,
  when the speedup factor is at most 1.
\<close>

lemma adjust_ipd_bounds:
  "of_nat (p_ipd_time par) \<le> adjust_ipd par rate ipd \<and>
   adjust_ipd par rate ipd \<le> max 10000 (of_nat (p_ipd_time par)) \<and>
   (of_nat (p_ipd_time par) \<le> ipd \<and> ipd \<le> 10000 \<longrightarrow>
     (p_error_rate par < rate \<and> p_error_rate par < 100000 \<and> 0 < p_slower_den par \<and> p_slower_den par \<le> p_slower_num par \<longrightarrow>
        ipd \<le> adjust_ipd par rate ipd) \<and>
     (rate \<le> p_error_rate par \<and> 0 < p_faster_den par \<and> p_faster_num par \<le> p_faster_den par \<longrightarrow>
        adjust_ipd par rate ipd \<le> ipd))"
proof (intro conjI impI)
  show "of_nat (p_ipd_time par) \<le> adjust_ipd par rate ipd" by (simp add: adjust_ipd_def Let_def)
  show "adjust_ipd par rate ipd \<le> max 10000 (of_nat (p_ipd_time par))"
    by (simp add: adjust_ipd_def Let_def max_def min_def)
next
  assume i: "of_nat (p_ipd_time par) \<le> ipd \<and> ipd \<le> 10000"
    and s: "p_error_rate par < rate \<and> p_error_rate par < 100000 \<and> 0 < p_slower_den par \<and> p_slower_den par \<le> p_slower_num par"
  define f1 :: rat where "f1 = of_nat (p_slower_num par) / of_nat (p_slower_den par) - 1"
  define f2 :: rat where "f2 = (1 + of_nat rate - of_nat (p_error_rate par)) / (100000 - of_nat (p_error_rate par))"
  have ipd: "0 \<le> ipd" using i by (meson of_nat_0_le_iff order_trans)
  have "0 \<le> f1" using s by (simp add: f1_def le_divide_eq)
  moreover have "(of_nat (p_error_rate par) :: rat) < of_nat rate" using s by simp
  moreover have "(of_nat (p_error_rate par) :: rat) < of_nat 100000" using s by (simp only: of_nat_less_iff)
  ultimately have "0 \<le> f1 * f2" by (simp add: f2_def)
  then have "ipd * 1 \<le> ipd * (1 + f1 * f2)" using ipd by (intro mult_left_mono) simp_all
  then show "ipd \<le> adjust_ipd par rate ipd"
    using i s by (simp add: adjust_ipd_def Let_def f1_def f2_def)
next
  assume i: "of_nat (p_ipd_time par) \<le> ipd \<and> ipd \<le> 10000"
    and s: "rate \<le> p_error_rate par \<and> 0 < p_faster_den par \<and> p_faster_num par \<le> p_faster_den par"
  have ipd: "0 \<le> ipd" using i by (meson of_nat_0_le_iff order_trans)
  have "(of_nat (p_faster_num par) :: rat) / of_nat (p_faster_den par) \<le> 1" using s by (simp add: divide_le_eq)
  then have "ipd * (of_nat (p_faster_num par) / of_nat (p_faster_den par)) \<le> ipd * 1" using ipd by (intro mult_left_mono) simp_all
  then show "adjust_ipd par rate ipd \<le> ipd"
    using i s by (simp add: adjust_ipd_def Let_def)
qed

lemma adjust_ipd_bounds_witness:
  "(100 :: rat) \<le> adjust_ipd example_par 9000 100 \<and> adjust_ipd example_par 100 100 \<le> 100"
  using adjust_ipd_bounds [of example_par 9000 100] adjust_ipd_bounds [of example_par 100 100]
  by (simp add: example_par_def)

text \<open>C25: the loop writes its report of a lost heartbeat into the structure that collects the client's requests.
  When a request has arrived only in part, that report replaces its type: completed later, a request to
  retransmit a block is taken for an error rate and no block is sent for it.
\<close>

theorem lost_heartbeat_spoils_request:
  assumes "length (sv_mem st) = 12" "2 \<le> sv_rlen st" "sv_rlen st < 12" "2048 < sv_dead st" "t_report_due tk"
    "length rest = 12 - sv_rlen st" "t_read later = Rd_bytes rest" "\<not> t_timeout tk"
  shows "fst (heartbeat par tk st) = Srv_continue \<and>
    fst (server_iter par later (snd (heartbeat par tk st))) = Srv_continue \<and>
    sv_out (snd (server_iter par later (snd (heartbeat par tk st)))) = sv_out st"
proof -
  define mem where "mem = fake_report (sv_mem st)"
  define st1 where "st1 = snd (heartbeat par tk st)"
  have mem: "length mem = 12" "request_type (retransmission_of mem) = htons REQUEST_ERROR_RATE"
    using fake_report_of [OF assms(1)] assms(1) by (simp_all add: mem_def)
  have hb: "heartbeat par tk st = (Srv_continue, snd (ttp_accept_retransmit par (t_sent tk) (st\<lparr>sv_dead := 0, sv_mem := mem\<rparr>)))"
    using assms(4,5,8) by (simp add: heartbeat_def Let_def mem_def)
  have st1: "sv_out st1 = sv_out st" "sv_rlen st1 = sv_rlen st" "length (sv_mem st1) = 12"
      "take 2 (sv_mem st1) = take 2 mem"
    using mem assms(1) by (simp_all add: st1_def hb ttp_accept_retransmit_def Let_def host_order_def put_bytes_def)
  define m2 where "m2 = put_bytes (sv_rlen st) rest (sv_mem st1)"
  have "take 2 m2 = take 2 (sv_mem st1)" using assms(2,6) st1 by (simp add: m2_def put_bytes_def min_def)
  then have ty: "htons (request_type (retransmission_of m2)) = REQUEST_ERROR_RATE"
    using mem st1(4) by (simp add: retransmission_of_def)
  have rd: "read_request later st1 = st1\<lparr>sv_mem := m2, sv_rlen := 12\<rparr>"
    using assms(3,6,7) st1(2) by (simp add: read_request_def Let_def m2_def)
  have "fst (server_iter par later st1) = Srv_continue \<and> sv_out (snd (server_iter par later st1)) = sv_out st"
    using assms(7) ty st1(1) unfolding server_iter_def rd
    by (simp add: Let_def ttp_accept_retransmit_def heartbeat_def)
  then show ?thesis using hb by (simp add: st1_def)
qed

theorem lost_heartbeat_spoils_request_witness:
  "sv_out (snd (server_iter example_par (quiet\<lparr>t_read := Rd_bytes [0, 0, 0, 0, 3, 0, 0, 0, 0]\<rparr>)
     (snd (heartbeat example_par (quiet\<lparr>t_report_due := True\<rparr>) (example_srv\<lparr>sv_dead := 3000\<rparr>))))) = []"
  using lost_heartbeat_spoils_request [of "example_srv\<lparr>sv_dead := 3000\<rparr>" "quiet\<lparr>t_report_due := True\<rparr>"
      "[0, 0, 0, 0, 3, 0, 0, 0, 0]" "quiet\<lparr>t_read := Rd_bytes [0, 0, 0, 0, 3, 0, 0, 0, 0]\<rparr>" example_par]
  by (simp add: example_srv_def quiet_def)

end
