(* ===== verification/TsRing.thy ===== *)
theory TsRing
  imports CBase
begin

text \<open>
  The ring buffer between the network thread and the disk thread of the Tsunami client
  (\<^verbatim>\<open>client/ring.c\<close> of the directory for tsunami-udp in \<^verbatim>\<open>test05\<close>).

  Every operation holds the mutex of the ring from beginning to end, so it is one atomic step,
  except where it waits on a condition variable: then the mutex is free while it waits.  An
  operation that would wait returns \<open>Inr None\<close>.  \<open>error\<close> terminates the process
  and is \<open>Inl Fatal_exit\<close>.  The memory of the slots is written and read by the threads without
  the mutex; those accesses are steps of their own in \<open>ring_step\<close>.
\<close>

subsection \<open>State and operations\<close>

abbreviation MAX_BLOCKS_QUEUED :: int where "MAX_BLOCKS_QUEUED \<equiv> 4096"

record 'd ring_buffer =
  datagrams :: "int \<Rightarrow> 'd"     \<comment> \<open>the slots of the buffer\<close>
  base_data :: int
  count_data :: int
  count_reserved :: int
  data_ready :: bool
  space_ready :: bool

text \<open>The slots of a new ring hold whatever \<open>malloc\<close> returned: \<open>heap\<close>.\<close>

definition ring_create :: "(int \<Rightarrow> 'd) \<Rightarrow> 'd ring_buffer" where
  "ring_create heap = \<lparr>datagrams = heap, base_data = 0, count_data = 0, count_reserved = 0,
     data_ready = False, space_ready = True\<rparr>"

definition ring_full :: "'d ring_buffer \<Rightarrow> bool" where
  "ring_full r = (\<not> space_ready r)"

definition ring_cancel :: "'d ring_buffer \<Rightarrow> 'd ring_buffer res" where
  "ring_cancel r =
     (if count_reserved r - 1 < 0 then Inl Fatal_exit
      else Inr (r\<lparr>count_reserved := count_reserved r - 1, space_ready := True\<rparr>))"

definition ring_confirm :: "'d ring_buffer \<Rightarrow> 'd ring_buffer res" where
  "ring_confirm r =
     (if count_reserved r - 1 < 0 then Inl Fatal_exit
      else Inr (r\<lparr>count_data := count_data r + 1, count_reserved := count_reserved r - 1, data_ready := True\<rparr>))"

text \<open>\<open>ring_peek\<close> returns the address of a slot, here its index.\<close>

definition ring_peek :: "'d ring_buffer \<Rightarrow> int option" where
  "ring_peek r = (if data_ready r then Some (base_data r) else None)"

definition ring_pop :: "'d ring_buffer \<Rightarrow> 'd ring_buffer option" where
  "ring_pop r =
     (if data_ready r
      then Some (r\<lparr>base_data := (base_data r + 1) mod MAX_BLOCKS_QUEUED, count_data := count_data r - 1,
                  data_ready := (count_data r - 1 \<noteq> 0), space_ready := True\<rparr>)
      else None)"

text \<open>
  \<open>ring_reserve\<close> computes the slot on entry and may wait afterwards; \<open>ring_reserve_at\<close> is
  the part behind the wait, with the slot computed before.
\<close>

definition ring_next :: "'d ring_buffer \<Rightarrow> int" where
  "ring_next r = (base_data r + count_data r + count_reserved r) mod MAX_BLOCKS_QUEUED"

definition ring_reserve_at :: "int \<Rightarrow> 'd ring_buffer \<Rightarrow> (int \<times> 'd ring_buffer) option res" where
  "ring_reserve_at slot r =
     (if \<not> space_ready r then Inr None
      else if count_reserved r + 1 > 1 then Inl Fatal_exit
      else Inr (Some (slot, r\<lparr>count_reserved := count_reserved r + 1,
             space_ready := ((slot + 1) mod MAX_BLOCKS_QUEUED \<noteq> base_data r)\<rparr>)))"

definition ring_reserve :: "'d ring_buffer \<Rightarrow> (int \<times> 'd ring_buffer) option res" where
  "ring_reserve r = ring_reserve_at (ring_next r) r"

text \<open>The threads access the memory of a slot directly.\<close>

definition slot_write :: "int \<Rightarrow> 'd \<Rightarrow> 'd ring_buffer \<Rightarrow> 'd ring_buffer" where
  "slot_write slot d r = r\<lparr>datagrams := (datagrams r)(slot := d)\<rparr>"

text \<open>The two uses of the ring: the network thread puts a datagram, the disk thread takes one.\<close>

definition ring_put :: "'d \<Rightarrow> 'd ring_buffer \<Rightarrow> 'd ring_buffer option res" where
  "ring_put d r =
     rbind (ring_reserve r) (\<lambda>s.
     case s of None \<Rightarrow> Inr None
     | Some (slot, r1) \<Rightarrow> rbind (ring_confirm (slot_write slot d r1)) (\<lambda>r2. Inr (Some r2)))"

definition ring_take :: "'d ring_buffer \<Rightarrow> ('d \<times> 'd ring_buffer) option" where
  "ring_take r =
     (case ring_peek r of None \<Rightarrow> None
      | Some slot \<Rightarrow> map_option (\<lambda>r'. (datagrams r slot, r')) (ring_pop r))"

subsection \<open>Invariant and contents\<close>

definition ring_ok :: "'d ring_buffer \<Rightarrow> bool" where
  "ring_ok r =
     (0 \<le> base_data r \<and> base_data r < MAX_BLOCKS_QUEUED \<and> 0 \<le> count_data r \<and>
      0 \<le> count_reserved r \<and> count_reserved r \<le> 1 \<and> count_data r + count_reserved r \<le> MAX_BLOCKS_QUEUED \<and>
      (data_ready r \<longleftrightarrow> 0 < count_data r) \<and>
      (space_ready r \<longleftrightarrow> count_data r + count_reserved r < MAX_BLOCKS_QUEUED))"

definition ring_slot :: "'d ring_buffer \<Rightarrow> nat \<Rightarrow> int" where
  "ring_slot r i = (base_data r + int i) mod MAX_BLOCKS_QUEUED"

definition ring_contents :: "'d ring_buffer \<Rightarrow> 'd list" where
  "ring_contents r = map (\<lambda>i. datagrams r (ring_slot r i)) [0..<nat (count_data r)]"

lemma mod_offset_inj:
  assumes "((b::int) + i) mod n = (b + j) mod n" "0 \<le> i" "i < n" "0 \<le> j" "j < n"
  shows "i = j"
proof -
  have "n dvd i - j" using assms(1) by (simp add: mod_eq_dvd_iff)
  moreover have "\<bar>i - j\<bar> < n" using assms(2-5) by linarith
  ultimately show ?thesis using zdvd_not_zless by (metis abs_of_nonneg abs_of_pos dvd_abs_iff eq_iff_diff_eq_0 zero_less_abs_iff)
qed

lemma ring_create_ok [simp]: "ring_ok (ring_create heap)" "ring_contents (ring_create heap) = []"
  by (simp_all add: ring_ok_def ring_create_def ring_contents_def)

lemma ring_slot_inj:
  assumes "ring_slot r i = ring_slot r j" "i < 4096" "j < 4096"
  shows "i = j"
  using mod_offset_inj [of "base_data r" "int i" MAX_BLOCKS_QUEUED "int j"] assms by (simp add: ring_slot_def)

text \<open>Reserving on a ring without a reservation: it waits exactly when the ring is full of data.\<close>

lemma ring_next_slot:
  "0 \<le> count_data r \<Longrightarrow> count_reserved r = 0 \<Longrightarrow> ring_next r = ring_slot r (nat (count_data r))"
  by (simp add: ring_next_def ring_slot_def)

lemma ring_next_wraps:
  assumes "ring_ok r" "count_reserved r = 0" "count_data r < MAX_BLOCKS_QUEUED"
  shows "(ring_next r + 1) mod MAX_BLOCKS_QUEUED = base_data r \<longleftrightarrow> count_data r + 1 = MAX_BLOCKS_QUEUED"
proof -
  have b: "0 \<le> base_data r" "base_data r < MAX_BLOCKS_QUEUED" "0 \<le> count_data r" using assms(1) by (simp_all add: ring_ok_def)
  have "(ring_next r + 1) mod MAX_BLOCKS_QUEUED = (base_data r + (count_data r + 1)) mod MAX_BLOCKS_QUEUED"
    using assms(2) by (simp add: ring_next_def mod_add_left_eq add.assoc)
  moreover have "base_data r = (base_data r + 0) mod MAX_BLOCKS_QUEUED" using b by simp
  moreover have "(base_data r + MAX_BLOCKS_QUEUED) mod MAX_BLOCKS_QUEUED = base_data r" using b by simp
  ultimately show ?thesis
    using mod_offset_inj [of "base_data r" "count_data r + 1" MAX_BLOCKS_QUEUED 0] assms(3) b by force
qed

lemma ring_reserve_ok:
  assumes "ring_ok r" "count_reserved r = 0" "space_ready r"
  obtains r' where "ring_reserve r = Inr (Some (ring_slot r (nat (count_data r)), r'))"
    "r' = r\<lparr>count_reserved := 1, space_ready := (count_data r + 1 \<noteq> MAX_BLOCKS_QUEUED)\<rparr>" "ring_ok r'"
proof -
  have c: "count_data r < MAX_BLOCKS_QUEUED" "0 \<le> count_data r" using assms by (auto simp: ring_ok_def)
  define r' where "r' = r\<lparr>count_reserved := 1, space_ready := (count_data r + 1 \<noteq> MAX_BLOCKS_QUEUED)\<rparr>"
  have "ring_reserve r = Inr (Some (ring_slot r (nat (count_data r)), r'))"
    using assms c ring_next_wraps [OF assms(1,2) c(1)] ring_next_slot [OF c(2) assms(2)]
    by (simp add: ring_reserve_def ring_reserve_at_def r'_def)
  moreover have "ring_ok r'" using assms c by (auto simp: ring_ok_def r'_def)
  ultimately show ?thesis using that r'_def by blast
qed

lemma ring_confirm_ok:
  assumes "ring_ok r" "count_reserved r = 1"
  obtains r' where "ring_confirm r = Inr r'" "ring_ok r'"
    "ring_contents r' = ring_contents r @ [datagrams r (ring_slot r (nat (count_data r)))]"
    "base_data r' = base_data r" "count_data r' = count_data r + 1" "count_reserved r' = 0" "datagrams r' = datagrams r"
proof -
  define r' where "r' = r\<lparr>count_data := count_data r + 1, count_reserved := 0, data_ready := True\<rparr>"
  have "nat (count_data r + 1) = Suc (nat (count_data r))" using assms(1) unfolding ring_ok_def by linarith
  then have "ring_contents r' = ring_contents r @ [datagrams r (ring_slot r (nat (count_data r)))]"
    by (simp add: ring_contents_def r'_def ring_slot_def)
  moreover have "ring_confirm r = Inr r'" "ring_ok r'" using assms by (auto simp: ring_confirm_def r'_def ring_ok_def)
  ultimately show ?thesis using that by (simp add: r'_def)
qed

text \<open>Writing the reserved slot does not touch the slots with data.\<close>

lemma slot_write_contents:
  assumes "ring_ok r" "count_data r < MAX_BLOCKS_QUEUED"
  shows "ring_contents (slot_write (ring_slot r (nat (count_data r))) d r) = ring_contents r"
proof -
  have "ring_slot r i \<noteq> ring_slot r (nat (count_data r))" if "i < nat (count_data r)" for i
    using ring_slot_inj [of r i "nat (count_data r)"] that assms(2) by linarith
  then show ?thesis by (auto simp: ring_contents_def slot_write_def ring_slot_def)
qed

lemma ring_pop_ok:
  assumes "ring_ok r" "data_ready r"
  obtains r' where "ring_pop r = Some r'" "ring_ok r'" "ring_contents r = datagrams r (base_data r) # ring_contents r'"
    "count_reserved r' = count_reserved r" "ring_next r' = ring_next r" "count_data r' = count_data r - 1"
    "datagrams r' = datagrams r" "ring_slot r' (nat (count_data r')) = ring_slot r (nat (count_data r))"
proof -
  define r' where "r' = r\<lparr>base_data := (base_data r + 1) mod MAX_BLOCKS_QUEUED, count_data := count_data r - 1,
      data_ready := (count_data r - 1 \<noteq> 0), space_ready := True\<rparr>"
  have b: "0 \<le> base_data r" "base_data r < MAX_BLOCKS_QUEUED" "0 < count_data r" using assms by (auto simp: ring_ok_def)
  have "ring_ok r'" using assms by (auto simp: ring_ok_def r'_def)
  moreover have "ring_contents r = datagrams r (base_data r) # ring_contents r'"
  proof -
    obtain n where n: "nat (count_data r) = Suc n" "nat (count_data r - 1) = n" using b(3) by (cases "nat (count_data r)") auto
    have "ring_slot r (Suc i) = ring_slot r' i" for i
      by (simp add: ring_slot_def r'_def mod_add_left_eq mod_add_right_eq algebra_simps)
    moreover have "ring_slot r 0 = base_data r" using b by (simp add: ring_slot_def)
    ultimately show ?thesis
      unfolding ring_contents_def n(1) upt_conv_Cons [OF zero_less_Suc] list.map map_Suc_upt [symmetric] map_map
      using n(2) by (simp add: r'_def comp_def)
  qed
  moreover have "ring_next r' = ring_next r"
    using mod_add_left_eq [of "base_data r + 1" MAX_BLOCKS_QUEUED "count_data r - 1 + count_reserved r"]
    by (simp add: ring_next_def r'_def add.assoc)
  moreover have "ring_slot r' (nat (count_data r')) = ring_slot r (nat (count_data r))"
    using b mod_add_left_eq [of "base_data r + 1" MAX_BLOCKS_QUEUED "count_data r - 1"]
    by (simp add: ring_slot_def r'_def)
  ultimately show ?thesis using that [of r'] assms(2) by (simp add: ring_pop_def r'_def)
qed

subsection \<open>The interface: a bounded queue\<close>

text \<open>
  What the two threads rely on, with what any client of such a queue may conclude: whatever the
  order of the calls, the elements come out in the order in which they went in, none is lost and
  none is invented.
\<close>

locale bounded_fifo =
  fixes ok :: "'s \<Rightarrow> bool" and contents :: "'s \<Rightarrow> 'd list" and capacity :: nat
    and put :: "'d \<Rightarrow> 's \<Rightarrow> 's option" and take_one :: "'s \<Rightarrow> ('d \<times> 's) option"
  assumes put_some: "ok s \<Longrightarrow> put d s = Some s' \<Longrightarrow> ok s' \<and> contents s' = contents s @ [d]"
    and put_none: "ok s \<Longrightarrow> put d s = None \<longleftrightarrow> capacity \<le> length (contents s)"
    and take_some: "ok s \<Longrightarrow> take_one s = Some (d, s') \<Longrightarrow> ok s' \<and> contents s = d # contents s'"
    and take_none: "ok s \<Longrightarrow> take_one s = None \<longleftrightarrow> contents s = []"
begin

text \<open>A call \<open>Some d\<close> puts \<open>d\<close>, a call \<open>None\<close> takes; calls that would wait are skipped.\<close>

fun calls :: "'d option list \<Rightarrow> 's \<Rightarrow> 'd list \<times> 'd list \<times> 's" where
  "calls [] s = ([], [], s)"
| "calls (Some d # cs) s =
     (case put d s of None \<Rightarrow> calls cs s
      | Some s' \<Rightarrow> (case calls cs s' of (ins, outs, z) \<Rightarrow> (d # ins, outs, z)))"
| "calls (None # cs) s =
     (case take_one s of None \<Rightarrow> calls cs s
      | Some (d, s') \<Rightarrow> (case calls cs s' of (ins, outs, z) \<Rightarrow> (ins, d # outs, z)))"

lemma calls_fifo:
  "calls cs s = (ins, outs, z) \<Longrightarrow> ok s \<Longrightarrow> ok z \<and> contents s @ ins = outs @ contents z"
proof (induction cs s arbitrary: ins outs z rule: calls.induct)
  case (2 d cs s)
  show ?case
  proof (cases "put d s")
    case (Some s')
    then obtain ins' where "calls cs s' = (ins', outs, z)" "ins = d # ins'" using "2.prems"(1) by (auto split: prod.splits)
    with "2.IH"(2) [OF Some] put_some [OF "2.prems"(2) Some] show ?thesis by auto
  qed (use 2 in simp)
next
  case (3 cs s)
  then show ?case
    by (auto split: option.splits prod.splits dest: take_some)
qed simp

lemma contents_bound:
  "calls cs s = (ins, outs, z) \<Longrightarrow> ok s \<Longrightarrow> length (contents s) \<le> capacity \<Longrightarrow> length (contents z) \<le> capacity"
proof (induction cs s arbitrary: ins outs z rule: calls.induct)
  case (2 d cs s)
  have "length (contents s') \<le> capacity" if "put d s = Some s'" for s'
    using put_some [OF "2.prems"(2) that] put_none [OF "2.prems"(2), of d] that "2.prems"(3) by auto
  with 2 show ?case by (auto split: option.splits prod.splits dest: put_some)
next
  case (3 cs s)
  then show ?case by (auto split: option.splits prod.splits dest: take_some)
qed simp

end

definition ring_try_put :: "'d \<Rightarrow> 'd ring_buffer \<Rightarrow> 'd ring_buffer option" where
  "ring_try_put d r = (case ring_put d r of Inl e \<Rightarrow> None | Inr s \<Rightarrow> s)"

definition ring_idle :: "'d ring_buffer \<Rightarrow> bool" where
  "ring_idle r = (ring_ok r \<and> count_reserved r = 0)"

lemma ring_contents_length [simp]: "ring_ok r \<Longrightarrow> int (length (ring_contents r)) = count_data r"
  by (simp add: ring_contents_def ring_ok_def)

lemma ring_put_ok:
  assumes "ring_idle r"
  shows "if count_data r < MAX_BLOCKS_QUEUED
    then \<exists>r'. ring_put d r = Inr (Some r') \<and> ring_idle r' \<and> ring_contents r' = ring_contents r @ [d]
    else ring_put d r = Inr None"
proof (cases "space_ready r")
  case True
  have r: "ring_ok r" "count_reserved r = 0" "count_data r < MAX_BLOCKS_QUEUED" "0 \<le> count_data r"
    using assms True by (auto simp: ring_idle_def ring_ok_def)
  obtain r1 where r1: "ring_reserve r = Inr (Some (ring_slot r (nat (count_data r)), r1))"
      "r1 = r\<lparr>count_reserved := 1, space_ready := (count_data r + 1 \<noteq> MAX_BLOCKS_QUEUED)\<rparr>" "ring_ok r1"
    using ring_reserve_ok [OF r(1,2) True] by blast
  let ?s = "ring_slot r (nat (count_data r))"
  have s: "?s = ring_slot r1 (nat (count_data r1))" "count_data r1 < MAX_BLOCKS_QUEUED"
    using r1(2) r(3) by (simp_all add: ring_slot_def)
  have w: "ring_ok (slot_write ?s d r1)" "count_reserved (slot_write ?s d r1) = 1"
    using r1 by (simp_all add: slot_write_def ring_ok_def)
  obtain r2 where r2: "ring_confirm (slot_write ?s d r1) = Inr r2" "ring_ok r2" "count_reserved r2 = 0"
      "ring_contents r2 = ring_contents (slot_write ?s d r1) @
         [datagrams (slot_write ?s d r1) (ring_slot (slot_write ?s d r1) (nat (count_data (slot_write ?s d r1))))]"
    using ring_confirm_ok [OF w] by metis
  have "ring_contents (slot_write ?s d r1) = ring_contents r"
    using slot_write_contents [OF r1(3) s(2), of d] r1(2) s(1) by (simp add: ring_contents_def ring_slot_def)
  moreover have "datagrams (slot_write ?s d r1) (ring_slot (slot_write ?s d r1) (nat (count_data (slot_write ?s d r1)))) = d"
    using s(1) by (simp add: slot_write_def ring_slot_def)
  ultimately have "ring_contents r2 = ring_contents r @ [d]" using r2(4) by simp
  with r1(1) r2(1-3) r(3) show ?thesis by (simp add: ring_put_def ring_idle_def)
next
  case False
  then show ?thesis using assms by (auto simp: ring_idle_def ring_ok_def ring_put_def ring_reserve_def ring_reserve_at_def)
qed

lemma ring_take_ok:
  assumes "ring_idle r"
  shows "if 0 < count_data r
    then \<exists>d r'. ring_take r = Some (d, r') \<and> ring_idle r' \<and> ring_contents r = d # ring_contents r'
    else ring_take r = None"
proof (cases "data_ready r")
  case True
  have "ring_ok r" using assms by (simp add: ring_idle_def)
  from ring_pop_ok [OF this True] obtain r' where "ring_pop r = Some r'" "ring_ok r'"
      "ring_contents r = datagrams r (base_data r) # ring_contents r'" "count_reserved r' = count_reserved r" by metis
  with True assms show ?thesis by (auto simp: ring_take_def ring_peek_def ring_idle_def ring_ok_def)
next
  case False
  then show ?thesis using assms by (auto simp: ring_idle_def ring_ok_def ring_take_def ring_peek_def)
qed

interpretation ring: bounded_fifo ring_idle ring_contents 4096 ring_try_put ring_take
proof
  fix s s' :: "'a ring_buffer" and d :: 'a
  assume ok: "ring_idle s"
  then have len: "length (ring_contents s) = nat (count_data s)" by (simp add: ring_contents_def)
  show "ring_idle s' \<and> ring_contents s' = ring_contents s @ [d]" if "ring_try_put d s = Some s'"
    using that ring_put_ok [OF ok, of d] by (auto simp: ring_try_put_def split: if_splits)
  show "(ring_try_put d s = None) = (4096 \<le> length (ring_contents s))"
    using ring_put_ok [OF ok, of d] len by (auto simp: ring_try_put_def split: if_splits)
  show "ring_idle s' \<and> ring_contents s = d # ring_contents s'" if "ring_take s = Some (d, s')"
    using that ring_take_ok [OF ok] by (auto split: if_splits)
  show "(ring_take s = None) = (ring_contents s = [])"
    using ring_take_ok [OF ok] len by (auto split: if_splits)
qed

subsection \<open>The two threads\<close>

text \<open>
  The network thread (the producer) and the disk thread (the consumer) interleaved at the
  granularity of the mutex: the producer computes the slot on entry to \<open>ring_reserve\<close>, may wait,
  fills the slot and confirms; the consumer peeks, uses the slot and pops.  \<open>sent\<close> and
  \<open>got\<close> record what was confirmed and what the consumer has read.
\<close>

datatype 'd producer = PIdle | PWaiting int 'd | PReserved int 'd | PWritten 'd

datatype consumer = CIdle | CPeeked int | CRead

record 'd ring_threads =
  t_ring :: "'d ring_buffer"
  t_prod :: "'d producer"
  t_cons :: consumer
  t_sent :: "'d list"
  t_got :: "'d list"

inductive ring_step :: "'d ring_threads \<Rightarrow> 'd ring_threads \<Rightarrow> bool" where
  enter: "t_prod t = PIdle \<Longrightarrow> ring_step t (t\<lparr>t_prod := PWaiting (ring_next (t_ring t)) d\<rparr>)"
| reserve: "t_prod t = PWaiting slot d \<Longrightarrow> ring_reserve_at slot (t_ring t) = Inr (Some (slot', r)) \<Longrightarrow>
    ring_step t (t\<lparr>t_ring := r, t_prod := PReserved slot' d\<rparr>)"
| fill: "t_prod t = PReserved slot d \<Longrightarrow>
    ring_step t (t\<lparr>t_ring := slot_write slot d (t_ring t), t_prod := PWritten d\<rparr>)"
| confirm: "t_prod t = PWritten d \<Longrightarrow> ring_confirm (t_ring t) = Inr r \<Longrightarrow>
    ring_step t (t\<lparr>t_ring := r, t_prod := PIdle, t_sent := t_sent t @ [d]\<rparr>)"
| peek: "t_cons t = CIdle \<Longrightarrow> ring_peek (t_ring t) = Some slot \<Longrightarrow> ring_step t (t\<lparr>t_cons := CPeeked slot\<rparr>)"
| use: "t_cons t = CPeeked slot \<Longrightarrow>
    ring_step t (t\<lparr>t_cons := CRead, t_got := t_got t @ [datagrams (t_ring t) slot]\<rparr>)"
| pop: "t_cons t = CRead \<Longrightarrow> ring_pop (t_ring t) = Some r \<Longrightarrow> ring_step t (t\<lparr>t_ring := r, t_cons := CIdle\<rparr>)"

inductive_cases ring_stepE: "ring_step t t'"

definition threads_init :: "(int \<Rightarrow> 'd) \<Rightarrow> 'd ring_threads" where
  "threads_init heap = \<lparr>t_ring = ring_create heap, t_prod = PIdle, t_cons = CIdle, t_sent = [], t_got = []\<rparr>"

text \<open>A thread is about to run into \<open>error\<close>.\<close>

definition threads_fail :: "'d ring_threads \<Rightarrow> bool" where
  "threads_fail t =
     (case t_prod t of
        PWaiting slot d \<Rightarrow> (case ring_reserve_at slot (t_ring t) of Inl e \<Rightarrow> True | Inr x \<Rightarrow> False)
      | PWritten d \<Rightarrow> (case ring_confirm (t_ring t) of Inl e \<Rightarrow> True | Inr x \<Rightarrow> False)
      | _ \<Rightarrow> False)"

definition producer_ok :: "'d ring_buffer \<Rightarrow> 'd producer \<Rightarrow> bool" where
  "producer_ok r p =
     (case p of
        PIdle \<Rightarrow> count_reserved r = 0
      | PWaiting slot d \<Rightarrow> count_reserved r = 0 \<and> slot = ring_slot r (nat (count_data r))
      | PReserved slot d \<Rightarrow> count_reserved r = 1 \<and> slot = ring_slot r (nat (count_data r))
      | PWritten d \<Rightarrow> count_reserved r = 1 \<and> datagrams r (ring_slot r (nat (count_data r))) = d)"

definition consumer_ok :: "'d ring_buffer \<Rightarrow> consumer \<Rightarrow> bool" where
  "consumer_ok r c =
     (case c of CIdle \<Rightarrow> True | CPeeked slot \<Rightarrow> slot = base_data r \<and> data_ready r | CRead \<Rightarrow> data_ready r)"

definition threads_ok :: "'d ring_threads \<Rightarrow> bool" where
  "threads_ok t =
     (ring_ok (t_ring t) \<and> producer_ok (t_ring t) (t_prod t) \<and> consumer_ok (t_ring t) (t_cons t) \<and>
      t_sent t = t_got t @ (if t_cons t = CRead then tl (ring_contents (t_ring t)) else ring_contents (t_ring t)))"

lemma threads_init_ok: "threads_ok (threads_init heap)"
  by (simp add: threads_ok_def threads_init_def producer_ok_def consumer_ok_def) (simp add: ring_create_def)

lemma ring_contents_hd:
  "ring_ok r \<Longrightarrow> data_ready r \<Longrightarrow> ring_contents r = datagrams r (base_data r) # tl (ring_contents r)"
  by (erule (1) ring_pop_ok) simp

lemma reserve_step:
  assumes "threads_ok t" "t_prod t = PWaiting slot d" "ring_reserve_at slot (t_ring t) = Inr (Some (slot', r))"
  shows "threads_ok (t\<lparr>t_ring := r, t_prod := PReserved slot' d\<rparr>)"
proof -
  let ?r = "t_ring t"
  have o: "ring_ok ?r" "count_reserved ?r = 0" "slot = ring_slot ?r (nat (count_data ?r))"
    using assms(1,2) by (simp_all add: threads_ok_def producer_ok_def)
  then have n: "slot = ring_next ?r" by (simp add: ring_next_slot ring_ok_def)
  have sp: "space_ready ?r" using assms(3) by (auto simp: ring_reserve_at_def split: if_splits)
  obtain r' where r': "ring_reserve ?r = Inr (Some (ring_slot ?r (nat (count_data ?r)), r'))" "ring_ok r'"
      "r' = ?r\<lparr>count_reserved := 1, space_ready := (count_data ?r + 1 \<noteq> MAX_BLOCKS_QUEUED)\<rparr>"
    using ring_reserve_ok [OF o(1,2) sp] by metis
  then have eq: "r = r'" "slot' = slot" using assms(3) o(3) n by (simp_all add: ring_reserve_def)
  have "ring_contents r' = ring_contents ?r" "ring_slot r' = ring_slot ?r"
    using r'(3) by (simp_all add: ring_contents_def ring_slot_def fun_eq_iff)
  with assms(1) r'(2,3) eq o(3) show ?thesis
    by (auto simp: threads_ok_def producer_ok_def consumer_ok_def split: consumer.splits)
qed

lemma fill_step:
  assumes "threads_ok t" "t_prod t = PReserved slot d"
  shows "threads_ok (t\<lparr>t_ring := slot_write slot d (t_ring t), t_prod := PWritten d\<rparr>)"
proof -
  let ?r = "t_ring t" and ?r' = "slot_write slot d (t_ring t)"
  have o: "ring_ok ?r" "count_reserved ?r = 1" "slot = ring_slot ?r (nat (count_data ?r))"
    using assms by (simp_all add: threads_ok_def producer_ok_def)
  then have "count_data ?r < MAX_BLOCKS_QUEUED" by (auto simp: ring_ok_def)
  then have c: "ring_contents ?r' = ring_contents ?r" using slot_write_contents [OF o(1)] o(3) by simp
  have s: "ring_slot ?r' = ring_slot ?r" by (simp add: ring_slot_def slot_write_def fun_eq_iff)
  have "ring_ok ?r'" using o(1) by (simp add: ring_ok_def slot_write_def)
  with assms o c s show ?thesis
    by (auto simp: threads_ok_def producer_ok_def consumer_ok_def slot_write_def split: consumer.splits)
qed

lemma confirm_step:
  assumes "threads_ok t" "t_prod t = PWritten d" "ring_confirm (t_ring t) = Inr r"
  shows "threads_ok (t\<lparr>t_ring := r, t_prod := PIdle, t_sent := t_sent t @ [d]\<rparr>)"
proof -
  let ?r = "t_ring t"
  have o: "ring_ok ?r" "count_reserved ?r = 1" "datagrams ?r (ring_slot ?r (nat (count_data ?r))) = d"
    using assms(1,2) by (simp_all add: threads_ok_def producer_ok_def)
  obtain r' where "ring_confirm ?r = Inr r'" "ring_ok r'" "ring_contents r' = ring_contents ?r @ [d]"
      "base_data r' = base_data ?r" "count_data r' = count_data ?r + 1" "count_reserved r' = 0"
    using ring_confirm_ok [OF o(1,2)] o(3) by metis
  moreover have "ring_contents ?r \<noteq> []" if "data_ready ?r" using ring_contents_hd [OF o(1) that] by auto
  ultimately show ?thesis using assms o(1)
    by (auto simp: threads_ok_def producer_ok_def consumer_ok_def ring_ok_def split: consumer.splits)
qed

lemma pop_step:
  assumes "threads_ok t" "t_cons t = CRead" "ring_pop (t_ring t) = Some r"
  shows "threads_ok (t\<lparr>t_ring := r, t_cons := CIdle\<rparr>)"
proof -
  let ?r = "t_ring t"
  have o: "ring_ok ?r" "data_ready ?r" using assms(1,2) by (simp_all add: threads_ok_def consumer_ok_def)
  obtain r' where r': "ring_pop ?r = Some r'" "ring_ok r'" "ring_contents ?r = datagrams ?r (base_data ?r) # ring_contents r'"
      "count_reserved r' = count_reserved ?r" "datagrams r' = datagrams ?r"
      "ring_slot r' (nat (count_data r')) = ring_slot ?r (nat (count_data ?r))"
    using ring_pop_ok [OF o] by metis
  then have "producer_ok r' (t_prod t)" using assms(1) by (auto simp: threads_ok_def producer_ok_def split: producer.splits)
  with r' assms show ?thesis by (simp add: threads_ok_def consumer_ok_def)
qed

lemma ring_step_ok:
  assumes "ring_step t t'" "threads_ok t"
  shows "threads_ok t'"
  using assms
proof cases
  case (enter d)
  with assms(2) show ?thesis
    by (auto simp: threads_ok_def producer_ok_def consumer_ok_def ring_next_slot ring_ok_def)
next
  case (peek slot)
  with assms(2) show ?thesis
    by (auto simp: threads_ok_def consumer_ok_def ring_peek_def split: if_splits)
next
  case (use slot)
  with assms(2) have "ring_ok (t_ring t)" "data_ready (t_ring t)" "slot = base_data (t_ring t)"
    by (simp_all add: threads_ok_def consumer_ok_def)
  with ring_contents_hd have "ring_contents (t_ring t) = datagrams (t_ring t) slot # tl (ring_contents (t_ring t))" by blast
  with use assms(2) show ?thesis by (auto simp: threads_ok_def consumer_ok_def)
next
  case (reserve slot d slot' r)
  then show ?thesis using reserve_step [OF assms(2)] by simp
next
  case (fill slot d)
  then show ?thesis using fill_step [OF assms(2)] by simp
next
  case (confirm d r)
  then show ?thesis using confirm_step [OF assms(2)] by simp
next
  case (pop r)
  then show ?thesis using pop_step [OF assms(2)] by simp
qed

lemma threads_ok_no_fail: "threads_ok t \<Longrightarrow> \<not> threads_fail t"
  by (auto simp: threads_ok_def threads_fail_def producer_ok_def ring_reserve_at_def ring_confirm_def split: producer.splits)

subsection \<open>Contract\<close>

text \<open>C10: the ring buffer is a first-in first-out channel between the two threads.  Under every interleaving, with the slot
  computed before a wait and the slot memory used outside of the mutex, the disk thread reads exactly the datagrams the
  network thread confirmed, in order, no operation reports a misuse, and at most 4096 datagrams are under way.\<close>

theorem ring_threads_fifo:
  assumes "ring_step\<^sup>*\<^sup>* (threads_init heap) t"
  shows "(\<exists>waiting. t_sent t = t_got t @ waiting \<and> length waiting \<le> 4096) \<and> \<not> threads_fail t"
proof -
  have ok: "threads_ok t"
    using assms by (induction rule: rtranclp_induct) (auto simp: threads_init_ok intro: ring_step_ok)
  then have "int (length (ring_contents (t_ring t))) \<le> 4096" by (simp add: threads_ok_def) (simp add: ring_ok_def)
  then have "length (ring_contents (t_ring t)) \<le> 4096" by linarith
  with ok threads_ok_no_fail [OF ok] show ?thesis by (auto simp: threads_ok_def)
qed

theorem ring_threads_fifo_witness:
  "\<exists>t. ring_step\<^sup>*\<^sup>* (threads_init (\<lambda>_. 0 :: nat)) t \<and> t_sent t = [7] \<and> t_got t = [7] \<and> \<not> threads_fail t"
proof -
  let ?t0 = "threads_init (\<lambda>_. 0 :: nat)"
  let ?t1 = "?t0\<lparr>t_prod := PWaiting 0 7\<rparr>"
  let ?r2 = "(ring_create (\<lambda>_. 0))\<lparr>count_reserved := 1\<rparr>"
  let ?t2 = "?t0\<lparr>t_ring := ?r2, t_prod := PReserved 0 7\<rparr>"
  let ?t3 = "?t0\<lparr>t_ring := slot_write 0 7 ?r2, t_prod := PWritten 7\<rparr>"
  let ?r4 = "(slot_write 0 7 ?r2)\<lparr>count_data := 1, count_reserved := 0, data_ready := True\<rparr>"
  let ?t4 = "?t0\<lparr>t_ring := ?r4, t_sent := [7]\<rparr>"
  let ?t5 = "?t4\<lparr>t_cons := CPeeked 0\<rparr>"
  let ?t6 = "?t4\<lparr>t_cons := CRead, t_got := [7]\<rparr>"
  have "ring_step ?t0 ?t1"
    using ring_step.enter [of ?t0 7] by (simp add: threads_init_def ring_next_def ring_create_def)
  moreover have "ring_step ?t1 ?t2"
    using ring_step.reserve [of ?t1 0 7 0 ?r2] by (simp add: threads_init_def ring_create_def ring_reserve_at_def)
  moreover have "ring_step ?t2 ?t3"
    using ring_step.fill [of ?t2 0 7] by (simp add: threads_init_def)
  moreover have "ring_step ?t3 ?t4"
    using ring_step.confirm [of ?t3 7 ?r4] by (simp add: threads_init_def ring_confirm_def slot_write_def ring_create_def)
  moreover have "ring_step ?t4 ?t5"
    using ring_step.peek [of ?t4 0] by (simp add: threads_init_def ring_peek_def slot_write_def ring_create_def)
  moreover have "ring_step ?t5 ?t6"
    using ring_step.use [of ?t5 0] by (simp add: threads_init_def slot_write_def ring_create_def)
  ultimately have s: "ring_step\<^sup>*\<^sup>* ?t0 ?t6" by (meson converse_rtranclp_into_rtranclp rtranclp.rtrancl_refl)
  from ring_threads_fifo [OF this] s show ?thesis by (intro exI [of _ ?t6]) (simp add: threads_init_def)
qed

end
