(* ===== verification/TsClient.thy ===== *)
theory TsClient
  imports TsServer TsRing
begin

unbundle bit_operations_syntax

text \<open>
  The Tsunami client while a file is received: the datagram loop of \<^verbatim>\<open>command_get\<close>
  (\<^verbatim>\<open>client/command.c\<close>), its retransmission requests (\<^verbatim>\<open>client/protocol.c\<close>), the disk thread and
  the file (\<^verbatim>\<open>client/io.c\<close>).  A turn of the system is a turn of the datagram loop or of the disk thread.
\<close>

subsection \<open>State\<close>

text \<open>
  The session while a file is received: the parameters in use, \<open>ttp_transfer_t\<close> with its retransmission
  table (\<open>x_table\<close> has \<open>table_size\<close> entries), statistics and ring buffer, the buffer
  \<open>local_datagram\<close>, and \<open>x_sent\<close>: the structures written to the control connection.
\<close>

record xfer =
  x_block_size :: nat
  x_lossless :: bool
  x_losswindow_ms :: nat
  x_file_size :: nat
  x_block_count :: nat
  x_next_block :: nat
  x_gapless :: nat
  x_table :: "nat list"
  x_index_max :: nat
  x_received :: "u8 list"
  x_blocks_left :: nat
  x_restart_pending :: bool
  x_restart_lastidx :: nat
  x_restart_wireclear :: nat
  x_on_wire :: nat
  x_total_blocks :: nat
  x_this_blocks :: nat
  x_this_originals :: nat
  x_this_retransmitteds :: nat
  x_recvd_retransmits :: nat
  x_this_retransmits :: nat
  x_total_retransmits :: nat
  x_ring :: "u8 list ring_buffer"
  x_local :: "u8 list"
  x_sent :: "retransmission list"

definition got_block :: "xfer \<Rightarrow> nat \<Rightarrow> bool" where
  "got_block x b = (x_block_count x < b \<or> bit (x_received x ! (b div 8)) (b mod 8))"

definition mark_block :: "nat \<Rightarrow> xfer \<Rightarrow> xfer" where
  "mark_block b x = x\<lparr>x_received := (x_received x)[b div 8 := x_received x ! (b div 8) OR push_bit (b mod 8) 1]\<rparr>"

subsection \<open>Retransmission requests\<close>

abbreviation MAX_RETRANSMISSION_BUFFER :: nat where "MAX_RETRANSMISSION_BUFFER \<equiv> 2048"

text \<open>\<open>alloc n\<close>: \<open>realloc\<close> to \<open>n\<close> bytes succeeds.  The result is the status with the session.\<close>

definition ttp_request_retransmit :: "(nat \<Rightarrow> bool) \<Rightarrow> nat \<Rightarrow> xfer \<Rightarrow> int \<times> xfer" where
  "ttp_request_retransmit alloc block x =
     (if got_block x block then (0, x)
      else
        let store = (\<lambda>x. (0, x\<lparr>x_table := (x_table x)[x_index_max x := block], x_index_max := x_index_max x + 1\<rparr>)) in
        if length (x_table x) \<le> x_index_max x then
          if 32 * MAX_RETRANSMISSION_BUFFER \<le> x_index_max x then (0, x)
          else if \<not> alloc (2 * 4 * length (x_table x)) then (-1, x)
          else store (x\<lparr>x_table := x_table x @ replicate (length (x_table x)) 0\<rparr>)
        else store x)"

fun request_blocks :: "(nat \<Rightarrow> bool) \<Rightarrow> nat list \<Rightarrow> xfer \<Rightarrow> int \<times> xfer" where
  "request_blocks alloc [] x = (0, x)"
| "request_blocks alloc (b # bs) x =
     (case ttp_request_retransmit alloc b x of
        (status, x1) \<Rightarrow> if status < 0 then (status, x1) else request_blocks alloc bs x1)"

text \<open>What a write to the control connection meets: the items \<open>fwrite\<close> accepts, and whether \<open>fflush\<close> succeeds.\<close>

record srv_io =
  io_items :: nat
  io_flush :: bool

definition request_msg :: "u16 \<Rightarrow> nat \<Rightarrow> retransmission" where
  "request_msg type block = \<lparr>request_type = htons type, rq_block = htonl (of_nat block), rq_error_rate = 0\<rparr>"

text \<open>The loop over the table: entries still missing are moved to the front and requested.\<close>

function rr_scan :: "xfer \<Rightarrow> nat \<Rightarrow> nat list \<Rightarrow> nat \<Rightarrow> nat list \<times> nat" where
  "rr_scan x entry table count =
     (if entry < x_index_max x \<and> count < MAX_RETRANSMISSION_BUFFER then
        let block = table ! entry in
        if block \<noteq> 0 \<and> \<not> got_block x block then rr_scan x (entry + 1) (table[count := block]) (count + 1)
        else rr_scan x (entry + 1) table count
      else (table, count))"
  by pat_completeness auto
termination by (relation "measure (\<lambda>(x, entry, table, count). x_index_max x - entry)") auto

declare rr_scan.simps [simp del]

definition ttp_repeat_retransmit :: "srv_io \<Rightarrow> xfer \<Rightarrow> int \<times> xfer" where
  "ttp_repeat_retransmit io x0 =
     (let (table, count) = rr_scan x0 0 (x_table x0) 0; x = x0\<lparr>x_table := table, x_this_retransmits := 0\<rparr> in
      if MAX_RETRANSMISSION_BUFFER \<le> count then
        let block = min (x_block_count x) (w32 (x_gapless x + 1)) in
        if io_items io = 0 then (-1, x)
        else
          let lastidx = x_table x ! (x_index_max x - 1);
              x1 = x\<lparr>x_sent := x_sent x @ [request_msg REQUEST_RESTART block], x_restart_pending := True,
                     x_restart_lastidx := lastidx,
                     x_restart_wireclear := min (x_block_count x) (w32 (lastidx + x_on_wire x)),
                     x_index_max := 0, x_next_block := block, x_this_retransmits := MAX_RETRANSMISSION_BUFFER\<rparr>
          in if io_flush io then (0, x1) else (-1, x1)
      else
        let x1 = x\<lparr>x_index_max := count, x_this_retransmits := count, x_total_retransmits := w32 (x_total_retransmits x + count)\<rparr>;
            x2 = x1\<lparr>x_sent := x_sent x1 @ take (io_items io) (map (request_msg REQUEST_RETRANSMIT) (take count (x_table x1)))\<rparr>
        in if 0 < count \<and> io_items io = 0 then (-1, x2)
           else if io_flush io then (0, x2) else (-1, x2))"

definition ttp_request_stop :: "srv_io \<Rightarrow> xfer \<Rightarrow> int \<times> xfer" where
  "ttp_request_stop io x =
     (if io_items io = 0 then (-1, x)
      else (if io_flush io then 0 else -1,
        x\<lparr>x_sent := x_sent x @ [\<lparr>request_type = htons REQUEST_STOP, rq_block = 0, rq_error_rate = 0\<rparr>]\<rparr>))"

text \<open>
  \<open>ttp_update_stats\<close> with the error rate it computed from its floating-point statistics, as the 64-bit
  number \<open>rate\<close>; the display is left out.
\<close>

definition ttp_update_stats :: "nat \<Rightarrow> srv_io \<Rightarrow> xfer \<Rightarrow> int \<times> xfer" where
  "ttp_update_stats rate io x =
     (if io_items io = 0 then (-1, x)
      else
        let x1 = x\<lparr>x_sent := x_sent x @ [\<lparr>request_type = htons REQUEST_ERROR_RATE, rq_block = 0,
                     rq_error_rate = htonl (of_nat rate)\<rparr>]\<rparr> in
        if \<not> io_flush io then (-1, x1)
        else (0, x1\<lparr>x_this_blocks := x_total_blocks x1, x_this_retransmits := 0, x_this_originals := 0,
                    x_this_retransmitteds := 0\<rparr>))"

subsection \<open>The receive loop\<close>

text \<open>
  What an iteration meets: the datagram (\<open>None\<close>: \<open>recvfrom\<close> fails), the memory, the control connection
  for the three calls of \<open>ttp_repeat_retransmit\<close> (numbers 0 to 2) and for \<open>ttp_update_stats\<close> (3), the size in blocks of the loss window
  (rounded up from its floating-point value), the error rate, and whether more than \<open>UPDATE_PERIOD\<close> passed.
\<close>

record rx_env =
  e_dgram :: "u8 list option"
  e_alloc :: "nat \<Rightarrow> bool"
  e_io :: "nat \<Rightarrow> srv_io"
  e_window :: nat
  e_rate :: nat
  e_due :: bool

datatype rx_next = Rx_more | Rx_done | Rx_abort | Rx_exit | Rx_wait

text \<open>Receive: a failure repeats the requests, and goes on with the old contents of the buffer.\<close>

definition rx_receive :: "rx_env \<Rightarrow> xfer \<Rightarrow> int \<times> xfer" where
  "rx_receive env x =
     (case e_dgram env of
        Some bs \<Rightarrow> (0, x\<lparr>x_local := put_bytes 0 (take (6 + x_block_size x) bs) (x_local x)\<rparr>)
      | None \<Rightarrow> ttp_repeat_retransmit (e_io env 0) x)"

definition this_block :: "xfer \<Rightarrow> nat" where
  "this_block x = unat (htonl (le_word (take 4 (x_local x))))"

definition this_type :: "xfer \<Rightarrow> u16" where
  "this_type x = htons (le_word (take 2 (drop 4 (x_local x))))"

definition rx_count :: "xfer \<Rightarrow> xfer" where
  "rx_count x =
     (let x1 = x\<lparr>x_total_blocks := w32 (x_total_blocks x + 1)\<rparr> in
      if this_type x \<noteq> TS_BLOCK_RETRANSMISSION then x1\<lparr>x_this_originals := w32 (x_this_originals x + 1)\<rparr>
      else x1\<lparr>x_this_retransmitteds := w32 (x_this_retransmitteds x + 1), x_recvd_retransmits := w32 (x_recvd_retransmits x + 1)\<rparr>)"

text \<open>A new block is copied into the ring buffer and marked.\<close>

definition rx_insert :: "nat \<Rightarrow> xfer \<Rightarrow> rx_next \<times> xfer" where
  "rx_insert b x =
     (if got_block x b then (Rx_more, x)
      else case ring_put (x_local x) (x_ring x) of
          Inl e \<Rightarrow> (Rx_exit, x)
        | Inr None \<Rightarrow> (Rx_wait, x)
        | Inr (Some r) \<Rightarrow>
            let x1 = mark_block b (x\<lparr>x_ring := r\<rparr>)
            in (Rx_more, if x_blocks_left x1 > 0 then x1\<lparr>x_blocks_left := x_blocks_left x1 - 1\<rparr> else x1))"

text \<open>The requests for the blocks passed over, in the three modes.\<close>

definition rx_requests :: "rx_env \<Rightarrow> nat \<Rightarrow> xfer \<Rightarrow> int \<times> xfer" where
  "rx_requests env b x =
     (if b \<le> x_next_block x then (0, x)
      else if \<not> x_lossless x then
        if x_losswindow_ms x = 0 then (0, x\<lparr>x_gapless := b\<rparr>)
        else
          let earliest = b - min (e_window env) (w32 (b + (2 ^ 32 - x_gapless x)))
          in case request_blocks (e_alloc env) [earliest..<b] x of
               (status, x1) \<Rightarrow> if status < 0 then (status, x1)
                 else (0, x1\<lparr>x_next_block := earliest, x_gapless := earliest\<rparr>)
      else request_blocks (e_alloc env) [x_next_block x..<b] x)"

function advance_gapless :: "xfer \<Rightarrow> xfer" where
  "advance_gapless x =
     (if got_block x (w32 (x_gapless x + 1)) \<and> x_gapless x < x_block_count x
      then advance_gapless (x\<lparr>x_gapless := x_gapless x + 1\<rparr>) else x)"
  by pat_completeness auto
termination by (relation "measure (\<lambda>x. x_block_count x - x_gapless x)") auto

declare advance_gapless.simps [simp del]

definition rx_advance :: "nat \<Rightarrow> u16 \<Rightarrow> xfer \<Rightarrow> xfer" where
  "rx_advance b type x0 =
     (let x = advance_gapless x0;
          x1 = (if type = TS_BLOCK_ORIGINAL then x\<lparr>x_next_block := w32 (b + 1)\<rparr> else x)
      in if x_restart_pending x1 \<and> x_restart_lastidx x1 \<le> x_next_block x1 then x1\<lparr>x_restart_pending := False\<rparr> else x1)"

text \<open>The end of the transmission: done, or everything missing is requested.\<close>

definition rx_terminate :: "rx_env \<Rightarrow> u16 \<Rightarrow> xfer \<Rightarrow> rx_next \<times> xfer" where
  "rx_terminate env type x =
     (if type \<noteq> TS_BLOCK_TERMINATE then (Rx_more, x)
      else if x_blocks_left x = 0 then (Rx_done, x)
      else if \<not> x_lossless x \<and> x_index_max x = 0 \<and> \<not> x_restart_pending x then (Rx_done, x)
      else case request_blocks (e_alloc env) [w32 (x_gapless x + 1)..<x_block_count x] x of
          (status, x1) \<Rightarrow> if status < 0 then (Rx_abort, x1)
            else (Rx_more, snd (ttp_repeat_retransmit (e_io env 1) x1)))"

text \<open>Everything behind the insertion, from the test for blocks still on the wire on.\<close>

definition rx_process :: "rx_env \<Rightarrow> nat \<Rightarrow> u16 \<Rightarrow> xfer \<Rightarrow> rx_next \<times> xfer" where
  "rx_process env b type x =
     (if x_restart_pending x \<and> type \<noteq> TS_BLOCK_TERMINATE \<and> x_restart_lastidx x < b \<and> b \<le> x_restart_wireclear x
      then (Rx_more, x)
      else case rx_requests env b x of
          (status, x1) \<Rightarrow> if status < 0 then (Rx_abort, x1) else rx_terminate env type (rx_advance b type x1))"

definition rx_control :: "rx_env \<Rightarrow> xfer \<Rightarrow> rx_next \<times> xfer" where
  "rx_control env x =
     (let b = this_block x; type = this_type x in
      if ring_full (x_ring x) then (Rx_more, x)
      else if got_block x b \<and> type \<noteq> TS_BLOCK_TERMINATE \<and> \<not> x_restart_pending x then (Rx_more, x)
      else case rx_insert b x of
          (Rx_more, x1) \<Rightarrow> rx_process env b type x1
        | (r, x1) \<Rightarrow> (r, x1))"

definition rx_stats :: "rx_env \<Rightarrow> xfer \<Rightarrow> rx_next \<times> xfer" where
  "rx_stats env x =
     (if x_total_blocks x mod 50 = 0 \<and> e_due env then
        case ttp_repeat_retransmit (e_io env 2) x of
          (status, x1) \<Rightarrow> if status < 0 then (Rx_abort, x1)
            else (Rx_more, snd (ttp_update_stats (e_rate env) (e_io env 3) x1))
      else (Rx_more, x))"

definition client_iter :: "rx_env \<Rightarrow> xfer \<Rightarrow> rx_next \<times> xfer" where
  "client_iter env x0 =
     (case rx_receive env x0 of
        (status, x1) \<Rightarrow>
          if status < 0 then (Rx_abort, x1)
          else case rx_control env (rx_count x1) of
              (Rx_more, x2) \<Rightarrow> rx_stats env x2
            | (r, x2) \<Rightarrow> (r, x2))"

fun client_loop :: "rx_env list \<Rightarrow> xfer \<Rightarrow> rx_next \<times> xfer" where
  "client_loop [] x = (Rx_more, x)"
| "client_loop (env # envs) x =
     (case client_iter env x of (Rx_more, x1) \<Rightarrow> client_loop envs x1 | (r, x1) \<Rightarrow> (r, x1))"

subsection \<open>The bitmap\<close>

definition bitmap_ok :: "xfer \<Rightarrow> bool" where
  "bitmap_ok x = (length (x_received x) = x_block_count x div 8 + 2)"

definition missing :: "xfer \<Rightarrow> nat set" where
  "missing x = {b. 1 \<le> b \<and> b \<le> x_block_count x \<and> \<not> got_block x b}"

lemma missing_cong: "x_block_count y = x_block_count x \<Longrightarrow> got_block y = got_block x \<Longrightarrow> missing y = missing x"
  by (simp add: missing_def)

lemma finite_missing [simp]: "finite (missing x)"
  by (rule finite_subset [of _ "{..x_block_count x}"]) (auto simp: missing_def)

lemma got_mark_block:
  assumes "bitmap_ok x" "b \<le> x_block_count x"
  shows "got_block (mark_block b x) c \<longleftrightarrow> c = b \<or> got_block x c"
proof -
  have l: "b div 8 < length (x_received x)" using assms div_le_mono [of b "x_block_count x" 8] by (simp add: bitmap_ok_def)
  have "b mod 8 < 8" by simp
  then have b8: "bit (2 ^ (b mod 8) :: u8) k \<longleftrightarrow> k = b mod 8" for k
    by (auto simp: bit_exp_iff)
  have eq: "c = b \<longleftrightarrow> c div 8 = b div 8 \<and> c mod 8 = b mod 8"
    by (metis mult_div_mod_eq)
  show ?thesis
    using assms(2) l unfolding got_block_def mark_block_def
    by (auto simp: nth_list_update bit_or_iff b8 eq)
qed

lemma mark_block_bitmap [simp]: "bitmap_ok (mark_block b x) = bitmap_ok x"
  by (simp add: bitmap_ok_def mark_block_def)

lemma missing_mark_block:
  assumes "bitmap_ok x" "b \<le> x_block_count x"
  shows "missing (mark_block b x) = missing x - {b}"
  using got_mark_block [OF assms] by (auto simp: missing_def mark_block_def)

subsection \<open>What the operations leave alone\<close>

definition core :: "xfer \<Rightarrow> nat \<times> bool \<times> nat \<times> nat \<times> nat \<times> u8 list \<times> nat \<times> u8 list ring_buffer \<times> u8 list" where
  "core x = (x_block_size x, x_lossless x, x_losswindow_ms x, x_file_size x, x_block_count x, x_received x, x_blocks_left x,
     x_ring x, x_local x)"

lemma core_eqD:
  assumes "core x = core y"
  shows "x_block_size x = x_block_size y" "x_lossless x = x_lossless y" "x_block_count x = x_block_count y"
    "x_received x = x_received y" "x_blocks_left x = x_blocks_left y" "x_ring x = x_ring y" "x_local x = x_local y"
    "got_block x = got_block y" "missing x = missing y" "bitmap_ok x = bitmap_ok y" "this_block x = this_block y"
    "this_type x = this_type y" "x_file_size x = x_file_size y"
  using assms by (auto simp: core_def got_block_def missing_def bitmap_ok_def this_block_def this_type_def fun_eq_iff)

named_theorems core_pres \<open>operations that keep the data of the session\<close>

lemma core_request [core_pres]: "ttp_request_retransmit alloc b x = (s, y) \<Longrightarrow> core y = core x"
  by (auto simp: ttp_request_retransmit_def Let_def core_def split: if_splits)

lemma core_requests [core_pres]: "request_blocks alloc bs x = (s, y) \<Longrightarrow> core y = core x"
proof (induction bs arbitrary: x)
  case (Cons b bs)
  obtain s1 x1 where r: "ttp_request_retransmit alloc b x = (s1, x1)" by (cases "ttp_request_retransmit alloc b x")
  then have "core y = core x1" using Cons by (auto split: if_splits)
  then show ?case using core_request [OF r] by simp
qed simp

lemma core_repeat [core_pres]: "ttp_repeat_retransmit io x = (s, y) \<Longrightarrow> core y = core x"
  by (auto simp: ttp_repeat_retransmit_def Let_def core_def split: prod.splits if_splits)

lemma core_stats [core_pres]: "ttp_update_stats rate io x = (s, y) \<Longrightarrow> core y = core x"
  by (auto simp: ttp_update_stats_def Let_def core_def split: if_splits)

lemma core_count [simp]: "core (rx_count x) = core x"
  by (simp add: rx_count_def Let_def core_def)

lemma core_advance_gapless [simp]: "core (advance_gapless x) = core x"
proof (induction x rule: advance_gapless.induct)
  case (1 x)
  then show ?case by (subst advance_gapless.simps) (simp add: core_def)
qed

lemma core_advance [simp]: "core (rx_advance b type x) = core x"
  using core_advance_gapless [of x] by (simp add: rx_advance_def Let_def core_def)

lemma core_rx_requests [core_pres]:
  assumes "rx_requests env b x = (s, y)"
  shows "core y = core x"
proof -
  have "core (x1\<lparr>x_next_block := n, x_gapless := g\<rparr>) = core x1" "core (x1\<lparr>x_gapless := g\<rparr>) = core x1" for x1 n g
    by (simp_all add: core_def)
  then show ?thesis
    using assms core_requests by (auto simp: rx_requests_def Let_def split: if_splits prod.splits)
qed

lemma core_terminate [core_pres]:
  assumes "rx_terminate env type x = (r, y)"
  shows "core y = core x"
proof (cases "type \<noteq> TS_BLOCK_TERMINATE \<or> x_blocks_left x = 0 \<or> (\<not> x_lossless x \<and> x_index_max x = 0 \<and> \<not> x_restart_pending x)")
  case True
  then show ?thesis using assms by (auto simp: rx_terminate_def split: if_splits)
next
  case False
  obtain s x1 where q: "request_blocks (e_alloc env) [w32 (x_gapless x + 1)..<x_block_count x] x = (s, x1)"
    by (cases "request_blocks (e_alloc env) [w32 (x_gapless x + 1)..<x_block_count x] x")
  obtain s2 x2 where p: "ttp_repeat_retransmit (e_io env 1) x1 = (s2, x2)" by (cases "ttp_repeat_retransmit (e_io env 1) x1")
  have "y = x1 \<or> y = x2" using assms False q p unfolding rx_terminate_def by (simp split: if_splits)
  then show ?thesis using core_requests [OF q] core_repeat [OF p] by auto
qed

lemma core_rx_stats [core_pres]:
  assumes "rx_stats env x = (r, y)"
  shows "core y = core x"
proof -
  obtain s x1 where q: "ttp_repeat_retransmit (e_io env 2) x = (s, x1)" by (cases "ttp_repeat_retransmit (e_io env 2) x")
  obtain s2 x2 where p: "ttp_update_stats (e_rate env) (e_io env 3) x1 = (s2, x2)"
    by (cases "ttp_update_stats (e_rate env) (e_io env 3) x1")
  have "y = x \<or> y = x1 \<or> y = x2" using assms q p by (auto simp: rx_stats_def split: if_splits)
  then show ?thesis using core_repeat [OF q] core_stats [OF p] by auto
qed

lemma core_process [core_pres]:
  assumes "rx_process env b type x = (r, y)"
  shows "core y = core x"
proof -
  obtain s x1 where q: "rx_requests env b x = (s, x1)" by (cases "rx_requests env b x")
  obtain r2 x2 where p: "rx_terminate env type (rx_advance b type x1) = (r2, x2)"
    by (cases "rx_terminate env type (rx_advance b type x1)")
  have "y = x \<or> y = x1 \<or> y = x2" using assms q p by (auto simp: rx_process_def split: if_splits)
  then show ?thesis using core_rx_requests [OF q] core_terminate [OF p] by auto
qed

text \<open>An iteration receives, inserts at most one block, and otherwise keeps the data.\<close>

lemma rx_control_core:
  assumes "rx_control env x = (r, y)"
  shows "core y = core x \<or>
    (\<exists>x1. rx_insert (this_block x) x = (Rx_more, x1) \<and> \<not> got_block x (this_block x) \<and> \<not> ring_full (x_ring x) \<and> core y = core x1)"
proof -
  obtain s x1 where i: "rx_insert (this_block x) x = (s, x1)" by (cases "rx_insert (this_block x) x")
  have c: "core y = core x \<or> (s = Rx_more \<and> \<not> ring_full (x_ring x) \<and> core y = core x1) \<or> (s \<noteq> Rx_more \<and> y = x1)"
    using assms i core_process by (auto simp: rx_control_def Let_def split: if_splits rx_next.splits)
  have e: "got_block x (this_block x) \<or> s \<noteq> Rx_more \<Longrightarrow> x1 = x"
    using i by (auto simp: rx_insert_def Let_def split: if_splits sum.splits option.splits)
  show ?thesis using c e i by blast
qed

subsection \<open>The disk thread\<close>

definition file_write :: "nat \<Rightarrow> u8 list \<Rightarrow> u8 list \<Rightarrow> u8 list" where
  "file_write pos bs f =
     (if bs = [] then f
      else take pos (f @ replicate (pos - length f) 0) @ bs @ drop (pos + length bs) f)"

text \<open>What the disk does: whether \<open>fseeko\<close> succeeds, and how many bytes \<open>fwrite\<close> gets written.\<close>

record disk_io =
  dk_seek :: bool
  dk_bytes :: nat

definition accept_block :: "disk_io \<Rightarrow> xfer \<Rightarrow> nat \<Rightarrow> u8 list \<Rightarrow> u8 list \<Rightarrow> int \<times> u8 list" where
  "accept_block io x block_index block f =
     (let rest = x_file_size x mod x_block_size x;
          write_size = (if block_index = x_block_count x then (if rest = 0 then x_block_size x else rest) else x_block_size x);
          pos = x_block_size x * w32 (block_index + (2 ^ 32 - 1)) in
      if \<not> dk_seek io then (-1, f)
      else
        let status = min write_size (dk_bytes io)
        in (if status < write_size then -1 else 0, file_write pos (take status block) f))"

record disk =
  d_file :: "u8 list"
  d_alive :: bool

text \<open>One turn of \<open>disk_thread\<close>; without data it waits.  A thread that has returned does nothing.\<close>

definition disk_step :: "disk_io \<Rightarrow> xfer \<times> disk \<Rightarrow> xfer \<times> disk" where
  "disk_step io xd =
     (case xd of (x, d) \<Rightarrow>
        if \<not> d_alive d then (x, d)
        else case ring_take (x_ring x) of
            None \<Rightarrow> (x, d)
          | Some (dg, r) \<Rightarrow>
              let block_index = unat (htonl (le_word (take 4 dg))) in
              if block_index = 0 then (x, d\<lparr>d_alive := False\<rparr>)
              else case accept_block io x block_index (drop 6 dg) (d_file d) of
                  (status, f) \<Rightarrow> if status < 0 then (x, d\<lparr>d_file := f, d_alive := False\<rparr>)
                    else (x\<lparr>x_ring := r\<rparr>, d\<lparr>d_file := f\<rparr>))"

text \<open>The two threads interleaved; the network thread stops with its loop.\<close>

datatype turn = Net rx_env | Disk disk_io

fun sys_run :: "turn list \<Rightarrow> xfer \<times> disk \<Rightarrow> rx_next \<times> xfer \<times> disk" where
  "sys_run [] xd = (Rx_more, xd)"
| "sys_run (Disk io # ts) xd = sys_run ts (disk_step io xd)"
| "sys_run (Net env # ts) (x, d) =
     (case client_iter env x of (Rx_more, x1) \<Rightarrow> sys_run ts (x1, d) | (r, x1) \<Rightarrow> (r, x1, d))"

subsection \<open>Every block received is in the ring or in the file\<close>

definition file_has :: "srv_par \<Rightarrow> u8 list \<Rightarrow> u8 list \<Rightarrow> nat \<Rightarrow> bool" where
  "file_has par content f b =
     (take (length (block_data par content b)) (drop ((b - 1) * p_block_size par) f) = block_data par content b)"

definition dgram_ok :: "srv_par \<Rightarrow> u8 list \<Rightarrow> u8 list \<Rightarrow> bool" where
  "dgram_ok par content dg = (\<exists>b. 1 \<le> b \<and> b \<le> p_block_count par \<and> carries par content dg b)"

definition client_ok :: "srv_par \<Rightarrow> u8 list \<Rightarrow> xfer \<Rightarrow> bool" where
  "client_ok par content x =
     (x_block_size x = p_block_size par \<and> x_block_count x = p_block_count par \<and> x_file_size x = length content \<and>
      bitmap_ok x \<and> x_blocks_left x = card (missing x) \<and> length (x_local x) = 6 + p_block_size par \<and>
      ring_idle (x_ring x) \<and> (\<forall>dg\<in>set (ring_contents (x_ring x)). dgram_ok par content dg))"

definition stored :: "srv_par \<Rightarrow> u8 list \<Rightarrow> xfer \<Rightarrow> u8 list \<Rightarrow> bool" where
  "stored par content x f =
     (length f \<le> length content \<and>
      (\<forall>b. 1 \<le> b \<and> b \<le> x_block_count x \<and> got_block x b \<longrightarrow>
         file_has par content f b \<or> (\<exists>dg\<in>set (ring_contents (x_ring x)). carries par content dg b)))"

lemma client_ok_core: "core x = core y \<Longrightarrow> client_ok par content x = client_ok par content y"
  by (simp add: client_ok_def core_eqD [of x y])

lemma stored_core: "core x = core y \<Longrightarrow> stored par content x f = stored par content y f"
  by (simp add: stored_def core_eqD [of x y])

lemma carries_number:
  assumes "carries par content dg b" "b < 2 ^ 32"
  shows "unat (htonl (le_word (take 4 dg))) = b"
proof -
  have "take 4 dg = le_list 4 (htonl (of_nat b))" using assms(1) by (simp add: carries_def htonl_memory)
  then have "htonl (le_word (take 4 dg)) = of_nat b" by (simp add: le_word_list)
  then show ?thesis using assms(2) by (simp add: unsigned_of_nat take_bit_eq_mod)
qed

lemma rx_insert_ok:
  assumes "par_ok par content" "client_ok par content x" "dgram_ok par content (x_local x)" "stored par content x f"
    "\<not> got_block x (this_block x)" "rx_insert (this_block x) x = (Rx_more, y)"
  shows "client_ok par content y \<and> stored par content y f \<and> x_local y = x_local x \<and>
    got_block y (this_block x) \<and> this_block x \<in> missing x \<and> missing y = missing x - {this_block x}"
proof -
  let ?b = "this_block x"
  obtain b where b: "1 \<le> b" "b \<le> p_block_count par" "carries par content (x_local x) b"
    using assms(3) by (auto simp: dgram_ok_def)
  then have tb: "?b = b" using carries_number [OF b(3)] assms(1) by (simp add: this_block_def par_ok_def)
  have x: "bitmap_ok x" "ring_idle (x_ring x)" "x_block_count x = p_block_count par"
    using assms(2) by (simp_all add: client_ok_def)
  obtain r where put: "ring_put (x_local x) (x_ring x) = Inr (Some r)"
    using assms(5,6) by (auto simp: rx_insert_def split: sum.splits option.splits)
  have r: "ring_idle r" "ring_contents r = ring_contents (x_ring x) @ [x_local x]"
    using ring.put_some [of "x_ring x" "x_local x" r] x(2) put by (simp_all add: ring_try_put_def)
  have m: "b \<in> missing x" using assms(5) b tb x(3) by (simp add: missing_def)
  then have left: "x_blocks_left x > 0" using assms(2) by (auto simp: client_ok_def card_gt_0_iff)
  define x1 where "x1 = x\<lparr>x_ring := r\<rparr>"
  have x1: "bitmap_ok x1" "b \<le> x_block_count x1" using x b by (simp_all add: x1_def bitmap_ok_def)
  have gx1: "got_block x1 = got_block x" "missing x1 = missing x"
    by (auto simp: x1_def got_block_def missing_def fun_eq_iff)
  have y: "y = (mark_block b x1)\<lparr>x_blocks_left := x_blocks_left x - 1\<rparr>"
    using assms(5,6) put left tb by (simp add: rx_insert_def Let_def x1_def mark_block_def)
  have gy: "got_block y c \<longleftrightarrow> c = b \<or> got_block x c" for c
    using got_mark_block [OF x1, of c] gx1 by (simp add: y got_block_def)
  have my: "missing y = missing x - {b}"
    using missing_mark_block [OF x1] gx1 by (simp add: y missing_def got_block_def)
  have ry: "x_ring y = r" by (simp add: y mark_block_def x1_def)
  have "card (missing y) = x_blocks_left x - 1"
    using my m assms(2) by (simp add: client_ok_def card_Diff_singleton)
  then have "client_ok par content y"
    using assms(2,3) r x1 ry by (auto simp: client_ok_def y bitmap_ok_def mark_block_def x1_def)
  moreover have "stored par content y f"
    using assms(4) b gy r ry tb by (auto simp: stored_def y mark_block_def x1_def)
  ultimately show ?thesis using gy my m tb by (simp add: y mark_block_def x1_def)
qed

lemma rx_terminate_done:
  "rx_terminate env type x = (Rx_done, y) \<Longrightarrow> x_lossless x \<Longrightarrow> x_blocks_left y = 0 \<and> y = x"
  by (auto simp: rx_terminate_def split: if_splits prod.splits)

lemma rx_process_done:
  assumes "rx_process env b type x = (Rx_done, y)" "x_lossless x"
  shows "x_blocks_left y = 0"
proof -
  obtain s x1 where q: "rx_requests env b x = (s, x1)" by (cases "rx_requests env b x")
  then have "x_lossless (rx_advance b type x1)" using core_rx_requests [OF q] assms(2) core_eqD(2) core_advance by metis
  then show ?thesis using assms(1) q rx_terminate_done by (auto simp: rx_process_def split: if_splits)
qed

lemma client_iter_ok:
  assumes "par_ok par content" "client_ok par content x" "stored par content x f"
    and env: "case e_dgram env of None \<Rightarrow> dgram_ok par content (x_local x) | Some dg \<Rightarrow> dgram_ok par content dg"
    and it: "client_iter env x = (r, y)"
  shows "client_ok par content y \<and> stored par content y f \<and> dgram_ok par content (x_local y) \<and>
    x_lossless y = x_lossless x \<and> (r = Rx_done \<and> x_lossless x \<longrightarrow> missing y = {}) \<and> r \<noteq> Rx_exit \<and> r \<noteq> Rx_wait"
proof -
  obtain s x1 where rc: "rx_receive env x = (s, x1)" by (cases "rx_receive env x")
  have "client_ok par content x1 \<and> stored par content x1 f \<and> dgram_ok par content (x_local x1) \<and> x_lossless x1 = x_lossless x"
  proof (cases "e_dgram env")
    case None
    then have c: "core x1 = core x" using rc core_repeat by (simp add: rx_receive_def)
    then show ?thesis using assms(2,3) env None client_ok_core [OF c] stored_core [OF c] core_eqD [OF c] by simp
  next
    case (Some dg)
    then have l: "length dg = 6 + p_block_size par" using env by (auto simp: dgram_ok_def carries_def)
    then have e: "x1 = x\<lparr>x_local := dg\<rparr>"
      using rc Some assms(2) by (auto simp: rx_receive_def put_bytes_def client_ok_def)
    have "got_block x1 = got_block x" by (simp add: e got_block_def fun_eq_iff)
    moreover from this have "missing x1 = missing x" by (simp add: e missing_def)
    ultimately show ?thesis
      using assms(2,3) env Some l by (simp add: client_ok_def stored_def bitmap_ok_def e)
  qed
  then have x1: "client_ok par content x1" "stored par content x1 f" "dgram_ok par content (x_local x1)" "x_lossless x1 = x_lossless x"
    by blast+
  show ?thesis
  proof (cases "s < 0")
    case True
    then show ?thesis using it rc x1 by (auto simp: client_iter_def)
  next
    case False
    define x2 where "x2 = rx_count x1"
    have c2: "core x2 = core x1" by (simp add: x2_def)
    have x2: "client_ok par content x2" "stored par content x2 f" "dgram_ok par content (x_local x2)" "x_lossless x2 = x_lossless x"
      using x1 client_ok_core [OF c2] stored_core [OF c2] core_eqD [OF c2] by simp_all
    obtain r3 x3 where ct: "rx_control env x2 = (r3, x3)" by (cases "rx_control env x2")
    have ins: "client_ok par content z \<and> stored par content z f \<and> x_local z = x_local x2 \<and> x_lossless z = x_lossless x2"
      if "rx_insert (this_block x2) x2 = (Rx_more, z)" for z
    proof (cases "got_block x2 (this_block x2)")
      case True
      then show ?thesis using that x2 by (simp add: rx_insert_def)
    next
      case False
      moreover have "x_lossless z = x_lossless x2"
        using that by (auto simp: rx_insert_def mark_block_def Let_def split: if_splits sum.splits option.splits)
      ultimately show ?thesis using rx_insert_ok [OF assms(1) x2(1,3,2) _ that] by blast
    qed
    have x3: "client_ok par content x3" "stored par content x3 f" "x_local x3 = x_local x2" "x_lossless x3 = x_lossless x"
      using rx_control_core [OF ct] ins x2 client_ok_core stored_core core_eqD by metis+
    have fin: "x_blocks_left x3 = 0" if "r3 = Rx_done" "x_lossless x"
    proof -
      obtain s4 x4 where "rx_insert (this_block x2) x2 = (s4, x4)" by (cases "rx_insert (this_block x2) x2")
      moreover have "rx_insert b z \<noteq> (Rx_done, z2)" for b z z2
        by (auto simp: rx_insert_def Let_def split: sum.splits option.splits)
      ultimately show ?thesis
        using ct that rx_process_done ins x2(4) by (auto simp: rx_control_def Let_def split: if_splits rx_next.splits)
    qed
    have no_wait: "r3 \<noteq> Rx_exit \<and> r3 \<noteq> Rx_wait"
    proof -
      have idle: "ring_idle (x_ring x2)" using x2(1) by (simp add: client_ok_def)
      have "ring_put (x_local x2) (x_ring x2) \<noteq> Inl e" for e
        using ring_put_ok [OF idle, of "x_local x2"] by (auto split: if_splits)
      moreover have "\<not> ring_full (x_ring x2) \<Longrightarrow> ring_put (x_local x2) (x_ring x2) \<noteq> Inr None"
        using ring_put_ok [OF idle, of "x_local x2"] idle by (auto simp: ring_full_def ring_idle_def ring_ok_def split: if_splits)
      ultimately have i: "\<not> ring_full (x_ring x2) \<Longrightarrow> fst (rx_insert (this_block x2) x2) = Rx_more"
        by (auto simp: rx_insert_def Let_def split: sum.splits option.splits)
      have "fst (rx_terminate env t z) \<noteq> Rx_exit \<and> fst (rx_terminate env t z) \<noteq> Rx_wait" for t z
        by (auto simp: rx_terminate_def split: prod.splits)
      then have "fst (rx_process env b t z) \<noteq> Rx_exit \<and> fst (rx_process env b t z) \<noteq> Rx_wait" for b t z
        by (auto simp: rx_process_def split: prod.splits)
      then show ?thesis using ct i by (auto simp: rx_control_def Let_def split: if_splits prod.splits rx_next.splits) (metis fst_conv)+
    qed
    show ?thesis
    proof (cases "r3 = Rx_more")
      case True
      then have st: "rx_stats env x3 = (r, y)" using it rc False ct by (simp add: client_iter_def x2_def)
      then have c: "core y = core x3" by (rule core_rx_stats)
      have "r = Rx_more \<or> r = Rx_abort" using st by (auto simp: rx_stats_def split: if_splits prod.splits)
      then show ?thesis using x3 x2(3) c client_ok_core [OF c] stored_core [OF c] core_eqD [OF c] by auto
    next
      case other: False
      then have "r = r3" "y = x3" using it rc False ct by (auto simp: client_iter_def x2_def split: rx_next.splits)
      moreover have "missing x3 = {}" if "r3 = Rx_done" "x_lossless x"
        using fin [OF that] x3(1) finite_missing [of x3] by (simp add: client_ok_def)
      ultimately show ?thesis using x3 x2(3) no_wait by auto
    qed
  qed
qed

end
