(* ===== verification/TsDisk.thy ===== *)
theory TsDisk
  imports TsClient
begin

unbundle bit_operations_syntax

text \<open>
  Every datagram that leaves the ring buffer is written where it belongs: blocks that are counted as
  received are in the ring or already in the file, whatever the order of the turns of the two threads.
\<close>

subsection \<open>The file\<close>

lemma file_write_length: "bs \<noteq> [] \<Longrightarrow> length (file_write pos bs f) = max (length f) (pos + length bs)"
  by (simp add: file_write_def)

lemma file_write_nth:
  assumes "bs \<noteq> []" "i < max (length f) (pos + length bs)"
  shows "file_write pos bs f ! i =
    (if pos \<le> i \<and> i < pos + length bs then bs ! (i - pos) else if i < length f then f ! i else 0)"
proof -
  define g where "g = f @ replicate (pos - length f) 0"
  define h where "h = take pos g"
  have h: "length h = pos" "\<And>i. i < pos \<Longrightarrow> h ! i = (if i < length f then f ! i else 0)"
    by (auto simp: h_def g_def nth_append)
  have "file_write pos bs f = h @ bs @ drop (pos + length bs) f"
    using assms(1) by (simp add: file_write_def h_def g_def)
  note w = this
  consider "i < pos" | "pos \<le> i" "i < pos + length bs" | "pos + length bs \<le> i" "i < length f" using assms(2) by linarith
  then show ?thesis
  proof cases
    case 2
    then obtain j where "i = pos + j" "j < length bs" by (metis le_Suc_ex nat_add_left_cancel_less)
    then show ?thesis by (simp add: w nth_append h)
  next
    case 3
    then obtain j where "i = pos + length bs + j" using le_Suc_ex by blast
    then show ?thesis using 3 by (simp add: w nth_append h)
  qed (simp_all add: w nth_append h)
qed

lemma file_write_nth_other:
  "bs \<noteq> [] \<Longrightarrow> i < length f \<Longrightarrow> \<not> (pos \<le> i \<and> i < pos + length bs) \<Longrightarrow> file_write pos bs f ! i = f ! i"
  using file_write_nth [of bs i f pos] by auto

lemma file_has_iff:
  "file_has par content f b \<longleftrightarrow>
   block_data par content b = [] \<or>
   ((b - 1) * p_block_size par + length (block_data par content b) \<le> length f \<and>
    (\<forall>i<length (block_data par content b). f ! ((b - 1) * p_block_size par + i) = block_data par content b ! i))"
proof -
  let ?p = "(b - 1) * p_block_size par" and ?d = "block_data par content b"
  show ?thesis
  proof (cases "?p + length ?d \<le> length f")
    case True
    have "take (length ?d) (drop ?p f) = ?d \<longleftrightarrow> (\<forall>i<length ?d. f ! (?p + i) = ?d ! i)"
    proof
      assume t: "take (length ?d) (drop ?p f) = ?d"
      show "\<forall>i<length ?d. f ! (?p + i) = ?d ! i"
      proof (intro allI impI)
        fix i assume i: "i < length ?d"
        have "take (length ?d) (drop ?p f) ! i = f ! (?p + i)" using i True by simp
        then show "f ! (?p + i) = ?d ! i" unfolding t by simp
      qed
    next
      assume "\<forall>i<length ?d. f ! (?p + i) = ?d ! i"
      then show "take (length ?d) (drop ?p f) = ?d" using True by (intro nth_equalityI) simp_all
    qed
    then show ?thesis using True by (cases "?d = []") (simp_all add: file_has_def)
  next
    case False
    have "?d = []" if "take (length ?d) (drop ?p f) = ?d"
    proof -
      from that have "length (take (length ?d) (drop ?p f)) = length ?d" by simp
      then have "length ?d \<le> length f - ?p" by simp
      then have "length ?d = 0" using False by linarith
      then show ?thesis by simp
    qed
    then show ?thesis using False by (auto simp: file_has_def)
  qed
qed

lemma block_data_length: "length (block_data par content b) = min (length content - (b - 1) * p_block_size par) (p_block_size par)"
  by (simp add: block_data_def)

text \<open>The bytes \<open>accept_block\<close> writes of a block are exactly its data.\<close>

lemma write_size:
  assumes "par_ok par content" "1 \<le> b" "b \<le> p_block_count par"
  shows "length (block_data par content b) =
    (if b = p_block_count par then (if length content mod p_block_size par = 0 then p_block_size par
       else length content mod p_block_size par) else p_block_size par)"
proof (cases "b = p_block_count par")
  case False
  then show ?thesis using full_block_length [OF assms(1,2)] assms(3) by simp
next
  case True
  let ?bs = "p_block_size par" and ?q = "length content div p_block_size par"
  have bs: "0 < ?bs" using assms(1) by (simp add: par_ok_def)
  have n: "?bs * ?q + length content mod ?bs = length content" by simp
  show ?thesis
  proof (cases "length content mod ?bs = 0")
    case z: True
    then have "b = ?q" using True assms(1) by (simp add: par_ok_def)
    then obtain k where "?q = Suc k" using assms(2) by (cases ?q) auto
    then have e: "length content = ?bs * k + ?bs" "(b - 1) * ?bs = ?bs * k" using n z \<open>b = ?q\<close> by simp_all
    have "length (block_data par content b) = ?bs" unfolding block_data_length e by simp
    then show ?thesis using True z by simp
  next
    case nz: False
    then have "b - 1 = ?q" using True assms(1) by (simp add: par_ok_def)
    then have "length content - (b - 1) * ?bs = length content mod ?bs" by (simp add: minus_mult_div_eq_mod mult.commute)
    then show ?thesis using True nz bs by (simp add: block_data_length)
  qed
qed

lemma block_range:
  assumes "par_ok par content" "1 \<le> b" "b \<le> p_block_count par"
  shows "block_data par content b \<noteq> []" "(b - 1) * p_block_size par + length (block_data par content b) \<le> length content"
    "length (block_data par content b) \<le> p_block_size par"
proof -
  have "0 < p_block_size par" using assms(1) by (simp add: par_ok_def)
  then have "0 < length (block_data par content b)" using write_size [OF assms] by auto
  then show ne: "block_data par content b \<noteq> []" by auto
  then have "(b - 1) * p_block_size par < length content" by (simp add: block_data_def)
  then show "(b - 1) * p_block_size par + length (block_data par content b) \<le> length content"
    unfolding block_data_length by linarith
  show "length (block_data par content b) \<le> p_block_size par" by (simp add: block_data_length)
qed

text \<open>A write of (part of) one block does not disturb another.\<close>

lemma file_has_write:
  assumes "par_ok par content" "1 \<le> b" "b \<le> p_block_count par" "1 \<le> c" "c \<le> p_block_count par" "c \<noteq> b"
    "file_has par content f c" "length bs \<le> length (block_data par content b)"
  shows "file_has par content (file_write ((b - 1) * p_block_size par) bs f) c"
proof (cases "bs = []")
  case False
  let ?s = "p_block_size par" and ?d = "block_data par content c"
  have r: "(c - 1) * ?s + length ?d \<le> length f" "\<forall>i<length ?d. f ! ((c - 1) * ?s + i) = ?d ! i"
    using assms(7) block_range(1) [OF assms(1,4,5)] by (auto simp: file_has_iff)
  have "file_write ((b - 1) * ?s) bs f ! ((c - 1) * ?s + i) = ?d ! i" if i: "i < length ?d" for i
  proof -
    have "\<not> ((b - 1) * ?s \<le> (c - 1) * ?s + i \<and> (c - 1) * ?s + i < (b - 1) * ?s + length bs)"
    proof (cases "c < b")
      case True
      then have "c \<le> b - 1" by simp
      from mult_le_mono1 [OF this, of ?s] have "(c - 1) * ?s + ?s \<le> (b - 1) * ?s"
        using assms(4) by (cases c) (simp_all add: add.commute)
      then show ?thesis using i block_range(3) [OF assms(1,4,5)] by linarith
    next
      case gt: False
      then have "b \<le> c - 1" using assms(6) by simp
      from mult_le_mono1 [OF this, of ?s] have "(b - 1) * ?s + ?s \<le> (c - 1) * ?s"
        using assms(2) by (cases b) (simp_all add: add.commute)
      then show ?thesis using assms(8) block_range(3) [OF assms(1-3)] by linarith
    qed
    then show ?thesis using r i file_write_nth_other [OF False, of "(c - 1) * ?s + i" f "(b - 1) * ?s"] by simp
  qed
  then show ?thesis using r(1) by (auto simp: file_has_iff file_write_length [OF False])
qed (use assms(7) in \<open>simp add: file_write_def\<close>)

lemma file_has_written:
  assumes "par_ok par content" "1 \<le> b" "b \<le> p_block_count par"
  shows "file_has par content (file_write ((b - 1) * p_block_size par) (block_data par content b) f) b"
  using block_range(1) [OF assms] by (simp add: file_has_iff file_write_length file_write_nth)

definition disk_good :: "srv_par \<Rightarrow> disk_io \<Rightarrow> bool" where
  "disk_good par io = (dk_seek io \<and> p_block_size par \<le> dk_bytes io)"

lemma disk_step_ok:
  assumes "par_ok par content" "client_ok par content x" "stored par content x (d_file d)" "disk_step io (x, d) = (y, e)"
  shows "client_ok par content y \<and> stored par content y (d_file e) \<and> x_local y = x_local x \<and> x_lossless y = x_lossless x \<and>
    missing y = missing x \<and> (d_alive d \<and> disk_good par io \<longrightarrow> d_alive e \<and>
      ring_contents (x_ring y) = tl (ring_contents (x_ring x)))"
proof (cases "d_alive d \<and> ring_contents (x_ring x) \<noteq> []")
  case False
  have idle: "ring_idle (x_ring x)" using assms(2) by (simp add: client_ok_def)
  then have "disk_step io (x, d) = (x, d)"
    using False ring.take_none [of "x_ring x"] by (auto simp: disk_step_def)
  then show ?thesis using assms False by auto
next
  case True
  have idle: "ring_idle (x_ring x)" using assms(2) by (simp add: client_ok_def)
  obtain dg r where tk: "ring_take (x_ring x) = Some (dg, r)"
    using True ring.take_none [OF idle] by (cases "ring_take (x_ring x)") auto
  have r: "ring_idle r" "ring_contents (x_ring x) = dg # ring_contents r" using ring.take_some [OF idle tk] by auto
  then have "dgram_ok par content dg" using assms(2) by (simp add: client_ok_def)
  then obtain b where b: "1 \<le> b" "b \<le> p_block_count par" "carries par content dg b" by (auto simp: dgram_ok_def)
  have b32: "b < 2 ^ 32" using b(2) assms(1) by (simp add: par_ok_def)
  have idx: "unat (htonl (le_word (take 4 dg))) = b" using carries_number [OF b(3) b32] .
  have w: "w32 (b + (2 ^ 32 - 1)) = b - 1" using w32_pred [OF b(1) b32] .
  let ?d = "block_data par content b"
  define k where "k = min (length ?d) (dk_bytes io)"
  define f where "f = (if dk_seek io then file_write ((b - 1) * p_block_size par) (take k ?d) (d_file d) else d_file d)"
  have c: "x_block_size x = p_block_size par" "x_block_count x = p_block_count par" "x_file_size x = length content"
    using assms(2) by (simp_all add: client_ok_def)
  have "take k (drop 6 dg) = take k ?d"
  proof -
    have "take (length ?d) (drop 6 dg) = ?d" using b(3) by (simp add: carries_def)
    then have "take k (take (length ?d) (drop 6 dg)) = take k ?d" by simp
    then show ?thesis by (simp add: k_def min_def split: if_splits)
  qed
  then have acc: "accept_block io x b (drop 6 dg) (d_file d) =
      (if \<not> dk_seek io then -1 else if k < length ?d then -1 else 0, f)"
    unfolding accept_block_def Let_def c w write_size [OF assms(1) b(1,2), symmetric] k_def [symmetric] f_def
    by (simp add: mult.commute)
  have others: "file_has par content f a" if "file_has par content (d_file d) a" "1 \<le> a" "a \<le> p_block_count par" "a \<noteq> b" for a
    using file_has_write [OF assms(1) b(1,2) that(2,3,4,1)] that(1) by (simp add: f_def)
  have bin: "\<exists>g\<in>set (ring_contents (x_ring x)). carries par content g b" using r(2) b(3) by auto
  have len: "length f \<le> length content"
  proof (cases "take k ?d = []")
    case False
    have "length (take k ?d) \<le> length ?d" by simp
    then have "(b - 1) * p_block_size par + length (take k ?d) \<le> length content"
      using block_range(2) [OF assms(1) b(1,2)] by linarith
    then show ?thesis
      using assms(3) by (simp add: f_def file_write_length [OF False] stored_def del: length_take)
  qed (use assms(3) in \<open>simp add: f_def file_write_def stored_def\<close>)
  have keep: "stored par content x f"
    unfolding stored_def
  proof (intro conjI allI impI)
    fix a assume a: "1 \<le> a \<and> a \<le> x_block_count x \<and> got_block x a"
    then have "file_has par content (d_file d) a \<or> (\<exists>g\<in>set (ring_contents (x_ring x)). carries par content g a)"
      using assms(3) by (auto simp: stored_def)
    then show "file_has par content f a \<or> (\<exists>g\<in>set (ring_contents (x_ring x)). carries par content g a)"
      using others a bin c by (cases "a = b") auto
  qed (rule len)
  show ?thesis
  proof (cases "dk_seek io \<and> \<not> k < length ?d")
    case False
    then have "disk_step io (x, d) = (x, d\<lparr>d_file := f, d_alive := False\<rparr>)"
      using True tk idx b(1) acc by (auto simp: disk_step_def Let_def)
    moreover have "\<not> disk_good par io"
      using False block_range(3) [OF assms(1) b(1,2)] by (auto simp: disk_good_def k_def)
    ultimately show ?thesis using assms(2,4) keep by auto
  next
    case good: True
    then have "k = length ?d" by (auto simp: k_def min_def split: if_splits)
    then have "file_has par content f b" using good file_has_written [OF assms(1) b(1,2)] by (simp add: f_def)
    moreover have step: "disk_step io (x, d) = (x\<lparr>x_ring := r\<rparr>, d\<lparr>d_file := f\<rparr>)"
      using True tk idx b(1) acc good by (auto simp: disk_step_def Let_def)
    moreover have "file_has par content f a \<or> (\<exists>g\<in>set (ring_contents r). carries par content g a)"
      if "1 \<le> a" "a \<le> p_block_count par" "got_block x a" for a
    proof (cases "a = b")
      case False
      have "file_has par content f a \<or> (\<exists>g\<in>set (ring_contents (x_ring x)). carries par content g a)"
        using keep that c by (auto simp: stored_def)
      moreover have "\<not> carries par content dg a"
      proof
        assume "carries par content dg a"
        then have "unat (htonl (le_word (take 4 dg))) = a" using that(2) assms(1) by (intro carries_number) (simp_all add: par_ok_def)
        then show False using idx False by simp
      qed
      ultimately show ?thesis using r(2) by auto
    qed (use \<open>file_has par content f b\<close> in simp)
    ultimately show ?thesis
      using assms(2,4) r len True by (auto simp: client_ok_def stored_def bitmap_ok_def missing_def got_block_def c)
  qed
qed

subsection \<open>Runs of the two threads\<close>

definition turn_ok :: "srv_par \<Rightarrow> u8 list \<Rightarrow> turn \<Rightarrow> bool" where
  "turn_ok par content t =
     (case t of Net env \<Rightarrow> (case e_dgram env of None \<Rightarrow> True | Some dg \<Rightarrow> dgram_ok par content dg)
      | Disk io \<Rightarrow> disk_good par io)"

definition sys_ok :: "srv_par \<Rightarrow> u8 list \<Rightarrow> xfer \<times> disk \<Rightarrow> bool" where
  "sys_ok par content xd =
     (case xd of (x, d) \<Rightarrow> client_ok par content x \<and> stored par content x (d_file d) \<and> dgram_ok par content (x_local x) \<and> d_alive d)"

lemma sys_run_ok:
  assumes "par_ok par content"
  shows "sys_ok par content xd \<Longrightarrow> \<forall>t\<in>set ts. turn_ok par content t \<Longrightarrow> sys_run ts xd = (r, y, e) \<Longrightarrow>
    sys_ok par content (y, e) \<and> x_lossless y = x_lossless (fst xd) \<and>
    (r = Rx_done \<and> x_lossless (fst xd) \<longrightarrow> missing y = {}) \<and> r \<noteq> Rx_exit \<and> r \<noteq> Rx_wait"
proof (induction ts xd rule: sys_run.induct)
  case (2 io ts xd)
  obtain x d x1 d1 where xd: "xd = (x, d)" "disk_step io xd = (x1, d1)" by (metis surj_pair)
  have "sys_ok par content (x1, d1) \<and> x_lossless x1 = x_lossless x"
    using disk_step_ok [OF assms, of x d io x1 d1] "2.prems"(1,2) xd by (simp add: sys_ok_def turn_ok_def)
  then show ?case using "2.IH" "2.prems"(2,3) xd by simp
next
  case (3 env ts x d)
  obtain r1 x1 where it: "client_iter env x = (r1, x1)" by (cases "client_iter env x")
  have e: "case e_dgram env of None \<Rightarrow> dgram_ok par content (x_local x) | Some dg \<Rightarrow> dgram_ok par content dg"
    using "3.prems"(1,2) by (auto simp: sys_ok_def turn_ok_def split: option.splits)
  have ok: "client_ok par content x1 \<and> stored par content x1 (d_file d) \<and> dgram_ok par content (x_local x1) \<and>
      x_lossless x1 = x_lossless x \<and> (r1 = Rx_done \<and> x_lossless x \<longrightarrow> missing x1 = {}) \<and> r1 \<noteq> Rx_exit \<and> r1 \<noteq> Rx_wait"
    using client_iter_ok [OF assms _ _ e it, of "d_file d"] "3.prems"(1) by (simp add: sys_ok_def)
  show ?case
  proof (cases "r1 = Rx_more")
    case True
    have "sys_ok par content (x1, d)" using ok "3.prems"(1) by (simp add: sys_ok_def)
    then show ?thesis using "3.IH" [OF it [symmetric] True] "3.prems"(2,3) it True ok by simp
  next
    case False
    then have "r = r1" "y = x1" "e = d" using "3.prems"(3) it by (cases r1; simp)+
    then show ?thesis using ok "3.prems"(1) by (simp add: sys_ok_def)
  qed
qed simp

lemma drain:
  assumes "par_ok par content" "disk_good par io"
  shows "sys_ok par content (x, d) \<Longrightarrow> length (ring_contents (x_ring x)) \<le> n \<Longrightarrow>
    \<exists>y e. sys_run (replicate n (Disk io)) (x, d) = (Rx_more, y, e) \<and> sys_ok par content (y, e) \<and>
      missing y = missing x \<and> ring_contents (x_ring y) = []"
proof (induction n arbitrary: x d)
  case (Suc n)
  obtain x1 d1 where st: "disk_step io (x, d) = (x1, d1)" by (metis surj_pair)
  have "sys_ok par content (x1, d1) \<and> missing x1 = missing x \<and> ring_contents (x_ring x1) = tl (ring_contents (x_ring x))"
    using disk_step_ok [OF assms(1), of x d io x1 d1] Suc.prems(1) st assms(2) by (simp add: sys_ok_def)
  then show ?case using Suc.IH [of x1 d1] Suc.prems(2) st by auto
qed auto

lemma file_complete:
  assumes "par_ok par content" "client_ok par content x" "stored par content x f" "missing x = {}"
    "ring_contents (x_ring x) = []"
  shows "f = content"
proof -
  let ?s = "p_block_size par" and ?n = "p_block_count par"
  have s: "0 < ?s" using assms(1) by (simp add: par_ok_def)
  have has: "file_has par content f b" if "1 \<le> b" "b \<le> ?n" for b
    using assms(2-5) that by (auto simp: stored_def missing_def client_ok_def)
  have at: "i < length f \<and> f ! i = content ! i" if i: "i < length content" for i
  proof -
    define b where "b = i div ?s + 1"
    have "i div ?s \<le> length content div ?s" using i by (intro div_le_mono) simp
    moreover have "i div ?s \<noteq> length content div ?s" if "length content mod ?s = 0"
    proof
      assume q: "i div ?s = length content div ?s"
      have "?s * (length content div ?s) = length content" using that mult_div_mod_eq [of ?s "length content"] by simp
      moreover have "?s * (i div ?s) \<le> i" by simp
      ultimately show False using q i by simp
    qed
    ultimately have "b \<le> ?n" using assms(1) by (auto simp: b_def par_ok_def le_less)
    then have h: "file_has par content f b" using has by (simp add: b_def)
    have off: "(b - 1) * ?s + i mod ?s = i" by (simp add: b_def mult.commute)
    have lt: "i mod ?s < length (block_data par content b)"
      using i s off by (simp add: block_data_length)
    then have "block_data par content b \<noteq> []" by auto
    with h have r: "(b - 1) * ?s + length (block_data par content b) \<le> length f"
        "f ! ((b - 1) * ?s + i mod ?s) = block_data par content b ! (i mod ?s)"
      using lt by (auto simp: file_has_iff)
    have "block_data par content b ! (i mod ?s) = content ! ((b - 1) * ?s + i mod ?s)"
      using i off s lt by (simp add: block_data_def)
    then show ?thesis using r off lt by simp
  qed
  have "length f = length content"
  proof (rule antisym)
    show "length f \<le> length content" using assms(3) by (simp add: stored_def)
    show "length content \<le> length f"
    proof (cases "length content")
      case (Suc m)
      then show ?thesis using at [of m] by simp
    qed simp
  qed
  then show ?thesis using at by (intro nth_equalityI) auto
qed

end
