(* ===== verification/TsRetransmit.thy ===== *)
theory TsRetransmit
  imports TsClient
begin

unbundle bit_operations_syntax

text \<open>
  The table of retransmission requests: in a lossless transfer no block that was skipped is forgotten,
  through every way a request is made, repeated, thrown away or compacted.
\<close>

subsection \<open>No missing block is forgotten\<close>

definition requested :: "xfer \<Rightarrow> nat set" where
  "requested x = set (take (x_index_max x) (x_table x))"

definition table_ok :: "xfer \<Rightarrow> bool" where
  "table_ok x = (x_index_max x \<le> length (x_table x) \<and> x_table x \<noteq> [])"

text \<open>Every block before the next expected one is there or in the table of requests.\<close>

definition covered :: "xfer \<Rightarrow> bool" where
  "covered x = (\<forall>b\<in>missing x. b < x_next_block x \<longrightarrow> b \<in> requested x)"

definition gapless_ok :: "xfer \<Rightarrow> bool" where
  "gapless_ok x = (x_gapless x \<le> x_block_count x \<and> (\<forall>b. 1 \<le> b \<and> b \<le> x_gapless x \<longrightarrow> got_block x b))"

definition heads :: "xfer \<Rightarrow> nat \<times> nat \<times> bool \<times> nat \<times> nat" where
  "heads x = (x_next_block x, x_gapless x, x_restart_pending x, x_restart_lastidx x, x_restart_wireclear x)"

lemma headsD:
  assumes "heads x = heads y"
  shows "x_next_block x = x_next_block y" "x_gapless x = x_gapless y" "x_restart_pending x = x_restart_pending y"
  using assms by (simp_all add: heads_def)

lemma request_table:
  assumes "table_ok x" "ttp_request_retransmit alloc b x = (s, y)" "0 \<le> s"
  shows "table_ok y" "heads y = heads x" "x_index_max x \<le> x_index_max y" "x_index_max y \<le> x_index_max x + 1"
    "requested x \<subseteq> requested y" "x_index_max x < 65536 \<Longrightarrow> got_block x b \<or> b \<in> requested y"
proof -
  let ?n = "x_index_max x"
  have store: "take (Suc ?n) (t[?n := b]) = take ?n t @ [b]" if "?n < length t" for t :: "nat list"
    using that by (simp add: take_Suc_conv_app_nth)
  have "0 < length (x_table x)" using assms(1) by (simp add: table_ok_def)
  then have "?n < length (x_table x @ replicate (length (x_table x)) 0)"
    using assms(1) by (simp add: table_ok_def del: length_greater_0_conv)
  note grown = store [OF this]
  consider "y = x" "got_block x b \<or> 65536 \<le> ?n"
    | "?n < length (x_table x)" "y = x\<lparr>x_table := (x_table x)[?n := b], x_index_max := ?n + 1\<rparr>"
    | "?n = length (x_table x)"
      "y = x\<lparr>x_table := (x_table x @ replicate (length (x_table x)) 0)[?n := b], x_index_max := ?n + 1\<rparr>"
  proof (cases "got_block x b \<or> 65536 \<le> ?n \<and> length (x_table x) \<le> ?n")
    case True
    then have "y = x" using assms(2) by (auto simp: ttp_request_retransmit_def Let_def split: if_splits)
    then show thesis using that(1) True by blast
  next
    case False
    show thesis
    proof (cases "length (x_table x) \<le> ?n")
      case True
      have "alloc (2 * 4 * length (x_table x))"
        using assms(2,3) True False by (cases "alloc (2 * 4 * length (x_table x))") (simp_all add: ttp_request_retransmit_def)
      then show thesis using that(3) assms(1,2) True False by (simp add: ttp_request_retransmit_def table_ok_def)
    next
      case lt: False
      then show thesis using that(2) assms(2) False by (simp add: ttp_request_retransmit_def)
    qed
  qed
  then have "table_ok y \<and> heads y = heads x \<and> ?n \<le> x_index_max y \<and> x_index_max y \<le> ?n + 1 \<and> requested x \<subseteq> requested y \<and>
      (?n < 65536 \<longrightarrow> got_block x b \<or> b \<in> requested y)"
  proof cases
    case 1
    then show ?thesis using assms(1) by auto
  next
    case 2
    then show ?thesis using store [OF 2(1)] assms(1) by (auto simp: table_ok_def heads_def requested_def)
  next
    case 3
    then show ?thesis using grown assms(1) by (cases "x_table x") (auto simp: table_ok_def heads_def requested_def)
  qed
  then show "table_ok y" "heads y = heads x" "x_index_max x \<le> x_index_max y" "x_index_max y \<le> x_index_max x + 1"
    "requested x \<subseteq> requested y" "x_index_max x < 65536 \<Longrightarrow> got_block x b \<or> b \<in> requested y" by blast+
qed

lemma requests_table:
  assumes "table_ok x" "request_blocks alloc bs x = (s, y)" "0 \<le> s"
  shows "table_ok y \<and> heads y = heads x \<and> x_index_max x \<le> x_index_max y \<and> x_index_max y \<le> x_index_max x + length bs \<and>
    requested x \<subseteq> requested y \<and>
    (x_index_max x + length bs \<le> 65536 \<longrightarrow> (\<forall>b\<in>set bs. got_block x b \<or> b \<in> requested y))"
  using assms
proof (induction bs arbitrary: x)
  case (Cons b bs)
  obtain s1 x1 where r: "ttp_request_retransmit alloc b x = (s1, x1)" by (cases "ttp_request_retransmit alloc b x")
  have s1: "0 \<le> s1" and rest: "request_blocks alloc bs x1 = (s, y)" using Cons.prems(2,3) r by (auto split: if_splits)
  note t = request_table [OF Cons.prems(1) r s1]
  note ih = Cons.IH [OF t(1) rest Cons.prems(3)]
  have g: "got_block x1 = got_block x" using core_request [OF r] core_eqD by blast
  show ?case using ih t g by auto
qed simp

subsection \<open>The table scan\<close>

lemma rr_scan_spec:
  assumes "count \<le> entry" "entry \<le> x_index_max x" "x_index_max x \<le> length table" "count \<le> MAX_RETRANSMISSION_BUFFER"
    "take count table = filter (\<lambda>b. b \<noteq> 0 \<and> \<not> got_block x b) (take entry table0)"
    "drop entry table = drop entry table0" "length table = length table0"
    "rr_scan x entry table count = (table', count')"
  shows "length table' = length table0 \<and> count' \<le> MAX_RETRANSMISSION_BUFFER \<and> count' \<le> x_index_max x \<and>
    (\<forall>b\<in>set (take (x_index_max x) table0). b \<noteq> 0 \<and> \<not> got_block x b \<longrightarrow> b \<in> set (take (x_index_max x) table')) \<and>
    count' \<le> length (filter (\<lambda>b. b \<noteq> 0 \<and> \<not> got_block x b) (take (x_index_max x) table0)) \<and>
    (count' < MAX_RETRANSMISSION_BUFFER \<longrightarrow>
       take count' table' = filter (\<lambda>b. b \<noteq> 0 \<and> \<not> got_block x b) (take (x_index_max x) table0))"
  using assms
proof (induction x entry table count rule: rr_scan.induct)
  case (1 x entry table count)
  let ?want = "\<lambda>b. b \<noteq> 0 \<and> \<not> got_block x b"
  show ?case
  proof (cases "entry < x_index_max x \<and> count < MAX_RETRANSMISSION_BUFFER")
    case True
    have e: "entry < length table" using True "1.prems"(3) by simp
    have "drop entry table ! 0 = drop entry table0 ! 0" using "1.prems"(6) by simp
    then have same: "table ! entry = table0 ! entry" using e "1.prems"(7) by simp
    have tk: "take (entry + 1) table0 = take entry table0 @ [table ! entry]"
      using e "1.prems"(7) same by (simp add: take_Suc_conv_app_nth)
    have dr: "drop (entry + 1) table = drop (entry + 1) table0"
      using "1.prems"(6) by (metis add.commute drop_drop)
    show ?thesis
    proof (cases "?want (table ! entry)")
      case want: True
      have step: "rr_scan x (entry + 1) (table[count := table ! entry]) (count + 1) = (table', count')"
        using "1.prems"(8) True want by (simp add: rr_scan.simps [of x entry] Let_def)
      have "take (count + 1) (table[count := table ! entry]) = take count table @ [table ! entry]"
        using "1.prems"(1) e by (simp add: take_Suc_conv_app_nth)
      then have "take (count + 1) (table[count := table ! entry]) = filter ?want (take (entry + 1) table0)"
        using "1.prems"(5) want tk by simp
      moreover have "drop (entry + 1) (table[count := table ! entry]) = drop (entry + 1) table0"
        using "1.prems"(1) dr by simp
      ultimately show ?thesis
        using "1.IH"(1) [OF True refl want] "1.prems"(1,3,7) True step by simp
    next
      case skip: False
      have step: "rr_scan x (entry + 1) table count = (table', count')"
        using "1.prems"(8) True skip by (auto simp: rr_scan.simps [of x entry] Let_def)
      have "take count table = filter ?want (take (entry + 1) table0)" using "1.prems"(5) skip tk by simp
      then show ?thesis
        using "1.IH"(2) [OF True refl skip] "1.prems"(1,3,4,7) True step dr by simp
    qed
  next
    case False
    then have "rr_scan x entry table count = (table, count)" by (subst rr_scan.simps) (rule if_not_P)
    then have "table' = table" "count' = count" using "1.prems"(8) by simp_all
    moreover have "entry = x_index_max x" if "count < MAX_RETRANSMISSION_BUFFER" using False that "1.prems"(2) by simp
    moreover have "b \<in> set (take (x_index_max x) table)" if b: "b \<in> set (take (x_index_max x) table0)" "?want b" for b
    proof -
      have split: "take (x_index_max x) t = take entry t @ take (x_index_max x - entry) (drop entry t)" for t :: "nat list"
        using take_add [of entry "x_index_max x - entry" t] "1.prems"(2) by simp
      consider "b \<in> set (take entry table0)" | "b \<in> set (take (x_index_max x - entry) (drop entry table0))"
        using b(1) unfolding split by auto
      then show ?thesis
      proof cases
        case 1
        then have "b \<in> set (take count table)" using b(2) "1.prems"(5) by simp
        then show ?thesis using set_take_subset_set_take [of count "x_index_max x" table] "1.prems"(1,2) by auto
      next
        case 2
        then show ?thesis unfolding split [of table] "1.prems"(6) by simp
      qed
    qed
    moreover have "count \<le> length (filter ?want (take (x_index_max x) table0))"
    proof -
      have "take (x_index_max x) table0 = take entry table0 @ take (x_index_max x - entry) (drop entry table0)"
        using take_add [of entry "x_index_max x - entry" table0] "1.prems"(2) by simp
      moreover have "length (filter ?want (take entry table0)) = count"
        using arg_cong [OF "1.prems"(5), of length] "1.prems"(1,2,3) by simp
      ultimately show ?thesis by simp
    qed
    ultimately show ?thesis using "1.prems" by auto
  qed
qed

lemma repeat_table:
  assumes "table_ok x" "ttp_repeat_retransmit io x = (0, y)"
    and reqs: "reqs = filter (\<lambda>b. b \<noteq> 0 \<and> \<not> got_block x b) (take (x_index_max x) (x_table x))"
  shows "if length reqs < MAX_RETRANSMISSION_BUFFER
    then take (x_index_max y) (x_table y) = reqs \<and> heads y = heads x \<and>
      x_sent y = x_sent x @ take (io_items io) (map (request_msg REQUEST_RETRANSMIT) reqs)
    else x_index_max y = 0 \<and> x_next_block y = min (x_block_count x) (w32 (x_gapless x + 1)) \<and> x_gapless y = x_gapless x \<and>
      x_restart_pending y \<and> x_sent y = x_sent x @ [request_msg REQUEST_RESTART (x_next_block y)]"
proof -
  obtain table' count where sc: "rr_scan x 0 (x_table x) 0 = (table', count)" by (metis surj_pair)
  have sp: "length table' = length (x_table x)" "count \<le> x_index_max x" "count \<le> length reqs"
      "count < MAX_RETRANSMISSION_BUFFER \<Longrightarrow> take count table' = reqs"
    using rr_scan_spec [of 0 0 x "x_table x" "x_table x" table' count] assms(1) sc by (simp_all add: table_ok_def reqs)
  have cl: "min (length table') count = count" using sp assms(1) by (simp add: table_ok_def)
  show ?thesis
  proof (cases "count < MAX_RETRANSMISSION_BUFFER")
    case True
    have "length (take count table') = count" using cl by simp
    then have "length reqs = count" using sp(4) [OF True] by simp
    moreover have "take (x_index_max y) (x_table y) = take count table' \<and> heads y = heads x \<and>
        x_sent y = x_sent x @ take (io_items io) (map (request_msg REQUEST_RETRANSMIT) (take count table'))"
      using assms(2) sc True by (auto simp: ttp_repeat_retransmit_def Let_def heads_def split: if_splits)
    ultimately show ?thesis using sp(4) [OF True] True by simp
  next
    case False
    then have "\<not> length reqs < MAX_RETRANSMISSION_BUFFER" using sp(3) by simp
    then show ?thesis
      using assms(2) sc False by (auto simp: ttp_repeat_retransmit_def Let_def split: if_splits)
  qed
qed

subsection \<open>Lossless transfers\<close>

definition cov_ok :: "xfer \<Rightarrow> bool" where
  "cov_ok x = (table_ok x \<and> covered x \<and> gapless_ok x \<and> x_block_count x + 1 < 2 ^ 32)"

definition frame :: "xfer \<Rightarrow> (nat \<times> nat \<times> bool \<times> nat \<times> nat) \<times> nat list \<times> nat" where
  "frame x = (heads x, x_table x, x_index_max x)"

lemma cov_ok_frame:
  assumes "frame y = frame x" "x_block_count y = x_block_count x" "\<And>b. got_block x b \<Longrightarrow> got_block y b"
  shows "cov_ok x \<Longrightarrow> cov_ok y"
  using assms unfolding frame_def heads_def
  by (auto simp: cov_ok_def table_ok_def covered_def gapless_ok_def requested_def missing_def)

lemma frame_count [simp]: "frame (rx_count x) = frame x"
  by (simp add: rx_count_def Let_def frame_def heads_def)

lemma frame_stats: "ttp_update_stats rate io x = (s, y) \<Longrightarrow> frame y = frame x"
  by (auto simp: ttp_update_stats_def Let_def frame_def heads_def split: if_splits)

lemma w32_gapless: "gapless_ok x \<Longrightarrow> x_block_count x + 1 < 2 ^ 32 \<Longrightarrow> w32 (x_gapless x + 1) = x_gapless x + 1"
  by (simp add: gapless_ok_def w32_def)

lemma repeat_cov:
  assumes "cov_ok x" "ttp_repeat_retransmit io x = (s, y)"
  shows "cov_ok y" "x_index_max y \<le> x_index_max x"
proof -
  obtain table' count where sc: "rr_scan x 0 (x_table x) 0 = (table', count)" by (metis surj_pair)
  have t: "x_index_max x \<le> length (x_table x)" "x_table x \<noteq> []" using assms(1) by (simp_all add: cov_ok_def table_ok_def)
  have sp: "length table' = length (x_table x)" "count \<le> x_index_max x"
      "\<forall>b\<in>requested x. b \<noteq> 0 \<and> \<not> got_block x b \<longrightarrow> b \<in> set (take (x_index_max x) table')"
      "count < MAX_RETRANSMISSION_BUFFER \<Longrightarrow>
         take count table' = filter (\<lambda>b. b \<noteq> 0 \<and> \<not> got_block x b) (take (x_index_max x) (x_table x))"
    using rr_scan_spec [of 0 0 x "x_table x" "x_table x" table' count] t(1) sc by (simp_all add: requested_def)
  have c: "core y = core x" using core_repeat [OF assms(2)] .
  note g = core_eqD [OF c]
  have want: "b \<noteq> 0 \<and> \<not> got_block x b" if "b \<in> missing x" for b using that by (simp add: missing_def)
  consider (keep) "x_table y = table'" "x_index_max y = x_index_max x" "heads y = heads x"
    | (shrunk) "count < MAX_RETRANSMISSION_BUFFER" "x_table y = table'" "x_index_max y = count" "heads y = heads x"
    | (restart) "x_index_max y = 0" "x_table y = table'" "x_next_block y = min (x_block_count x) (w32 (x_gapless x + 1))"
        "x_gapless y = x_gapless x"
    using assms(2) sc by (auto simp: ttp_repeat_retransmit_def Let_def heads_def split: if_splits)
  then have "cov_ok y \<and> x_index_max y \<le> x_index_max x"
  proof cases
    case keep
    have "covered y"
      using assms(1) sp(3) want keep headsD [OF keep(3)] unfolding covered_def g(9) cov_ok_def
      by (auto simp: requested_def)
    then show ?thesis
      using keep t sp(1) assms(1) headsD [OF keep(3)] g by (auto simp: cov_ok_def table_ok_def gapless_ok_def)
  next
    case shrunk
    have "b \<in> requested y" if "b \<in> requested x" "b \<in> missing x" for b
      using that sp(4) [OF shrunk(1)] shrunk(2,3) want by (auto simp: requested_def)
    then have "covered y"
      using assms(1) headsD [OF shrunk(4)] unfolding covered_def g(9) cov_ok_def by auto
    then show ?thesis
      using shrunk t sp(1,2) assms(1) headsD [OF shrunk(4)] g by (auto simp: cov_ok_def table_ok_def gapless_ok_def)
  next
    case restart
    have "x_next_block y \<le> x_gapless x + 1"
      using restart(3) w32_gapless [of x] assms(1) by (simp add: cov_ok_def)
    moreover have "gapless_ok x" using assms(1) by (simp add: cov_ok_def)
    ultimately have "b \<notin> missing x" if "b < x_next_block y" for b
      using that by (auto simp: gapless_ok_def missing_def)
    then have "covered y" unfolding covered_def g(9) by blast
    then show ?thesis
      using restart t sp(1) assms(1) g by (auto simp: cov_ok_def table_ok_def gapless_ok_def)
  qed
  then show "cov_ok y" "x_index_max y \<le> x_index_max x" by blast+
qed

lemma advance_gapless_ok:
  "gapless_ok x \<Longrightarrow> x_block_count x + 1 < 2 ^ 32 \<Longrightarrow>
   gapless_ok (advance_gapless x) \<and> x_next_block (advance_gapless x) = x_next_block x \<and>
   x_table (advance_gapless x) = x_table x \<and> x_index_max (advance_gapless x) = x_index_max x \<and>
   x_restart_pending (advance_gapless x) = x_restart_pending x \<and>
   (x_gapless (advance_gapless x) < x_block_count x \<longrightarrow> \<not> got_block x (x_gapless (advance_gapless x) + 1))"
proof (induction x rule: advance_gapless.induct)
  case (1 x)
  have w: "w32 (x_gapless x + 1) = x_gapless x + 1" using w32_gapless 1(2,3) by blast
  show ?case
  proof (cases "got_block x (x_gapless x + 1) \<and> x_gapless x < x_block_count x")
    case True
    let ?y = "x\<lparr>x_gapless := x_gapless x + 1\<rparr>"
    have g: "got_block ?y = got_block x" by (simp add: got_block_def fun_eq_iff)
    have "gapless_ok ?y"
      using 1(2) True by (auto simp: gapless_ok_def got_block_def le_Suc_eq)
    then show ?thesis using 1(1) 1(3) True w g by (subst (1 2 3 4 5 6 7) advance_gapless.simps) simp
  next
    case False
    then have "advance_gapless x = x" using w by (subst advance_gapless.simps) auto
    then show ?thesis using 1(2) False by auto
  qed
qed

lemma rx_insert_cov:
  assumes "cov_ok x" "bitmap_ok x" "b \<le> x_block_count x" "rx_insert b x = (Rx_more, y)"
  shows "cov_ok y" "got_block y b" "frame y = frame x" "x_block_count y = x_block_count x" "x_lossless y = x_lossless x"
proof -
  have "(y = x \<and> got_block x b) \<or> (\<exists>r n. y = (mark_block b (x\<lparr>x_ring := r\<rparr>))\<lparr>x_blocks_left := n\<rparr>)"
  proof (cases "got_block x b")
    case False
    then obtain r where "ring_put (x_local x) (x_ring x) = Inr (Some r)"
      using assms(4) by (auto simp: rx_insert_def split: sum.splits option.splits)
    then have "y = (mark_block b (x\<lparr>x_ring := r\<rparr>))\<lparr>x_blocks_left := (if x_blocks_left x > 0 then x_blocks_left x - 1 else x_blocks_left x)\<rparr>"
      using assms(4) False by (auto simp: rx_insert_def Let_def mark_block_def)
    then show ?thesis by blast
  qed (use assms(4) in \<open>simp add: rx_insert_def\<close>)
  then have "cov_ok y \<and> got_block y b \<and> frame y = frame x \<and> x_block_count y = x_block_count x \<and> x_lossless y = x_lossless x"
  proof
    assume "\<exists>r n. y = (mark_block b (x\<lparr>x_ring := r\<rparr>))\<lparr>x_blocks_left := n\<rparr>"
    then obtain r n where y: "y = (mark_block b (x\<lparr>x_ring := r\<rparr>))\<lparr>x_blocks_left := n\<rparr>" by blast
    have x1: "bitmap_ok (x\<lparr>x_ring := r\<rparr>)" using assms(2) by (simp add: bitmap_ok_def)
    have g: "got_block y c \<longleftrightarrow> c = b \<or> got_block x c" for c
      using got_mark_block [OF x1, of b c] assms(3) by (simp add: y got_block_def)
    have f: "frame y = frame x" "x_block_count y = x_block_count x" "x_lossless y = x_lossless x"
      by (simp_all add: y frame_def heads_def mark_block_def)
    then show ?thesis using cov_ok_frame [OF f(1,2) _ assms(1)] g by blast
  qed (use assms(1) in simp)
  then show "cov_ok y" "got_block y b" "frame y = frame x" "x_block_count y = x_block_count x" "x_lossless y = x_lossless x"
    by blast+
qed

lemma rx_process_cov:
  assumes "cov_ok x" "x_lossless x" "got_block x b" "b \<le> x_block_count x" "x_index_max x + 2 * x_block_count x \<le> 65536"
    "rx_process env b type x = (r, y)" "r \<noteq> Rx_abort"
  shows "cov_ok y"
proof (cases "x_restart_pending x \<and> type \<noteq> TS_BLOCK_TERMINATE \<and> x_restart_lastidx x < b \<and> b \<le> x_restart_wireclear x")
  case True
  then show ?thesis using assms by (simp add: rx_process_def)
next
  case False
  obtain s x1 where q: "rx_requests env b x = (s, x1)" by (cases "rx_requests env b x")
  then have s: "0 \<le> s" and rest: "rx_terminate env type (rx_advance b type x1) = (r, y)"
    using assms(6,7) False by (auto simp: rx_process_def split: if_splits)
  have x: "table_ok x" "covered x" "gapless_ok x" "x_block_count x + 1 < 2 ^ 32" using assms(1) by (simp_all add: cov_ok_def)
  note g1 = core_eqD [OF core_rx_requests [OF q]]
  have x1: "table_ok x1 \<and> heads x1 = heads x \<and> x_index_max x1 \<le> x_index_max x + x_block_count x \<and>
      (\<forall>m\<in>missing x. m < max (x_next_block x) b \<longrightarrow> m \<in> requested x1)"
  proof (cases "b \<le> x_next_block x")
    case True
    then have "x1 = x" using q by (simp add: rx_requests_def)
    then show ?thesis using x True by (auto simp: covered_def)
  next
    case pass: False
    then have rb: "request_blocks (e_alloc env) [x_next_block x..<b] x = (s, x1)" using q assms(2) by (simp add: rx_requests_def)
    have "m \<in> requested x1" if "m \<in> missing x" "m < b" for m
    proof (cases "m < x_next_block x")
      case True
      then show ?thesis using that x(2) requests_table [OF x(1) rb s] by (auto simp: covered_def)
    next
      case False
      then have "m \<in> set [x_next_block x..<b]" using that(2) by simp
      then show ?thesis using that(1) requests_table [OF x(1) rb s] assms(4,5) by (auto simp: missing_def)
    qed
    then show ?thesis using requests_table [OF x(1) rb s] assms(4) pass by auto
  qed
  define x2 where "x2 = rx_advance b type x1"
  have gl: "gapless_ok x1" using x(3) x1 g1 headsD [of x1 x] by (simp add: gapless_ok_def)
  have bc: "x_block_count x1 + 1 < 2 ^ 32" using x(4) g1(3) by simp
  note adv = advance_gapless_ok [OF gl bc]
  have c2: "core x2 = core x1" by (simp add: x2_def)
  note g2 = core_eqD [OF c2]
  have x2: "x_table x2 = x_table x1" "x_index_max x2 = x_index_max x1" "x_gapless x2 = x_gapless (advance_gapless x1)"
      "x_next_block x2 = (if type = TS_BLOCK_ORIGINAL then b + 1 else x_next_block x1)"
    using adv assms(4) x(4) by (simp_all add: x2_def rx_advance_def Let_def w32_def)
  have "covered x2"
    unfolding covered_def
  proof (intro ballI impI)
    fix m assume m: "m \<in> missing x2" "m < x_next_block x2"
    have mx: "m \<in> missing x" using m(1) g1(9) g2(9) by simp
    then have "m \<noteq> b" using assms(3) by (auto simp: missing_def)
    then have "m < max (x_next_block x) b" using m(2) x2(4) x1 headsD [of x1 x] by (auto split: if_splits)
    then have "m \<in> requested x1" using x1 mx by blast
    then show "m \<in> requested x2" using x2 by (simp add: requested_def)
  qed
  moreover have "gapless_ok x2"
    using adv x2(3) g2 core_eqD [OF core_advance_gapless [of x1]] by (simp add: gapless_ok_def)
  ultimately have cov2: "cov_ok x2" using x1 x2 bc g2 by (simp add: cov_ok_def table_ok_def)
  show ?thesis
  proof (cases "type \<noteq> TS_BLOCK_TERMINATE \<or> x_blocks_left x2 = 0")
    case True
    then have "y = x2" using rest by (auto simp: rx_terminate_def x2_def [symmetric] split: if_splits)
    then show ?thesis using cov2 by simp
  next
    case again: False
    let ?bs = "[w32 (x_gapless x2 + 1)..<x_block_count x2]"
    obtain s3 x3 where rb: "request_blocks (e_alloc env) ?bs x2 = (s3, x3)" by (cases "request_blocks (e_alloc env) ?bs x2")
    have "x_lossless x2" using assms(2) g1 g2 by simp
    then have s3: "0 \<le> s3" "y = snd (ttp_repeat_retransmit (e_io env 1) x3)"
      using rest again rb assms(7) by (auto simp: rx_terminate_def x2_def [symmetric] split: if_splits)
    have t2: "table_ok x2" using cov2 by (simp add: cov_ok_def)
    note t3 = requests_table [OF t2 rb s3(1)]
    note g3 = core_eqD [OF core_requests [OF rb]]
    have "cov_ok x3"
      using cov2 t3 headsD [of x3 x2] g3 by (auto simp: cov_ok_def covered_def gapless_ok_def)
    then show ?thesis using repeat_cov(1) [of x3 "e_io env 1"] s3(2) by (metis surjective_pairing)
  qed
qed

lemma client_iter_cov:
  assumes "par_ok par content" "client_ok par content x" "cov_ok x" "x_lossless x"
    "x_index_max x + 2 * x_block_count x \<le> 65536"
    and env: "case e_dgram env of None \<Rightarrow> dgram_ok par content (x_local x) | Some dg \<Rightarrow> dgram_ok par content dg"
    and it: "client_iter env x = (Rx_more, y)"
  shows "cov_ok y"
proof -
  obtain s x1 where rc: "rx_receive env x = (s, x1)" by (cases "rx_receive env x")
  have s: "0 \<le> s" using it rc by (auto simp: client_iter_def split: if_splits)
  have x1: "cov_ok x1 \<and> x_index_max x1 \<le> x_index_max x \<and> dgram_ok par content (x_local x1) \<and> bitmap_ok x1 \<and>
      x_block_count x1 = x_block_count x \<and> x_lossless x1 = x_lossless x"
  proof (cases "e_dgram env")
    case None
    then have r: "ttp_repeat_retransmit (e_io env 0) x = (s, x1)" using rc by (simp add: rx_receive_def)
    then show ?thesis
      using repeat_cov [OF assms(3) r] env None assms(2) core_eqD [OF core_repeat [OF r]] by (simp add: client_ok_def)
  next
    case (Some dg)
    then have "length dg = 6 + p_block_size par" using env by (auto simp: dgram_ok_def carries_def)
    then have e: "x1 = x\<lparr>x_local := dg\<rparr>"
      using rc Some assms(2) by (auto simp: rx_receive_def put_bytes_def client_ok_def)
    have "cov_ok x1" using cov_ok_frame [of x1 x] assms(3) by (simp add: e frame_def heads_def got_block_def)
    then show ?thesis using env Some assms(2) by (simp add: e bitmap_ok_def client_ok_def)
  qed
  define x2 where "x2 = rx_count x1"
  have g2: "core x2 = core x1" "frame x2 = frame x1" by (simp_all add: x2_def)
  have x2: "cov_ok x2" "x_index_max x2 \<le> x_index_max x" "bitmap_ok x2" "x_block_count x2 = x_block_count x" "x_lossless x2"
      "dgram_ok par content (x_local x2)"
    using x1 cov_ok_frame [of x2 x1] g2(2) core_eqD [OF g2(1)] assms(4) by (simp_all add: frame_def)
  have b: "this_block x2 \<le> x_block_count x2"
  proof -
    obtain b where "1 \<le> b" "b \<le> p_block_count par" "carries par content (x_local x2) b" using x2(6) by (auto simp: dgram_ok_def)
    moreover from this have "this_block x2 = b" using carries_number assms(1) by (simp add: this_block_def par_ok_def)
    ultimately show ?thesis using x2(4) assms(2) by (simp add: client_ok_def)
  qed
  obtain r3 x3 where ct: "rx_control env x2 = (r3, x3)" by (cases "rx_control env x2")
  then have r3: "r3 = Rx_more" using it rc s by (cases r3) (simp_all add: client_iter_def x2_def)
  have cov3: "cov_ok x3"
  proof (cases "x3 = x2")
    case False
    then obtain x4 where i: "rx_insert (this_block x2) x2 = (Rx_more, x4)" "rx_process env (this_block x2) (this_type x2) x4 = (r3, x3)"
      using ct r3 by (auto simp: rx_control_def Let_def split: if_splits prod.splits rx_next.splits)
    note x4 = rx_insert_cov [OF x2(1,3) b i(1)]
    show ?thesis
      using rx_process_cov [OF x4(1) _ x4(2) _ _ i(2)] x4 x2 b assms(5) r3 by (simp add: frame_def)
  qed (use x2 in simp)
  have st: "rx_stats env x3 = (Rx_more, y)" using it rc s ct r3 by (simp add: client_iter_def x2_def)
  show ?thesis
  proof (cases "y = x3")
    case False
    obtain s4 x4 where rp: "ttp_repeat_retransmit (e_io env 2) x3 = (s4, x4)" by (cases "ttp_repeat_retransmit (e_io env 2) x3")
    obtain s5 x5 where us: "ttp_update_stats (e_rate env) (e_io env 3) x4 = (s5, x5)"
      by (cases "ttp_update_stats (e_rate env) (e_io env 3) x4")
    have "y = x5" using st False rp us by (auto simp: rx_stats_def split: if_splits)
    then show ?thesis
      using cov_ok_frame [OF frame_stats [OF us]] repeat_cov(1) [OF cov3 rp] core_eqD [OF core_stats [OF us]] by simp
  qed (use cov3 in simp)
qed

end
