(* ===== verification/TsTransfer.thy ===== *)
theory TsTransfer
  imports TsDisk TsRetransmit
begin

unbundle bit_operations_syntax

text \<open>
  Client and server together: opening a transfer, the state at its start, and a transfer in which no
  datagram is lost.
\<close>

subsection \<open>Opening a transfer\<close>

text \<open>The parameters as the client submits them, and what it makes of the server's answer.\<close>

definition submit_params :: "srv_par \<Rightarrow> u8 list" where
  "submit_params par =
     le_list 4 (htonl (of_nat (p_block_size par))) @ le_list 4 (htonl (of_nat (p_target_rate par))) @
     le_list 4 (htonl (of_nat (p_error_rate par))) @
     le_list 2 (htons (of_nat (p_slower_num par))) @ le_list 2 (htons (of_nat (p_slower_den par))) @
     le_list 2 (htons (of_nat (p_faster_num par))) @ le_list 2 (htons (of_nat (p_faster_den par)))"

definition client_open_transfer :: "srv_par \<Rightarrow> bool \<Rightarrow> u8 list \<Rightarrow> int \<times> u8 list \<times> (nat \<times> nat \<times> nat) option" where
  "client_open_transfer par wr inp =
     (case inp of [] \<Rightarrow> (-1, [], None)
      | result # rest \<Rightarrow>
          if result \<noteq> 0 then (-1, [], None)
          else if \<not> wr then (-1, [], None)
          else if length rest < 12 then (-1, submit_params par, None)
          else if unat (htonl (le_word (take 4 (drop 8 rest)))) \<noteq> p_block_size par then (-1, submit_params par, None)
          else if length rest < 20 then (-1, submit_params par, None)
          else (0, submit_params par, Some (unat (ntohll (le_word (take 8 rest))),
            unat (htonl (le_word (take 4 (drop 12 rest)))), unat (htonl (le_word (take 4 (drop 16 rest)))))))"

text \<open>The state in which \<open>command_get\<close> enters its loop.\<close>

definition start_xfer :: "srv_par \<Rightarrow> bool \<Rightarrow> nat \<Rightarrow> nat \<Rightarrow> nat \<Rightarrow> (int \<Rightarrow> u8 list) \<Rightarrow> xfer" where
  "start_xfer par lossless losswindow file_size block_count heap = \<lparr>
     x_block_size = p_block_size par, x_lossless = lossless, x_losswindow_ms = losswindow, x_file_size = file_size,
     x_block_count = block_count, x_next_block = 1, x_gapless = 0, x_table = replicate 4096 0, x_index_max = 0,
     x_received = replicate (block_count div 8 + 2) 0, x_blocks_left = block_count, x_restart_pending = False,
     x_restart_lastidx = 0, x_restart_wireclear = 0,
     x_on_wire = min block_count (p_target_rate par div (2 * w32 (8 * p_block_size par))),
     x_total_blocks = 0, x_this_blocks = 0, x_this_originals = 0, x_this_retransmitteds = 0, x_recvd_retransmits = 0,
     x_this_retransmits = 0, x_total_retransmits = 0, x_ring = ring_create heap, x_local = replicate (6 + p_block_size par) 0,
     x_sent = []\<rparr>"

definition no_disk :: disk where
  "no_disk = \<lparr>d_file = [], d_alive = True\<rparr>"

lemma start_not_got:
  assumes "b \<le> count"
  shows "\<not> got_block (start_xfer par lossless lw fsize count heap) b"
proof -
  have "b div 8 < count div 8 + 2" using div_le_mono [OF assms, of 8] by simp
  then have "replicate (count div 8 + 2) (0 :: u8) ! (b div 8) = 0" by (rule nth_replicate)
  then have "x_received (start_xfer par lossless lw fsize count heap) ! (b div 8) = 0"
    by (simp only: start_xfer_def xfer.simps)
  then show ?thesis using assms by (simp add: got_block_def) (simp add: start_xfer_def)
qed

lemma start_missing: "missing (start_xfer par lossless lw fsize count heap) = {1..count}"
  using start_not_got by (auto simp: missing_def start_xfer_def)

lemma start_client_ok:
  assumes "par_ok par content"
  shows "client_ok par content (start_xfer par lossless lw (length content) (p_block_count par) heap)"
    "stored par content (start_xfer par lossless lw (length content) (p_block_count par) heap) []"
    "cov_ok (start_xfer par lossless lw (length content) (p_block_count par) heap)"
proof -
  let ?x = "start_xfer par lossless lw (length content) (p_block_count par) heap"
  have "ring_idle (x_ring ?x)" "ring_contents (x_ring ?x) = []" by (simp_all add: start_xfer_def ring_idle_def ring_create_def
      ring_ok_def ring_contents_def)
  then show "client_ok par content ?x"
    unfolding client_ok_def start_missing by (simp add: start_xfer_def bitmap_ok_def)
  have "x_block_count ?x = p_block_count par" by (simp add: start_xfer_def)
  then show "stored par content ?x []" using start_not_got by (auto simp: stored_def)
  show "cov_ok ?x"
    using assms by (simp add: cov_ok_def table_ok_def covered_def gapless_ok_def start_xfer_def missing_def par_ok_def)
qed

lemma read_submit:
  assumes "p_block_size par < 2 ^ 32" "p_target_rate par < 2 ^ 32" "p_error_rate par < 2 ^ 32" "p_slower_num par < 2 ^ 16"
    "p_slower_den par < 2 ^ 16" "p_faster_num par < 2 ^ 16" "p_faster_den par < 2 ^ 16"
  shows "read_params (submit_params par) = par\<lparr>p_file_size := 0, p_block_count := 0, p_ipd_time := 0\<rparr>"
  using assms
  by (simp add: read_params_def submit_params_def le_word_list unsigned_of_nat take_bit_eq_mod min_def)

lemma submit_length [simp]: "length (submit_params par) = 20"
  by (simp add: submit_params_def)

lemma read_reply:
  assumes "p_file_size par < 2 ^ 64" "p_block_size par < 2 ^ 32" "p_block_count par < 2 ^ 32" "epoch < 2 ^ 32"
    "p_block_size pc = p_block_size par"
  shows "client_open_transfer pc True (0 # transfer_reply par epoch) =
    (0, submit_params pc, Some (p_file_size par, p_block_count par, epoch))"
proof -
  have ll: "htonll (htonll w) = w" for w
  proof (rule bit_word_eqI)
    fix k assume "k < LENGTH(64)"
    then have "k div 8 \<le> 7" "k < 64" by auto
    moreover from this have "8 * (7 - k div 8) + k mod 8 < 64" by auto
    ultimately show "bit (htonll (htonll w)) k = bit w k" by (simp add: bit_htonll)
  qed
  show ?thesis
    using assms
    by (simp add: client_open_transfer_def transfer_reply_def le_word_list unsigned_of_nat take_bit_eq_mod min_def ntohll_def ll)
qed

subsection \<open>A transfer without losses\<close>

text \<open>After the first \<open>i\<close> blocks, each written to disk.\<close>

definition in_order :: "srv_par \<Rightarrow> u8 list \<Rightarrow> nat \<Rightarrow> xfer \<Rightarrow> bool" where
  "in_order par content i x =
     (cov_ok x \<and> missing x = {i + 1..p_block_count par} \<and> x_gapless x = i \<and> x_next_block x = i + 1 \<and> x_index_max x = 0 \<and>
      \<not> x_restart_pending x \<and> ring_contents (x_ring x) = [])"

definition clean_env :: "rx_env \<Rightarrow> u8 list \<Rightarrow> bool" where
  "clean_env env dg = (e_dgram env = Some dg \<and> io_flush (e_io env 2))"

lemma repeat_nothing:
  "x_index_max x = 0 \<Longrightarrow> \<exists>z. ttp_repeat_retransmit io x = (if io_flush io then 0 else -1, z) \<and> frame z = frame x"
  by (simp add: ttp_repeat_retransmit_def rr_scan.simps Let_def frame_def heads_def)

lemma in_order_step:
  assumes "par_ok par content" "client_ok par content x" "in_order par content i x" "i < p_block_count par" "clean_env env dg"
    and dg: "carries par content dg (i + 1)"
      "htons (le_word (take 2 (drop 4 dg))) = (if i + 1 = p_block_count par then TS_BLOCK_TERMINATE else TS_BLOCK_ORIGINAL)"
  shows "\<exists>y. client_iter env x = (if i + 1 = p_block_count par then Rx_done else Rx_more, y) \<and>
    x_lossless y = x_lossless x \<and> cov_ok y \<and> missing y = {i + 2..p_block_count par} \<and>
    (i + 1 < p_block_count par \<longrightarrow> x_gapless y = i + 1 \<and> x_next_block y = i + 2 \<and> x_index_max y = 0 \<and> \<not> x_restart_pending y) \<and>
    ring_contents (x_ring y) = [dg]"
proof -
  let ?n = "p_block_count par" and ?b = "i + 1"
  have n32: "?n + 1 < 2 ^ 32" using assms(1) by (simp add: par_ok_def)
  have x: "bitmap_ok x" "x_block_count x = ?n" "ring_idle (x_ring x)" "x_blocks_left x = card (missing x)"
    using assms(2) by (simp_all add: client_ok_def)
  have io: "cov_ok x" "missing x = {i + 1..?n}" "x_gapless x = i" "x_next_block x = i + 1" "x_index_max x = 0"
      "\<not> x_restart_pending x" "ring_contents (x_ring x) = []" using assms(3) by (simp_all add: in_order_def)
  have e: "e_dgram env = Some dg" "io_flush (e_io env 2)" using assms(5) by (simp_all add: clean_env_def)
  have "length dg = 6 + p_block_size par" using dg(1) by (simp add: carries_def)
  then have rc: "rx_receive env x = (0, x\<lparr>x_local := dg\<rparr>)"
    using e assms(2) by (simp add: rx_receive_def put_bytes_def client_ok_def)
  define x2 where "x2 = rx_count (x\<lparr>x_local := dg\<rparr>)"
  have c2: "core x2 = core (x\<lparr>x_local := dg\<rparr>)" "frame x2 = frame x"
    by (simp_all add: x2_def) (simp add: frame_def heads_def)
  have g2: "got_block x2 = got_block x" "missing x2 = missing x" "bitmap_ok x2" "x_block_count x2 = ?n" "x_ring x2 = x_ring x"
      "x_blocks_left x2 = card (missing x)" "x_local x2 = dg" "x_lossless x2 = x_lossless x"
    using core_eqD [OF c2(1)] x by (simp_all add: got_block_def missing_def bitmap_ok_def fun_eq_iff)
  have tb: "this_block x2 = ?b" "this_type x2 = (if ?b = ?n then TS_BLOCK_TERMINATE else TS_BLOCK_ORIGINAL)"
    using carries_number [OF dg(1)] dg(2) n32 assms(4) g2(7) by (simp_all add: this_block_def this_type_def)
  have cov2: "cov_ok x2" using cov_ok_frame [OF c2(2)] g2 x io(1) by simp
  have nf: "\<not> ring_full (x_ring x2)"
  proof -
    have "ring_ok (x_ring x)" using x(3) by (simp add: ring_idle_def)
    then have "count_data (x_ring x) = 0" using ring_contents_length [of "x_ring x"] io(7) by simp
    then show ?thesis using x(3) g2(5) by (simp add: ring_full_def ring_idle_def ring_ok_def)
  qed
  have ng: "\<not> got_block x2 ?b"
  proof -
    have "?b \<in> missing x" using io(2) assms(4) by simp
    then show ?thesis using g2(1) by (simp add: missing_def)
  qed
  obtain r where r: "ring_put dg (x_ring x) = Inr (Some r)" "ring_contents r = [dg]"
    using ring_put_ok [OF x(3), of dg] nf g2(5) io(7) x(3) by (auto simp: ring_full_def ring_idle_def ring_ok_def split: if_splits)
  define x4 where "x4 = (mark_block ?b (x2\<lparr>x_ring := r\<rparr>))\<lparr>x_blocks_left := card (missing x) - 1\<rparr>"
  have "0 < card (missing x)" using io(2) assms(4) by simp
  then have ins: "rx_insert ?b x2 = (Rx_more, x4)"
    using ng r(1) g2 by (simp add: rx_insert_def Let_def x4_def mark_block_def)
  have b2: "?b \<le> x_block_count x2" using assms(4) g2 by simp
  note x4 = rx_insert_cov [OF cov2 g2(3) b2 ins]
  have m4: "missing x4 = {i + 2..?n}"
  proof -
    have "bitmap_ok (x2\<lparr>x_ring := r\<rparr>)" using g2(3) by (simp add: bitmap_ok_def)
    then have "missing (mark_block ?b (x2\<lparr>x_ring := r\<rparr>)) = missing (x2\<lparr>x_ring := r\<rparr>) - {?b}"
      using b2 by (intro missing_mark_block) simp_all
    moreover have "missing x4 = missing (mark_block ?b (x2\<lparr>x_ring := r\<rparr>))"
      by (rule missing_cong) (simp_all add: x4_def got_block_def fun_eq_iff)
    moreover have "missing (x2\<lparr>x_ring := r\<rparr>) = missing x2"
      by (rule missing_cong) (simp_all add: got_block_def fun_eq_iff)
    ultimately have "missing x4 = missing x - {i + 1}" using g2(2) by metis
    moreover have "{i + 1..?n} - {i + 1} = {i + 2..?n}" by auto
    ultimately show ?thesis using io(2) by metis
  qed
  have f4: "x_next_block x4 = i + 1" "x_gapless x4 = i" "x_index_max x4 = 0" "\<not> x_restart_pending x4" "x_ring x4 = r"
      "x_blocks_left x4 = card {i + 2..?n}"
    using x4(3) c2(2) io r by (simp_all add: frame_def heads_def x4_def mark_block_def)
  have bc4: "x_block_count x4 = ?n" using x4(4) g2(4) by simp
  have gl4: "gapless_ok x4" using x4(1) by (simp add: cov_ok_def)
  define x5 where "x5 = rx_advance ?b (this_type x2) x4"
  have c5: "core x5 = core x4" by (simp add: x5_def)
  note g5 = core_eqD [OF c5]
  have adv: "gapless_ok (advance_gapless x4)" "x_next_block (advance_gapless x4) = i + 1" "x_table (advance_gapless x4) = x_table x4"
      "x_index_max (advance_gapless x4) = 0" "\<not> x_restart_pending (advance_gapless x4)"
      "x_gapless (advance_gapless x4) < ?n \<Longrightarrow> \<not> got_block x4 (x_gapless (advance_gapless x4) + 1)"
    using advance_gapless_ok [OF gl4] bc4 n32 f4 by auto
  have gap: "x_gapless (advance_gapless x4) = i + 1" if "?b < ?n"
  proof (rule ccontr)
    let ?g = "x_gapless (advance_gapless x4)"
    assume ne: "?g \<noteq> i + 1"
    have A: "got_block x4 c" if "1 \<le> c" "c \<le> i + 1" for c
    proof -
      have "c \<notin> missing x4" unfolding m4 using that(2) by simp
      then show ?thesis using that assms(4) bc4 by (simp add: missing_def)
    qed
    have B: "\<not> got_block x4 (i + 2)"
    proof -
      have "i + 2 \<in> missing x4" unfolding m4 using \<open>?b < ?n\<close> by simp
      then show ?thesis by (simp add: missing_def)
    qed
    have C: "got_block x4 c" if "1 \<le> c" "c \<le> ?g" for c
      using adv(1) core_eqD [OF core_advance_gapless [of x4]] that by (simp add: gapless_ok_def)
    show False
    proof (cases "?g \<le> i")
      case True
      then have "?g < ?n" using that by simp
      from adv(6) [OF this] show False using A [of "?g + 1"] True by simp
    next
      case False
      then have "i + 2 \<le> ?g" using ne by simp
      then show False using B C [of "i + 2"] by simp
    qed
  qed
  have proc: "rx_process env ?b (this_type x2) x4 = (if ?b = ?n then Rx_done else Rx_more, x5)"
  proof -
    have rq: "rx_requests env ?b x4 = (0, x4)" using f4(1) by (simp add: rx_requests_def)
    have "rx_terminate env (this_type x2) x5 = (if ?b = ?n then Rx_done else Rx_more, x5)"
      using tb(2) g5(5) f4(6) by (simp add: rx_terminate_def TS_BLOCK_ORIGINAL_def TS_BLOCK_TERMINATE_def)
    then show ?thesis using rq f4(4) by (simp add: rx_process_def x5_def)
  qed
  have "x_next_block x5 \<le> i + 2" using adv tb(2) n32 assms(4) by (simp add: x5_def rx_advance_def Let_def w32_def)
  then have "covered x5" using g5(9) m4 by (auto simp: covered_def)
  moreover have "x_gapless x5 = x_gapless (advance_gapless x4)" "x_table x5 = x_table x4" "x_index_max x5 = 0"
    using adv by (simp_all add: x5_def rx_advance_def Let_def)
  moreover from this have "gapless_ok x5"
    using adv(1) g5 core_eqD [OF core_advance_gapless [of x4]] by (simp add: gapless_ok_def)
  ultimately have cov5: "cov_ok x5" using x4(1) g5 bc4 n32 by (simp add: cov_ok_def table_ok_def)
  have x5: "?b < ?n \<Longrightarrow> x_gapless x5 = i + 1 \<and> x_next_block x5 = i + 2 \<and> x_index_max x5 = 0 \<and> \<not> x_restart_pending x5"
    using adv gap tb(2) n32 by (simp add: x5_def rx_advance_def Let_def w32_def)
  have ct: "rx_control env x2 = (if ?b = ?n then Rx_done else Rx_more, x5)"
    using nf ng tb(1) ins proc by (simp add: rx_control_def Let_def)
  show ?thesis
  proof (cases "?b = ?n")
    case True
    then have "client_iter env x = (Rx_done, x5)" using rc ct by (simp add: client_iter_def x2_def)
    then show ?thesis using True cov5 g5 m4 f4(5) r(2) x4(5) g2(8) by (intro exI [of _ x5]) simp
  next
    case False
    then have lt: "?b < ?n" using assms(4) by simp
    obtain y where y: "rx_stats env x5 = (Rx_more, y)" "frame y = frame x5"
    proof (cases "x_total_blocks x5 mod 50 = 0 \<and> e_due env")
      case True
      obtain z where z: "ttp_repeat_retransmit (e_io env 2) x5 = (0, z)" "frame z = frame x5"
        using repeat_nothing [of x5 "e_io env 2"] x5 [OF lt] e(2) by auto
      have "frame (snd (ttp_update_stats (e_rate env) (e_io env 3) z)) = frame z"
        using frame_stats by (metis prod.collapse)
      then show ?thesis using that True z by (simp add: rx_stats_def)
    next
      case False
      then have "rx_stats env x5 = (Rx_more, x5)" unfolding rx_stats_def by (rule if_not_P)
      then show ?thesis using that by blast
    qed
    note gy = core_eqD [OF core_rx_stats [OF y(1)]]
    have "client_iter env x = (Rx_more, y)" using rc ct False y(1) by (simp add: client_iter_def x2_def)
    moreover have "cov_ok y" using cov_ok_frame [OF y(2)] gy cov5 by simp
    moreover have "x_gapless y = i + 1" "x_next_block y = i + 2" "x_index_max y = 0" "\<not> x_restart_pending y"
      using y(2) x5 [OF lt] by (simp_all add: frame_def heads_def)
    ultimately show ?thesis using False g5 gy m4 f4(5) r(2) x4(5) g2(8) by (intro exI [of _ y]) simp
  qed
qed

definition deliver :: "disk_io \<Rightarrow> rx_env list \<Rightarrow> turn list" where
  "deliver io envs = concat (map (\<lambda>env. [Net env, Disk io]) envs)"

text \<open>The datagram of a block as the server marks it.\<close>

definition marked :: "srv_par \<Rightarrow> u8 list \<Rightarrow> u8 list \<Rightarrow> nat \<Rightarrow> bool" where
  "marked par content dg b =
     (carries par content dg b \<and>
      htons (le_word (take 2 (drop 4 dg))) = (if b = p_block_count par then TS_BLOCK_TERMINATE else TS_BLOCK_ORIGINAL))"

lemma in_order_run:
  assumes "par_ok par content" "disk_good par io"
  shows "client_ok par content x \<Longrightarrow> stored par content x (d_file d) \<Longrightarrow> d_alive d \<Longrightarrow> in_order par content i x \<Longrightarrow>
    x_lossless x \<Longrightarrow> i < p_block_count par \<Longrightarrow> length envs = p_block_count par - i \<Longrightarrow>
    \<forall>j<length envs. \<exists>dg. clean_env (envs ! j) dg \<and> marked par content dg (i + j + 1) \<Longrightarrow>
    \<exists>y e. sys_run (deliver io envs) (x, d) = (Rx_done, y, e) \<and> sys_ok par content (y, e) \<and> missing y = {} \<and>
      length (ring_contents (x_ring y)) = 1"
proof (induction envs arbitrary: i x d)
  case Nil
  then show ?case by simp
next
  case (Cons env envs)
  obtain dg where dg: "clean_env env dg" "marked par content dg (i + 1)" using Cons.prems(8) by force
  let ?last = "i + 1 = p_block_count par"
  obtain y where y: "client_iter env x = (if ?last then Rx_done else Rx_more, y)" "x_lossless y = x_lossless x" "cov_ok y"
      "missing y = {i + 2..p_block_count par}"
      "\<not> ?last \<Longrightarrow> x_gapless y = i + 1 \<and> x_next_block y = i + 2 \<and> x_index_max y = 0 \<and> \<not> x_restart_pending y"
      "ring_contents (x_ring y) = [dg]"
    using in_order_step [OF assms(1) Cons.prems(1,4,6) dg(1)] dg(2) Cons.prems(6) unfolding marked_def by auto
  have "dgram_ok par content dg" using dg(2) Cons.prems(6) by (auto simp: dgram_ok_def marked_def intro!: exI [of _ "i + 1"])
  then have env: "case e_dgram env of None \<Rightarrow> dgram_ok par content (x_local x) | Some dg \<Rightarrow> dgram_ok par content dg"
    using dg(1) by (simp add: clean_env_def)
  have ok: "client_ok par content y" "stored par content y (d_file d)" "dgram_ok par content (x_local y)"
    using client_iter_ok [OF assms(1) Cons.prems(1,2) env y(1)] by blast+
  show ?case
  proof (cases ?last)
    case True
    then have "sys_run (deliver io (env # envs)) (x, d) = (Rx_done, y, d)" using y(1) by (simp add: deliver_def)
    moreover have "missing y = {}" using y(4) True by simp
    ultimately show ?thesis using ok Cons.prems(3) y(6) by (intro exI [of _ y] exI [of _ d]) (simp add: sys_ok_def)
  next
    case False
    obtain y2 d2 where st: "disk_step io (y, d) = (y2, d2)" by (metis surj_pair)
    have fr: "frame y2 = frame y \<and> x_block_count y2 = x_block_count y \<and> got_block y2 = got_block y"
      using st by (auto simp: disk_step_def Let_def frame_def heads_def got_block_def fun_eq_iff split: if_splits option.splits prod.splits)
    have ok2: "client_ok par content y2" "stored par content y2 (d_file d2)" "x_lossless y2 = x_lossless y" "missing y2 = missing y"
        "d_alive d2" "ring_contents (x_ring y2) = []"
      using disk_step_ok [OF assms(1) ok(1,2) st] Cons.prems(3) assms(2) y(6) by auto
    have "cov_ok y2" using cov_ok_frame [of y2 y] fr y(3) by simp
    moreover have "x_gapless y2 = i + 1" "x_next_block y2 = i + 2" "x_index_max y2 = 0" "\<not> x_restart_pending y2"
      using fr y(5) [OF False] by (simp_all add: frame_def heads_def)
    ultimately have "in_order par content (i + 1) y2" using ok2(4,6) y(4) by (simp add: in_order_def)
    moreover have "\<forall>j<length envs. \<exists>dg. clean_env (envs ! j) dg \<and> marked par content dg (i + 1 + j + 1)"
    proof (intro allI impI)
      fix j assume "j < length envs"
      then show "\<exists>dg. clean_env (envs ! j) dg \<and> marked par content dg (i + 1 + j + 1)"
        using Cons.prems(8) [rule_format, of "Suc j"] by simp
    qed
    moreover have "i + 1 < p_block_count par" "length envs = p_block_count par - (i + 1)" using False Cons.prems(6,7) by auto
    ultimately obtain z e where "sys_run (deliver io envs) (y2, d2) = (Rx_done, z, e)" "sys_ok par content (z, e)" "missing z = {}"
        "length (ring_contents (x_ring z)) = 1"
      using Cons.IH [OF ok2(1,2,5), of "i + 1"] ok2(3) y(2) Cons.prems(5) by auto
    moreover have "sys_run (deliver io (env # envs)) (x, d) = sys_run (deliver io envs) (y2, d2)"
      using y(1) False st by (simp add: deliver_def)
    ultimately show ?thesis by auto
  qed
qed

lemma no_loss_run:
  assumes "par_ok par content" "disk_good par io" "0 < p_block_count par" "length envs = p_block_count par"
    "\<forall>j<length envs. \<exists>dg. clean_env (envs ! j) dg \<and> marked par content dg (j + 1)"
  shows "\<exists>y e. sys_run (deliver io envs) (start_xfer par True lw (length content) (p_block_count par) heap, no_disk) = (Rx_done, y, e) \<and>
    sys_ok par content (y, e) \<and> missing y = {} \<and> length (ring_contents (x_ring y)) = 1"
proof -
  let ?x = "start_xfer par True lw (length content) (p_block_count par) heap"
  have "in_order par content 0 ?x"
    using start_client_ok(3) [OF assms(1)] unfolding in_order_def start_missing
    by (simp add: start_xfer_def)
  moreover have "x_lossless ?x" by (simp add: start_xfer_def)
  ultimately show ?thesis
    using in_order_run [OF assms(1,2) start_client_ok(1) [OF assms(1)], of True lw heap no_disk 0 envs]
      start_client_ok(2) [OF assms(1)] assms(3-5) by (simp add: no_disk_def)
qed

lemma drained_file:
  assumes "par_ok par content" "disk_good par io" "sys_ok par content (x, d)" "missing x = {}"
  shows "d_file (snd (snd (sys_run (replicate 4096 (Disk io)) (x, d)))) = content"
proof -
  have idle: "ring_idle (x_ring x)" using assms(3) by (simp add: sys_ok_def client_ok_def)
  then have "ring_ok (x_ring x)" by (simp add: ring_idle_def)
  then have "int (length (ring_contents (x_ring x))) \<le> 4096" using idle by (simp add: ring_idle_def ring_ok_def)
  then have "length (ring_contents (x_ring x)) \<le> 4096" by simp
  from drain [OF assms(1,2,3) this] obtain y e where
    "sys_run (replicate 4096 (Disk io)) (x, d) = (Rx_more, y, e)" "sys_ok par content (y, e)" "missing y = {}"
    "ring_contents (x_ring y) = []" using assms(4) by auto
  then show ?thesis using file_complete [OF assms(1), of y "d_file e"] by (simp add: sys_ok_def)
qed

subsection \<open>A small transfer\<close>

definition example_env :: "u8 list \<Rightarrow> rx_env" where
  "example_env dg = \<lparr>e_dgram = Some dg, e_alloc = (\<lambda>n. True), e_io = (\<lambda>k. \<lparr>io_items = 2048, io_flush = True\<rparr>),
     e_window = 0, e_rate = 0, e_due = True\<rparr>"

definition example_dgram :: "nat \<Rightarrow> u8 list" where
  "example_dgram b = be_list 4 (of_nat b :: u32) @
     le_list 2 (htons (if b = 3 then TS_BLOCK_TERMINATE else TS_BLOCK_ORIGINAL)) @
     block_data example_par example_content b @ replicate (4 - length (block_data example_par example_content b)) 0"

definition example_disk :: disk_io where
  "example_disk = \<lparr>dk_seek = True, dk_bytes = 4\<rparr>"

definition example_start :: xfer where
  "example_start = start_xfer example_par True 1000 (length example_content) (p_block_count example_par) (\<lambda>i. [])"

lemma example_numbers [simp]: "p_block_count example_par = 3" "p_block_size example_par = 4" "length example_content = 10"
  by (simp_all add: example_par_def example_content_def)

lemma example_disk_good: "disk_good example_par example_disk"
  by (simp add: disk_good_def example_disk_def example_par_def)

lemma example_marked: "marked example_par example_content (example_dgram b) b"
proof -
  have "length (block_data example_par example_content b) \<le> 4" by (simp add: block_data_length example_par_def)
  then show ?thesis
    by (simp add: marked_def carries_def example_dgram_def le_word_list)
qed

lemma example_dgram_ok: "1 \<le> b \<Longrightarrow> b \<le> 3 \<Longrightarrow> dgram_ok example_par example_content (example_dgram b)"
  using example_marked [of b] by (auto simp: dgram_ok_def marked_def example_par_def)

lemma example_start_ok:
  "client_ok example_par example_content example_start" "cov_ok example_start" "x_lossless example_start"
  "x_index_max example_start = 0" "x_block_count example_start = 3"
  using start_client_ok(1,3) [OF example_par_ok, of True 1000 "\<lambda>i. []"]
  by (simp_all add: example_start_def) (simp_all add: start_xfer_def)

lemma example_run:
  "\<exists>y e. sys_run (deliver example_disk (map example_env [example_dgram 1, example_dgram 2, example_dgram 3]))
     (example_start, no_disk) = (Rx_done, y, e)"
proof -
  let ?envs = "map example_env [example_dgram 1, example_dgram 2, example_dgram 3]"
  have "\<exists>dg. clean_env (?envs ! j) dg \<and> marked example_par example_content dg (j + 1)" if "j < 3" for j
  proof -
    have "j = 0 \<or> j = 1 \<or> j = 2" using that by auto
    then have "?envs ! j = example_env (example_dgram (j + 1))" by (auto simp: numeral_2_eq_2 numeral_3_eq_3)
    then show ?thesis using example_marked [of "j + 1"]
      by (intro exI [of _ "example_dgram (j + 1)"]) (simp add: clean_env_def example_env_def)
  qed
  then show ?thesis
    using no_loss_run [OF example_par_ok example_disk_good, of ?envs 1000 "\<lambda>i. []"]
    by (auto simp: example_start_def)
qed

subsection \<open>Server and client together\<close>

lemma tick_ok_quiet: "tick_ok par quiet"
  by (simp add: tick_ok_def quiet_def)

lemma htons_htons_type:
  "htons (htons TS_BLOCK_TERMINATE) = TS_BLOCK_TERMINATE" "htons (htons TS_BLOCK_ORIGINAL) = TS_BLOCK_ORIGINAL"
  by (simp_all add: htons_def TS_BLOCK_TERMINATE_def TS_BLOCK_ORIGINAL_def)

lemma be_list_inj: "be_list 4 (w :: u32) = be_list 4 v \<Longrightarrow> w = v"
proof -
  assume eq: "be_list 4 w = be_list 4 v"
  have "be_word (be_list 4 w) = w" "be_word (be_list 4 v) = v" by (rule be_word_list, simp)+
  then show "w = v" using eq by metis
qed

text \<open>What the server sends to a silent client, as the client needs it.\<close>

lemma quiet_marked:
  assumes "par_ok par content" "0 < p_block_count par" "length (sv_dgram st) = 6 + p_block_size par" "length (sv_mem st) = 12"
    "sv_last st < 2 ^ 32" "sv_out st = []"
    and out: "out = sv_out (snd (server_loop par (replicate (p_block_count par) quiet) (open_srv par content st)))"
  shows "length out = p_block_count par \<and> (\<forall>j<p_block_count par. marked par content (out ! j) (j + 1))"
proof -
  let ?n = "p_block_count par"
  obtain m where m: "?n = Suc m" using assms(2) by (cases ?n) simp_all
  have lt: "?n + 1 < 2 ^ 32" using assms(1) by (simp add: par_ok_def)
  obtain st' dgs where l: "server_loop par (replicate ?n quiet) (open_srv par content st) = (Srv_continue, st')"
      "sv_out st' = sv_out (open_srv par content st) @ dgs" "length dgs = ?n"
      "\<forall>i<?n. let b = min (sv_block (open_srv par content st) + i + 1) ?n in
         take 6 (dgs ! i) = be_list 4 (of_nat b :: u32) @
           le_list 2 (htons (if b = ?n then TS_BLOCK_TERMINATE else TS_BLOCK_ORIGINAL))"
    using quiet_loop [OF lt, of "open_srv par content st" ?n] by (auto simp: open_srv_def)
  have o: "out = dgs" using l(1,2) assms(6) by (simp add: out open_srv_def)
  have ok: "outs_ok par content out"
    using server_outs_ok [OF assms(1-6), of quiet "replicate m quiet"] tick_ok_quiet by (simp add: out m quiet_def)
  have "marked par content (out ! j) (j + 1)" if j: "j < ?n" for j
  proof -
    let ?dg = "out ! j"
    let ?ty = "if j + 1 = ?n then TS_BLOCK_TERMINATE else TS_BLOCK_ORIGINAL"
    have h: "take 6 ?dg = be_list 4 (of_nat (j + 1) :: u32) @ le_list 2 (htons ?ty)"
      using l(4) j by (auto simp: o Let_def open_srv_def min_def split: if_splits)
    obtain b where b: "1 \<le> b" "b \<le> ?n" "carries par content ?dg b"
      using ok nth_mem [of j dgs] j l(3) unfolding outs_ok_def o by metis
    have "be_list 4 (of_nat (j + 1) :: u32) = take 4 ?dg" using arg_cong [OF h, of "take 4"] by simp
    then have "be_list 4 (of_nat (j + 1) :: u32) = be_list 4 (of_nat b :: u32)" using b(3) unfolding carries_def by metis
    then have "(of_nat (j + 1) :: u32) = of_nat b" by (rule be_list_inj)
    moreover have "unat (of_nat k :: u32) = k" if "k < 2 ^ 32" for k :: nat using that by (simp add: unat_of_nat)
    from this [of "j + 1"] this [of b] have "unat (of_nat (j + 1) :: u32) = j + 1" "unat (of_nat b :: u32) = b"
      using j b(2) lt by linarith+
    ultimately have "j + 1 = b" by metis
    moreover have "take 2 (drop 4 ?dg) = drop 4 (take 6 ?dg)" by (simp add: take_drop)
    ultimately show ?thesis using b(3) h htons_htons_type by (simp add: marked_def le_word_list)
  qed
  then show ?thesis using l(3) by (simp add: o)
qed

subsection \<open>Contract\<close>



text \<open>C3: lossless mode keeps its promise. Start from a fresh transfer, let the network thread and the disk
  thread run in any interleaving on any sequence of the file's datagrams, lost, duplicated and reordered at
  will, with any failing receive in between (not as the first) and any behaviour of the control connection, the disk writing
  what it is given: when the loop ends as done, every block has been received, and once the disk thread
  has emptied the ring the file is the server's file, byte for byte.
\<close>

theorem lossless_transfer:
  assumes "par_ok par content" "x0 = start_xfer par True losswindow (length content) (p_block_count par) heap"
    "\<forall>t\<in>set (Net env # ts). turn_ok par content t" "e_dgram env \<noteq> None"
    "sys_run (Net env # ts) (x0, no_disk) = (Rx_done, x, d)" "disk_good par io"
  shows "missing x = {} \<and> d_file (snd (snd (sys_run (replicate 4096 (Disk io)) (x, d)))) = content"
proof -
  obtain dg where dg: "e_dgram env = Some dg" "dgram_ok par content dg"
    using assms(3,4) by (auto simp: turn_ok_def)
  obtain r1 x1 where it: "client_iter env x0 = (r1, x1)" by (cases "client_iter env x0")
  have l: "x_lossless x0" by (simp add: assms(2) start_xfer_def)
  have st: "client_ok par content x0" "stored par content x0 []" using start_client_ok(1,2) [OF assms(1)] assms(2) by simp_all
  have ok: "client_ok par content x1 \<and> stored par content x1 [] \<and> dgram_ok par content (x_local x1) \<and>
      x_lossless x1 = x_lossless x0 \<and> (r1 = Rx_done \<and> x_lossless x0 \<longrightarrow> missing x1 = {}) \<and> r1 \<noteq> Rx_exit \<and> r1 \<noteq> Rx_wait"
    using client_iter_ok [OF assms(1) st _ it] dg by simp
  then have s1: "sys_ok par content (x1, no_disk)" by (simp add: sys_ok_def no_disk_def)
  have "sys_ok par content (x, d) \<and> missing x = {}"
  proof (cases "r1 = Rx_more")
    case True
    then have "sys_run ts (x1, no_disk) = (Rx_done, x, d)" using assms(5) it by simp
    then show ?thesis using sys_run_ok [OF assms(1) s1, of ts] assms(3) ok l by simp
  next
    case False
    then have "r1 = Rx_done" "x = x1" "d = no_disk" using assms(5) it by (cases r1; simp)+
    then show ?thesis using s1 ok l by simp
  qed
  then show ?thesis using drained_file [OF assms(1,6)] by blast
qed

theorem lossless_transfer_witness:
  "\<exists>y e. sys_run (deliver example_disk (map example_env [example_dgram 1, example_dgram 2, example_dgram 3]))
     (example_start, no_disk) = (Rx_done, y, e) \<and>
    d_file (snd (snd (sys_run (replicate 4096 (Disk example_disk)) (y, e)))) = example_content"
proof -
  let ?ts = "Disk example_disk # deliver example_disk (map example_env [example_dgram 2, example_dgram 3])"
  have ts: "deliver example_disk (map example_env [example_dgram 1, example_dgram 2, example_dgram 3]) =
      Net (example_env (example_dgram 1)) # ?ts" by (simp add: deliver_def)
  obtain y e where run: "sys_run (Net (example_env (example_dgram 1)) # ?ts) (example_start, no_disk) = (Rx_done, y, e)"
    using example_run unfolding ts by blast
  have "\<forall>t\<in>set (Net (example_env (example_dgram 1)) # ?ts). turn_ok example_par example_content t"
    using example_dgram_ok example_disk_good by (simp add: turn_ok_def deliver_def example_env_def)
  moreover have "example_start = start_xfer example_par True 1000 (length example_content) (p_block_count example_par) (\<lambda>i. [])"
    by (simp add: example_start_def)
  moreover have "e_dgram (example_env (example_dgram 1)) \<noteq> None" by (simp add: example_env_def)
  ultimately show ?thesis
    using lossless_transfer [OF example_par_ok _ _ _ run example_disk_good] run unfolding ts by blast
qed

text \<open>C8: server and client together, when nothing is lost: the server, opened for a file and left alone, sends
  exactly the datagrams with which a fresh client ends as done, having received every block, and with the disk
  thread the client's file is the server's file, whatever the server transferred before.
\<close>

theorem transfer_without_loss:
  assumes "par_ok par content" "0 < p_block_count par" "length (sv_dgram st) = 6 + p_block_size par" "length (sv_mem st) = 12"
    "sv_last st < 2 ^ 32" "sv_out st = []" "disk_good par io"
    "map e_dgram envs = map Some (sv_out (snd (server_loop par (replicate (p_block_count par) quiet) (open_srv par content st))))"
    "\<forall>env\<in>set envs. io_flush (e_io env 2)"
  shows "\<exists>x d. sys_run (deliver io envs) (start_xfer par True lw (length content) (p_block_count par) heap, no_disk) = (Rx_done, x, d) \<and>
    missing x = {} \<and> d_file (snd (snd (sys_run (replicate 4096 (Disk io)) (x, d)))) = content"
proof -
  define out where "out = sv_out (snd (server_loop par (replicate (p_block_count par) quiet) (open_srv par content st)))"
  have o: "length out = p_block_count par" "\<forall>j<p_block_count par. marked par content (out ! j) (j + 1)"
    using quiet_marked [OF assms(1-6) out_def] by simp_all
  have m: "map e_dgram envs = map Some out" using assms(8) by (simp add: out_def)
  then have len: "length envs = p_block_count par" using o(1) map_eq_imp_length_eq by metis
  have "\<exists>dg. clean_env (envs ! j) dg \<and> marked par content dg (j + 1)" if "j < length envs" for j
  proof (intro exI conjI)
    have "map e_dgram envs ! j = map Some out ! j" using m by simp
    then show "clean_env (envs ! j) (out ! j)" using that assms(9) len o(1) by (simp add: clean_env_def)
    show "marked par content (out ! j) (j + 1)" using o(2) that len by simp
  qed
  from no_loss_run [OF assms(1,7,2) len, of lw heap] this obtain x d where
    "sys_run (deliver io envs) (start_xfer par True lw (length content) (p_block_count par) heap, no_disk) = (Rx_done, x, d)"
    "sys_ok par content (x, d)" "missing x = {}" by blast
  then show ?thesis using drained_file [OF assms(1,7)] by blast
qed

theorem transfer_without_loss_witness:
  "\<exists>x d. sys_run (deliver example_disk (map example_env
       (sv_out (snd (server_loop example_par (replicate 3 quiet) (open_srv example_par example_content example_srv))))))
     (start_xfer example_par True 1000 10 3 (\<lambda>i. []), no_disk) = (Rx_done, x, d) \<and>
    d_file (snd (snd (sys_run (replicate 4096 (Disk example_disk)) (x, d)))) = example_content"
proof -
  let ?out = "sv_out (snd (server_loop example_par (replicate 3 quiet) (open_srv example_par example_content example_srv)))"
  have "length (sv_dgram example_srv) = 6 + p_block_size example_par" "length (sv_mem example_srv) = 12"
    "sv_last example_srv < 2 ^ 32" "sv_out example_srv = []" "0 < p_block_count example_par"
    by (simp_all add: example_srv_def example_par_def)
  moreover have "map e_dgram (map example_env ?out) = map Some ?out" by (simp add: example_env_def)
  moreover have "\<forall>env\<in>set (map example_env ?out). io_flush (e_io env 2)" by (simp add: example_env_def)
  ultimately show ?thesis
    using transfer_without_loss [OF example_par_ok _ _ _ _ _ example_disk_good, of example_srv "map example_env ?out" 1000 "\<lambda>i. []"]
    by (simp only: example_numbers) blast
qed

text \<open>No missing block is forgotten in a lossless transfer: while the loop goes on, every block below the next
  expected one that has not arrived is in the table of requests, and all blocks up to \<open>gapless_to_block\<close> have
  arrived; skipped blocks, repeated requests, restarts, the end mark and failing receives included, as long as the
  table has room for its 65536 entries.
\<close>

lemma lossless_requests_missing:
  assumes "par_ok par content" "client_ok par content x" "cov_ok x" "x_lossless x"
    "x_index_max x + 2 * x_block_count x \<le> 65536"
    "case e_dgram env of None \<Rightarrow> dgram_ok par content (x_local x) | Some dg \<Rightarrow> dgram_ok par content dg"
    "client_iter env x = (Rx_more, y)"
  shows "(\<forall>b\<in>missing y. b < x_next_block y \<longrightarrow> b \<in> set (take (x_index_max y) (x_table y))) \<and>
    (\<forall>b. 1 \<le> b \<and> b \<le> x_gapless y \<longrightarrow> got_block y b) \<and> x_gapless y \<le> x_block_count y"
  using client_iter_cov [OF assms] unfolding cov_ok_def covered_def gapless_ok_def requested_def by blast

lemma lossless_requests_missing_witness:
  "\<exists>y. client_iter (example_env (example_dgram 1)) example_start = (Rx_more, y) \<and>
    list_all (\<lambda>b. b \<notin> missing y \<or> x_next_block y \<le> b \<or> b \<in> set (take (x_index_max y) (x_table y))) [1, 2, 3]"
proof -
  let ?env = "example_env (example_dgram 1)"
  have "in_order example_par example_content 0 example_start"
    using start_missing [of example_par True 1000 10 3 "\<lambda>i. []"] example_start_ok(2)
    by (simp add: in_order_def example_start_def start_xfer_def)
  from in_order_step [OF example_par_ok example_start_ok(1) this, of ?env "example_dgram 1"]
  obtain y where y: "client_iter ?env example_start = (Rx_more, y)"
    using example_marked [of 1] by (auto simp: clean_env_def example_env_def marked_def)
  have "case e_dgram ?env of None \<Rightarrow> dgram_ok example_par example_content (x_local example_start)
      | Some dg \<Rightarrow> dgram_ok example_par example_content dg"
    using example_dgram_ok [of 1] by (simp add: example_env_def)
  from lossless_requests_missing [OF example_par_ok example_start_ok(1-3) _ this y] example_start_ok(4,5) y
  show ?thesis by (auto simp: not_le)
qed

end
