(* ===== verification/TsShell.thy ===== *)
theory TsShell
  imports TsHandshake CStrings
begin

text \<open>
  The command line of the Tsunami client: the words of a command and the loop of \<^verbatim>\<open>client/main.c\<close>, the parameters
  of \<^verbatim>\<open>client/config.c\<close>, and the commands \<^verbatim>\<open>set\<close> and \<^verbatim>\<open>connect\<close> of \<^verbatim>\<open>client/command.c\<close>.
\<close>

subsection \<open>Words of a command\<close>

text \<open>\<open>MAX_COMMAND_WORDS\<close> and \<open>MAX_COMMAND_LENGTH\<close>.\<close>

definition MAX_COMMAND_WORDS :: nat where "MAX_COMMAND_WORDS = 10"

definition MAX_COMMAND_LENGTH :: nat where "MAX_COMMAND_LENGTH = 1024"

fun words_loop :: "nat \<Rightarrow> string \<Rightarrow> string list" where
  "words_loop 0 s = []"
| "words_loop (Suc n) s =
     (if s = [] then []
      else takeWhile (\<lambda>c. \<not> is_space c) s # words_loop n (dropWhile is_space (dropWhile (\<lambda>c. \<not> is_space c) s)))"

text \<open>The words, and what the buffer holds as a string afterwards: the first word with the white space in front of it.\<close>

definition parse_command :: "string \<Rightarrow> string list \<times> string" where
  "parse_command buffer =
     (let s = dropWhile is_space buffer in
      (words_loop MAX_COMMAND_WORDS s,
       if s = [] then buffer else takeWhile is_space buffer @ takeWhile (\<lambda>c. \<not> is_space c) s))"

subsection \<open>Parameters of the client\<close>

record client_par =
  cp_server_name :: string
  cp_server_port :: u16
  cp_client_port :: u16
  cp_udp_buffer :: u32
  cp_verbose :: bool
  cp_transcript :: bool
  cp_ipv6 :: bool
  cp_screen :: bool            \<comment> \<open>\<open>output_mode\<close> is \<open>SCREEN_MODE\<close>\<close>
  cp_block_size :: u32
  cp_target_rate :: u32
  cp_rate_adjust :: bool
  cp_error_rate :: u32
  cp_slower_num :: u16
  cp_slower_den :: u16
  cp_faster_num :: u16
  cp_faster_den :: u16
  cp_history :: u16
  cp_lossless :: bool
  cp_losswindow_ms :: u32
  cp_blockdump :: bool
  cp_passphrase :: "string option"

definition reset_client :: client_par where
  "reset_client = \<lparr>cp_server_name = ''localhost'', cp_server_port = 46224, cp_client_port = 46224, cp_udp_buffer = 20000000,
     cp_verbose = True, cp_transcript = False, cp_ipv6 = False, cp_screen = False, cp_block_size = 1024,
     cp_target_rate = 650000000, cp_rate_adjust = False, cp_error_rate = 7500, cp_slower_num = 25, cp_slower_den = 24,
     cp_faster_num = 5, cp_faster_den = 6, cp_history = 25, cp_lossless = True, cp_losswindow_ms = 1000, cp_blockdump = False,
     cp_passphrase = None\<rparr>"

text \<open>\<open>atol\<close> stays in the range of \<open>long\<close>; \<open>atoi\<close> and the assignments keep the low bits.\<close>

definition c_atol :: "string \<Rightarrow> int" where
  "c_atol s = (case scan_num 10 None s of Scan_ok v r \<Rightarrow> max LLONG_MIN (min LLONG_MAX v) | _ \<Rightarrow> 0)"

text \<open>A value that is not a fraction leaves both parts as they are.\<close>

definition parse_fraction :: "string \<Rightarrow> u16 \<times> u16 \<Rightarrow> u16 \<times> u16" where
  "parse_fraction fraction old =
     (case strchr fraction (CHR ''/'') of None \<Rightarrow> old
      | Some k \<Rightarrow> (word_of_int (c_atol fraction), word_of_int (c_atol (drop (k + 1) fraction))))"

text \<open>The rate may end with a factor; it is copied to an array of 256 characters first.\<close>

definition parse_rate :: "string \<Rightarrow> u32 res" where
  "parse_rate cmd =
     rbind (strcpy_buf 256 cmd) (\<lambda>cpy.
     let l = length cpy;
         m = (if l > 1 \<and> last cpy \<in> {CHR ''M'', CHR ''m''} then (1000000, butlast cpy)
              else if l > 1 \<and> last cpy \<in> {CHR ''G'', CHR ''g''} then (1000000000, butlast cpy)
              else (1, cpy));
         r = fst m * c_atol (snd m)
     in if in_llong r then Inr (word_of_int r) else Inl Int_overflow)"

text \<open>
  The floating point arithmetic of the field \<open>error\<close> is an argument: \<open>fe_read\<close> is \<open>atof\<close> times 1000 as an
  unsigned integer, \<open>fe_show\<close> the value divided by 1000 with two decimals.
\<close>

record float_env =
  fe_read :: "string \<Rightarrow> u32"
  fe_show :: "u32 \<Rightarrow> string"

definition yes :: "string \<Rightarrow> bool" where
  "yes v = (v = ''yes'')"

definition set_field :: "float_env \<Rightarrow> string \<Rightarrow> string \<Rightarrow> client_par \<Rightarrow> client_par res" where
  "set_field fe f v p =
     (if strcasecmp_eq f ''server'' then Inr (p\<lparr>cp_server_name := v\<rparr>)
      else if strcasecmp_eq f ''port'' then Inr (p\<lparr>cp_server_port := word_of_int (c_atol v)\<rparr>)
      else if strcasecmp_eq f ''udpport'' then Inr (p\<lparr>cp_client_port := word_of_int (c_atol v)\<rparr>)
      else if strcasecmp_eq f ''buffer'' then Inr (p\<lparr>cp_udp_buffer := word_of_int (c_atol v)\<rparr>)
      else if strcasecmp_eq f ''blocksize'' then Inr (p\<lparr>cp_block_size := word_of_int (c_atol v)\<rparr>)
      else if strcasecmp_eq f ''verbose'' then Inr (p\<lparr>cp_verbose := yes v\<rparr>)
      else if strcasecmp_eq f ''transcript'' then Inr (p\<lparr>cp_transcript := yes v\<rparr>)
      else if strcasecmp_eq f ''ip'' then Inr (p\<lparr>cp_ipv6 := (v = ''v6'')\<rparr>)
      else if strcasecmp_eq f ''output'' then Inr (p\<lparr>cp_screen := (v = ''screen'')\<rparr>)
      else if strcasecmp_eq f ''rateadjust'' then Inr (p\<lparr>cp_rate_adjust := yes v\<rparr>)
      else if strcasecmp_eq f ''rate'' then rbind (parse_rate v) (\<lambda>r. Inr (p\<lparr>cp_target_rate := r\<rparr>))
      else if strcasecmp_eq f ''error'' then Inr (p\<lparr>cp_error_rate := fe_read fe v\<rparr>)
      else if strcasecmp_eq f ''slowdown''
        then (case parse_fraction v (cp_slower_num p, cp_slower_den p) of (n, d) \<Rightarrow> Inr (p\<lparr>cp_slower_num := n, cp_slower_den := d\<rparr>))
      else if strcasecmp_eq f ''speedup''
        then (case parse_fraction v (cp_faster_num p, cp_faster_den p) of (n, d) \<Rightarrow> Inr (p\<lparr>cp_faster_num := n, cp_faster_den := d\<rparr>))
      else if strcasecmp_eq f ''history'' then Inr (p\<lparr>cp_history := word_of_int (c_atol v)\<rparr>)
      else if strcasecmp_eq f ''lossless'' then Inr (p\<lparr>cp_lossless := yes v\<rparr>)
      else if strcasecmp_eq f ''losswindow'' then Inr (p\<lparr>cp_losswindow_ms := word_of_int (c_atol v)\<rparr>)
      else if strcasecmp_eq f ''blockdump'' then Inr (p\<lparr>cp_blockdump := yes v\<rparr>)
      else if strcasecmp_eq f ''passphrase'' then Inr (p\<lparr>cp_passphrase := Some v\<rparr>)
      else Inr p)"

text \<open>The report: each field with its name and the text of its value.\<close>

definition yes_no :: "bool \<Rightarrow> string" where
  "yes_no b = (if b then ''yes'' else ''no'')"

definition report_fields :: "float_env \<Rightarrow> (string \<times> (client_par \<Rightarrow> string)) list" where
  "report_fields fe =
    [(''server'', cp_server_name), (''port'', \<lambda>p. nat_str (unat (cp_server_port p))),
     (''udpport'', \<lambda>p. nat_str (unat (cp_client_port p))), (''buffer'', \<lambda>p. nat_str (unat (cp_udp_buffer p))),
     (''blocksize'', \<lambda>p. nat_str (unat (cp_block_size p))), (''verbose'', \<lambda>p. yes_no (cp_verbose p)),
     (''transcript'', \<lambda>p. yes_no (cp_transcript p)), (''ip'', \<lambda>p. if cp_ipv6 p then ''v6'' else ''v4''),
     (''output'', \<lambda>p. if cp_screen p then ''screen'' else ''line''), (''rate'', \<lambda>p. nat_str (unat (cp_target_rate p))),
     (''rateadjust'', \<lambda>p. yes_no (cp_rate_adjust p)), (''error'', \<lambda>p. fe_show fe (cp_error_rate p) @ ''%''),
     (''slowdown'', \<lambda>p. nat_str (unat (cp_slower_num p)) @ ''/'' @ nat_str (unat (cp_slower_den p))),
     (''speedup'', \<lambda>p. nat_str (unat (cp_faster_num p)) @ ''/'' @ nat_str (unat (cp_faster_den p))),
     (''history'', \<lambda>p. nat_str (unat (cp_history p)) @ ''%''), (''lossless'', \<lambda>p. yes_no (cp_lossless p)),
     (''losswindow'', \<lambda>p. int_str (sint (cp_losswindow_ms p)) @ '' msec''), (''blockdump'', \<lambda>p. yes_no (cp_blockdump p)),
     (''passphrase'', \<lambda>p. if cp_passphrase p = None then ''default'' else ''<user-specified>'')]"

definition command_set :: "float_env \<Rightarrow> string list \<Rightarrow> client_par \<Rightarrow> (client_par \<times> string) res" where
  "command_set fe text p =
     rbind (if length text = 3 then set_field fe (text ! 1) (text ! 2) p else Inr p) (\<lambda>p1.
     Inr (p1, concat (map (\<lambda>(name, show).
         if length text = 1 \<or> strcasecmp_eq (text ! 1) name then name @ '' = '' @ show p1 @ [CHR 0x0A] else []) (report_fields fe)) @ [CHR 0x0A]))"

subsection \<open>Connecting\<close>

text \<open>
  What the network has for the client: whether the socket becomes a stream, whether writing succeeds in the two exchanges, and
  the bytes that will arrive.
\<close>

record connection_env =
  ce_stream :: bool
  ce_write1 :: bool
  ce_write2 :: bool
  ce_input :: "u8 list"

definition bytes_of :: "string \<Rightarrow> u8 list" where
  "bytes_of = map of_char"

definition DEFAULT_SECRET :: string where "DEFAULT_SECRET = ''kitten''"

text \<open>A session is the rest of the input of its control connection.\<close>

definition command_connect ::
    "(string \<Rightarrow> u16 \<Rightarrow> connection_env option) \<Rightarrow> md5_impl \<Rightarrow> string list \<Rightarrow> client_par \<Rightarrow> (u8 list option \<times> client_par) res" where
  "command_connect net md5 text p =
     (let p1 = (if length text > 1 then p\<lparr>cp_server_name := text ! 1\<rparr> else p);
          p2 = (if length text > 2 then p1\<lparr>cp_server_port := word_of_int (c_atol (text ! 2))\<rparr> else p1)
      in case net (cp_server_name p2) (cp_server_port p2) of
           None \<Rightarrow> Inr (None, p2)
         | Some env \<Rightarrow>
             if \<not> ce_stream env then Inr (None, p2)
             else (case client_negotiate (ce_write1 env) (ce_input env) of
                     (status, _, inp) \<Rightarrow>
                       if status < 0 then Inr (None, p2)
                       else
                         let secret = bytes_of (case cp_passphrase p2 of None \<Rightarrow> DEFAULT_SECRET | Some s \<Rightarrow> s)
                         in rbind (client_authenticate md5 (ce_write2 env) inp secret) (\<lambda>(status, _, inp1, _).
                            Inr (if status < 0 then None else Some inp1, p2))))"

subsection \<open>The command loop\<close>

text \<open>The next command from the arguments of the program; \<open>old\<close> is what the buffer holds.\<close>

datatype assembled = Command string "string list" | Usage_exit

definition join_words :: "string list \<Rightarrow> string res" where
  "join_words ws =
     (case ws of [] \<Rightarrow> Inl Uninitialised
      | w # rest \<Rightarrow> fold (\<lambda>x b. rbind b (\<lambda>s. rbind (strcat_buf MAX_COMMAND_LENGTH s '' '') (\<lambda>t. strcat_buf MAX_COMMAND_LENGTH t x)))
          rest (strcpy_buf MAX_COMMAND_LENGTH w))"

definition no_argument :: "string \<Rightarrow> bool" where
  "no_argument w = (\<exists>k\<in>{''close'', ''quit'', ''exit'', ''bye'', ''help'', ''dir''}. strcasecmp_eq w k)"

definition one_argument :: "string \<Rightarrow> bool" where
  "one_argument w = (strcasecmp_eq w ''connect'' \<or> strcasecmp_eq w ''get'')"

fun assemble :: "string option \<Rightarrow> string list \<Rightarrow> assembled res" where
  "assemble old [] = (case old of None \<Rightarrow> Inl Uninitialised | Some s \<Rightarrow> Inr (Command s []))"
| "assemble old (a # rest) =
     (if no_argument a then rbind (join_words [a]) (\<lambda>s. Inr (Command s rest))
      else if one_argument a then
        (case rest of b # rest1 \<Rightarrow> rbind (join_words [a, b]) (\<lambda>s. Inr (Command s rest1)) | [] \<Rightarrow> Inr Usage_exit)
      else if strcasecmp_eq a ''set'' then
        (case rest of b # c # rest1 \<Rightarrow> rbind (join_words [a, b, c]) (\<lambda>s. Inr (Command s rest1)) | _ \<Rightarrow> Inr Usage_exit)
      else assemble old rest)"

text \<open>
  The commands that are carried out, one after the other, and how the program ends.  \<open>lines\<close> is what the user types; an
  empty command is not carried out.
\<close>

datatype shell_end = Shell_quit | Shell_usage | Shell_no_input | Shell_undefined c_error

definition quits :: "string \<Rightarrow> bool" where
  "quits w = (strcasecmp_eq w ''quit'' \<or> strcasecmp_eq w ''exit'' \<or> strcasecmp_eq w ''bye'')"

lemma assemble_shorter: "assemble old args = Inr (Command s rest) \<Longrightarrow> args \<noteq> [] \<Longrightarrow> length rest < length args"
proof (induction old args arbitrary: s rest rule: assemble.induct)
  case (2 old a args)
  show ?case
  proof (cases "no_argument a \<or> one_argument a \<or> strcasecmp_eq a ''set''")
    case True
    then show ?thesis using "2.prems" by (auto simp: rbind_Inr split: if_splits list.splits)
  next
    case False
    then have "assemble old args = Inr (Command s rest)" using "2.prems" by simp
    then show ?thesis using "2.IH" False by (cases "args = []") (auto split: option.splits)
  qed
qed simp

function shell_loop :: "string option \<Rightarrow> string list \<Rightarrow> string list \<Rightarrow> string list list \<times> shell_end" where
  "shell_loop old args lines =
     (if args = [] then
        (case lines of
           [] \<Rightarrow> ([], Shell_no_input)
         | l # rest \<Rightarrow>
             (case parse_command l of (ws, left) \<Rightarrow>
                if ws = [] then shell_loop (Some left) [] rest
                else if quits (hd ws) then ([ws], Shell_quit)
                else (case shell_loop (Some left) [] rest of (t, e) \<Rightarrow> (ws # t, e))))
      else
        (case assemble old args of
           Inl e \<Rightarrow> ([], Shell_undefined e)
         | Inr Usage_exit \<Rightarrow> ([], Shell_usage)
         | Inr (Command s rest) \<Rightarrow>
             (case parse_command s of (ws, left) \<Rightarrow>
                if ws = [] then shell_loop (Some left) rest lines
                else if quits (hd ws) then ([ws], Shell_quit)
                else (case shell_loop (Some left) rest lines of (t, e) \<Rightarrow> (ws # t, e)))))"
  by pat_completeness auto
termination
  by (relation "measure (\<lambda>(old, args, lines). length args + length lines)") (auto dest: assemble_shorter)

declare shell_loop.simps [simp del]

subsection \<open>Facts about the words\<close>

definition a_word :: "string \<Rightarrow> bool" where
  "a_word w = (w \<noteq> [] \<and> (\<forall>c\<in>set w. \<not> is_space c))"

fun joined :: "string list \<Rightarrow> string" where
  "joined [] = []"
| "joined [w] = w"
| "joined (w # ws) = w @ '' '' @ joined ws"

lemma blank_space [simp]: "is_space (CHR '' '')" by (simp add: is_space_def)

lemma a_word_takeWhile:
  "a_word w \<Longrightarrow> takeWhile (\<lambda>c. \<not> is_space c) (w @ '' '' @ s) = w" "a_word w \<Longrightarrow> takeWhile (\<lambda>c. \<not> is_space c) w = w"
  "a_word w \<Longrightarrow> dropWhile (\<lambda>c. \<not> is_space c) (w @ '' '' @ s) = '' '' @ s" "a_word w \<Longrightarrow> dropWhile (\<lambda>c. \<not> is_space c) w = []"
  by (auto simp: a_word_def takeWhile_append dropWhile_append)

lemma joined_head: "ws \<noteq> [] \<Longrightarrow> list_all a_word ws \<Longrightarrow> joined ws \<noteq> [] \<and> \<not> is_space (hd (joined ws))"
  by (induction ws rule: joined.induct) (auto simp: a_word_def hd_append)

lemma joined_drop: "list_all a_word ws \<Longrightarrow> dropWhile is_space (joined ws) = joined ws"
  using joined_head [of ws] by (cases ws; cases "joined ws") auto

lemma words_joined: "list_all a_word ws \<Longrightarrow> length ws \<le> n \<Longrightarrow> words_loop n (joined ws) = ws"
proof (induction ws arbitrary: n rule: joined.induct)
  case 1
  then show ?case by (cases n) simp_all
next
  case (2 w)
  then have w: "a_word w" by simp
  then have "w \<noteq> []" by (simp add: a_word_def)
  moreover have "words_loop m [] = []" for m by (cases m) simp_all
  ultimately show ?case using 2 by (cases n) (simp_all add: a_word_takeWhile [OF w])
next
  case (3 w v vs)
  then have w: "a_word w" "list_all a_word (v # vs)" by simp_all
  then have "dropWhile is_space ('' '' @ joined (v # vs)) = joined (v # vs)" using joined_drop [of "v # vs"] by simp
  then show ?case using 3 w(2)
    by (cases n) (simp_all add: a_word_takeWhile [OF w(1)] del: append.simps)
qed

lemma parse_joined:
  assumes "list_all a_word ws" "ws \<noteq> []" "length ws \<le> MAX_COMMAND_WORDS"
  shows "parse_command (joined ws) = (ws, hd ws)"
proof -
  have "takeWhile is_space (joined ws) = []" using joined_head [OF assms(2,1)] by (cases "joined ws") auto
  moreover have "takeWhile (\<lambda>c. \<not> is_space c) (joined ws) = hd ws"
    using assms(1,2) by (cases ws rule: joined.cases) (simp_all add: a_word_takeWhile del: append.simps)
  ultimately show ?thesis
    using joined_head [OF assms(2,1)] words_joined [OF assms(1,3)] by (simp add: parse_command_def joined_drop [OF assms(1)])
qed

lemma join_words_joined:
  "ws \<noteq> [] \<Longrightarrow> length ws \<le> 3 \<Longrightarrow> length (joined ws) < MAX_COMMAND_LENGTH \<Longrightarrow> join_words ws = Inr (joined ws)"
  by (cases ws rule: joined.cases; cases "tl (tl ws)") (auto simp: join_words_def strcpy_buf_fits strcat_buf_fits)

text \<open>The commands that the arguments of the program may contain.\<close>

definition supported :: "string list \<Rightarrow> bool" where
  "supported c = (list_all a_word c \<and> length (joined c) < MAX_COMMAND_LENGTH \<and>
     (case c of [] \<Rightarrow> False
      | w # args \<Rightarrow> no_argument w \<and> args = [] \<or> one_argument w \<and> length args = 1 \<or> strcasecmp_eq w ''set'' \<and> length args = 2))"

lemma keywords_differ:
  "one_argument w \<Longrightarrow> \<not> no_argument w" "strcasecmp_eq w ''set'' \<Longrightarrow> \<not> no_argument w \<and> \<not> one_argument w"
  by (auto simp: one_argument_def no_argument_def strcasecmp_eq_def to_lower_def)

lemma assemble_supported:
  assumes "supported c"
  shows "assemble old (c @ rest) = Inr (Command (joined c) rest)"
proof -
  obtain w args where c: "c = w # args" using assms by (cases c) (simp_all add: supported_def)
  have j: "join_words c = Inr (joined c)"
    using assms c by (intro join_words_joined) (auto simp: supported_def)
  consider "no_argument w" "args = []" | b where "one_argument w" "args = [b]" | b d where "strcasecmp_eq w ''set''" "args = [b, d]"
    using assms c by (auto simp: supported_def length_Suc_conv numeral_2_eq_2)
  then show ?thesis using j keywords_differ [of w] unfolding c by cases simp_all
qed

lemma shell_supported:
  assumes "supported c"
  shows "shell_loop old (c @ rest) lines =
    (if quits (hd c) then ([c], Shell_quit) else (case shell_loop (Some (hd c)) rest lines of (t, e) \<Rightarrow> (c # t, e)))"
proof -
  have c: "c \<noteq> []" "list_all a_word c" using assms by (auto simp: supported_def)
  have "length c \<le> MAX_COMMAND_WORDS" using assms by (auto simp: supported_def MAX_COMMAND_WORDS_def split: list.splits)
  then have "parse_command (joined c) = (c, hd c)" using parse_joined c by blast
  then show ?thesis using c(1) assemble_supported [OF assms, of old rest] by (subst shell_loop.simps) simp
qed

lemma shell_commands:
  "list_all supported cs \<Longrightarrow> list_all (\<lambda>c. \<not> quits (hd c)) cs \<Longrightarrow>
   shell_loop old (concat cs @ rest) lines =
     (case shell_loop (if cs = [] then old else Some (hd (last cs))) rest lines of (t, e) \<Rightarrow> (cs @ t, e))"
proof (induction cs arbitrary: old)
  case (Cons c cs)
  then have "shell_loop old (concat (c # cs) @ rest) lines =
      (case shell_loop (Some (hd c)) (concat cs @ rest) lines of (t, e) \<Rightarrow> (c # t, e))"
    using shell_supported [of c old "concat cs @ rest" lines] by simp
  also have "\<dots> = (case shell_loop (Some (hd (last (c # cs)))) rest lines of (t, e) \<Rightarrow> ((c # cs) @ t, e))"
    using Cons by (auto split: prod.split)
  finally show ?case by simp
qed (simp split: prod.split)

text \<open>An argument that is no command, at the end: the buffer still holds the first word of the last command.\<close>

definition unsupported :: "string \<Rightarrow> bool" where
  "unsupported x = (\<not> no_argument x \<and> \<not> one_argument x \<and> \<not> strcasecmp_eq x ''set'')"

lemma trailing_argument_repeats:
  assumes "list_all supported cs" "list_all (\<lambda>c. \<not> quits (hd c)) cs" "cs \<noteq> []" "unsupported x"
  shows "shell_loop old (concat cs @ [x]) lines =
    (case shell_loop (Some (hd (last cs))) [] lines of (t, e) \<Rightarrow> (cs @ [hd (last cs)] # t, e))"
proof -
  let ?w = "hd (last cs)"
  have l: "supported (last cs)" "\<not> quits ?w" using assms(1-3) by (simp_all add: list_all_iff)
  then have "a_word ?w" by (cases "last cs") (simp_all add: supported_def)
  then have "parse_command ?w = ([?w], ?w)" using parse_joined [of "[?w]"] by (simp add: MAX_COMMAND_WORDS_def)
  moreover have "assemble (Some ?w) [x] = Inr (Command ?w [])" using assms(4) by (simp add: unsupported_def)
  ultimately have "shell_loop (Some ?w) [x] lines = (case shell_loop (Some ?w) [] lines of (t, e) \<Rightarrow> ([?w] # t, e))"
    using l(2) by (subst shell_loop.simps) simp
  then show ?thesis using shell_commands [OF assms(1,2), of old "[x]" lines] assms(3) by (simp split: prod.split)
qed

subsection \<open>Facts about the fields\<close>

text \<open>The values that a field can take, as the user writes them, and as the report shows them.\<close>

definition is_number :: "nat \<Rightarrow> string \<Rightarrow> bool" where
  "is_number k v = (\<exists>n<2 ^ k. v = nat_str n)"

definition is_fraction :: "string \<Rightarrow> bool" where
  "is_fraction v = (\<exists>a b. a < 2 ^ 16 \<and> b < 2 ^ 16 \<and> v = nat_str a @ ''/'' @ nat_str b)"

definition field_value :: "string \<Rightarrow> string \<Rightarrow> bool" where
  "field_value f v =
     (if f = ''server'' then True
      else if f \<in> {''port'', ''udpport'', ''history''} then is_number 16 v
      else if f \<in> {''buffer'', ''blocksize'', ''rate''} then is_number 32 v
      else if f = ''losswindow'' then is_number 31 v
      else if f \<in> {''verbose'', ''transcript'', ''rateadjust'', ''lossless'', ''blockdump''} then v \<in> {''yes'', ''no''}
      else if f = ''ip'' then v \<in> {''v4'', ''v6''}
      else if f = ''output'' then v \<in> {''screen'', ''line''}
      else if f \<in> {''slowdown'', ''speedup''} then is_fraction v
      else False)"

definition shown :: "string \<Rightarrow> string \<Rightarrow> string" where
  "shown f v = (if f = ''history'' then v @ ''%'' else if f = ''losswindow'' then v @ '' msec'' else v)"

lemma atol_nat_str: "n < 2 ^ 32 \<Longrightarrow> s = [] \<or> \<not> is_digit_in 10 (hd s) \<Longrightarrow> c_atol (nat_str n @ s) = int n"
  by (simp add: c_atol_def scan_num_nat_str)

lemma number_read:
  assumes "is_number k v" "k \<le> 32"
  obtains n where "n < 2 ^ k" "v = nat_str n" "c_atol v = int n"
proof -
  obtain n where n: "n < 2 ^ k" "v = nat_str n" using assms(1) by (auto simp: is_number_def)
  have "(2 :: nat) ^ k \<le> 2 ^ 32" using assms(2) by (intro power_increasing) simp_all
  then show thesis using that n atol_nat_str [of n "[]"] by simp
qed

lemma word_kept: "n < 2 ^ 16 \<Longrightarrow> unat (word_of_int (int n) :: u16) = n" "n < 2 ^ 32 \<Longrightarrow> unat (word_of_int (int n) :: u32) = n"
  by (simp_all add: unat_of_nat)

lemma signed_kept: "n < 2 ^ 31 \<Longrightarrow> int_str (sint (word_of_int (int n) :: u32)) = nat_str n"
proof -
  assume "n < 2 ^ 31"
  then have "sint (word_of_int (int n) :: u32) = int n" by (simp only: signed_of_int) (simp add: signed_take_bit_int_eq_self)
  then show ?thesis by (simp add: int_str_def)
qed

lemma fraction_read:
  assumes "is_fraction v"
  shows "\<exists>n d. parse_fraction v old = (n, d) \<and> nat_str (unat n) @ ''/'' @ nat_str (unat d) = v"
proof -
  obtain a b where v: "a < 2 ^ 16" "b < 2 ^ 16" "v = nat_str a @ ''/'' @ nat_str b" using assms by (auto simp: is_fraction_def)
  have "strchr v (CHR ''/'') = Some (length (nat_str a))" unfolding v(3) using strchr_append [of "CHR ''/''" "nat_str a"] by simp
  moreover have "c_atol v = int a" unfolding v(3) using v(1) by (intro atol_nat_str) (simp_all add: is_digit_in_def digit_val_def)
  moreover have "c_atol (drop (length (nat_str a) + 1) v) = int b" using v(2) atol_nat_str [of b "[]"] by (simp add: v(3))
  ultimately show ?thesis using v word_kept(1) by (simp add: parse_fraction_def)
qed

lemma rate_read:
  assumes "n < 2 ^ 32"
  shows "parse_rate (nat_str n) = Inr (word_of_int (int n))"
proof -
  have "length (nat_str n) < 256" using nat_str_short [of n 10] assms by simp
  moreover have "is_digit_in 10 (last (nat_str n))" by (rule nat_str_all_digits) (rule last_in_set, simp)
  then have "last (nat_str n) \<notin> {CHR ''M'', CHR ''m'', CHR ''G'', CHR ''g''}" by (auto simp: is_digit_in_def digit_val_def)
  ultimately show ?thesis using assms atol_nat_str [of n "[]"] by (simp add: parse_rate_def strcpy_buf_fits Let_def in_llong_def)
qed

lemma set_number:
  "is_number 16 v \<Longrightarrow> nat_str (unat (word_of_int (c_atol v) :: u16)) = v"
  "is_number 32 v \<Longrightarrow> nat_str (unat (word_of_int (c_atol v) :: u32)) = v"
  "is_number 31 v \<Longrightarrow> int_str (sint (word_of_int (c_atol v) :: u32)) = v"
  "is_number 32 v \<Longrightarrow> \<exists>r. parse_rate v = Inr r \<and> nat_str (unat r) = v"
proof -
  show "is_number 16 v \<Longrightarrow> nat_str (unat (word_of_int (c_atol v) :: u16)) = v"
    by (erule number_read) (simp_all add: word_kept(1) del: of_int_of_nat_eq)
  show "is_number 32 v \<Longrightarrow> nat_str (unat (word_of_int (c_atol v) :: u32)) = v"
    by (erule number_read) (simp_all add: word_kept(2) del: of_int_of_nat_eq)
  show "is_number 31 v \<Longrightarrow> int_str (sint (word_of_int (c_atol v) :: u32)) = v"
    by (erule number_read) (simp_all add: signed_kept del: of_int_of_nat_eq)
  show "is_number 32 v \<Longrightarrow> \<exists>r. parse_rate v = Inr r \<and> nat_str (unat r) = v"
    by (erule number_read) (simp_all add: rate_read word_kept(2) del: of_int_of_nat_eq)
qed

lemma yes_no_shown: "v \<in> {''yes'', ''no''} \<Longrightarrow> yes_no (yes v) = v"
  by (auto simp: yes_no_def yes_def)

text \<open>The names of the fields are in lower case, so they differ also without regard to case.\<close>

definition field_names :: "string list" where
  "field_names = [''server'', ''port'', ''udpport'', ''buffer'', ''blocksize'', ''verbose'', ''transcript'', ''ip'', ''output'', ''rate'',
     ''rateadjust'', ''error'', ''slowdown'', ''speedup'', ''history'', ''lossless'', ''losswindow'', ''blockdump'', ''passphrase'']"

lemma fields_named: "map fst (report_fields fe) = field_names"
  by (simp add: report_fields_def field_names_def)

lemma names_lower: "n \<in> set field_names \<Longrightarrow> map to_lower n = n"
proof -
  have "list_all (\<lambda>n. map to_lower n = n) field_names" by (simp add: field_names_def to_lower_def)
  then show "n \<in> set field_names \<Longrightarrow> map to_lower n = n" by (simp add: list_all_iff)
qed

lemma names_caseless: "f \<in> set field_names \<Longrightarrow> g \<in> set field_names \<Longrightarrow> strcasecmp_eq f g \<longleftrightarrow> f = g"
  by (simp add: strcasecmp_eq_def names_lower)

lemma set_field_known:
  assumes "f \<in> set field_names"
  shows "set_field fe f v p =
     (if f = ''server'' then Inr (p\<lparr>cp_server_name := v\<rparr>)
      else if f = ''port'' then Inr (p\<lparr>cp_server_port := word_of_int (c_atol v)\<rparr>)
      else if f = ''udpport'' then Inr (p\<lparr>cp_client_port := word_of_int (c_atol v)\<rparr>)
      else if f = ''buffer'' then Inr (p\<lparr>cp_udp_buffer := word_of_int (c_atol v)\<rparr>)
      else if f = ''blocksize'' then Inr (p\<lparr>cp_block_size := word_of_int (c_atol v)\<rparr>)
      else if f = ''verbose'' then Inr (p\<lparr>cp_verbose := yes v\<rparr>)
      else if f = ''transcript'' then Inr (p\<lparr>cp_transcript := yes v\<rparr>)
      else if f = ''ip'' then Inr (p\<lparr>cp_ipv6 := (v = ''v6'')\<rparr>)
      else if f = ''output'' then Inr (p\<lparr>cp_screen := (v = ''screen'')\<rparr>)
      else if f = ''rateadjust'' then Inr (p\<lparr>cp_rate_adjust := yes v\<rparr>)
      else if f = ''rate'' then rbind (parse_rate v) (\<lambda>r. Inr (p\<lparr>cp_target_rate := r\<rparr>))
      else if f = ''error'' then Inr (p\<lparr>cp_error_rate := fe_read fe v\<rparr>)
      else if f = ''slowdown''
        then (case parse_fraction v (cp_slower_num p, cp_slower_den p) of (n, d) \<Rightarrow> Inr (p\<lparr>cp_slower_num := n, cp_slower_den := d\<rparr>))
      else if f = ''speedup''
        then (case parse_fraction v (cp_faster_num p, cp_faster_den p) of (n, d) \<Rightarrow> Inr (p\<lparr>cp_faster_num := n, cp_faster_den := d\<rparr>))
      else if f = ''history'' then Inr (p\<lparr>cp_history := word_of_int (c_atol v)\<rparr>)
      else if f = ''lossless'' then Inr (p\<lparr>cp_lossless := yes v\<rparr>)
      else if f = ''losswindow'' then Inr (p\<lparr>cp_losswindow_ms := word_of_int (c_atol v)\<rparr>)
      else if f = ''blockdump'' then Inr (p\<lparr>cp_blockdump := yes v\<rparr>)
      else if f = ''passphrase'' then Inr (p\<lparr>cp_passphrase := Some v\<rparr>)
      else Inr p)"
proof -
  have "strcasecmp_eq f g = (f = g)" if "g \<in> set field_names" for g using names_caseless [OF assms that] .
  then show ?thesis unfolding set_field_def by (simp add: field_names_def)
qed

lemma set_field_shown:
  assumes "(f, show_f) \<in> set (report_fields fe)" "field_value f v"
  shows "\<exists>p1. set_field fe f v p = Inr p1 \<and> show_f p1 = shown f v \<and>
    (\<forall>(g, show_g) \<in> set (report_fields fe). g \<noteq> f \<longrightarrow> show_g p1 = show_g p)"
proof -
  have f: "f \<in> set field_names" using assms(1) fields_named [of fe] by (metis fst_conv image_eqI list.set_map)
  note cases_by = report_fields_def list.set insert_iff empty_iff prod.inject
  consider (rate) "f = ''rate''" | (slower) "f = ''slowdown''" | (faster) "f = ''speedup''"
    | (other) "f \<notin> {''rate'', ''slowdown'', ''speedup''}" by blast
  then show ?thesis
  proof cases
    case rate
    obtain r where r: "parse_rate v = Inr r" "nat_str (unat r) = v" using assms(2) rate set_number(4) [of v] by (auto simp: field_value_def)
    show ?thesis using assms r rate unfolding set_field_known [OF f] cases_by by (auto simp: shown_def)
  next
    case slower
    obtain n d where n: "parse_fraction v (cp_slower_num p, cp_slower_den p) = (n, d)" "nat_str (unat n) @ ''/'' @ nat_str (unat d) = v"
      using fraction_read [of v "(cp_slower_num p, cp_slower_den p)"] assms(2) unfolding field_value_def slower by auto
    show ?thesis using assms n slower unfolding set_field_known [OF f] cases_by by (auto simp: shown_def)
  next
    case faster
    obtain n d where n: "parse_fraction v (cp_faster_num p, cp_faster_den p) = (n, d)" "nat_str (unat n) @ ''/'' @ nat_str (unat d) = v"
      using fraction_read [of v "(cp_faster_num p, cp_faster_den p)"] assms(2) unfolding field_value_def faster by auto
    show ?thesis using assms n faster unfolding set_field_known [OF f] cases_by by (auto simp: shown_def)
  next
    case other
    show ?thesis
      using assms other unfolding set_field_known [OF f] cases_by
      by (elim disjE conjE) (auto simp: field_value_def shown_def set_number yes_no_shown)
  qed
qed

lemma report_one:
  assumes "(f, show_f) \<in> set (report_fields fe)"
  shows "concat (map (\<lambda>(name, show). if strcasecmp_eq f name then name @ '' = '' @ show p @ [CHR 0x0A] else []) (report_fields fe)) =
    f @ '' = '' @ show_f p @ [CHR 0x0A]"
proof -
  have f: "f \<in> set field_names" using assms fields_named [of fe] by (metis fst_conv image_eqI list.set_map)
  have same: "strcasecmp_eq f g = (f = g)" if "g \<in> set field_names" for g using names_caseless [OF f that] .
  have d: "distinct (map fst (report_fields fe))" by (simp add: fields_named field_names_def)
  have "concat (map (\<lambda>(name, show). if strcasecmp_eq f name then name @ '' = '' @ show p @ [CHR 0x0A] else []) xs) =
      (if f \<in> fst ` set xs then f @ '' = '' @ the (map_of xs f) p @ [CHR 0x0A] else [])"
    if "distinct (map fst xs)" "fst ` set xs \<subseteq> set field_names" for xs
    using that by (induction xs) (auto simp: same)
  moreover have "fst ` set (report_fields fe) = set field_names" using fields_named [of fe] by (simp flip: list.set_map)
  moreover have "map_of (report_fields fe) f = Some show_f" using d assms by (simp add: map_of_eq_Some_iff)
  ultimately show ?thesis using d f by simp
qed

text \<open>C39: the settings of the client behave like a table: \<open>set\<close> with a field and a value of its kind succeeds, the field is then
  reported with that value, whatever it was before, and every other field is reported as before.
\<close>

theorem settings_reported:
  assumes "(f, show_f) \<in> set (report_fields fe)" "field_value f v"
  shows "\<exists>p1 out. command_set fe [''set'', f, v] p = Inr (p1, out) \<and> out = f @ '' = '' @ shown f v @ [CHR 0x0A, CHR 0x0A] \<and>
    show_f p1 = shown f v \<and> (\<forall>(g, show_g) \<in> set (report_fields fe). g \<noteq> f \<longrightarrow> show_g p1 = show_g p)"
proof -
  obtain p1 where p1: "set_field fe f v p = Inr p1" "show_f p1 = shown f v"
    "\<forall>(g, show_g) \<in> set (report_fields fe). g \<noteq> f \<longrightarrow> show_g p1 = show_g p"
    using set_field_shown [OF assms, of p] by blast
  have "command_set fe [''set'', f, v] p = Inr (p1, (f @ '' = '' @ show_f p1 @ [CHR 0x0A]) @ [CHR 0x0A])"
    using p1(1) report_one [OF assms(1), of p1] by (simp add: command_set_def numeral_2_eq_2 numeral_3_eq_3)
  then show ?thesis using p1(2,3) by simp
qed

theorem settings_reported_witness:
  "\<exists>p1 out. command_set \<lparr>fe_read = (\<lambda>_. 0), fe_show = (\<lambda>_. ''0'')\<rparr> [''set'', ''port'', ''80''] reset_client = Inr (p1, out) \<and>
     out = ''port'' @ '' = '' @ ''80'' @ [CHR 0x0A, CHR 0x0A]"
proof -
  let ?fe = "\<lparr>fe_read = (\<lambda>_. 0), fe_show = (\<lambda>_. ''0'')\<rparr>"
  have "nat_str 80 = ''80''" by (simp add: nat_str.simps digit_char_eval)
  then have "field_value ''port'' ''80''" unfolding field_value_def is_number_def by (auto intro!: exI [of _ 80])
  moreover have "(''port'', \<lambda>p. nat_str (unat (cp_server_port p))) \<in> set (report_fields ?fe)" by (simp add: report_fields_def)
  ultimately show ?thesis using settings_reported [of "''port''" _ ?fe "''80''" reset_client] by (fastforce simp: shown_def)
qed

text \<open>A rate of more than four gigabits is cut to 32 bits.\<close>

lemma rate_cut: "parse_rate ''5G'' = Inr 705032704"
  by (simp add: parse_rate_def strcpy_buf_def c_atol_def scan_num_def scan_unsigned_def is_space_def is_digit_in_def digit_val_def
      digits_value_def in_llong_def)

subsection \<open>A session\<close>

text \<open>A server of the same revision that accepts the secret gives a session; one that refuses it gives none.\<close>

lemma connect_session:
  assumes net: "net host (cp_server_port p) = Some \<lparr>ce_stream = True, ce_write1 = True, ce_write2 = True,
      ce_input = le_list 4 (htonl PROTOCOL_REVISION) @ random @ answer # rest\<rparr>"
    and "md5_good md5" "length random = 64" "cp_passphrase p = Some s" "s \<noteq> []"
  shows "command_connect net md5 [''connect'', host] p = Inr (if answer = 0 then Some rest else None, p\<lparr>cp_server_name := host\<rparr>)"
proof -
  have "client_negotiate True (le_list 4 (htonl PROTOCOL_REVISION) @ random @ answer # rest) =
      (0, le_list 4 (htonl PROTOCOL_REVISION), random @ answer # rest)"
    by (simp add: client_negotiate_def Let_def le_word_list)
  moreover have "\<exists>digest secret. client_authenticate md5 True (random @ answer # rest) (bytes_of s) =
      Inr (if answer = 0 then 0 else -1, digest, rest, secret)"
    using assms(3,5) by (simp add: client_authenticate_def proof_of_def Let_def bytes_of_def)
  ultimately show ?thesis using net assms(4) by (auto simp: command_connect_def Let_def)
qed

subsection \<open>Contract\<close>

text \<open>C40: the command line is carried out in order: when the arguments of the program are commands of the supported kinds, one after
  the other, the last of them a command to quit, the client carries out exactly these commands with their words, in this order, and
  ends, whatever the buffer held and whatever follows.
\<close>

theorem commandline_in_order:
  assumes "list_all supported cs" "list_all (\<lambda>c. \<not> quits (hd c)) cs" "supported q" "quits (hd q)"
  shows "shell_loop old (concat cs @ q @ later) lines = (cs @ [q], Shell_quit)"
  using shell_commands [OF assms(1,2), of old "q @ later" lines] shell_supported [OF assms(3), of _ later lines] assms(4) by simp

theorem commandline_in_order_witness:
  "shell_loop None (concat [[''connect'', ''host''], [''set'', ''rate'', ''1G''], [''get'', ''file'']] @ [''quit''] @ []) [] =
     ([[''connect'', ''host''], [''set'', ''rate'', ''1G''], [''get'', ''file''], [''quit'']], Shell_quit)"
proof -
  have "list_all supported [[''connect'', ''host''], [''set'', ''rate'', ''1G''], [''get'', ''file'']]" "supported [''quit'']"
    "list_all (\<lambda>c. \<not> quits (hd c)) [[''connect'', ''host''], [''set'', ''rate'', ''1G''], [''get'', ''file'']]" "quits (hd [''quit''])"
    by (simp_all add: supported_def a_word_def is_space_def MAX_COMMAND_LENGTH_def no_argument_def one_argument_def quits_def
        strcasecmp_eq_def to_lower_def)
  from commandline_in_order [OF this(1,3,2,4), of None "[]" "[]"] show ?thesis by simp
qed

end
