(* ===== verification/MhdStr.thy ===== *)
theory MhdStr
  imports CStrings
begin

text \<open>
  String helpers of the embedded HTTP daemon, \<open>src/final/server/microhttpd/microhttpd/mhd_str.c\<close>: characters,
  comparison without case, conversion of decimal and hexadecimal numbers with their tests for overflow.  The names
  of the source end in an underscore, which is dropped here.
\<close>

subsection \<open>Characters\<close>

text \<open>A string is the characters before its terminator; reading at its end gives the terminator.\<close>

definition at :: "string \<Rightarrow> nat \<Rightarrow> char" where
  "at s i = (if i < length s then s ! i else NUL)"

abbreviation code :: "char \<Rightarrow> nat" where "code c \<equiv> of_char c"

definition isasciilower :: "char \<Rightarrow> bool" where
  "isasciilower c = (97 \<le> code c \<and> code c \<le> 122)"

definition isasciiupper :: "char \<Rightarrow> bool" where
  "isasciiupper c = (65 \<le> code c \<and> code c \<le> 90)"

definition isasciidigit :: "char \<Rightarrow> bool" where
  "isasciidigit c = (48 \<le> code c \<and> code c \<le> 57)"

definition toasciilower :: "char \<Rightarrow> char" where
  "toasciilower c = (if isasciiupper c then char_of (code c - 65 + 97) else c)"

definition toxdigitvalue :: "char \<Rightarrow> int" where
  "toxdigitvalue c =
     (if isasciidigit c then int (code c) - 48
      else if 65 \<le> code c \<and> code c \<le> 70 then int (code c) - 65 + 10
      else if 97 \<le> code c \<and> code c \<le> 102 then int (code c) - 97 + 10
      else -1)"

subsection \<open>Comparison\<close>

fun MHD_str_equal_caseless :: "string \<Rightarrow> string \<Rightarrow> bool" where
  "MHD_str_equal_caseless [] str2 = (str2 = [])"
| "MHD_str_equal_caseless (c1 # str1) str2 =
     (let c2 = at str2 0 in
      if c1 \<noteq> c2 \<and> toasciilower c1 \<noteq> toasciilower c2 then False
      else MHD_str_equal_caseless str1 (tl str2))"

text \<open>The version with a limit; \<open>n\<close> comparisons are left at index \<open>i\<close>.\<close>

fun equal_n_loop :: "string \<Rightarrow> string \<Rightarrow> nat \<Rightarrow> nat \<Rightarrow> bool" where
  "equal_n_loop str1 str2 0 i = True"
| "equal_n_loop str1 str2 (Suc n) i =
     (let c1 = at str1 i; c2 = at str2 i in
      if c2 = NUL then c1 = NUL
      else if c1 \<noteq> c2 \<and> toasciilower c1 \<noteq> toasciilower c2 then False
      else equal_n_loop str1 str2 n (i + 1))"

definition MHD_str_equal_caseless_n :: "string \<Rightarrow> string \<Rightarrow> nat \<Rightarrow> bool" where
  "MHD_str_equal_caseless_n str1 str2 maxlen = equal_n_loop str1 str2 maxlen 0"

subsection \<open>Numbers\<close>

text \<open>
  The conversions share one loop: a digit is added unless the result would exceed \<open>M\<close>.  The result is the number
  of characters with the value; \<open>None\<close> is the return value 0, with which nothing is stored.
\<close>

abbreviation UINT64_MAX :: nat where "UINT64_MAX \<equiv> 2 ^ 64 - 1"
abbreviation UINT32_MAX :: nat where "UINT32_MAX \<equiv> 2 ^ 32 - 1"

fun digits_loop :: "(char \<Rightarrow> int) \<Rightarrow> nat \<Rightarrow> nat \<Rightarrow> nat \<Rightarrow> nat \<Rightarrow> string \<Rightarrow> (nat \<times> nat) option" where
  "digits_loop dv b M res i [] = Some (i, res)"
| "digits_loop dv b M res i (c # str) =
     (if dv c < 0 then Some (i, res)
      else if M div b < res \<or> res = M div b \<and> M mod b < nat (dv c) then None
      else digits_loop dv b M (res * b + nat (dv c)) (i + 1) str)"

definition todigitvalue :: "char \<Rightarrow> int" where
  "todigitvalue c = (if isasciidigit c then int (code c) - 48 else -1)"

definition MHD_str_to_uint64 :: "string \<Rightarrow> (nat \<times> nat) option" where
  "MHD_str_to_uint64 str =
     (if \<not> isasciidigit (at str 0) then None else digits_loop todigitvalue 10 UINT64_MAX 0 0 str)"

definition MHD_str_to_uint64_n :: "string \<Rightarrow> nat \<Rightarrow> (nat \<times> nat) option" where
  "MHD_str_to_uint64_n str maxlen =
     (if maxlen = 0 \<or> \<not> isasciidigit (at str 0) then None
      else digits_loop todigitvalue 10 UINT64_MAX 0 0 (take maxlen str))"

definition stored :: "(nat \<times> nat) option \<Rightarrow> (nat \<times> nat) option" where
  "stored r = (case r of Some (0, v) \<Rightarrow> None | _ \<Rightarrow> r)"

definition MHD_strx_to_uint32 :: "string \<Rightarrow> (nat \<times> nat) option" where
  "MHD_strx_to_uint32 str = stored (digits_loop toxdigitvalue 16 UINT32_MAX 0 0 str)"

definition MHD_strx_to_uint32_n :: "string \<Rightarrow> nat \<Rightarrow> (nat \<times> nat) option" where
  "MHD_strx_to_uint32_n str maxlen = stored (digits_loop toxdigitvalue 16 UINT32_MAX 0 0 (take maxlen str))"

definition MHD_strx_to_uint64 :: "string \<Rightarrow> (nat \<times> nat) option" where
  "MHD_strx_to_uint64 str = stored (digits_loop toxdigitvalue 16 UINT64_MAX 0 0 str)"

definition MHD_strx_to_uint64_n :: "string \<Rightarrow> nat \<Rightarrow> (nat \<times> nat) option" where
  "MHD_strx_to_uint64_n str maxlen = stored (digits_loop toxdigitvalue 16 UINT64_MAX 0 0 (take maxlen str))"

text \<open>\<open>size_t\<close> has 64 bits.\<close>

definition MHD_strx_to_sizet :: "string \<Rightarrow> (nat \<times> nat) option" where
  "MHD_strx_to_sizet str = stored (digits_loop toxdigitvalue 16 UINT64_MAX 0 0 str)"

definition MHD_strx_to_sizet_n :: "string \<Rightarrow> nat \<Rightarrow> (nat \<times> nat) option" where
  "MHD_strx_to_sizet_n str maxlen = stored (digits_loop toxdigitvalue 16 UINT64_MAX 0 0 (take maxlen str))"

subsection \<open>What they compute\<close>

lemma toasciilower_NUL [simp]: "toasciilower NUL = NUL"
  by (simp add: toasciilower_def isasciiupper_def)

lemma toasciilower_ne_NUL [simp]: "c \<noteq> NUL \<Longrightarrow> toasciilower c \<noteq> NUL"
proof -
  assume "c \<noteq> NUL"
  moreover have "char_of (n - 65 + 97) \<noteq> NUL" if "65 \<le> n" "n \<le> 90" for n :: nat
  proof
    assume "char_of (n - 65 + 97) = NUL"
    then have "(of_char (char_of (n - 65 + 97) :: char) :: nat) = of_char NUL" by simp
    then show False using that by simp
  qed
  ultimately show "toasciilower c \<noteq> NUL" by (auto simp: toasciilower_def isasciiupper_def)
qed

lemma equal_caseless: "NUL \<notin> set s \<Longrightarrow> MHD_str_equal_caseless s t \<longleftrightarrow> map toasciilower s = map toasciilower t"
proof (induction s t rule: MHD_str_equal_caseless.induct)
  case (2 c1 str1 str2)
  have "toasciilower c1 \<noteq> NUL" using "2.prems" by auto
  then show ?case using 2 by (cases str2) (auto simp: at_def)
qed auto

text \<open>The value of a string of digits.\<close>

definition digits_val :: "(char \<Rightarrow> int) \<Rightarrow> nat \<Rightarrow> nat \<Rightarrow> string \<Rightarrow> nat" where
  "digits_val dv b = foldl (\<lambda>v c. v * b + nat (dv c))"

lemma digits_val_simps [simp]:
  "digits_val dv b res [] = res"
  "digits_val dv b res (c # s) = digits_val dv b (res * b + nat (dv c)) s"
  by (simp_all add: digits_val_def)

lemma digits_val_mono: "0 < b \<Longrightarrow> res \<le> digits_val dv b res s"
proof (induction s arbitrary: res)
  case (Cons c s)
  have "res \<le> res * b + nat (dv c)" using Cons.prems by (cases b) auto
  also have "\<dots> \<le> digits_val dv b res (c # s)" using Cons by simp
  finally show ?case .
qed simp

text \<open>The test before each step is exact: it fails just when the number so far exceeds the limit.\<close>

lemma digits_loop_spec:
  assumes "0 < b" "\<And>c. dv c < int b"
  shows "res \<le> M \<Longrightarrow> digits_loop dv b M res i s =
    (let ds = takeWhile (\<lambda>c. 0 \<le> dv c) s in
     if digits_val dv b res ds \<le> M then Some (i + length ds, digits_val dv b res ds) else None)"
proof (induction s arbitrary: res i)
  case (Cons c s)
  show ?case
  proof (cases "0 \<le> dv c")
    case True
    let ?d = "nat (dv c)"
    have d: "?d < b" using assms(2) [of c] True by simp
    have over: "M div b < res \<or> res = M div b \<and> M mod b < ?d \<longleftrightarrow> M < res * b + ?d"
    proof -
      have M: "M = b * (M div b) + M mod b" by simp
      have "M div b < res \<Longrightarrow> M < res * b + ?d"
      proof -
        assume "M div b < res"
        then have "b * (M div b + 1) \<le> b * res" by (intro mult_le_mono2) simp
        then have "b * (M div b) + b \<le> res * b" by (simp add: algebra_simps)
        moreover have "M mod b < b" using assms(1) by simp
        ultimately show ?thesis using M by linarith
      qed
      moreover have "res < M div b \<Longrightarrow> res * b + ?d \<le> M"
      proof -
        assume "res < M div b"
        then have "b * (res + 1) \<le> b * (M div b)" by (intro mult_le_mono2) simp
        then have "res * b + b \<le> b * (M div b)" by (simp add: algebra_simps)
        then show ?thesis using M d by linarith
      qed
      moreover have "res = M div b \<Longrightarrow> M < res * b + ?d \<longleftrightarrow> M mod b < ?d" using M by (metis add_less_cancel_left mult.commute)
      ultimately show ?thesis by (metis linorder_neqE_nat not_le)
    qed
    show ?thesis
    proof (cases "M < res * b + ?d")
      case True
      then have "\<not> digits_val dv b (res * b + ?d) (takeWhile (\<lambda>c. 0 \<le> dv c) s) \<le> M"
        using digits_val_mono [OF assms(1), of "res * b + ?d" dv] by (meson le_less_trans not_le)
      then show ?thesis using True over \<open>0 \<le> dv c\<close> by (simp add: Let_def not_less)
    next
      case False
      then have "digits_loop dv b M res i (c # s) = digits_loop dv b M (res * b + ?d) (i + 1) s"
        using over \<open>0 \<le> dv c\<close> by (metis digits_loop.simps(2) not_less)
      then show ?thesis using Cons.IH [of "res * b + ?d" "i + 1"] False \<open>0 \<le> dv c\<close> by (simp add: Let_def not_less)
    qed
  qed (use Cons.prems in \<open>simp add: Let_def\<close>)
qed (simp add: Let_def)

lemma todigitvalue_bound: "todigitvalue c < 10" "0 \<le> todigitvalue c \<longleftrightarrow> isasciidigit c"
  by (auto simp: todigitvalue_def isasciidigit_def)

lemma toxdigitvalue_bound: "toxdigitvalue c < 16"
  by (auto simp: toxdigitvalue_def isasciidigit_def)

lemma toxdigit_val: "toxdigitvalue c = (case digit_val c of None \<Rightarrow> -1 | Some d \<Rightarrow> int d)"
  by (simp add: toxdigitvalue_def isasciidigit_def digit_val_def Let_def)

lemma digit_val_bound: "digit_val c = Some d \<Longrightarrow> d < 16"
  by (auto simp: digit_val_def Let_def split: if_splits)

lemma toxdigit_pred: "(\<lambda>c. 0 \<le> toxdigitvalue c) = is_digit_in 16"
  by (rule ext) (auto simp: toxdigit_val is_digit_in_def dest: digit_val_bound split: option.splits)

lemma todigit_pred: "(\<lambda>c. 0 \<le> todigitvalue c) = is_digit_in 10"
  by (rule ext) (auto simp: todigitvalue_def isasciidigit_def is_digit_in_def digit_val_def Let_def)

lemma digits_val_value:
  assumes "\<And>c. c \<in> set ds \<Longrightarrow> dv c = int (the (digit_val c))"
  shows "digits_val dv b res ds = foldl (\<lambda>a c. b * a + the (digit_val c)) res ds"
  using assms by (induction ds arbitrary: res) (simp_all add: mult.commute)

lemma takeWhile_value:
  "digits_val toxdigitvalue 16 0 (takeWhile (is_digit_in 16) s) = digits_value 16 (takeWhile (is_digit_in 16) s)"
  "digits_val todigitvalue 10 0 (takeWhile (is_digit_in 10) s) = digits_value 10 (takeWhile (is_digit_in 10) s)"
proof -
  have "toxdigitvalue c = int (the (digit_val c))" if "c \<in> set (takeWhile (is_digit_in 16) s)" for c
    using set_takeWhileD [OF that] by (auto simp: toxdigit_val is_digit_in_def split: option.splits)
  then show "digits_val toxdigitvalue 16 0 (takeWhile (is_digit_in 16) s) = digits_value 16 (takeWhile (is_digit_in 16) s)"
    unfolding digits_value_def by (intro digits_val_value) auto
  have "todigitvalue c = int (the (digit_val c))" if "c \<in> set (takeWhile (is_digit_in 10) s)" for c
    using set_takeWhileD [OF that]
    by (auto simp: todigitvalue_def isasciidigit_def is_digit_in_def digit_val_def Let_def split: option.splits if_splits)
  then show "digits_val todigitvalue 10 0 (takeWhile (is_digit_in 10) s) = digits_value 10 (takeWhile (is_digit_in 10) s)"
    unfolding digits_value_def by (intro digits_val_value) auto
qed

text \<open>Decimal and hexadecimal conversion, as functions of the digits at the start.\<close>

definition number_spec :: "nat \<Rightarrow> nat \<Rightarrow> string \<Rightarrow> (nat \<times> nat) option" where
  "number_spec b limit s =
     (let ds = takeWhile (is_digit_in b) s; v = digits_value b ds
      in if ds = [] \<or> limit \<le> v then None else Some (length ds, v))"

lemma dec_loop: "MHD_str_to_uint64 s = number_spec 10 (2 ^ 64) s"
proof -
  have "isasciidigit (at s 0) \<longleftrightarrow> takeWhile (is_digit_in 10) s \<noteq> []"
    unfolding todigit_pred [symmetric] by (cases s) (auto simp: at_def todigitvalue_bound isasciidigit_def)
  moreover have "digits_loop todigitvalue 10 UINT64_MAX 0 0 s =
      (let ds = takeWhile (is_digit_in 10) s in
       if digits_value 10 ds \<le> UINT64_MAX then Some (length ds, digits_value 10 ds) else None)"
    using digits_loop_spec [of 10 todigitvalue 0 UINT64_MAX 0 s] todigitvalue_bound(1)
    by (simp add: todigit_pred takeWhile_value Let_def)
  ultimately show ?thesis by (auto simp: MHD_str_to_uint64_def number_spec_def Let_def)
qed

lemma hex_loop: "M + 1 = limit \<Longrightarrow> stored (digits_loop toxdigitvalue 16 M 0 0 s) = number_spec 16 limit s"
proof -
  assume M: "M + 1 = limit"
  have "digits_loop toxdigitvalue 16 M 0 0 s =
      (let ds = takeWhile (is_digit_in 16) s in
       if digits_value 16 ds \<le> M then Some (length ds, digits_value 16 ds) else None)"
    using digits_loop_spec [of 16 toxdigitvalue 0 M 0 s] toxdigitvalue_bound
    by (simp add: toxdigit_pred takeWhile_value Let_def)
  moreover have "limit \<le> v \<longleftrightarrow> \<not> v \<le> M" for v using M by auto
  ultimately show ?thesis
    by (cases "takeWhile (is_digit_in 16) s") (auto simp: stored_def number_spec_def Let_def)
qed

lemmas hex_numbers =
  MHD_strx_to_uint32_n_def hex_loop [of UINT32_MAX "2 ^ 32", simplified]
  MHD_strx_to_sizet_n_def hex_loop [of UINT64_MAX "2 ^ 64", simplified]

subsection \<open>Contract\<close>

text \<open>C29: the conversions of numbers are exact, up to the last value of their type: they return the number of
  leading digits and their value, and fail just when there is no digit or the value does not fit, however many
  digits (leading zeros included) there are; the test before each step neither overflows nor refuses a
  value that fits.
\<close>

theorem str_numbers_exact:
  "MHD_str_to_uint64 s = number_spec 10 (2 ^ 64) s \<and>
   MHD_strx_to_uint32_n s n = number_spec 16 (2 ^ 32) (take n s) \<and>
   MHD_strx_to_sizet_n s n = number_spec 16 (2 ^ 64) (take n s)"
  using dec_loop by (simp add: MHD_strx_to_uint32_n_def MHD_strx_to_sizet_n_def hex_loop)

end
