(* ===== verification/MhdUri.thy ===== *)
theory MhdUri
  imports MhdStr HttpCodec
begin

text \<open>
  The daemon's reading of request targets, \<open>src/final/server/microhttpd/microhttpd/internal.c\<close>: unescaping and the
  division of a query into its arguments.  The source works in place on the request's text; a text here is the
  characters before its terminator.
\<close>

subsection \<open>Unescaping\<close>

text \<open>\<open>p\<close> is found by \<open>strchr\<close> from position \<open>i\<close> on.\<close>

function unescape_plus_from :: "nat \<Rightarrow> string \<Rightarrow> string" where
  "unescape_plus_from i arg =
     (case strchr (drop i arg) (CHR ''+'') of None \<Rightarrow> arg
      | Some k \<Rightarrow> unescape_plus_from (i + k + 1) (arg[i + k := CHR '' '']))"
  by pat_completeness auto
termination by (relation "measure (\<lambda>(i, arg). length arg - i)") (auto dest: strchr_Some)

declare unescape_plus_from.simps [simp del]

definition MHD_unescape_plus :: "string \<Rightarrow> string" where
  "MHD_unescape_plus arg = unescape_plus_from 0 arg"

text \<open>
  The loop of \<open>MHD_http_unescape\<close>: what is left to read, and what was written.  It works in place, \<open>wpos\<close> never
  passes \<open>rpos\<close>.  The result has the length that is returned; as a C string it ends at the first zero byte.
\<close>

function http_unescape_loop :: "string \<Rightarrow> string \<Rightarrow> string" where
  "http_unescape_loop [] out = out"
| "http_unescape_loop (c # rest) out =
     (if c = CHR ''%'' then
        (case MHD_strx_to_uint32_n rest 2 of
           Some (n, num) \<Rightarrow>
             if n = 2 then http_unescape_loop (drop 2 rest) (out @ [char_of (num mod 256)])
             else http_unescape_loop rest (out @ [c])
         | None \<Rightarrow> http_unescape_loop rest (out @ [c]))
      else http_unescape_loop rest (out @ [c]))"
  by pat_completeness auto
termination by (relation "measure (\<lambda>(rest, out). length rest)") auto

definition MHD_http_unescape :: "string \<Rightarrow> string" where
  "MHD_http_unescape val = http_unescape_loop val []"

subsection \<open>Arguments\<close>

text \<open>
  What the callback does with a key and a value (\<open>None\<close>: no value) on a state; its result tells whether it went
  well.  The unescape callback is the default one; a C string is what the callback sees.
\<close>

definition unescape_arg :: "string \<Rightarrow> string" where
  "unescape_arg s = cstring (MHD_http_unescape (MHD_unescape_plus s))"

function parse_arguments_loop ::
    "(string \<Rightarrow> string option \<Rightarrow> 's \<Rightarrow> bool \<times> 's) \<Rightarrow> string \<Rightarrow> nat \<Rightarrow> 's \<Rightarrow> bool \<times> nat \<times> 's" where
  "parse_arguments_loop cb args num s =
     (if args = [] then (True, num, s)
      else case strchr args (CHR ''&'') of
        None \<Rightarrow>
          (case strchr args (CHR ''='') of
             None \<Rightarrow>
               (case cb (unescape_arg args) None s of (ok, s1) \<Rightarrow> if \<not> ok then (False, num, s1) else (True, num + 1, s1))
           | Some e \<Rightarrow>
               (case cb (unescape_arg (take e args)) (Some (unescape_arg (drop (e + 1) args))) s of
                  (ok, s1) \<Rightarrow> if \<not> ok then (False, num, s1) else (True, num + 1, s1)))
      | Some a \<Rightarrow>
          (case strchr args (CHR ''='') of
             Some e \<Rightarrow>
               if a < e then
                 (case cb (unescape_arg (take a args)) None s of
                    (ok, s1) \<Rightarrow> if \<not> ok then (False, num, s1) else parse_arguments_loop cb (drop (a + 1) args) (num + 1) s1)
               else
                 (case cb (unescape_arg (take e args)) (Some (unescape_arg (drop (e + 1) (take a args)))) s of
                    (ok, s1) \<Rightarrow> if \<not> ok then (False, num, s1) else parse_arguments_loop cb (drop (a + 1) args) (num + 1) s1)
           | None \<Rightarrow>
               (case cb (unescape_arg (take a args)) None s of
                  (ok, s1) \<Rightarrow> if \<not> ok then (False, num, s1) else parse_arguments_loop cb (drop (a + 1) args) (num + 1) s1)))"
  by pat_completeness auto
termination
  by (relation "measure (\<lambda>(cb, args, num, s). length args)") (auto dest!: strchr_Some)

declare parse_arguments_loop.simps [simp del]

definition MHD_parse_arguments ::
    "(string \<Rightarrow> string option \<Rightarrow> 's \<Rightarrow> bool \<times> 's) \<Rightarrow> string \<Rightarrow> 's \<Rightarrow> bool \<times> nat \<times> 's" where
  "MHD_parse_arguments cb args s = parse_arguments_loop cb args 0 s"

subsection \<open>Unescaping undoes escaping\<close>

lemma unescape_plus_loop:
  "i \<le> length s \<Longrightarrow> unescape_plus_from i s = take i s @ map (\<lambda>c. if c = CHR ''+'' then CHR '' '' else c) (drop i s)"
proof (induction i s rule: unescape_plus_from.induct)
  case (1 i s)
  show ?case
  proof (cases "strchr (drop i s) (CHR ''+'')")
    case None
    then have "CHR ''+'' \<notin> set (drop i s)" by (simp add: strchr_None)
    then have "map (\<lambda>c. if c = CHR ''+'' then CHR '' '' else c) (drop i s) = drop i s" by (intro map_idI) auto
    then show ?thesis using None by (subst unescape_plus_from.simps) simp
  next
    case (Some k)
    then have k: "k < length (drop i s)" "drop i s ! k = CHR ''+''" "CHR ''+'' \<notin> set (take k (drop i s))"
      using strchr_Some by blast+
    let ?f = "\<lambda>c. if c = CHR ''+'' then CHR '' '' else c"
    have m: "map ?f (take k (drop i s)) = take k (drop i s)" using k(3) by (intro map_idI) auto
    have d: "drop i s = take k (drop i s) @ CHR ''+'' # drop (i + k + 1) s"
      using id_take_nth_drop [OF k(1)] k(2) by (simp add: ac_simps)
    have "map ?f (drop i s) = map ?f (take k (drop i s)) @ ?f (CHR ''+'') # map ?f (drop (i + k + 1) s)"
      by (subst d) simp
    then have l: "map ?f (drop i s) = take k (drop i s) @ CHR '' '' # map ?f (drop (i + k + 1) s)"
      by (simp add: m)
    have t: "take (i + k + 1) (s[i + k := CHR '' '']) = take i s @ take k (drop i s) @ [CHR '' '']"
      using k(1) by (simp add: take_Suc_conv_app_nth take_add drop_update_swap)
    have "unescape_plus_from (i + k + 1) (s[i + k := CHR '' '']) =
        take (i + k + 1) (s[i + k := CHR '' '']) @ map ?f (drop (i + k + 1) (s[i + k := CHR '' '']))"
      by (rule "1.IH" [OF Some]) (use k(1) in simp)
    also have "\<dots> = take i s @ map ?f (drop i s)" unfolding t l by simp
    finally show ?thesis by (subst unescape_plus_from.simps) (simp only: Some option.case)
  qed
qed

lemma unescape_plus: "MHD_unescape_plus s = map (\<lambda>c. if c = CHR ''+'' then CHR '' '' else c) s"
  using unescape_plus_loop [of 0 s] by (simp add: MHD_unescape_plus_def)

lemma hex_digit_in [simp]: "d < 16 \<Longrightarrow> is_digit_in 16 (hex_digit d)"
  by (simp add: is_digit_in_def)

lemma unescape_two_hex: "MHD_strx_to_uint32_n (hex_digit (of_char c div 16) # hex_digit (of_char c mod 16) # r) 2 = Some (2, of_char c)"
proof -
  have "MHD_strx_to_uint32_n (hex_digit (of_char c div 16) # hex_digit (of_char c mod 16) # r) 2 =
      number_spec 16 (2 ^ 32) [hex_digit (of_char c div 16), hex_digit (of_char c mod 16)]"
    unfolding MHD_strx_to_uint32_n_def by (subst hex_loop [of UINT32_MAX "2 ^ 32"]) simp_all
  moreover have "digits_value 16 [hex_digit (of_char c div 16), hex_digit (of_char c mod 16)] = of_char c"
    using of_char_div_mod [of c] by (simp add: digits_value_def)
  moreover have "(of_char c :: nat) < 2 ^ 32" by (rule less_trans [OF of_char_bound]) simp
  ultimately show ?thesis using of_char_div_mod [of c] by (simp add: number_spec_def)
qed

lemma unescape_piece:
  "piece_ok p \<Longrightarrow> http_unescape_loop (piece_text p @ r) out = http_unescape_loop r (out @ [fst p])"
  by (auto simp: piece_text_def piece_ok_def escape_char_def Let_def unescape_two_hex)

lemma unescape_pieces_loop:
  "list_all piece_ok ps \<Longrightarrow> http_unescape_loop (concat (map piece_text ps) @ r) out = http_unescape_loop r (out @ map fst ps)"
  by (induction ps arbitrary: out) (simp_all add: unescape_piece)

lemma unescape_pieces: "list_all piece_ok ps \<Longrightarrow> MHD_http_unescape (concat (map piece_text ps)) = map fst ps"
  using unescape_pieces_loop [of ps "[]" "[]"] by (simp add: MHD_http_unescape_def)

lemma unescape_loop_length: "length (http_unescape_loop s out) \<le> length s + length out"
proof (induction s out rule: http_unescape_loop.induct)
  case (2 c rest out)
  have two: "2 \<le> length rest" if "MHD_strx_to_uint32_n rest 2 = Some (2, v)" for v
  proof -
    have "length (takeWhile (is_digit_in 16) (take 2 rest)) = 2"
      using that unfolding MHD_strx_to_uint32_n_def
      by (subst (asm) hex_loop [of UINT32_MAX "2 ^ 32"]) (auto simp: number_spec_def Let_def split: if_splits)
    then show ?thesis using length_takeWhile_le [of "is_digit_in 16" "take 2 rest"] by simp
  qed
  show ?case
  proof (cases "c = CHR ''%'' \<and> (\<exists>v. MHD_strx_to_uint32_n rest 2 = Some (2, v))")
    case True
    then obtain v where v: "c = CHR ''%''" "MHD_strx_to_uint32_n rest 2 = Some (2, v)" by blast
    have "length (http_unescape_loop (drop 2 rest) (out @ [char_of (v mod 256)])) \<le>
        length (drop 2 rest) + length (out @ [char_of (v mod 256)])"
      using "2.IH"(2) v by blast
    then show ?thesis using v two [OF v(2)] by simp
  next
    case False
    then have "http_unescape_loop (c # rest) out = http_unescape_loop rest (out @ [c])"
      by (auto split: option.splits)
    moreover have "length (http_unescape_loop rest (out @ [c])) \<le> length rest + length (out @ [c])"
      using "2.IH"(1,3,4) False by (cases "c = CHR ''%''"; cases "MHD_strx_to_uint32_n rest 2") auto
    ultimately show ?thesis by simp
  qed
qed simp

subsection \<open>A query and its arguments\<close>

text \<open>
  What a well-behaved client sends: a key or a value is a list of pieces, an escape \<open>%XX\<close> of any character but the
  terminator, or the character itself; \<open>+\<close> stands for a blank.  An argument has a key and perhaps a value.
\<close>

definition arg_piece_ok :: "char \<times> bool \<Rightarrow> bool" where
  "arg_piece_ok p = (fst p \<noteq> NUL \<and> (snd p \<or> fst p \<notin> {CHR ''%'', CHR ''&'', CHR ''=''}))"

definition arg_char :: "char \<times> bool \<Rightarrow> char" where
  "arg_char p = (if \<not> snd p \<and> fst p = CHR ''+'' then CHR '' '' else fst p)"

abbreviation pieces_text :: "(char \<times> bool) list \<Rightarrow> string" where
  "pieces_text ps \<equiv> concat (map piece_text ps)"

type_synonym query_arg = "(char \<times> bool) list \<times> (char \<times> bool) list option"

definition arg_text :: "query_arg \<Rightarrow> string" where
  "arg_text a = pieces_text (fst a) @ (case snd a of None \<Rightarrow> [] | Some v \<Rightarrow> CHR ''='' # pieces_text v)"

definition arg_ok :: "query_arg \<Rightarrow> bool" where
  "arg_ok a = (fst a \<noteq> [] \<and> list_all arg_piece_ok (fst a) \<and> (case snd a of None \<Rightarrow> True | Some v \<Rightarrow> list_all arg_piece_ok v))"

definition arg_value :: "query_arg \<Rightarrow> string \<times> string option" where
  "arg_value a = (map arg_char (fst a), map_option (map arg_char) (snd a))"

fun query_text :: "query_arg list \<Rightarrow> string" where
  "query_text [] = []"
| "query_text [a] = arg_text a"
| "query_text (a # b # r) = arg_text a @ CHR ''&'' # query_text (b # r)"

definition collect :: "string \<Rightarrow> string option \<Rightarrow> (string \<times> string option) list \<Rightarrow> bool \<times> (string \<times> string option) list" where
  "collect k v s = (True, s @ [(k, v)])"

lemma hex_digit_safe: "d < 16 \<Longrightarrow> hex_digit d \<notin> {CHR ''+'', CHR ''&'', CHR ''='', CHR ''%'', NUL}"
proof -
  assume d: "d < 16"
  have code: "of_char (hex_digit d) = (if d < 10 then 48 + d else 87 + d)"
    using d by (simp add: hex_digit_def)
  show ?thesis
  proof
    assume "hex_digit d \<in> {CHR ''+'', CHR ''&'', CHR ''='', CHR ''%'', NUL}"
    then have "(of_char (hex_digit d) :: nat) \<in> {43, 38, 61, 37, 0}" by auto
    then show False using code d by (auto split: if_splits)
  qed
qed

lemma piece_text_safe:
  assumes "arg_piece_ok p"
  shows "CHR ''&'' \<notin> set (piece_text p)" "CHR ''='' \<notin> set (piece_text p)" "piece_text p \<noteq> []"
  using assms hex_digit_safe [of "of_char (fst p) div 16"] hex_digit_safe [of "of_char (fst p) mod 16"]
    of_char_div_mod [of "fst p"]
  by (auto simp: arg_piece_ok_def piece_text_def escape_char_def Let_def)

lemma pieces_text_safe:
  assumes "list_all arg_piece_ok ps"
  shows "CHR ''&'' \<notin> set (pieces_text ps)" "CHR ''='' \<notin> set (pieces_text ps)"
  using assms piece_text_safe by (auto simp: list_all_iff)

text \<open>A blank written as \<open>+\<close> is the same piece as a blank.\<close>

lemma unescape_plus_piece:
  "map (\<lambda>c. if c = CHR ''+'' then CHR '' '' else c) (piece_text p) = piece_text (arg_char p, snd p)"
proof (cases "snd p")
  case True
  have "hex_digit (of_char (fst p) div 16) \<noteq> CHR ''+''" "hex_digit (of_char (fst p) mod 16) \<noteq> CHR ''+''"
    using hex_digit_safe of_char_div_mod [of "fst p"] by blast+
  then show ?thesis using True by (simp add: piece_text_def escape_char_def Let_def arg_char_def)
qed (simp add: piece_text_def arg_char_def)

lemma unescape_arg_pieces: "list_all arg_piece_ok ps \<Longrightarrow> unescape_arg (pieces_text ps) = map arg_char ps"
proof -
  assume ok: "list_all arg_piece_ok ps"
  have "MHD_unescape_plus (pieces_text ps) = pieces_text (map (\<lambda>p. (arg_char p, snd p)) ps)"
    by (simp add: unescape_plus map_concat o_def unescape_plus_piece)
  moreover have "list_all piece_ok (map (\<lambda>p. (arg_char p, snd p)) ps)"
    using ok by (induction ps) (auto simp: piece_ok_def arg_piece_ok_def arg_char_def)
  ultimately have "MHD_http_unescape (MHD_unescape_plus (pieces_text ps)) = map arg_char ps"
    using unescape_pieces [of "map (\<lambda>p. (arg_char p, snd p)) ps"] by (simp add: o_def)
  moreover have "NUL \<notin> set (map arg_char ps)"
    using ok by (induction ps) (auto simp: arg_piece_ok_def arg_char_def)
  ultimately show ?thesis by (simp add: unescape_arg_def cstring_id)
qed

lemma arg_text_safe: "arg_ok a \<Longrightarrow> CHR ''&'' \<notin> set (arg_text a) \<and> arg_text a \<noteq> []"
  using piece_text_safe
  by (cases "fst a") (auto simp: arg_ok_def arg_text_def list_all_iff split: option.splits)

text \<open>One step of the loop, for the last argument and for one that is followed by others.\<close>

lemma parse_last:
  assumes "arg_ok a"
  shows "parse_arguments_loop collect (arg_text a) num s = (True, num + 1, s @ [arg_value a])"
  using assms arg_text_safe [OF assms] pieces_text_safe
  by (subst parse_arguments_loop.simps)
    (auto simp: arg_ok_def arg_text_def arg_value_def collect_def strchr_None [THEN iffD2] strchr_append
       unescape_arg_pieces split: option.splits)

lemma parse_more:
  assumes "arg_ok a"
  shows "parse_arguments_loop collect (arg_text a @ CHR ''&'' # r) num s
    = parse_arguments_loop collect r (num + 1) (s @ [arg_value a])"
proof (cases "snd a")
  case None
  then have t: "arg_text a = pieces_text (fst a)" "list_all arg_piece_ok (fst a)"
    using assms by (auto simp: arg_text_def arg_ok_def)
  have eq: "e > length (arg_text a)" if "strchr (arg_text a @ CHR ''&'' # r) (CHR ''='') = Some e" for e
    using that t pieces_text_safe(2) [OF t(2)] by (auto simp: strchr_skip)
  show ?thesis using eq t(2) None arg_text_safe [OF assms]
    by (subst parse_arguments_loop.simps)
      (auto simp: strchr_append t(1) arg_value_def collect_def unescape_arg_pieces split: option.splits)
next
  case (Some v)
  then have t: "arg_text a = pieces_text (fst a) @ CHR ''='' # pieces_text v" "list_all arg_piece_ok (fst a)" "list_all arg_piece_ok v"
    using assms by (auto simp: arg_text_def arg_ok_def)
  have e: "strchr (arg_text a @ CHR ''&'' # r) (CHR ''='') = Some (length (pieces_text (fst a)))"
    using t pieces_text_safe(2) [OF t(2)] by (simp add: strchr_append)
  have a: "strchr (arg_text a @ CHR ''&'' # r) (CHR ''&'') = Some (length (arg_text a))"
    using arg_text_safe [OF assms] by (simp add: strchr_append)
  show ?thesis using t(2,3) Some
    by (subst parse_arguments_loop.simps)
      (simp add: e a, simp add: t(1) arg_value_def collect_def unescape_arg_pieces)
qed

lemma parse_query:
  "list_all arg_ok as \<Longrightarrow>
   parse_arguments_loop collect (query_text as) num s = (True, num + length as, s @ map arg_value as)"
proof (induction "as" arbitrary: num s rule: query_text.induct)
  case 1
  then show ?case by (subst parse_arguments_loop.simps) simp
next
  case (2 a)
  then show ?case by (simp add: parse_last)
next
  case (3 a b r)
  then show ?case by (simp add: parse_more)
qed

subsection \<open>Contract\<close>

text \<open>C30: the arguments of a query reach the daemon as they were meant: whatever characters the keys and the values
  have, escaped or not, a \<open>+\<close> for a blank, with a value, with an empty one or with none, \<open>MHD_parse_arguments_\<close>
  calls its callback once for each, in order, with the decoded texts, and counts them.
\<close>

theorem parse_arguments_roundtrip:
  assumes "list_all arg_ok as"
  shows "MHD_parse_arguments collect (query_text as) [] = (True, length as, map arg_value as)"
  using parse_query [OF assms] by (simp add: MHD_parse_arguments_def)

theorem parse_arguments_roundtrip_witness:
  "MHD_parse_arguments collect (query_text
     [([(CHR ''a'', False), (CHR ''&'', True)], Some [(CHR ''+'', False), (CHR ''='', True)]), ([(CHR ''b'', False)], None)]) []
   = (True, 2, [(''a&'', Some '' =''), (''b'', None)])"
  using parse_arguments_roundtrip [of "[([(CHR ''a'', False), (CHR ''&'', True)], Some [(CHR ''+'', False), (CHR ''='', True)]), ([(CHR ''b'', False)], None)]"]
  by (simp add: arg_ok_def arg_piece_ok_def arg_value_def arg_char_def)

text \<open>C31: the paths axel sends arrive as they are: the daemon's unescaping undoes the client's escaping, for every
  text without a percent sign that fits the client's buffer, and it never makes a text longer (it works in place).
\<close>

theorem client_path_reaches_daemon:
  assumes "CHR ''%'' \<notin> set s" "NUL \<notin> set s" "length (encode_spec s) < MAX_STRING"
  shows "MHD_http_unescape (http_encode s) = s \<and> length (MHD_http_unescape t) \<le> length t"
proof -
  have "MHD_http_unescape (concat (map piece_text (map encode_piece s))) = map fst (map encode_piece s)"
    by (rule unescape_pieces [OF encode_pieces_ok [OF assms(1,2)]])
  then have "MHD_http_unescape (http_encode s) = s"
    using assms(3) by (simp add: encode_exact encode_spec_pieces encode_piece_def o_def)
  then show ?thesis using unescape_loop_length [of t "[]"] by (simp add: MHD_http_unescape_def)
qed

theorem client_path_reaches_daemon_witness:
  "MHD_http_unescape (http_encode ''/my file'') = ''/my file'' \<and> length (MHD_http_unescape ''%41'') \<le> 3"
  using client_path_reaches_daemon [of "''/my file''" "''%41''"] by (simp add: encode_spec_def encode_char_def)

end
