(* ===== verification/MhdBody.thy ===== *)
theory MhdBody
  imports MhdUri
begin

text \<open>
  The body of a request, \<open>process_request_body\<close> of
  \<open>src/final/server/microhttpd/microhttpd/connection.c\<close>: the application's handler gets the bytes of an upload, with the
  chunked encoding removed.  The loop is proved to read what a sender writes, under any fragmentation.
\<close>

subsection \<open>The upload of a connection\<close>

text \<open>
  The fields of \<open>struct MHD_Connection\<close> that the upload uses.  The read buffer holds the bytes received and not
  yet consumed, its length is \<open>read_buffer_offset\<close>.  Sizes have 64 bits; \<open>MHD_SIZE_UNKNOWN\<close> is the largest.
\<close>

definition MHD_SIZE_UNKNOWN :: nat where
  "MHD_SIZE_UNKNOWN = 2 ^ 64 - 1"

record upload =
  read_buffer :: string
  have_chunked_upload :: bool
  remaining_upload_size :: nat
  current_chunk_size :: nat
  current_chunk_offset :: nat

text \<open>
  The application's handler gets its own state and the data; it answers whether to go on, how many of the bytes it
  leaves, and its new state.  A handler that leaves more than it got makes the library stop the process.
\<close>

type_synonym 's handler = "'s \<Rightarrow> string \<Rightarrow> bool \<times> nat \<times> 's"

datatype 's body_result =
  Body_again upload 's   \<comment> \<open>one more turn of the loop\<close>
| Body_done upload 's
| Body_close 's          \<comment> \<open>the connection is closed with an error\<close>
| Body_panic

definition is_eol :: "char \<Rightarrow> bool" where
  "is_eol c = (c = CHR 0x0D \<or> c = CHR 0x0A)"

text \<open>The search for the end of the line with a chunk's size gives up after six characters.\<close>

fun size_line :: "string \<Rightarrow> nat \<Rightarrow> nat" where
  "size_line [] i = i"
| "size_line (c # cs) i = (if is_eol c then i else if i + 1 \<ge> 6 then i + 1 else size_line cs (i + 1))"

text \<open>The end of a chunk: its line feed is skipped; \<open>None\<close> is a malformed encoding.\<close>

definition skip_chunk_end :: "upload \<Rightarrow> upload option" where
  "skip_chunk_end u =
     (let buf = read_buffer u in
      if current_chunk_offset u = current_chunk_size u \<and> current_chunk_offset u \<noteq> 0 \<and> length buf \<ge> 2 then
        let i = (if is_eol (buf ! 0) then 1 else 0); j = (if is_eol (buf ! i) then i + 1 else i)
        in if j = 0 then None
           else Some (u\<lparr>read_buffer := drop j buf, current_chunk_offset := 0, current_chunk_size := 0\<rparr>)
      else Some u)"

definition take_chunk_size :: "upload \<Rightarrow> 's \<Rightarrow> 's body_result" where
  "take_chunk_size u s =
     (let buf = read_buffer u; i = size_line buf 0 in
      if i + 1 \<ge> length buf \<and> \<not> (i = 1 \<and> length buf = 2 \<and> buf ! 0 = CHR ''0'') then Body_done u s
      else if i \<ge> 6 then Body_close s
      else
        let num = MHD_strx_to_sizet_n buf i;
            num_dig = (case num of None \<Rightarrow> 0 | Some (n, v) \<Rightarrow> n);
            chunk = (case num of None \<Rightarrow> current_chunk_size u | Some (n, v) \<Rightarrow> v)
        in if i \<noteq> num_dig then Body_close s
           else
             let j = (if i + 1 < length buf \<and> is_eol (buf ! (i + 1)) then i + 2 else i + 1);
                 u1 = u\<lparr>read_buffer := drop j buf, current_chunk_offset := 0, current_chunk_size := chunk\<rparr>
             in if chunk = 0 then Body_done (u1\<lparr>remaining_upload_size := 0\<rparr>) s
                else if read_buffer u1 \<noteq> [] then Body_again u1 s
                else Body_done u1 s)"

text \<open>The call of the handler with the first \<open>processed\<close> bytes, and what it did not take.\<close>

definition give_to_handler :: "'s handler \<Rightarrow> nat \<Rightarrow> bool \<Rightarrow> upload \<Rightarrow> 's \<Rightarrow> 's body_result" where
  "give_to_handler h processed retry u s =
     (case h s (take processed (read_buffer u)) of (ok, left, s1) \<Rightarrow>
        if \<not> ok then Body_close s1
        else if left > processed then Body_panic
        else
          let used = processed - left;
              u1 = u\<lparr>current_chunk_offset := (if have_chunked_upload u then current_chunk_offset u + used else current_chunk_offset u),
                     read_buffer := drop used (read_buffer u),
                     remaining_upload_size :=
                       (if remaining_upload_size u \<noteq> MHD_SIZE_UNKNOWN
                        then (remaining_upload_size u + 2 ^ 64 - used) mod 2 ^ 64
                        else remaining_upload_size u)\<rparr>
          in if retry \<and> left = 0 then Body_again u1 s1 else Body_done u1 s1)"

text \<open>One turn of the loop of \<open>process_request_body\<close>.\<close>

definition body_step :: "'s handler \<Rightarrow> upload \<Rightarrow> 's \<Rightarrow> 's body_result" where
  "body_step h u s =
     (if have_chunked_upload u \<and> remaining_upload_size u = MHD_SIZE_UNKNOWN then
        (case skip_chunk_end u of None \<Rightarrow> Body_close s
         | Some u1 \<Rightarrow>
             if current_chunk_offset u1 < current_chunk_size u1 then
               let available = length (read_buffer u1);
                   processed = min (current_chunk_size u1 - current_chunk_offset u1) available
               in give_to_handler h processed (available > processed) u1 s
             else take_chunk_size u1 s)
      else
        let available = length (read_buffer u);
            processed = (if remaining_upload_size u \<noteq> 0 \<and> remaining_upload_size u \<noteq> MHD_SIZE_UNKNOWN \<and>
                            remaining_upload_size u < available
                         then remaining_upload_size u else available)
        in give_to_handler h processed False u s)"

lemma skip_chunk_end_length: "skip_chunk_end u = Some u1 \<Longrightarrow> length (read_buffer u1) \<le> length (read_buffer u)"
  by (auto simp: skip_chunk_end_def Let_def split: if_splits)

lemma give_again: "give_to_handler h processed retry u s = Body_again u1 s1 \<Longrightarrow> retry \<and> read_buffer u1 = drop processed (read_buffer u)"
  by (auto simp: give_to_handler_def Let_def split: prod.splits if_splits)

lemma body_step_shorter:
  assumes "body_step h u s = Body_again u1 s1"
  shows "length (read_buffer u1) < length (read_buffer u)"
proof (cases "have_chunked_upload u \<and> remaining_upload_size u = MHD_SIZE_UNKNOWN")
  case True
  then obtain u2 where u2: "skip_chunk_end u = Some u2" using assms by (auto simp: body_step_def split: option.splits)
  have len: "length (read_buffer u2) \<le> length (read_buffer u)" by (rule skip_chunk_end_length [OF u2])
  show ?thesis
  proof (cases "current_chunk_offset u2 < current_chunk_size u2")
    case inside: True
    let ?n = "min (current_chunk_size u2 - current_chunk_offset u2) (length (read_buffer u2))"
    have "give_to_handler h ?n (length (read_buffer u2) > ?n) u2 s = Body_again u1 s1"
      using assms True u2 inside by (simp add: body_step_def Let_def)
    from give_again [OF this] show ?thesis using len inside by auto
  next
    case False
    then have "take_chunk_size u2 s = Body_again u1 s1" using assms True u2 by (simp add: body_step_def)
    then have "length (read_buffer u1) < length (read_buffer u2)"
      by (auto simp: take_chunk_size_def Let_def split: if_splits option.splits)
    then show ?thesis using len by simp
  qed
next
  case False
  then show ?thesis using assms by (auto simp: body_step_def Let_def dest!: give_again)
qed

function body_loop :: "'s handler \<Rightarrow> upload \<Rightarrow> 's \<Rightarrow> 's body_result" where
  "body_loop h u s = (case body_step h u s of Body_again u1 s1 \<Rightarrow> body_loop h u1 s1 | r \<Rightarrow> r)"
  by pat_completeness auto
termination
  by (relation "measure (\<lambda>(h, u, s). length (read_buffer u))") (auto dest: body_step_shorter)

declare body_loop.simps [simp del]

text \<open>With a response already queued (\<open>responded\<close>) the function returns at once.\<close>

definition process_request_body :: "bool \<Rightarrow> 's handler \<Rightarrow> upload \<Rightarrow> 's \<Rightarrow> 's body_result" where
  "process_request_body responded h u s = (if responded then Body_done u s else body_loop h u s)"

text \<open>
  The state \<open>CONTINUE_SENT\<close> of \<open>MHD_connection_handle_idle\<close>, entered while the size of the upload is not 0: new bytes
  arrive at the end of the buffer; the body is processed when there are any; then the connection stays there until
  \<open>remaining_upload_size\<close> is 0, and leaves the rest of the bytes to the next state.  An open connection is meant
  (\<open>read_closed\<close> not set), and a handler that queues no response before its final call.
\<close>

definition body_arrives :: "'s handler \<Rightarrow> string \<Rightarrow> upload \<times> 's \<Rightarrow> (upload \<times> 's) option" where
  "body_arrives h bytes us =
     (case us of (u, s) \<Rightarrow>
        let u1 = u\<lparr>read_buffer := read_buffer u @ bytes\<rparr> in
        if remaining_upload_size u = 0 \<or> read_buffer u1 = [] then Some (u1, s)
        else case process_request_body False h u1 s of Body_done u2 s2 \<Rightarrow> Some (u2, s2) | _ \<Rightarrow> None)"

fun body_received :: "'s handler \<Rightarrow> string list \<Rightarrow> upload \<times> 's \<Rightarrow> (upload \<times> 's) option" where
  "body_received h [] us = Some us"
| "body_received h (bytes # later) us = Option.bind (body_arrives h bytes us) (body_received h later)"

subsection \<open>The chunked encoding\<close>

text \<open>Sizes as a sender writes them: hexadecimal digits, without leading zeros.\<close>

function hex_text :: "nat \<Rightarrow> string" where
  "hex_text n = (if n < 16 then [hex_digit n] else hex_text (n div 16) @ [hex_digit (n mod 16)])"
  by pat_completeness auto
termination by (relation "measure id") auto

declare hex_text.simps [simp del]

abbreviation CRLF :: string where "CRLF \<equiv> [CHR 0x0D, CHR 0x0A]"

definition chunk_text :: "string \<Rightarrow> string" where
  "chunk_text d = hex_text (length d) @ CRLF @ d @ CRLF"

definition chunked_text :: "string list \<Rightarrow> string" where
  "chunked_text ds = concat (map chunk_text ds) @ ''0'' @ CRLF"

definition chunk_ok :: "string \<Rightarrow> bool" where
  "chunk_ok d = (d \<noteq> [] \<and> length d < 16 ^ 5)"

text \<open>A handler that takes all it is given.\<close>

definition keep_all :: "string handler" where
  "keep_all s d = (True, 0, s @ d)"

lemma hex_text_value: "foldl (\<lambda>a c. 16 * a + the (digit_val c)) 0 (hex_text n) = n"
proof (induction n rule: hex_text.induct)
  case (1 n)
  show ?case
  proof (cases "n < 16")
    case True
    then show ?thesis by (subst hex_text.simps) simp
  next
    case False
    then show ?thesis using 1 by (subst hex_text.simps) simp
  qed
qed

lemma hex_text_digits: "list_all (is_digit_in 16) (hex_text n)"
proof (induction n rule: hex_text.induct)
  case (1 n)
  then show ?case by (subst hex_text.simps) (auto simp: hex_digit_in)
qed

lemma hex_text_length: "n < 16 ^ k \<Longrightarrow> 0 < k \<Longrightarrow> length (hex_text n) \<le> k"
proof (induction n arbitrary: k rule: hex_text.induct)
  case (1 n)
  show ?case
  proof (cases "n < 16")
    case True
    then show ?thesis using "1.prems" by (subst hex_text.simps) simp
  next
    case False
    then obtain j where k: "k = Suc j" "0 < j" using "1.prems" by (cases k; cases "k - 1") auto
    then have "n div 16 < 16 ^ j" using "1.prems" by (simp add: div_less_iff_less_mult mult.commute)
    then show ?thesis using "1.IH" [OF False _ k(2)] k False by (subst hex_text.simps) simp
  qed
qed

lemma hex_text_nonempty: "hex_text n \<noteq> []"
  by (subst hex_text.simps) simp

lemma hex_digit_zero: "d < 16 \<Longrightarrow> hex_digit d = CHR ''0'' \<longleftrightarrow> d = 0"
proof -
  assume d: "d < 16"
  have "of_char (hex_digit d) = (if d < 10 then 48 + d else 87 + d)" using d by (simp add: hex_digit_def)
  moreover have "hex_digit d = CHR ''0'' \<longleftrightarrow> (of_char (hex_digit d) :: nat) = of_char (CHR ''0'')"
    by (simp only: of_char_eq_iff)
  ultimately show ?thesis using d by (auto split: if_splits)
qed

lemma hex_text_head: "0 < n \<Longrightarrow> hd (hex_text n) \<noteq> CHR ''0''"
proof (induction n rule: hex_text.induct)
  case (1 n)
  show ?case
  proof (cases "n < 16")
    case True
    then show ?thesis using "1.prems" by (subst hex_text.simps) (simp add: hex_digit_zero)
  next
    case False
    then have "hd (hex_text (n div 16)) \<noteq> CHR ''0''" using "1.IH" by simp
    then show ?thesis using False by (subst hex_text.simps) (simp add: hex_text_nonempty)
  qed
qed

lemma digit_not_eol: "is_digit_in 16 c \<Longrightarrow> \<not> is_eol c"
  by (auto simp: is_eol_def is_digit_in_def digit_val_def)

lemma size_line_skip:
  "list_all (\<lambda>c. \<not> is_eol c) s \<Longrightarrow> i + length s < 6 \<Longrightarrow> size_line (s @ t) i = size_line t (i + length s)"
  by (induction s arbitrary: i) auto

lemma size_line_hex:
  assumes "list_all (is_digit_in 16) s" "length s < 6"
  shows "size_line (s @ CHR 0x0D # t) 0 = length s" "size_line s 0 = length s"
proof -
  have "list_all (\<lambda>c. \<not> is_eol c) s" using assms(1) digit_not_eol by (auto simp: list_all_iff)
  then show "size_line (s @ CHR 0x0D # t) 0 = length s" "size_line s 0 = length s"
    using size_line_skip [of s 0 "CHR 0x0D # t"] size_line_skip [of s 0 "[]"] assms(2) by (simp_all add: is_eol_def)
qed

lemma chunk_size_number:
  assumes "n < 2 ^ 64" shows "MHD_strx_to_sizet_n (hex_text n @ t) (length (hex_text n)) = Some (length (hex_text n), n)"
proof -
  have tw: "takeWhile (is_digit_in 16) (hex_text n) = hex_text n"
    using hex_text_digits [of n] by (simp add: list_all_iff)
  have "number_spec 16 (2 ^ 64) (hex_text n) = Some (length (hex_text n), n)"
    unfolding number_spec_def tw Let_def digits_value_def hex_text_value using assms by (simp add: hex_text_nonempty)
  then show ?thesis unfolding MHD_strx_to_sizet_n_def by (subst hex_loop [of UINT64_MAX "2 ^ 64"]) simp_all
qed

text \<open>What is left of the stream in the state of an upload, with the data in it; \<open>tail\<close> follows the encoding.\<close>

definition stream_left :: "upload \<Rightarrow> string \<Rightarrow> string \<Rightarrow> string \<Rightarrow> bool" where
  "stream_left u w d tail = (have_chunked_upload u \<and> remaining_upload_size u = MHD_SIZE_UNKNOWN \<and>
     (\<exists>ds. list_all chunk_ok ds \<and>
        (current_chunk_offset u = 0 \<and> current_chunk_size u = 0 \<and> w = chunked_text ds @ tail \<and> d = concat ds
       \<or> current_chunk_offset u = current_chunk_size u \<and> current_chunk_size u \<noteq> 0 \<and>
           w = CRLF @ chunked_text ds @ tail \<and> d = concat ds
       \<or> (\<exists>e. e \<noteq> [] \<and> current_chunk_size u = current_chunk_offset u + length e \<and>
           w = e @ CRLF @ chunked_text ds @ tail \<and> d = e @ concat ds))))"

definition all_read :: "upload \<Rightarrow> string \<Rightarrow> string \<Rightarrow> bool" where
  "all_read u w tail = (remaining_upload_size u = 0 \<and> (w = tail \<or> w = CHR 0x0A # tail))"

subsection \<open>One turn of the loop\<close>

definition turn_good :: "string \<Rightarrow> string \<Rightarrow> string \<Rightarrow> string body_result \<Rightarrow> bool" where
  "turn_good whole fut tail r =
     (case r of
        Body_again u s \<Rightarrow> (\<exists>d. stream_left u (read_buffer u @ fut) d tail \<and> s @ d = whole)
      | Body_done u s \<Rightarrow> (\<exists>d. stream_left u (read_buffer u @ fut) d tail \<and> s @ d = whole) \<and> fut \<noteq> []
          \<or> all_read u (read_buffer u @ fut) tail \<and> s = whole
      | _ \<Rightarrow> False)"

lemma stream_left_cases:
  assumes "stream_left u w d tail"
  obtains (at_size) ds where "list_all chunk_ok ds" "current_chunk_offset u = 0" "current_chunk_size u = 0"
      "w = chunked_text ds @ tail" "d = concat ds"
  | (at_end) ds where "list_all chunk_ok ds" "current_chunk_offset u = current_chunk_size u" "current_chunk_size u \<noteq> 0"
      "w = CRLF @ chunked_text ds @ tail" "d = concat ds"
  | (inside) ds e where "list_all chunk_ok ds" "e \<noteq> []" "current_chunk_size u = current_chunk_offset u + length e"
      "w = e @ CRLF @ chunked_text ds @ tail" "d = e @ concat ds"
  using assms unfolding stream_left_def by blast

lemma stream_leftI:
  assumes "have_chunked_upload u" "remaining_upload_size u = MHD_SIZE_UNKNOWN" "list_all chunk_ok ds"
  shows "current_chunk_offset u = 0 \<Longrightarrow> current_chunk_size u = 0 \<Longrightarrow> w = chunked_text ds @ tail \<Longrightarrow> d = concat ds \<Longrightarrow>
      stream_left u w d tail"
    and "current_chunk_offset u = current_chunk_size u \<Longrightarrow> current_chunk_size u \<noteq> 0 \<Longrightarrow>
      w = CRLF @ chunked_text ds @ tail \<Longrightarrow> d = concat ds \<Longrightarrow> stream_left u w d tail"
    and "current_chunk_size u = current_chunk_offset u + length e \<Longrightarrow> e \<noteq> [] \<Longrightarrow>
      w = e @ CRLF @ chunked_text ds @ tail \<Longrightarrow> d = e @ concat ds \<Longrightarrow> stream_left u w d tail"
  using assms unfolding stream_left_def by blast+

lemma stream_left_mode: "stream_left u w d tail \<Longrightarrow> have_chunked_upload u \<and> remaining_upload_size u = MHD_SIZE_UNKNOWN"
  by (simp add: stream_left_def)

text \<open>The end of a chunk is skipped when both its characters are there.\<close>

lemma skip_left:
  assumes "stream_left u (read_buffer u @ fut) d tail"
  shows "\<exists>u1. skip_chunk_end u = Some u1 \<and> stream_left u1 (read_buffer u1 @ fut) d tail \<and>
    (current_chunk_offset u1 = current_chunk_size u1 \<and> current_chunk_size u1 \<noteq> 0 \<longrightarrow> length (read_buffer u1) < 2)"
  using assms
proof (cases rule: stream_left_cases)
  case (at_end ds)
  show ?thesis
  proof (cases "length (read_buffer u) \<ge> 2")
    case True
    then obtain b where b: "read_buffer u = CHR 0x0D # CHR 0x0A # b"
      using at_end(4) by (cases "read_buffer u"; cases "tl (read_buffer u)") auto
    let ?u = "u\<lparr>read_buffer := b, current_chunk_offset := 0, current_chunk_size := 0\<rparr>"
    have "skip_chunk_end u = Some ?u" using at_end(2,3) by (simp add: skip_chunk_end_def b is_eol_def)
    moreover have "stream_left ?u (b @ fut) d tail"
      using stream_left_mode [OF assms] at_end b by (intro stream_leftI(1) [of _ ds]) auto
    ultimately show ?thesis by auto
  next
    case False
    then show ?thesis using assms by (simp add: skip_chunk_end_def Let_def)
  qed
qed (use assms in \<open>simp_all add: skip_chunk_end_def Let_def\<close>)

text \<open>Inside a chunk the handler gets what is there, without crossing the end of the chunk.\<close>

lemma give_left:
  assumes left: "stream_left u (read_buffer u @ fut) d tail" and whole: "s @ d = whole"
    and "in": "current_chunk_offset u < current_chunk_size u"
    and n: "n = min (current_chunk_size u - current_chunk_offset u) (length (read_buffer u))"
  shows "turn_good whole fut tail (give_to_handler keep_all n (length (read_buffer u) > n) u s)"
  using left
proof (cases rule: stream_left_cases)
  case (inside ds e)
  note mode = stream_left_mode [OF left]
  let ?u = "u\<lparr>current_chunk_offset := current_chunk_offset u + n, read_buffer := drop n (read_buffer u)\<rparr>"
  have g: "give_to_handler keep_all n (length (read_buffer u) > n) u s =
      (if length (read_buffer u) > n then Body_again ?u (s @ take n (read_buffer u)) else Body_done ?u (s @ take n (read_buffer u)))"
    using mode by (simp add: give_to_handler_def keep_all_def Let_def)
  have n': "n = min (length e) (length (read_buffer u))" using n inside(3) by simp
  have te: "take n (read_buffer u) = take n e"
    using inside(4) n' by (metis append_eq_append_conv_if append_take_drop_id length_take min.idem min.left_commute take_append take_take)
  have w: "drop n (read_buffer u) @ fut = drop n e @ CRLF @ chunked_text ds @ tail"
  proof -
    have le: "n \<le> length e" "n \<le> length (read_buffer u)" using n' by simp_all
    have "drop n (read_buffer u) @ fut = drop n (read_buffer u @ fut)" using le by simp
    also have "\<dots> = drop n (e @ CRLF @ chunked_text ds @ tail)" by (simp only: inside(4))
    finally show ?thesis using le by simp
  qed
  have left1: "stream_left ?u (drop n (read_buffer u) @ fut) (drop n e @ concat ds) tail"
  proof (cases "n = length e")
    case True
    then show ?thesis using mode inside w by (intro stream_leftI(2) [of _ ds]) auto
  next
    case False
    then have "n < length e" using n' by simp
    then show ?thesis using mode inside w by (intro stream_leftI(3) [of _ ds "drop n e"]) auto
  qed
  have tot: "(s @ take n (read_buffer u)) @ drop n e @ concat ds = whole"
    using whole inside(5) te by (metis append.assoc append_take_drop_id)
  show ?thesis
  proof (cases "length (read_buffer u) > n")
    case True
    then show ?thesis unfolding g using left1 tot by (auto simp: turn_good_def)
  next
    case False
    then have "length (read_buffer u) \<le> length e" using n' by auto
    then have "fut \<noteq> []" using inside(4) by (cases fut) auto
    then show ?thesis unfolding g using left1 tot False by (auto simp: turn_good_def)
  qed
qed (use "in" in auto)

text \<open>A line with a size is taken when its line feed is there; the last one already with its carriage return.\<close>

lemma last_size_left:
  assumes "have_chunked_upload u" "remaining_upload_size u = MHD_SIZE_UNKNOWN"
    and z: "current_chunk_offset u = 0" "current_chunk_size u = 0"
    and w: "read_buffer u @ fut = ''0'' @ CRLF @ tail"
  shows "turn_good s fut tail (take_chunk_size u s)"
proof -
  consider (short) "length (read_buffer u) < 2" | (two) "read_buffer u = [CHR ''0'', CHR 0x0D]" "fut = CHR 0x0A # tail"
    | (long) b where "read_buffer u = CHR ''0'' # CHR 0x0D # CHR 0x0A # b" "b @ fut = tail"
  proof (cases "length (read_buffer u) < 3")
    case True
    then show ?thesis using w that(1,2)
      by (cases "read_buffer u"; cases "tl (read_buffer u)"; cases "tl (tl (read_buffer u))") (auto simp: numeral_eq_Suc)
  next
    case False
    then show ?thesis using w that(3)
      by (cases "read_buffer u"; cases "tl (read_buffer u)"; cases "tl (tl (read_buffer u))") auto
  qed
  then show ?thesis
  proof cases
    case short
    then have "take_chunk_size u s = Body_done u s"
      by (cases "read_buffer u") (auto simp: take_chunk_size_def Let_def is_eol_def)
    moreover have "stream_left u (read_buffer u @ fut) [] tail"
      using assms by (intro stream_leftI(1) [of _ "[]"]) (auto simp: chunked_text_def)
    moreover have "fut \<noteq> []" using short w by (cases fut) auto
    ultimately show ?thesis by (auto simp: turn_good_def)
  next
    case two
    have "MHD_strx_to_sizet_n [CHR ''0'', CHR 0x0D] 1 = Some (1, 0)"
      by (simp add: MHD_strx_to_sizet_n_def stored_def toxdigitvalue_def isasciidigit_def)
    then show ?thesis using two z
      by (simp add: take_chunk_size_def Let_def is_eol_def turn_good_def all_read_def)
  next
    case (long b)
    have "MHD_strx_to_sizet_n (CHR ''0'' # CHR 0x0D # CHR 0x0A # b) 1 = Some (1, 0)"
      by (simp add: MHD_strx_to_sizet_n_def stored_def toxdigitvalue_def isasciidigit_def)
    then show ?thesis using long z
      by (simp add: take_chunk_size_def Let_def is_eol_def turn_good_def all_read_def)
  qed
qed

lemma size_left:
  assumes mode: "have_chunked_upload u" "remaining_upload_size u = MHD_SIZE_UNKNOWN"
    and z: "current_chunk_offset u = 0" "current_chunk_size u = 0"
    and c: "chunk_ok c" and ds: "list_all chunk_ok ds"
    and w: "read_buffer u @ fut = hex_text (length c) @ CRLF @ c @ CRLF @ chunked_text ds @ tail"
    and whole: "s @ c @ concat ds = whole"
  shows "turn_good whole fut tail (take_chunk_size u s)"
proof -
  let ?h = "hex_text (length c)"
  have c': "c \<noteq> []" "length c < 16 ^ 5" using c by (simp_all add: chunk_ok_def)
  have h: "length ?h < 6" "list_all (is_digit_in 16) ?h" using hex_text_length [OF c'(2)] hex_text_digits by simp_all
  show ?thesis
  proof (cases "length (read_buffer u) < length ?h + 2")
    case True
    have "take_chunk_size u s = Body_done u s"
    proof (cases "length (read_buffer u) \<le> length ?h")
      case short: True
      then have b: "read_buffer u = take (length (read_buffer u)) ?h"
        using w by (metis append_eq_append_conv_if append_take_drop_id)
      have "list_all (is_digit_in 16) (read_buffer u)" using h(2) b by (metis list_all_append append_take_drop_id)
      then have "size_line (read_buffer u) 0 = length (read_buffer u)" using size_line_hex(2) short h(1) by simp
      then show ?thesis by (simp add: take_chunk_size_def Let_def)
    next
      case False
      then have len: "length (read_buffer u) = length ?h + 1" using True by simp
      then have b: "read_buffer u = ?h @ [CHR 0x0D]" using arg_cong [OF w, of "take (length ?h + 1)"] by simp
      have "size_line (read_buffer u) 0 = length ?h" using size_line_hex(1) [OF h(2,1), of "[]"] by (simp add: b)
      moreover have "read_buffer u ! 0 \<noteq> CHR ''0''"
        using hex_text_head [of "length c"] c'(1) hex_text_nonempty [of "length c"] by (simp add: b hd_conv_nth nth_append)
      ultimately show ?thesis by (simp add: take_chunk_size_def Let_def b)
    qed
    moreover have "stream_left u (read_buffer u @ fut) (c @ concat ds) tail"
      using mode z c ds w by (intro stream_leftI(1) [of _ "c # ds"]) (auto simp: chunked_text_def chunk_text_def)
    moreover have "fut \<noteq> []" using True w by (cases fut) auto
    ultimately show ?thesis using whole by (auto simp: turn_good_def)
  next
    case False
    define b where "b = drop (length ?h + 2) (read_buffer u)"
    have tk: "take (length ?h + 2) (read_buffer u) = ?h @ CRLF"
      using False arg_cong [OF w, of "take (length ?h + 2)"] by simp
    have bd: "read_buffer u = take (length ?h + 2) (read_buffer u) @ b" unfolding b_def by (rule append_take_drop_id [symmetric])
    have b1: "read_buffer u = ?h @ CRLF @ b" using bd unfolding tk by simp
    have b: "read_buffer u = ?h @ CRLF @ b" "b @ fut = c @ CRLF @ chunked_text ds @ tail"
      using b1 w by simp_all
    have i: "size_line (?h @ CRLF @ b) 0 = length ?h" using size_line_hex(1) [OF h(2,1), of "CHR 0x0A # b"] by simp
    have "length c < 2 ^ 64" using c'(2) by simp
    from chunk_size_number [OF this, of "CRLF @ b"]
    have num: "MHD_strx_to_sizet_n (?h @ CRLF @ b) (length ?h) = Some (length ?h, length c)" .
    let ?u = "u\<lparr>read_buffer := b, current_chunk_offset := 0, current_chunk_size := length c\<rparr>"
    have t: "take_chunk_size u s = (if b \<noteq> [] then Body_again ?u s else Body_done ?u s)"
      using h(1) c'(1) unfolding take_chunk_size_def b(1) Let_def i num by (simp add: nth_append is_eol_def)
    have "stream_left ?u (b @ fut) (c @ concat ds) tail"
      using mode c'(1) ds b(2) by (intro stream_leftI(3) [of _ ds c]) auto
    moreover have "b = [] \<Longrightarrow> fut \<noteq> []" using b(2) c'(1) by auto
    ultimately show ?thesis using whole by (auto simp: t turn_good_def)
  qed
qed

text \<open>One turn keeps the stream, and the loop ends only when it needs later bytes or has seen the end.\<close>

lemma step_good:
  assumes left: "stream_left u (read_buffer u @ fut) d tail" and whole: "s @ d = whole"
  shows "turn_good whole fut tail (body_step keep_all u s)"
proof -
  obtain u1 where u1: "skip_chunk_end u = Some u1" and left1: "stream_left u1 (read_buffer u1 @ fut) d tail"
    and short: "current_chunk_offset u1 = current_chunk_size u1 \<and> current_chunk_size u1 \<noteq> 0 \<longrightarrow> length (read_buffer u1) < 2"
    using skip_left [OF left] by blast
  note mode = stream_left_mode [OF left] and mode1 = stream_left_mode [OF left1]
  show ?thesis
  proof (cases "current_chunk_offset u1 < current_chunk_size u1")
    case True
    then show ?thesis using give_left [OF left1 whole True refl] mode u1 by (simp add: body_step_def Let_def)
  next
    case False
    then have step: "body_step keep_all u s = take_chunk_size u1 s" using mode u1 by (simp add: body_step_def)
    from left1 show ?thesis
    proof (cases rule: stream_left_cases)
      case (at_size ds)
      show ?thesis
      proof (cases ds)
        case Nil
        then show ?thesis using last_size_left [of u1 fut tail s] mode1 at_size whole unfolding step by (simp add: chunked_text_def)
      next
        case (Cons c cs)
        then show ?thesis using size_left [of u1 c cs fut tail s whole] mode1 at_size whole
          unfolding step by (simp add: chunked_text_def chunk_text_def)
      qed
    next
      case (at_end ds)
      then have "length (read_buffer u1) < 2" using short by simp
      then have "read_buffer u1 = [] \<or> read_buffer u1 = [CHR 0x0D]" "fut \<noteq> []"
        using at_end(4) by (cases "read_buffer u1"; cases fut; auto)+
      then have "take_chunk_size u1 s = Body_done u1 s" by (auto simp: take_chunk_size_def Let_def is_eol_def)
      then show ?thesis using left1 whole \<open>fut \<noteq> []\<close> by (auto simp: step turn_good_def)
    next
      case (inside ds e)
      then show ?thesis using False by simp
    qed
  qed
qed

lemma loop_good:
  "stream_left u (read_buffer u @ fut) d tail \<Longrightarrow> s @ d = whole \<Longrightarrow>
   \<exists>u1 s1. body_loop keep_all u s = Body_done u1 s1 \<and> turn_good whole fut tail (Body_done u1 s1)"
proof (induction keep_all u s arbitrary: d rule: body_loop.induct)
  case (1 u s)
  have g: "turn_good whole fut tail (body_step keep_all u s)" by (rule step_good [OF "1.prems"])
  show ?case
  proof (cases "body_step keep_all u s")
    case (Body_again u1 s1)
    then obtain e where "stream_left u1 (read_buffer u1 @ fut) e tail" "s1 @ e = whole"
      using g by (auto simp: turn_good_def)
    then show ?thesis using "1.hyps" [OF Body_again] Body_again by (subst body_loop.simps) simp
  qed (use g in \<open>subst body_loop.simps, auto simp: turn_good_def\<close>)+
qed

lemma arrives_all_read:
  "all_read u (read_buffer u @ concat later) tail \<Longrightarrow>
   \<exists>u1. body_received keep_all later (u, s) = Some (u1, s) \<and> all_read u1 (read_buffer u1) tail"
proof (induction later arbitrary: u)
  case (Cons x xs)
  let ?u = "u\<lparr>read_buffer := read_buffer u @ x\<rparr>"
  have "body_arrives keep_all x (u, s) = Some (?u, s)"
    using Cons.prems by (simp add: body_arrives_def all_read_def Let_def)
  moreover have "all_read ?u (read_buffer ?u @ concat xs) tail" using Cons.prems by (simp add: all_read_def)
  ultimately show ?case using Cons.IH [of ?u] by simp
qed (simp add: all_read_def)

lemma arrives_good:
  "stream_left u (read_buffer u @ concat later) d tail \<Longrightarrow> s @ d = whole \<Longrightarrow> later \<noteq> [] \<Longrightarrow>
   \<exists>u1. body_received keep_all later (u, s) = Some (u1, whole) \<and> all_read u1 (read_buffer u1) tail"
proof (induction later arbitrary: u s d)
  case (Cons x xs)
  let ?u = "u\<lparr>read_buffer := read_buffer u @ x\<rparr>"
  have left: "stream_left ?u (read_buffer ?u @ concat xs) d tail" using Cons.prems(1) by (simp add: stream_left_def)
  have mode: "remaining_upload_size u = MHD_SIZE_UNKNOWN" "remaining_upload_size u \<noteq> 0"
    using stream_left_mode [OF Cons.prems(1)] by (simp_all add: MHD_SIZE_UNKNOWN_def)
  have ne: "xs = [] \<Longrightarrow> read_buffer ?u \<noteq> []"
  proof
    assume "xs = []" "read_buffer ?u = []"
    then have "stream_left ?u [] d tail" using left by simp
    then show False by (cases rule: stream_left_cases) (auto simp: chunked_text_def)
  qed
  show ?case
  proof (cases "read_buffer ?u = []")
    case True
    then have "body_arrives keep_all x (u, s) = Some (?u, s)" by (simp add: body_arrives_def Let_def)
    moreover have "xs \<noteq> []" using ne True by blast
    ultimately show ?thesis using Cons.IH [OF left Cons.prems(2)] by simp
  next
    case False
    obtain u1 s1 where l: "body_loop keep_all ?u s = Body_done u1 s1" and g: "turn_good whole (concat xs) tail (Body_done u1 s1)"
      using loop_good [OF left Cons.prems(2)] by blast
    have a: "body_arrives keep_all x (u, s) = Some (u1, s1)"
      using False mode l by (auto simp: body_arrives_def process_request_body_def Let_def)
    from g consider e where "stream_left u1 (read_buffer u1 @ concat xs) e tail" "s1 @ e = whole" "concat xs \<noteq> []"
      | "all_read u1 (read_buffer u1 @ concat xs) tail" "s1 = whole"
      by (auto simp: turn_good_def)
    then show ?thesis
    proof cases
      case 1
      then have "xs \<noteq> []" by auto
      then show ?thesis using Cons.IH [OF 1(1,2)] a by simp
    next
      case 2
      then show ?thesis using arrives_all_read [OF 2(1), of whole] a by auto
    qed
  qed
qed simp

text \<open>A body with a known length: the bytes up to it go to the handler, the rest stays in the buffer.\<close>

lemma give_all:
  "\<not> have_chunked_upload u \<Longrightarrow> remaining_upload_size u < MHD_SIZE_UNKNOWN \<Longrightarrow> 0 < remaining_upload_size u \<Longrightarrow>
   body_loop keep_all u s =
     (let n = min (remaining_upload_size u) (length (read_buffer u)) in
      Body_done (u\<lparr>read_buffer := drop n (read_buffer u), remaining_upload_size := remaining_upload_size u - n\<rparr>)
        (s @ take n (read_buffer u)))"
  by (subst body_loop.simps)
    (auto simp: body_step_def give_to_handler_def keep_all_def Let_def min_def MHD_SIZE_UNKNOWN_def mod_if)

lemma length_received:
  "\<not> have_chunked_upload u \<Longrightarrow> remaining_upload_size u < MHD_SIZE_UNKNOWN \<Longrightarrow>
   (remaining_upload_size u \<noteq> 0 \<Longrightarrow> read_buffer u = []) \<Longrightarrow>
   remaining_upload_size u \<le> length (concat frags) \<Longrightarrow>
   body_received keep_all frags (u, s) =
     Some (u\<lparr>remaining_upload_size := 0, read_buffer := read_buffer u @ drop (remaining_upload_size u) (concat frags)\<rparr>,
           s @ take (remaining_upload_size u) (concat frags))"
proof (induction frags arbitrary: u s)
  case (Cons x xs)
  let ?r = "remaining_upload_size u"
  show ?case
  proof (cases "?r = 0")
    case True
    have "body_arrives keep_all x (u, s) = Some (u\<lparr>read_buffer := read_buffer u @ x\<rparr>, s)"
      using True by (simp add: body_arrives_def Let_def)
    then show ?thesis using Cons.IH [of "u\<lparr>read_buffer := read_buffer u @ x\<rparr>" s] Cons.prems(1,2) True by simp
  next
    case False
    then have b: "read_buffer u = []" using Cons.prems(3) by blast
    show ?thesis
    proof (cases "x = []")
      case True
      then have "body_arrives keep_all x (u, s) = Some (u, s)" using b by (simp add: body_arrives_def Let_def)
      then show ?thesis using Cons.IH [of u s] Cons.prems True by simp
    next
      case ne: False
      let ?n = "min ?r (length x)"
      let ?u = "u\<lparr>read_buffer := drop ?n x, remaining_upload_size := ?r - ?n\<rparr>"
      have "body_loop keep_all (u\<lparr>read_buffer := x\<rparr>) s = Body_done ?u (s @ take ?n x)"
        using give_all [of "u\<lparr>read_buffer := x\<rparr>" s] Cons.prems(1,2) False by (simp add: Let_def)
      then have a: "body_arrives keep_all x (u, s) = Some (?u, s @ take ?n x)"
        using False ne b by (simp add: body_arrives_def process_request_body_def Let_def)
      have "?r - ?n \<le> length (concat xs)" using Cons.prems(4) by auto
      moreover have "remaining_upload_size ?u \<noteq> 0 \<Longrightarrow> read_buffer ?u = []" by auto
      ultimately have "body_received keep_all xs (?u, s @ take ?n x) =
          Some (?u\<lparr>remaining_upload_size := 0, read_buffer := drop ?n x @ drop (?r - ?n) (concat xs)\<rparr>,
                (s @ take ?n x) @ take (?r - ?n) (concat xs))"
        using Cons.IH [of ?u "s @ take ?n x"] Cons.prems(1,2) by simp
      then show ?thesis using a b by (auto simp: min_def)
    qed
  qed
qed (auto simp: fun_eq_iff)

lemma size_line_long:
  "list_all (\<lambda>c. \<not> is_eol c) s \<Longrightarrow> i < 6 \<Longrightarrow> 6 \<le> i + length s \<Longrightarrow> size_line (s @ t) i = 6"
proof (induction s arbitrary: i)
  case (Cons c s)
  then show ?case by (cases "i + 1 < 6") auto
qed simp

lemma hex_text_long: "16 ^ k \<le> n \<Longrightarrow> k < length (hex_text n)"
proof (induction n arbitrary: k rule: hex_text.induct)
  case (1 n)
  show ?case
  proof (cases "n < 16")
    case True
    have "k = 0"
    proof (rule ccontr)
      assume "k \<noteq> 0"
      then obtain j where "k = Suc j" by (cases k) auto
      then have "16 * 16 ^ j \<le> n" using "1.prems" by simp
      moreover have "16 * 1 \<le> 16 * (16 :: nat) ^ j" by (intro mult_le_mono2) simp
      ultimately show False using True by linarith
    qed
    then show ?thesis using hex_text_nonempty [of n] by simp
  next
    case False
    show ?thesis
    proof (cases k)
      case (Suc j)
      then have "16 ^ j \<le> n div 16" using "1.prems" by (simp add: less_eq_div_iff_mult_less_eq mult.commute)
      then show ?thesis using "1.IH" [OF False] Suc False by (subst hex_text.simps) simp
    qed (use hex_text_nonempty [of n] in simp)
  qed
qed

text \<open>Without a length every byte in the buffer goes to the handler, and the size that remains wraps around.\<close>

lemma no_length_wraps:
  assumes "\<not> have_chunked_upload u" "remaining_upload_size u = 0" "read_buffer u \<noteq> []" "length (read_buffer u) < 2 ^ 64"
  shows "body_loop keep_all u s = Body_done (u\<lparr>read_buffer := [], remaining_upload_size := 2 ^ 64 - length (read_buffer u)\<rparr>) (s @ read_buffer u)"
  using assms by (subst body_loop.simps) (simp add: body_step_def give_to_handler_def keep_all_def MHD_SIZE_UNKNOWN_def Let_def)

subsection \<open>Contract\<close>



text \<open>The limits of the chunked decoder: a chunk of 1 MiB or more is refused, as its size has more than five digits
  (the daemon's own encoder sends chunks up to 16 MiB), and a line without any digit is taken for the last chunk.
\<close>

lemma chunk_size_line_errors:
  assumes "have_chunked_upload u" "remaining_upload_size u = MHD_SIZE_UNKNOWN" "current_chunk_offset u = 0" "current_chunk_size u = 0"
    and "16 ^ 5 \<le> n"
  shows "body_loop h (u\<lparr>read_buffer := hex_text n @ CRLF @ r\<rparr>) s = Body_close s \<and>
    body_loop h (u\<lparr>read_buffer := CRLF @ r\<rparr>) s = Body_done (u\<lparr>read_buffer := r, remaining_upload_size := 0\<rparr>) s"
proof
  have "list_all (\<lambda>c. \<not> is_eol c) (hex_text n)" using hex_text_digits [of n] digit_not_eol by (auto simp: list_all_iff)
  then have l: "size_line (hex_text n @ CRLF @ r) 0 = 6" "6 \<le> length (hex_text n)"
    using size_line_long [of "hex_text n" 0] hex_text_long [OF assms(5)] by auto
  then show "body_loop h (u\<lparr>read_buffer := hex_text n @ CRLF @ r\<rparr>) s = Body_close s"
    using assms by (subst body_loop.simps)
      (simp add: body_step_def skip_chunk_end_def take_chunk_size_def Let_def)
  show "body_loop h (u\<lparr>read_buffer := CRLF @ r\<rparr>) s = Body_done (u\<lparr>read_buffer := r, remaining_upload_size := 0\<rparr>) s"
    using assms by (subst body_loop.simps)
      (simp add: body_step_def skip_chunk_end_def take_chunk_size_def Let_def is_eol_def MHD_strx_to_sizet_n_def stored_def)
qed

lemma chunk_size_line_errors_witness:
  "body_loop keep_all \<lparr>read_buffer = CRLF @ ''data'', have_chunked_upload = True, remaining_upload_size = MHD_SIZE_UNKNOWN,
       current_chunk_size = 0, current_chunk_offset = 0\<rparr> []
   = Body_done \<lparr>read_buffer = ''data'', have_chunked_upload = True, remaining_upload_size = 0,
       current_chunk_size = 0, current_chunk_offset = 0\<rparr> []"
  using chunk_size_line_errors [of "\<lparr>read_buffer = [], have_chunked_upload = True, remaining_upload_size = MHD_SIZE_UNKNOWN,
       current_chunk_size = 0, current_chunk_offset = 0\<rparr>" "16 ^ 5" keep_all "''data''" "[]"] by simp

end
