(* ===== verification/MhdPool.thy ===== *)
theory MhdPool
  imports "HOL-Library.Word"
begin

unbundle bit_operations_syntax

text \<open>
  The memory pool of a connection of the embedded HTTP daemon,
  \<open>src/final/server/microhttpd/microhttpd/memorypool.c\<close>: allocation from both ends, reallocation, reset.  The locale
  \<open>allocator\<close> states what the users of a pool rely on; it is interpreted on \<open>MHD_pool_allocate\<close>.
\<close>

subsection \<open>The pool\<close>

text \<open>
  A pointer into the pool is an offset into \<open>memory\<close>; \<open>None\<close> is a null pointer.  Sizes and offsets are \<open>size_t\<close>, 64
  bits wide, so additions wrap around as in the source.  How the memory was obtained (\<open>is_mmap\<close>, \<open>malloc\<close> or
  \<open>mmap\<close>) has no effect on its use; both deliver it with undefined or zero contents, an argument here.
\<close>

record pool =
  memory :: "8 word list"
  pool_size :: "64 word"
  pool_pos :: "64 word"
  pool_end :: "64 word"

definition ALIGN_SIZE :: "64 word" where
  "ALIGN_SIZE = 2 * 8"

definition ROUND_TO_ALIGN :: "64 word \<Rightarrow> 64 word" where
  "ROUND_TO_ALIGN n = (n + (ALIGN_SIZE - 1)) AND NOT (ALIGN_SIZE - 1)"

text \<open>\<open>mem\<close> is what the system's allocator returned for \<open>max_size\<close> bytes, \<open>None\<close> when it had none.\<close>

definition MHD_pool_create :: "8 word list option \<Rightarrow> 64 word \<Rightarrow> pool option" where
  "MHD_pool_create mem max_size =
     map_option (\<lambda>m. \<lparr>memory = m, pool_size = max_size, pool_pos = 0, pool_end = max_size\<rparr>) mem"

definition MHD_pool_get_free :: "pool \<Rightarrow> 64 word" where
  "MHD_pool_get_free p = pool_end p - pool_pos p"

definition MHD_pool_allocate :: "pool \<Rightarrow> 64 word \<Rightarrow> bool \<Rightarrow> 64 word option \<times> pool" where
  "MHD_pool_allocate p sz from_end =
     (let asize = ROUND_TO_ALIGN sz in
      if asize = 0 \<and> sz \<noteq> 0 then (None, p)
      else if pool_pos p + asize > pool_end p \<or> pool_pos p + asize < pool_pos p then (None, p)
      else if from_end then (Some (pool_end p - asize), p\<lparr>pool_end := pool_end p - asize\<rparr>)
      else (Some (pool_pos p), p\<lparr>pool_pos := pool_pos p + asize\<rparr>))"

text \<open>\<open>memset\<close> to zero and \<open>memmove\<close> on the memory of the pool.\<close>

definition zero_at :: "nat \<Rightarrow> nat \<Rightarrow> 8 word list \<Rightarrow> 8 word list" where
  "zero_at a n m = take a m @ replicate n 0 @ drop (a + n) m"

definition move_to :: "nat \<Rightarrow> nat \<Rightarrow> nat \<Rightarrow> 8 word list \<Rightarrow> 8 word list" where
  "move_to dst src n m = take dst m @ take n (drop src m) @ drop (dst + n) m"

definition MHD_pool_reallocate :: "pool \<Rightarrow> 64 word option \<Rightarrow> 64 word \<Rightarrow> 64 word \<Rightarrow> 64 word option \<times> pool" where
  "MHD_pool_reallocate p old old_size new_size =
     (let asize = ROUND_TO_ALIGN new_size in
      if asize = 0 \<and> new_size \<noteq> 0 then (None, p)
      else if pool_end p < old_size \<or> pool_end p < asize then (None, p)
      else if pool_pos p \<ge> old_size \<and> Some (pool_pos p - old_size) = old then
        (if pool_pos p + asize - old_size \<le> pool_end p then
           let p1 = p\<lparr>pool_pos := pool_pos p + (asize - old_size)\<rparr> in
           (old, if asize < old_size
                 then p1\<lparr>memory := zero_at (unat (pool_pos p1)) (unat (old_size - asize)) (memory p1)\<rparr>
                 else p1)
         else (None, p))
      else if asize \<le> old_size then (old, p)
      else if pool_pos p + asize \<ge> pool_pos p \<and> pool_pos p + asize \<le> pool_end p then
        (Some (pool_pos p),
         p\<lparr>pool_pos := pool_pos p + asize,
           memory := (case old of
             Some a \<Rightarrow> if old_size \<noteq> 0 then move_to (unat (pool_pos p)) (unat a) (unat old_size) (memory p) else memory p
           | None \<Rightarrow> memory p)\<rparr>)
      else (None, p))"

definition MHD_pool_reset :: "pool \<Rightarrow> 64 word option \<Rightarrow> 64 word \<Rightarrow> 64 word \<Rightarrow> 64 word option \<times> pool" where
  "MHD_pool_reset p keep copy_bytes new_size =
     (let m1 = (case keep of
                  Some a \<Rightarrow> if a \<noteq> 0 \<and> copy_bytes \<noteq> 0 then move_to 0 (unat a) (unat copy_bytes) (memory p) else memory p
                | None \<Rightarrow> memory p);
          m2 = (if pool_size p > copy_bytes
                then zero_at (unat copy_bytes) (unat (pool_size p - copy_bytes)) m1 else m1);
          p1 = p\<lparr>memory := m2, pool_end := pool_size p\<rparr>
      in (case keep of
            None \<Rightarrow> (None, p1)
          | Some _ \<Rightarrow> (Some 0, p1\<lparr>pool_pos := ROUND_TO_ALIGN new_size\<rparr>)))"

subsection \<open>Rounding\<close>

lemma align_value: "unat (ROUND_TO_ALIGN n) = (if unat n + 15 < 2 ^ 64 then (unat n + 15) div 16 * 16 else 0)"
proof -
  have b: "unat w < 2 ^ 64" for w :: "64 word" using unsigned_less [of w] by simp
  have m: "(15 :: 64 word) = mask 4" by (simp add: mask_eq_exp_minus_1)
  have and_not: "x AND NOT 15 = push_bit 4 (drop_bit 4 x)" for x :: "64 word"
    unfolding m by (rule bit_word_eqI) (auto simp: bit_simps dest: bit_imp_le_length)
  have r: "ROUND_TO_ALIGN n = push_bit 4 (drop_bit 4 (n + 15))"
    using and_not [of "n + 15"] by (simp add: ROUND_TO_ALIGN_def ALIGN_SIZE_def)
  have "unat (push_bit 4 (drop_bit 4 x)) = unat x div 16 * 16" for x :: "64 word"
    
  proof -
    have "unat (drop_bit 4 x) = unat x div 16" unfolding unat_drop_bit_eq by (simp add: drop_bit_eq_div)
    moreover have "unat x div 16 * 16 < 2 ^ 64"
      using b [of x] by (simp add: order_le_less_trans [OF div_times_less_eq_dividend])
    ultimately show ?thesis by (simp add: push_bit_eq_mult unat_word_ariths mult.commute)
  qed
  then have "unat (ROUND_TO_ALIGN n) = unat (n + 15) div 16 * 16" by (simp only: r)
  moreover have "unat (n + 15) = (if unat n + 15 < 2 ^ 64 then unat n + 15 else unat n + 15 - 2 ^ 64)"
    using b [of n] by (simp add: unat_word_ariths mod_if)
  ultimately show ?thesis using b [of n] by (auto simp: div_eq_0_iff)
qed

subsection \<open>The interface of an allocator\<close>

text \<open>Serving a sequence of requests: the blocks handed out, with their lengths, and the state that is left.\<close>

fun serve :: "('p \<Rightarrow> 'r \<Rightarrow> nat option \<times> 'p) \<Rightarrow> ('r \<Rightarrow> nat) \<Rightarrow> 'p \<Rightarrow> 'r list \<Rightarrow> (nat \<times> nat) list \<times> 'p" where
  "serve alloc len p [] = ([], p)"
| "serve alloc len p (r # rs) =
     (case alloc p r of (b, p1) \<Rightarrow>
      (case serve alloc len p1 rs of (bs, p2) \<Rightarrow>
       (case b of None \<Rightarrow> bs | Some a \<Rightarrow> (a, len r) # bs, p2)))"

definition block :: "nat \<times> nat \<Rightarrow> nat set" where
  "block b = {fst b ..< fst b + snd b}"

locale allocator =
  fixes alloc :: "'p \<Rightarrow> 'r \<Rightarrow> nat option \<times> 'p" and len :: "'r \<Rightarrow> nat"
    and avail :: "'p \<Rightarrow> nat set" and ok :: "'p \<Rightarrow> bool"
  assumes alloc_ok: "ok p \<Longrightarrow> ok (snd (alloc p r))"
    and alloc_refused: "alloc p r = (None, p1) \<Longrightarrow> p1 = p"
    and alloc_block: "ok p \<Longrightarrow> alloc p r = (Some a, p1) \<Longrightarrow> block (a, len r) \<subseteq> avail p"
    and alloc_taken: "ok p \<Longrightarrow> alloc p r = (Some a, p1) \<Longrightarrow> avail p1 \<subseteq> avail p - block (a, len r)"
begin

lemma avail_mono: "ok p \<Longrightarrow> avail (snd (alloc p r)) \<subseteq> avail p"
  using alloc_refused alloc_taken by (cases "alloc p r"; cases "fst (alloc p r)") fastforce+

lemma serve_ok: "ok p \<Longrightarrow> ok (snd (serve alloc len p rs))"
proof (induction rs arbitrary: p)
  case (Cons r rs)
  have "ok (snd (alloc p r))" by (rule alloc_ok [OF Cons.prems])
  then have "ok (snd (serve alloc len (snd (alloc p r)) rs))" by (rule Cons.IH)
  then show ?case by (auto split: prod.splits)
qed simp

lemma serve_avail: "ok p \<Longrightarrow> \<forall>b\<in>set (fst (serve alloc len p rs)). block b \<subseteq> avail p"
proof (induction rs arbitrary: p)
  case (Cons r rs)
  obtain b p1 where b: "alloc p r = (b, p1)" by fastforce
  have p1: "ok p1" "avail p1 \<subseteq> avail p" using alloc_ok [of p r] avail_mono [of p r] Cons.prems b by auto
  have "\<forall>c\<in>set (fst (serve alloc len p1 rs)). block c \<subseteq> avail p" using Cons.IH p1 by blast
  moreover have "block (a, len r) \<subseteq> avail p" if "b = Some a" for a using alloc_block Cons.prems b that by blast
  ultimately show ?case by (auto simp: b split: prod.split option.splits)
qed simp

lemma serve_separate: "ok p \<Longrightarrow> sorted_wrt (\<lambda>b c. block b \<inter> block c = {}) (fst (serve alloc len p rs))"
proof (induction rs arbitrary: p)
  case (Cons r rs)
  obtain b p1 where b: "alloc p r = (b, p1)" by fastforce
  have p1: "ok p1" using alloc_ok [of p r] Cons.prems b by auto
  have rest: "sorted_wrt (\<lambda>b c. block b \<inter> block c = {}) (fst (serve alloc len p1 rs))" by (rule Cons.IH [OF p1])
  have new: "\<forall>c\<in>set (fst (serve alloc len p1 rs)). block (a, len r) \<inter> block c = {}" if "b = Some a" for a
    using serve_avail [OF p1, of rs] alloc_taken [OF Cons.prems, of r a p1] that b by blast
  obtain bs p2 where s: "serve alloc len p1 rs = (bs, p2)" by fastforce
  show ?case using rest new by (cases b) (simp_all add: b s)
qed simp

end

subsection \<open>The pool as an allocator\<close>

text \<open>A pool in order; a C object has less than \<open>2 ^ 63\<close> bytes.\<close>

definition wf_pool :: "pool \<Rightarrow> bool" where
  "wf_pool p = (length (memory p) = unat (pool_size p) \<and> unat (pool_size p) < 2 ^ 63 \<and>
     pool_pos p \<le> pool_end p \<and> pool_end p \<le> pool_size p)"

definition pool_avail :: "pool \<Rightarrow> nat set" where
  "pool_avail p = {unat (pool_pos p) ..< unat (pool_end p)}"

definition pool_alloc :: "pool \<Rightarrow> 64 word \<times> bool \<Rightarrow> nat option \<times> pool" where
  "pool_alloc p r = (case MHD_pool_allocate p (fst r) (snd r) of (a, p1) \<Rightarrow> (map_option unat a, p1))"

definition request_len :: "64 word \<times> bool \<Rightarrow> nat" where
  "request_len r = unat (fst r)"

lemma align_ge: "ROUND_TO_ALIGN n \<noteq> 0 \<or> n = 0 \<Longrightarrow> unat n \<le> unat (ROUND_TO_ALIGN n)"
  by (auto simp: align_value unat_eq_0 [symmetric] split: if_splits)

lemma allocate_cases:
  assumes "wf_pool p"
  obtains (refused) "MHD_pool_allocate p n fe = (None, p)"
  | (atend) "fe" "unat n \<le> unat (ROUND_TO_ALIGN n)" "unat (pool_pos p) + unat (ROUND_TO_ALIGN n) \<le> unat (pool_end p)"
      "MHD_pool_allocate p n fe = (Some (pool_end p - ROUND_TO_ALIGN n), p\<lparr>pool_end := pool_end p - ROUND_TO_ALIGN n\<rparr>)"
      "unat (pool_end p - ROUND_TO_ALIGN n) = unat (pool_end p) - unat (ROUND_TO_ALIGN n)"
  | (front) "\<not> fe" "unat n \<le> unat (ROUND_TO_ALIGN n)" "unat (pool_pos p) + unat (ROUND_TO_ALIGN n) \<le> unat (pool_end p)"
      "MHD_pool_allocate p n fe = (Some (pool_pos p), p\<lparr>pool_pos := pool_pos p + ROUND_TO_ALIGN n\<rparr>)"
      "unat (pool_pos p + ROUND_TO_ALIGN n) = unat (pool_pos p) + unat (ROUND_TO_ALIGN n)"
proof (cases "ROUND_TO_ALIGN n = 0 \<and> n \<noteq> 0 \<or> pool_pos p + ROUND_TO_ALIGN n > pool_end p \<or> pool_pos p + ROUND_TO_ALIGN n < pool_pos p")
  case True
  then show ?thesis by (intro refused) (auto simp: MHD_pool_allocate_def Let_def)
next
  case False
  then have no: "pool_pos p \<le> pool_pos p + ROUND_TO_ALIGN n" and le: "pool_pos p + ROUND_TO_ALIGN n \<le> pool_end p"
    and n: "unat n \<le> unat (ROUND_TO_ALIGN n)" using align_ge by (auto simp: not_less)
  have s: "unat (pool_pos p + ROUND_TO_ALIGN n) = unat (pool_pos p) + unat (ROUND_TO_ALIGN n)"
    using no by (rule unat_plus_simple [THEN iffD1])
  have l: "unat (pool_pos p) + unat (ROUND_TO_ALIGN n) \<le> unat (pool_end p)" using le s by (simp add: word_le_nat_alt)
  show ?thesis
  proof (cases fe)
    case True
    have "unat (pool_end p - ROUND_TO_ALIGN n) = unat (pool_end p) - unat (ROUND_TO_ALIGN n)"
      using l by (intro unat_sub) (simp add: word_le_nat_alt)
    then show ?thesis using True False n l by (intro atend) (auto simp: MHD_pool_allocate_def Let_def)
  next
    case f: False
    show ?thesis using f False n l s by (intro front) (auto simp: MHD_pool_allocate_def Let_def)
  qed
qed

interpretation ma: allocator pool_alloc request_len pool_avail wf_pool
proof
  fix p :: pool and r p1
  show "wf_pool p \<Longrightarrow> wf_pool (snd (pool_alloc p r))"
    by (rule allocate_cases [of p "fst r" "snd r"]) (auto simp: pool_alloc_def wf_pool_def word_le_nat_alt)
  show "pool_alloc p r = (None, p1) \<Longrightarrow> p1 = p"
    by (auto simp: pool_alloc_def MHD_pool_allocate_def Let_def split: if_splits)
next
  fix p :: pool and r a p1
  assume ok: "wf_pool p" and al: "pool_alloc p r = (Some a, p1)"
  show "block (a, request_len r) \<subseteq> pool_avail p"
    using ok al by (auto elim!: allocate_cases [of p "fst r" "snd r"]
      simp: pool_alloc_def block_def request_len_def pool_avail_def)
  show "pool_avail p1 \<subseteq> pool_avail p - block (a, request_len r)"
    using ok al by (auto elim!: allocate_cases [of p "fst r" "snd r"]
      simp: pool_alloc_def block_def request_len_def pool_avail_def)
qed

subsection \<open>Moving and clearing\<close>

lemma zero_at_nth: "a + n \<le> length m \<Longrightarrow> i < length m \<Longrightarrow> zero_at a n m ! i = (if a \<le> i \<and> i < a + n then 0 else m ! i)"
  by (auto simp: zero_at_def nth_append)

lemma length_zero_at: "a + n \<le> length m \<Longrightarrow> length (zero_at a n m) = length m"
  by (simp add: zero_at_def)

lemma move_to_nth:
  "dst + n \<le> length m \<Longrightarrow> src + n \<le> length m \<Longrightarrow> i < length m \<Longrightarrow>
   move_to dst src n m ! i = (if dst \<le> i \<and> i < dst + n then m ! (src + (i - dst)) else m ! i)"
  by (auto simp: move_to_def nth_append)

lemma length_move_to: "dst + n \<le> length m \<Longrightarrow> src + n \<le> length m \<Longrightarrow> length (move_to dst src n m) = length m"
  by (simp add: move_to_def)

text \<open>A block in use lies in one of the two allocated parts.\<close>

definition in_use :: "pool \<Rightarrow> nat \<Rightarrow> nat \<Rightarrow> bool" where
  "in_use p a n = (a + n \<le> unat (pool_pos p) \<or> unat (pool_end p) \<le> a \<and> a + n \<le> unat (pool_size p))"

text \<open>
  What \<open>MHD_pool_reallocate\<close> may do to the memory: the new block lies in the old one and the free part, it begins
  with the old contents as far as they fit, and everything outside the old block and the free part is unchanged.
\<close>

definition realloc_good :: "pool \<Rightarrow> nat \<Rightarrow> nat \<Rightarrow> nat \<Rightarrow> pool \<Rightarrow> nat \<Rightarrow> bool" where
  "realloc_good p a m n p1 b =
     (wf_pool p1 \<and> block (b, n) \<subseteq> block (a, m) \<union> pool_avail p \<and>
      pool_avail p1 \<inter> block (b, n) = {} \<and> pool_avail p1 \<subseteq> pool_avail p \<union> block (a, m) \<and>
      (\<forall>i < min m n. memory p1 ! (b + i) = memory p ! (a + i)) \<and>
      (\<forall>i < length (memory p). i \<notin> block (a, m) \<union> pool_avail p \<longrightarrow> memory p1 ! i = memory p ! i))"

lemma reallocate_good:
  assumes wf: "wf_pool p" and use: "in_use p (unat a) (unat m)"
    and re: "MHD_pool_reallocate p (Some a) m n = (Some b, p1)"
  shows "realloc_good p (unat a) (unat m) (unat n) p1 (unat b)"
proof -
  let ?s = "ROUND_TO_ALIGN n"
  have s0: "\<not> (?s = 0 \<and> n \<noteq> 0)" and bogus: "m \<le> pool_end p" "?s \<le> pool_end p"
    using re by (auto simp: MHD_pool_reallocate_def Let_def split: if_splits)
  have n: "unat n \<le> unat ?s" using s0 align_ge by blast
  have bounds: "unat (pool_pos p) \<le> unat (pool_end p)" "unat (pool_end p) \<le> unat (pool_size p)" "unat (pool_size p) < 2 ^ 63"
    "length (memory p) = unat (pool_size p)" "unat ?s \<le> unat (pool_end p)" "unat m \<le> unat (pool_end p)"
    using wf bogus by (auto simp: wf_pool_def word_le_nat_alt)
  have plus: "unat (pool_pos p + ?s) = unat (pool_pos p) + unat ?s"
    using bounds by (simp add: unat_word_ariths)
  show ?thesis
  proof (cases "pool_pos p \<ge> m \<and> pool_pos p - m = a")
    case True
    then have a: "unat a + unat m = unat (pool_pos p)" by (auto simp: unat_sub word_le_nat_alt)
    have eq: "pool_pos p + ?s - m = a + ?s" "pool_pos p + (?s - m) = a + ?s" using True by (auto simp: algebra_simps)
    have au: "unat (a + ?s) = unat a + unat ?s" using a bounds by (simp add: unat_word_ariths)
    have c: "pool_pos p \<ge> m" "(Some (pool_pos p - m) = Some a) = True" "(pool_end p < m \<or> pool_end p < ?s) = False"
      "(?s = 0 \<and> n \<noteq> 0) = False" using True bogus s0 by (simp_all add: not_less)
    have r: "(if a + ?s \<le> pool_end p then let p1 = p\<lparr>pool_pos := a + ?s\<rparr> in
        (Some a, if ?s < m then p1\<lparr>memory := zero_at (unat (pool_pos p1)) (unat (m - ?s)) (memory p1)\<rparr> else p1)
        else (None, p)) = (Some b, p1)"
      using re unfolding MHD_pool_reallocate_def Let_def [of ?s] eq c(2-4) by (simp only: c(1) if_True if_False simp_thms)
    have fits: "a + ?s \<le> pool_end p" using r by (auto split: if_splits)
    have b: "b = a" and p1: "p1 = (if ?s < m
        then p\<lparr>pool_pos := a + ?s, memory := zero_at (unat (a + ?s)) (unat (m - ?s)) (memory p)\<rparr> else p\<lparr>pool_pos := a + ?s\<rparr>)"
      using r fits by (auto simp: Let_def)
    have f: "unat a + unat ?s \<le> unat (pool_end p)" using fits au by (simp add: word_le_nat_alt)
    show ?thesis
    proof (cases "?s < m")
      case True
      then have ms: "unat (m - ?s) = unat m - unat ?s" "unat ?s < unat m" by (auto simp: unat_sub word_less_nat_alt word_le_nat_alt)
      have z: "unat a + unat ?s + (unat m - unat ?s) \<le> length (memory p)" using a ms bounds by simp
      show ?thesis using True a ms n f bounds z
        by (auto simp: realloc_good_def b p1 au wf_pool_def word_le_nat_alt block_def pool_avail_def
            length_zero_at zero_at_nth)
    next
      case False
      then have "unat m \<le> unat ?s" by (simp add: not_less word_le_nat_alt)
      then show ?thesis using False a n f bounds
        by (auto simp: realloc_good_def b p1 au wf_pool_def word_le_nat_alt block_def pool_avail_def)
    qed
  next
    case False
    show ?thesis
    proof (cases "?s \<le> m")
      case True
      then have "b = a" "p1 = p" using re False s0 bogus by (auto simp: MHD_pool_reallocate_def Let_def split: if_splits)
      moreover have "unat n \<le> unat m" using True n by (simp add: word_le_nat_alt)
      ultimately show ?thesis using use wf bounds
        by (auto simp: realloc_good_def block_def pool_avail_def in_use_def)
    next
      case big: False
      then have mm: "unat m < unat ?s" by (simp add: not_le word_less_nat_alt)
      have fits: "pool_pos p + ?s \<le> pool_end p" and b: "b = pool_pos p" and p1: "p1 = p\<lparr>pool_pos := pool_pos p + ?s,
          memory := (if m \<noteq> 0 then move_to (unat (pool_pos p)) (unat a) (unat m) (memory p) else memory p)\<rparr>"
        using re False big s0 bogus by (auto simp: MHD_pool_reallocate_def Let_def split: if_splits)
      have f: "unat (pool_pos p) + unat ?s \<le> unat (pool_end p)" using fits plus by (simp add: word_le_nat_alt)
      have r: "unat a + unat m \<le> length (memory p)" "unat (pool_pos p) + unat m \<le> length (memory p)"
        using use f mm bounds by (auto simp: in_use_def)
      show ?thesis
      proof (cases "m = 0")
        case True
        then show ?thesis using f n bounds plus
          by (auto simp: realloc_good_def b p1 wf_pool_def word_le_nat_alt block_def pool_avail_def)
      next
        case False
        have "\<forall>i < min (unat m) (unat n). memory p1 ! (unat b + i) = memory p ! (unat a + i)"
          using False r f n bounds by (auto simp: b p1 move_to_nth)
        moreover have "\<forall>i < length (memory p). i \<notin> block (unat a, unat m) \<union> pool_avail p \<longrightarrow> memory p1 ! i = memory p ! i"
          using False r f mm bounds by (auto simp: p1 move_to_nth block_def pool_avail_def)
        moreover have "wf_pool p1" using False r f bounds plus
          by (auto simp: p1 wf_pool_def word_le_nat_alt length_move_to)
        ultimately show ?thesis using f n plus by (auto simp: realloc_good_def b p1 block_def pool_avail_def)
      qed
    qed
  qed
qed

lemma reset_memory:
  assumes "wf_pool p" "unat a + unat k \<le> unat (pool_size p)"
  shows "memory (snd (MHD_pool_reset p (Some a) k n)) =
    take (unat k) (drop (unat a) (memory p)) @ replicate (length (memory p) - unat k) 0"
proof -
  define m1 where "m1 = (if a \<noteq> 0 \<and> k \<noteq> 0 then move_to 0 (unat a) (unat k) (memory p) else memory p)"
  have len: "length (memory p) = unat (pool_size p)" using assms(1) by (simp add: wf_pool_def)
  have m1: "take (unat k) m1 = take (unat k) (drop (unat a) (memory p))" "length m1 = length (memory p)"
    using assms(2) len by (auto simp: m1_def move_to_def)
  have "memory (snd (MHD_pool_reset p (Some a) k n)) =
      (if pool_size p > k then zero_at (unat k) (unat (pool_size p - k)) m1 else m1)"
    by (simp add: MHD_pool_reset_def Let_def m1_def)
  moreover have "zero_at (unat k) (unat (pool_size p - k)) m1 = take (unat k) m1 @ replicate (length (memory p) - unat k) 0"
    if "pool_size p > k"
    using that m1(2) len by (simp add: zero_at_def unat_sub less_imp_le word_less_nat_alt)
  moreover have "m1 = take (unat k) m1 @ replicate (length (memory p) - unat k) 0" if "\<not> pool_size p > k"
    using that m1(2) len by (simp add: not_less word_le_nat_alt)
  ultimately show ?thesis by (simp add: m1(1))
qed


subsection \<open>Contract\<close>

text \<open>C32: every block the pool hands out is the caller's own: whatever sequence of allocations is made on a new pool,
  from the front or from the end, some refused, the blocks lie inside the pool's memory and no two of them overlap.
\<close>

theorem pool_blocks_separate:
  assumes "length mem = unat n" "unat n < 2 ^ 63" "MHD_pool_create (Some mem) n = Some p"
    and "serve pool_alloc request_len p rs = (bs, p1)"
  shows "sorted_wrt (\<lambda>b c. block b \<inter> block c = {}) bs \<and> (\<Union>b\<in>set bs. block b) \<subseteq> {..< length mem} \<and> wf_pool p1"
proof -
  have ok: "wf_pool p" and av: "pool_avail p = {..< length mem}"
    using assms(1-3) by (auto simp: MHD_pool_create_def wf_pool_def pool_avail_def)
  show ?thesis
    using ma.serve_separate [OF ok, of rs] ma.serve_avail [OF ok, of rs] ma.serve_ok [OF ok, of rs] av assms(4) by auto
qed

theorem pool_blocks_separate_witness:
  "let p = \<lparr>memory = replicate 64 0, pool_size = 64, pool_pos = 0, pool_end = 64\<rparr> in
   sorted_wrt (\<lambda>b c. block b \<inter> block c = {}) (fst (serve pool_alloc request_len p [(5, False), (20, True), (17, False)]))"
  using pool_blocks_separate [of "replicate 64 0" 64 "\<lparr>memory = replicate 64 0, pool_size = 64, pool_pos = 0, pool_end = 64\<rparr>"
    "[(5, False), (20, True), (17, False)]" "fst (serve pool_alloc request_len \<lparr>memory = replicate 64 0, pool_size = 64, pool_pos = 0, pool_end = 64\<rparr> [(5, False), (20, True), (17, False)])"
    "snd (serve pool_alloc request_len \<lparr>memory = replicate 64 0, pool_size = 64, pool_pos = 0, pool_end = 64\<rparr> [(5, False), (20, True), (17, False)])"]
  by (simp add: MHD_pool_create_def)

text \<open>C33: growing or shrinking a block is safe: \<open>MHD_pool_reallocate\<close> on a block in use gives a block in the old one
  and the free memory, which starts with the old contents, leaves every other block's bytes as they are, and keeps
  the pool in order; when it refuses, nothing changes.
\<close>

theorem pool_reallocate_safe:
  assumes "wf_pool p" "in_use p (unat a) (unat m)" "MHD_pool_reallocate p (Some a) m n = (r, p1)"
  shows "case r of None \<Rightarrow> p1 = p | Some b \<Rightarrow> realloc_good p (unat a) (unat m) (unat n) p1 (unat b)"
proof (cases r)
  case None
  then show ?thesis using assms(3) by (auto simp: MHD_pool_reallocate_def Let_def split: if_splits)
next
  case (Some b)
  then show ?thesis using reallocate_good assms by auto
qed

theorem pool_reallocate_safe_witness:
  "let p = \<lparr>memory = replicate 64 7, pool_size = 64, pool_pos = 32, pool_end = 64\<rparr> in
   case MHD_pool_reallocate p (Some 0) 16 20 of (r, p1) \<Rightarrow> r = Some 32 \<and> realloc_good p 0 16 20 p1 32"
proof -
  let ?p = "\<lparr>memory = replicate 64 7, pool_size = 64, pool_pos = 32, pool_end = 64\<rparr>"
  obtain r p1 where e: "MHD_pool_reallocate ?p (Some 0) 16 20 = (r, p1)" by fastforce
  have r: "r = Some 32" using e by (auto simp: MHD_pool_reallocate_def ROUND_TO_ALIGN_def ALIGN_SIZE_def Let_def)
  show ?thesis using pool_reallocate_safe [of ?p 0 16 20 r p1] e r by (simp add: wf_pool_def in_use_def)
qed

text \<open>Resetting the pool for the next request keeps what has been read of it and nothing else: the bytes kept are at
  the start, the rest is zero, and all memory behind the new buffer is free; without a block to keep, the position
  stays where it was, so nothing is given back but the blocks taken from the end.
\<close>

lemma pool_reset_spec:
  assumes "wf_pool p" "unat a + unat k \<le> unat (pool_size p)" "unat n + 15 < 2 ^ 64" "ROUND_TO_ALIGN n \<le> pool_size p"
    and "MHD_pool_reset p (Some a) k n = (r, p1)"
  shows "r = Some 0 \<and> wf_pool p1 \<and>
    memory p1 = take (unat k) (drop (unat a) (memory p)) @ replicate (length (memory p) - unat k) 0 \<and>
    pool_avail p1 = {(unat n + 15) div 16 * 16 ..< length (memory p)} \<and>
    pool_avail (snd (MHD_pool_reset p None k n)) = {unat (pool_pos p) ..< length (memory p)}"
proof -
  have m: "memory p1 = take (unat k) (drop (unat a) (memory p)) @ replicate (length (memory p) - unat k) 0"
    using reset_memory [OF assms(1,2), of n] assms(5) by simp
  have f: "r = Some 0" "pool_pos p1 = ROUND_TO_ALIGN n" "pool_end p1 = pool_size p" "pool_size p1 = pool_size p"
    "pool_pos (snd (MHD_pool_reset p None k n)) = pool_pos p" "pool_end (snd (MHD_pool_reset p None k n)) = pool_size p"
    using assms(5) by (auto simp: MHD_pool_reset_def Let_def)
  have "length (memory p1) = length (memory p)" using assms(1,2) by (simp add: m wf_pool_def)
  then show ?thesis using assms(1,3,4) f m by (simp add: wf_pool_def pool_avail_def align_value)
qed

lemma pool_reset_spec_witness:
  "let p = \<lparr>memory = replicate 16 1 @ replicate 32 7, pool_size = 48, pool_pos = 32, pool_end = 32\<rparr> in
   memory (snd (MHD_pool_reset p (Some 14) 4 24)) = [1, 1, 7, 7] @ replicate 44 0"
proof -
  let ?p = "\<lparr>memory = replicate 16 1 @ replicate 32 7, pool_size = 48, pool_pos = 32, pool_end = 32\<rparr>"
  obtain r p1 where e: "MHD_pool_reset ?p (Some 14) 4 24 = (r, p1)" by fastforce
  have "memory p1 = take 4 (drop 14 (replicate 16 1 @ replicate 32 7)) @ replicate 44 0"
    using pool_reset_spec [OF _ _ _ _ e] by (simp add: wf_pool_def ROUND_TO_ALIGN_def ALIGN_SIZE_def)
  moreover have "take 4 (drop 14 (replicate 16 1 @ replicate 32 7)) = ([1, 1, 7, 7] :: 8 word list)"
    by (simp add: numeral_eq_Suc)
  ultimately show ?thesis using e by (simp add: Let_def)
qed

end
