(* ===== verification/MhdReply.thy ===== *)
theory MhdReply
  imports MhdBody MhdPool Conn
begin

unbundle bit_operations_syntax

text \<open>
  Connections and responses of the embedded HTTP daemon, and the head of a reply:
  \<open>src/final/server/microhttpd/microhttpd/connection.c\<close>, \<open>reason_phrase.c\<close> and \<open>response.c\<close>.  The client's reader of
  replies (theories Http and Conn) is proved to understand what is written here.
\<close>

subsection \<open>Connections and responses\<close>

datatype value_kind = Header_kind | Cookie_kind | Argument_kind | Footer_kind

datatype connection_state =
  Conn_init | Url_received | Header_part_received | Headers_received | Headers_processed
| Continue_sending | Continue_sent | Body_received | Footer_part_received | Footers_received
| Headers_sending | Headers_sent | Normal_body_ready | Normal_body_unready | Chunked_body_ready
| Chunked_body_unready | Body_sent | Footers_sending | Footers_sent | Conn_closed

text \<open>
  A response: its headers, and the part of its data that is in memory (\<open>rs_data\<close>, which starts at \<open>rs_start\<close>).
  Upgrades are not modelled, so there is no upgrade handler.
\<close>

record response =
  rs_total_size :: nat
  rs_headers :: "(value_kind \<times> string \<times> string) list"
  rs_http_1_0_only :: bool
  rs_data :: string
  rs_start :: nat
  rs_buffer_size :: nat

text \<open>
  A connection.  Pointers are kept where the memory pool needs them (\<open>mc_read_at\<close>, \<open>mc_last_at\<close>); texts in the pool
  are values: blocks of the pool do not overlap, which is proved for the pool.  \<open>mc_shut\<close> says that the socket has
  been shut down for writing.  \<open>mc_out\<close> is what is left to send of the write buffer.
\<close>

record mhd_conn =
  mc_state :: connection_state
  mc_pool :: pool
  mc_read_at :: "64 word option"
  mc_read_size :: "64 word"
  mc_read_buffer :: string
  mc_method :: "string option"
  mc_url :: "string option"
  mc_version :: "string option"
  mc_headers :: "(value_kind \<times> string \<times> string option) list"
  mc_last :: string
  mc_last_at :: "64 word option"
  mc_colon :: string
  mc_read_closed :: bool
  mc_shut :: bool
  mc_response :: "response option"
  mc_code :: nat
  mc_out :: string
  mc_write_at :: "64 word option"
  mc_write_size :: nat
  mc_write_position :: nat
  mc_chunked :: bool
  mc_upload_size :: nat

definition HTTP_1_0 :: string where "HTTP_1_0 = ''HTTP/1.0''"
definition HTTP_1_1 :: string where "HTTP_1_1 = ''HTTP/1.1''"

definition MHD_lookup_connection_value :: "mhd_conn \<Rightarrow> value_kind \<Rightarrow> string \<Rightarrow> string option" where
  "MHD_lookup_connection_value c kind key =
     (case find (\<lambda>(k, name, value). k = kind \<and> MHD_str_equal_caseless key name) (mc_headers c) of
        None \<Rightarrow> None | Some (k, name, value) \<Rightarrow> value)"

definition MHD_get_response_header :: "response \<Rightarrow> string \<Rightarrow> string option" where
  "MHD_get_response_header rs key =
     map_option (\<lambda>(k, name, value). value) (find (\<lambda>(k, name, value). key = name) (rs_headers rs))"

definition has_value :: "string option \<Rightarrow> string \<Rightarrow> bool" where
  "has_value v s = (case v of None \<Rightarrow> False | Some t \<Rightarrow> MHD_str_equal_caseless t s)"

definition keepalive_possible :: "mhd_conn \<Rightarrow> bool" where
  "keepalive_possible c =
     (case mc_version c of None \<Rightarrow> False
      | Some v \<Rightarrow>
          if (case mc_response c of None \<Rightarrow> False | Some rs \<Rightarrow> rs_http_1_0_only rs) then False
          else let e = MHD_lookup_connection_value c Header_kind ''Connection'' in
            if MHD_str_equal_caseless v HTTP_1_1 then
              (if e = None then True
               else \<not> (has_value e ''close'' \<or> has_value e ''upgrade''))
            else if MHD_str_equal_caseless v HTTP_1_0 then has_value e ''Keep-Alive''
            else False)"

subsection \<open>The head of a reply\<close>

definition reason_table :: "string list list" where
  "reason_table =
    [[],
     [''Continue'', ''Switching Protocols'', ''Processing''],
     [''OK'', ''Created'', ''Accepted'', ''Non-Authoritative Information'', ''No Content'', ''Reset Content'',
      ''Partial Content'', ''Multi Status''],
     [''Multiple Choices'', ''Moved Permanently'', ''Moved Temporarily'', ''See Other'', ''Not Modified'', ''Use Proxy'',
      ''Switch Proxy'', ''Temporary Redirect'', ''Permanent Redirect''],
     [''Bad Request'', ''Unauthorized'', ''Payment Required'', ''Forbidden'', ''Not Found'', ''Method Not Allowed'',
      ''Not Acceptable'', ''Proxy Authentication Required'', ''Request Time-out'', ''Conflict'', ''Gone'',
      ''Length Required'', ''Precondition Failed'', ''Request Entity Too Large'', ''Request-URI Too Large'',
      ''Unsupported Media Type'', ''Requested Range Not Satisfiable'', ''Expectation Failed''] @
       replicate 4 ''Unknown'' @
     [''Unprocessable Entity'', ''Locked'', ''Failed Dependency'', ''Unordered Collection'', ''Upgrade Required''] @
       replicate 17 ''Unknown'' @ [''No Response''] @ replicate 4 ''Unknown'' @
     [''Retry With'', ''Blocked by Windows Parental Controls'', ''Unavailable For Legal Reasons''],
     [''Internal Server Error'', ''Not Implemented'', ''Bad Gateway'', ''Service Unavailable'', ''Gateway Time-out'',
      ''HTTP Version not supported'', ''Variant Also Negotiates'', ''Insufficient Storage'', ''Unknown'',
      ''Bandwidth Limit Exceeded'', ''Not Extended'']]"

definition MHD_get_reason_phrase_for :: "nat \<Rightarrow> string" where
  "MHD_get_reason_phrase_for status =
     (if status \<ge> 100 \<and> status < 600 \<and> length (reason_table ! (status div 100)) > status mod 100
      then reason_table ! (status div 100) ! (status mod 100) else ''Unknown'')"

text \<open>The broken-down time, \<open>None\<close> when \<open>gmtime\<close> fails: weekday, day, month, years since 1900, hour, minute, second.\<close>

type_synonym tm = "nat \<times> nat \<times> nat \<times> nat \<times> nat \<times> nat \<times> nat"

definition pad0 :: "nat \<Rightarrow> string \<Rightarrow> string" where
  "pad0 n s = replicate (n - length s) (CHR ''0'') @ s"

definition day_names :: "string list" where
  "day_names = [''Sun'', ''Mon'', ''Tue'', ''Wed'', ''Thu'', ''Fri'', ''Sat'']"

definition month_names :: "string list" where
  "month_names = [''Jan'', ''Feb'', ''Mar'', ''Apr'', ''May'', ''Jun'', ''Jul'', ''Aug'', ''Sep'', ''Oct'', ''Nov'', ''Dec'']"

definition get_date_string :: "tm option \<Rightarrow> string" where
  "get_date_string now =
     (case now of None \<Rightarrow> []
      | Some (wday, mday, mon, year, hour, mi, sec) \<Rightarrow>
          ''Date: '' @ day_names ! (wday mod 7) @ '', '' @
          pad0 2 (nat_str mday) @ '' '' @
          month_names ! (mon mod 12) @
          '' '' @ pad0 4 (nat_str (1900 + year)) @ '' '' @ pad0 2 (nat_str hour) @ '':'' @ pad0 2 (nat_str mi) @ '':'' @
          pad0 2 (nat_str sec) @ '' GMT'' @ CRLF)"

text \<open>The decisions on the head, in the order of the source.\<close>

record reply_plan =
  pl_chunked :: bool
  pl_add_close :: bool
  pl_add_chunked :: bool
  pl_add_length :: bool
  pl_add_keep_alive :: bool
  pl_keepalive_at :: "nat option"   \<comment> \<open>which header is the response's keep-alive\<close>

definition connection_header :: "response \<Rightarrow> nat option" where
  "connection_header rs =
     (let i = length (takeWhile (\<lambda>(k, name, value). name \<noteq> ''Connection'') (rs_headers rs))
      in if i < length (rs_headers rs) then Some i else None)"

definition reply_decisions :: "mhd_conn \<Rightarrow> response \<Rightarrow> reply_plan" where
  "reply_decisions c rs =
     (let has_close = has_value (MHD_get_response_header rs ''Connection'') ''close'';
          has_keepalive = has_value (MHD_get_response_header rs ''Connection'') ''Keep-Alive'';
          client_close = has_value (MHD_lookup_connection_value c Header_kind ''Connection'') ''close'';
          unsized = (rs_total_size rs = MHD_SIZE_UNKNOWN \<and> \<not> has_close \<and> \<not> client_close);
          chunking = (unsized \<and> keepalive_possible c \<and> has_value (mc_version c) HTTP_1_1);
          encoding = MHD_get_response_header rs ''Transfer-Encoding'';
          add_chunked = (chunking \<and> encoding = None);
          chunked = (chunking \<and> \<not> has_value encoding ''identity'');
          add_close1 = (unsized \<and> \<not> chunked);
          add_close = (add_close1 \<or> (client_close \<or> mc_read_closed c) \<and> \<not> has_close \<and> \<not> rs_http_1_0_only rs);
          add_length = (rs_total_size rs \<noteq> MHD_SIZE_UNKNOWN \<and> mc_code c \<noteq> 204 \<and> mc_code c \<noteq> 304 \<and> 200 \<le> mc_code c \<and>
            MHD_get_response_header rs ''Content-Length'' = None \<and> \<not> has_value (mc_method c) ''CONNECT'');
          add_keep_alive = (\<not> has_keepalive \<and> \<not> has_close \<and> \<not> add_close \<and> \<not> rs_http_1_0_only rs \<and> keepalive_possible c)
      in \<lparr>pl_chunked = chunked, pl_add_close = add_close, pl_add_chunked = add_chunked, pl_add_length = add_length,
          pl_add_keep_alive = add_keep_alive,
          pl_keepalive_at = (if has_keepalive then connection_header rs else None)\<rparr>)"

definition header_line :: "string \<Rightarrow> string \<Rightarrow> string" where
  "header_line name value = name @ '': '' @ value @ CRLF"

definition status_line :: "mhd_conn \<Rightarrow> string" where
  "status_line c = (if has_value (mc_version c) HTTP_1_0 then HTTP_1_0 else HTTP_1_1) @ '' '' @ nat_str (mc_code c) @ '' '' @
     MHD_get_reason_phrase_for (mc_code c) @ CRLF"

text \<open>The headers of the application that are sent; a keep-alive gives way to a close.\<close>

definition sent_headers :: "value_kind \<Rightarrow> reply_plan \<Rightarrow> response \<Rightarrow> (string \<times> string) list" where
  "sent_headers kind pl rs =
     map (\<lambda>(i, k, name, value). (name, value))
       (filter (\<lambda>(i, k, name, value). k = kind \<and>
                  \<not> (pl_add_close pl \<and> pl_keepalive_at pl = Some i \<and> MHD_str_equal_caseless name ''Connection''))
          (enumerate 0 (rs_headers rs)))"

definition no_plan :: "bool \<Rightarrow> reply_plan" where
  "no_plan chunked = \<lparr>pl_chunked = chunked, pl_add_close = False, pl_add_chunked = False, pl_add_length = False,
     pl_add_keep_alive = False, pl_keepalive_at = None\<rparr>"

text \<open>
  The size estimated in the first pass and the text written in the second; the library stops the process when they
  differ.  The head is built in the state \<open>Footers_received\<close>, the footers after a chunked body in \<open>Body_sent\<close>.
\<close>

definition estimated_size :: "tm option \<Rightarrow> reply_plan \<Rightarrow> mhd_conn \<Rightarrow> response \<Rightarrow> nat" where
  "estimated_size now pl c rs =
     (let head = (mc_state c = Footers_received); kind = (if head then Header_kind else Footer_kind)
      in (if head then length (status_line c) + 2 +
            (if MHD_get_response_header rs ''Date'' = None then length (get_date_string now) else 0) else 2) +
         (if pl_add_close pl then length (''Connection: close'' @ CRLF) else 0) +
         (if pl_add_keep_alive pl then length (''Connection: Keep-Alive'' @ CRLF) else 0) +
         (if pl_add_chunked pl then length (''Transfer-Encoding: chunked'' @ CRLF) else 0) +
         (if pl_add_length pl then length (header_line ''Content-Length'' (nat_str (rs_total_size rs))) else 0) +
         sum_list (map (\<lambda>(name, value). length name + length value + 4) (sent_headers kind pl rs)))"

definition reply_text :: "tm option \<Rightarrow> reply_plan \<Rightarrow> mhd_conn \<Rightarrow> response \<Rightarrow> string" where
  "reply_text now pl c rs =
     (let head = (mc_state c = Footers_received); kind = (if head then Header_kind else Footer_kind)
      in (if head then status_line c else []) @
         (if pl_add_close pl then ''Connection: close'' @ CRLF else []) @
         (if pl_add_keep_alive pl then ''Connection: Keep-Alive'' @ CRLF else []) @
         (if pl_add_chunked pl then ''Transfer-Encoding: chunked'' @ CRLF else []) @
         (if pl_add_length pl then header_line ''Content-Length'' (nat_str (rs_total_size rs)) else []) @
         concat (map (\<lambda>(name, value). header_line name value) (sent_headers kind pl rs)) @
         (if head \<and> MHD_get_response_header rs ''Date'' = None then get_date_string now else []) @ CRLF)"

datatype build_result = Built mhd_conn | No_memory | Reply_panic

definition build_header_response :: "tm option \<Rightarrow> mhd_conn \<Rightarrow> response \<Rightarrow> build_result" where
  "build_header_response now c rs =
     (if mc_version c = Some [] then Built (c\<lparr>mc_out := [], mc_write_at := fst (MHD_pool_allocate (mc_pool c) 0 True), mc_write_size := 0\<rparr>)
      else
        let head = (mc_state c = Footers_received);
            pl = (if head then reply_decisions c rs else no_plan (mc_chunked c));
            sz = estimated_size now pl c rs;
            text = reply_text now pl c rs
        in case MHD_pool_allocate (mc_pool c) (of_nat (sz + 1)) False of
             (None, p) \<Rightarrow> No_memory
           | (Some data, p) \<Rightarrow>
               if length text \<noteq> sz then Reply_panic
               else Built (c\<lparr>mc_pool := p, mc_chunked := pl_chunked pl, mc_out := text,
                                 mc_write_at := Some data, mc_write_size := sz + 1\<rparr>))"

subsection \<open>Queueing a response\<close>

definition connection_close :: "mhd_conn \<Rightarrow> mhd_conn" where
  "connection_close c = c\<lparr>mc_state := Conn_closed, mc_shut := True\<rparr>"

text \<open>The call inside of \<open>MHD_connection_handle_idle\<close>, which goes on with the new state itself.\<close>

definition MHD_queue_response :: "nat \<Rightarrow> response \<Rightarrow> mhd_conn \<Rightarrow> bool \<times> mhd_conn" where
  "MHD_queue_response status rs c =
     (if mc_response c \<noteq> None \<or> mc_state c \<notin> {Headers_processed, Footers_received} then (False, c)
      else
        let c1 = c\<lparr>mc_response := Some rs, mc_code := status\<rparr>;
            c2 = (if has_value (mc_method c) ''HEAD'' \<or> 200 > status \<or> status = 204 \<or> status = 304
                  then c1\<lparr>mc_write_position := rs_total_size rs\<rparr> else c1);
            c3 = (if mc_state c = Headers_processed \<and> (has_value (mc_method c) ''POST'' \<or> has_value (mc_method c) ''PUT'')
                  then c2\<lparr>mc_read_closed := True, mc_state := Footers_received\<rparr> else c2)
        in (True, c3))"

definition text_response :: "string \<Rightarrow> response" where
  "text_response message = \<lparr>rs_total_size = length message, rs_headers = [], rs_http_1_0_only = False,
     rs_data = message, rs_start = 0, rs_buffer_size = 0\<rparr>"

definition transmit_error_response :: "tm option \<Rightarrow> nat \<Rightarrow> string \<Rightarrow> mhd_conn \<Rightarrow> mhd_conn" where
  "transmit_error_response now status message c =
     (let c1 = c\<lparr>mc_version := (case mc_version c of None \<Rightarrow> Some HTTP_1_0 | v \<Rightarrow> v),
                 mc_state := Footers_received, mc_read_closed := True\<rparr>;
          c2 = snd (MHD_queue_response status (text_response message) c1)
      in case mc_response c2 of None \<Rightarrow> c2
         | Some rs \<Rightarrow>
             (case build_header_response now c2 rs of
                Built c3 \<Rightarrow> c3\<lparr>mc_state := Headers_sending\<rparr>
              | _ \<Rightarrow> connection_close c2))"

subsection \<open>The size of the head\<close>

lemma header_lines_length:
  "length (concat (map (\<lambda>(name, value). header_line name value) hs)) =
   sum_list (map (\<lambda>(name, value). length name + length value + 4) hs)"
  by (induction hs) (auto simp: header_line_def)

lemma reply_text_size: "length (reply_text now pl c rs) = estimated_size now pl c rs"
  by (simp add: reply_text_def estimated_size_def Let_def header_lines_length)

lemma build_never_panics: "build_header_response now c rs \<noteq> Reply_panic"
  by (auto simp: build_header_response_def Let_def reply_text_size split: prod.splits option.splits)

lemma built_text:
  "build_header_response now c rs = Built c1 \<Longrightarrow> mc_version c \<noteq> Some [] \<Longrightarrow>
   mc_out c1 = reply_text now (if mc_state c = Footers_received then reply_decisions c rs else no_plan (mc_chunked c)) c rs"
  by (auto simp: build_header_response_def Let_def split: prod.splits option.splits if_splits)

subsection \<open>The head as the client reads it\<close>

definition tm_ok :: "tm option \<Rightarrow> bool" where
  "tm_ok now = (case now of None \<Rightarrow> True | Some (wday, mday, mon, year, hour, mi, sec) \<Rightarrow>
     mday < 100 \<and> year < 8000 \<and> hour < 100 \<and> mi < 100 \<and> sec < 100)"

definition plain_text :: "string \<Rightarrow> bool" where
  "plain_text s = list_all (\<lambda>c. c \<noteq> CR \<and> c \<noteq> NL \<and> c \<noteq> NUL) s"

lemma plain_text_simps [simp]:
  "plain_text []" "plain_text (c # s) \<longleftrightarrow> c \<noteq> CR \<and> c \<noteq> NL \<and> c \<noteq> NUL \<and> plain_text s"
  by (simp_all add: plain_text_def)

lemma plain_text_append [simp]: "plain_text (s @ t) \<longleftrightarrow> plain_text s \<and> plain_text t"
  by (simp add: plain_text_def)

lemma plain_text_nat_str [simp]: "plain_text (nat_str n)"
  using nat_str_no [of CR n] nat_str_no [of NL n] nat_str_no [of NUL n]
  by (auto simp: plain_text_def list_all_iff digit_val_def)

lemma plain_text_zeros [simp]: "plain_text (replicate k (CHR ''0''))"
  by (induction k) simp_all

lemma plain_text_pad0 [simp]: "plain_text s \<Longrightarrow> plain_text (pad0 n s)"
  by (simp add: pad0_def)

lemma line_ok_plain: "line_ok l \<longleftrightarrow> l \<noteq> [] \<and> plain_text l"
  by (auto simp: line_ok_def plain_text_def list_all_iff)

lemma pad0_length: "length s \<le> n \<Longrightarrow> length (pad0 n s) = n"
  by (simp add: pad0_def)

lemma names_plain:
  "plain_text (day_names ! (d mod 7))" "length (day_names ! (d mod 7)) = 3"
  "plain_text (month_names ! (m mod 12))" "length (month_names ! (m mod 12)) = 3"
proof -
  have "list_all (\<lambda>s. plain_text s \<and> length s = 3) day_names" "length day_names = 7"
    by (simp_all add: day_names_def)
  then show "plain_text (day_names ! (d mod 7))" "length (day_names ! (d mod 7)) = 3"
    by (simp_all add: list_all_length)
  have "list_all (\<lambda>s. plain_text s \<and> length s = 3) month_names" "length month_names = 12"
    by (simp_all add: month_names_def)
  then show "plain_text (month_names ! (m mod 12))" "length (month_names ! (m mod 12)) = 3"
    by (simp_all add: list_all_length)
qed

definition date_lines :: "tm option \<Rightarrow> string list" where
  "date_lines now = (case now of None \<Rightarrow> [] | Some t \<Rightarrow> [butlast (butlast (get_date_string now))])"

lemma date_string:
  assumes "tm_ok now"
  shows "get_date_string now = wire_lines (date_lines now)" "list_all field_line (date_lines now)"
    "length (text_lines (date_lines now)) \<le> 36"
proof -
  have "get_date_string now = wire_lines (date_lines now) \<and> list_all field_line (date_lines now) \<and>
    length (text_lines (date_lines now)) \<le> 36"
  proof (cases now)
    case (Some t)
    obtain wday mday mon year hour mi sec where t: "t = (wday, mday, mon, year, hour, mi, sec)" by (cases t) auto
    have b: "mday < 100" "1900 + year < 10000" "hour < 100" "mi < 100" "sec < 100"
      using assms by (auto simp: tm_ok_def Some t)
    define body where "body = day_names ! (wday mod 7) @ '', '' @
          pad0 2 (nat_str mday) @ '' '' @
          month_names ! (mon mod 12) @
          '' '' @ pad0 4 (nat_str (1900 + year)) @ '' '' @ pad0 2 (nat_str hour) @ '':'' @ pad0 2 (nat_str mi) @ '':'' @
          pad0 2 (nat_str sec) @ '' GMT''"
    have g: "get_date_string now = ''Date: '' @ body @ CRLF" by (simp add: get_date_string_def Some t body_def)
    have l: "date_lines now = [''Date: '' @ body]" by (simp add: date_lines_def Some g [unfolded Some] butlast_append)
    have lens: "length (nat_str mday) \<le> 2" "length (nat_str (1900 + year)) \<le> 4" "length (nat_str hour) \<le> 2"
      "length (nat_str mi) \<le> 2" "length (nat_str sec) \<le> 2"
      using b nat_str_short [of mday 2] nat_str_short [of "1900 + year" 4] nat_str_short [of hour 2]
        nat_str_short [of mi 2] nat_str_short [of sec 2] by simp_all
    have "length body = 29" unfolding body_def using lens by (simp add: names_plain pad0_length)
    moreover have "plain_text body" unfolding body_def by (simp add: names_plain)
    ultimately show ?thesis
      by (simp add: g l wire_lines_def field_line_def line_ok_plain is_space_def)
  qed (simp add: date_lines_def get_date_string_def wire_lines_def)
  then show "get_date_string now = wire_lines (date_lines now)" "list_all field_line (date_lines now)"
    "length (text_lines (date_lines now)) \<le> 36" by blast+
qed

definition reply_lines :: "tm option \<Rightarrow> reply_plan \<Rightarrow> nat \<Rightarrow> string list" where
  "reply_lines now pl n =
     (if pl_add_close pl then [''Connection: close''] else []) @
     (if pl_add_keep_alive pl then [''Connection: Keep-Alive''] else []) @
     (''Content-Length: '' @ nat_str n) # date_lines now"

definition reply_version :: "mhd_conn \<Rightarrow> string" where
  "reply_version c = (if has_value (mc_version c) HTTP_1_0 then HTTP_1_0 else HTTP_1_1)"

lemma phrase_200: "MHD_get_reason_phrase_for 200 = ''OK''"
  by (simp add: MHD_get_reason_phrase_for_def reason_table_def)

lemma plain_reply_text:
  assumes "mc_state c = Footers_received" "mc_code c = 200" "rs_headers rs = []" "rs_total_size rs \<noteq> MHD_SIZE_UNKNOWN"
    "mc_method c = Some ''GET''" "tm_ok now"
  shows "reply_text now (reply_decisions c rs) c rs =
    wire_lines ((reply_version c @ '' 200 OK'') # reply_lines now (reply_decisions c rs) (rs_total_size rs)) @ CRLF"
proof -
  have h: "MHD_get_response_header rs k = None" for k using assms(3) by (simp add: MHD_get_response_header_def)
  have "sent_headers Header_kind pl rs = []" for pl using assms(3) by (simp add: sent_headers_def)
  moreover have "\<not> pl_add_chunked (reply_decisions c rs)" "pl_add_length (reply_decisions c rs)"
    using assms(2,4,5) by (simp_all add: reply_decisions_def Let_def h has_value_def toasciilower_def isasciiupper_def at_def)
  moreover have "status_line c = reply_version c @ '' 200 OK'' @ CRLF"
    using assms(2) phrase_200 by (simp add: status_line_def reply_version_def print_eval)
  ultimately show ?thesis using assms(1) date_string(1) [OF assms(6)] h
    by (simp add: reply_text_def Let_def reply_lines_def wire_lines_def header_line_def)
qed

lemma reply_lines_ok:
  assumes "tm_ok now"
  shows "list_all field_line (reply_lines now pl n)"
  using date_string(2) [OF assms] by (simp add: reply_lines_def field_line_def line_ok_plain is_space_def)

lemma reply_client_reads:
  assumes "mc_state c = Footers_received" "mc_code c = 200" "rs_headers rs = []" "rs_total_size rs < 2 ^ 63"
    "mc_method c = Some ''GET''" "mc_version c \<noteq> Some []" "tm_ok now" "build_header_response now c rs = Built c1"
    "h_fd hc \<in> set (w_open w)" "rx_bytes (w_rx w (h_fd hc)) = mc_out c1 @ body"
  shows "\<exists>w' hc'. http_exec w hc = Inr (True, w', hc') \<and> rx_bytes (w_rx w' (h_fd hc)) = body \<and>
    h_status hc' = 200 \<and> http_size hc' = Inr (int (rs_total_size rs))"
proof -
  let ?n = "rs_total_size rs" and ?pl = "reply_decisions c rs"
  let ?l = "reply_version c @ '' 200 OK''" and ?ls = "reply_lines now (reply_decisions c rs) (rs_total_size rs)"
  have v: "reply_version c \<noteq> []" "\<forall>c\<in>set (reply_version c). \<not> is_space c" "plain_text (reply_version c)" "length (reply_version c) = 8"
    by (auto simp: reply_version_def HTTP_1_0_def HTTP_1_1_def is_space_def)
  have n: "?n \<noteq> MHD_SIZE_UNKNOWN" "length (nat_str ?n) \<le> 19"
    using assms(4) nat_str_short [of ?n 19] by (auto simp: MHD_SIZE_UNKNOWN_def)
  have out: "mc_out c1 = wire_lines (?l # ?ls) @ CRLF"
    using built_text [OF assms(8,6)] plain_reply_text [OF assms(1-3) n(1) assms(5,7)] assms(1) by simp
  have ok: "list_all line_ok (?l # ?ls)"
    using reply_lines_ok [OF assms(7), of ?pl ?n] v by (auto simp: line_ok_plain field_line_def list_all_iff)
  have len: "length (text_lines (?l # ?ls)) < MAX_QUERY"
    using date_string(3) [OF assms(7)] n(2) v(4) by (simp add: reply_lines_def)
  have l: "?l = reply_version c @ '' '' @ nat_str 200 @ '' OK''" by (simp add: print_eval)
  obtain w' hc' where ex: "http_exec w hc = Inr (True, w', hc')" "rx_bytes (w_rx w' (h_fd hc)) = body"
    and hd: "h_headers hc' = text_lines (?l # ?ls)" and st: "h_status hc' = int 200"
    using http_exec_reply [OF assms(9) ok _ len l v(1,2), of body] assms(10) out by auto
  have "http_size hc' = Inr (int ?n)"
  proof (rule http_size_spec [OF hd])
    show "line_ok ?l" using ok by simp
    show "list_all field_line ?ls" by (rule reply_lines_ok [OF assms(7)])
    let ?pre = "(if pl_add_close ?pl then [''Connection: close''] else []) @
     (if pl_add_keep_alive ?pl then [''Connection: Keep-Alive''] else [])"
    have "?ls = ?pre @ (''Content-Length:'' @ '' '' @ nat_str ?n) # date_lines now" by (simp add: reply_lines_def)
    moreover have "strcasecmp_eq ''Content-Length:'' ''Content-Length:''" by (simp add: strcasecmp_eq_def)
    moreover have "\<forall>c\<in>set ''Content-Length:''. \<not> is_space c" by (simp add: is_space_def)
    moreover have "in_llong (int ?n)" using assms(4) by (simp add: in_llong_def)
    ultimately show "?ls = ?pre @ (''Content-Length:'' @ '' '' @ nat_str ?n) # date_lines now \<and>
        strcasecmp_eq ''Content-Length:'' ''Content-Length:'' \<and> (\<forall>c\<in>set ''Content-Length:''. \<not> is_space c) \<and>
        in_llong (int ?n) \<and> int ?n = int ?n \<or> ?ls = ?pre \<and> int ?n = -2" by blast
    show "list_all (\<lambda>l. \<not> strcasecmp_eq (line_word l) ''Content-Length:'') ?pre"
      by (simp add: line_word_def is_space_def strcasecmp_eq_def)
  qed
  then show ?thesis using ex st by auto
qed

lemma queued:
  "mc_state c = Footers_received \<Longrightarrow> mc_response (snd (MHD_queue_response status rs c)) \<noteq> None"
  by (simp add: MHD_queue_response_def Let_def)

lemma error_state: "mc_state (transmit_error_response now status message c) \<in> {Headers_sending, Conn_closed}"
proof -
  let ?c1 = "c\<lparr>mc_version := (case mc_version c of None \<Rightarrow> Some HTTP_1_0 | v \<Rightarrow> v),
                 mc_state := Footers_received, mc_read_closed := True\<rparr>"
  obtain rs where "mc_response (snd (MHD_queue_response status (text_response message) ?c1)) = Some rs"
    using queued [of ?c1] by fastforce
  then show ?thesis
    by (simp add: transmit_error_response_def connection_close_def Let_def split: build_result.split)
qed

subsection \<open>Contract\<close>

text \<open>C34: the head of a reply is exactly as long as was estimated before it was written, so the library never stops the
  process there, and it fits the block of the pool it is written to; only the lack of memory makes it fail.
\<close>

theorem reply_head_exact:
  "build_header_response now c rs \<noteq> Reply_panic \<and>
   (case build_header_response now c rs of
      Built c1 \<Rightarrow> length (mc_out c1) \<le> mc_write_size c1 \<and> (mc_out c1 = [] \<or> length (mc_out c1) + 1 = mc_write_size c1)
    | _ \<Rightarrow> True)"
  using build_never_panics [of now c rs]
  by (auto simp: build_header_response_def Let_def reply_text_size split: prod.splits option.splits build_result.splits)

text \<open>Axel understands the daemon: when the daemon answers a GET with a file of \<open>n\<close> bytes, the client's
  \<open>http_exec\<close> reads exactly the head, whatever connection headers, date and version it has, takes the status 200 from
  it, leaves the body unread, and \<open>http_size\<close> finds \<open>n\<close>.
\<close>

lemma daemon_reply_read_by_client:
  assumes "mc_state c = Footers_received" "mc_code c = 200" "rs_headers rs = []" "rs_total_size rs < 2 ^ 63"
    "mc_method c = Some ''GET''" "mc_version c \<noteq> Some []" "tm_ok now" "build_header_response now c rs = Built c1"
    "h_fd hc \<in> set (w_open w)" "rx_bytes (w_rx w (h_fd hc)) = mc_out c1 @ body"
  shows "\<exists>w' hc'. http_exec w hc = Inr (True, w', hc') \<and> rx_bytes (w_rx w' (h_fd hc)) = body \<and>
    h_status hc' = 200 \<and> http_size hc' = Inr (int (rs_total_size rs))"
  using assms by (rule reply_client_reads)

definition example_conn :: mhd_conn where
  "example_conn = \<lparr>mc_state = Footers_received,
     mc_pool = \<lparr>memory = [], pool_size = 512, pool_pos = 128, pool_end = 512\<rparr>,
     mc_read_at = Some 0, mc_read_size = 128, mc_read_buffer = [], mc_method = Some ''GET'', mc_url = Some ''/a'',
     mc_version = Some HTTP_1_0, mc_headers = [], mc_last = [], mc_last_at = None, mc_colon = [],
     mc_read_closed = False, mc_shut = False, mc_response = None, mc_code = 200, mc_out = [], mc_write_at = None, mc_write_size = 0,
     mc_write_position = 0, mc_chunked = False, mc_upload_size = 0\<rparr>"

definition example_built :: mhd_conn where
  "example_built = (case build_header_response None example_conn (text_response ''hello'') of Built c1 \<Rightarrow> c1 | _ \<Rightarrow> example_conn)"

lemma daemon_reply_read_by_client_witness:
  "\<exists>w' hc'. http_exec (example_world\<lparr>w_rx := (\<lambda>_. [Data (mc_out example_built @ ''hello'')])\<rparr>) (http_zero\<lparr>h_fd := 3\<rparr>)
      = Inr (True, w', hc') \<and> rx_bytes (w_rx w' 3) = ''hello'' \<and> h_status hc' = 200 \<and> http_size hc' = Inr 5"
proof -
  let ?rs = "text_response ''hello''"
  let ?w = "example_world\<lparr>w_rx := (\<lambda>_. [Data (mc_out example_built @ ''hello'')])\<rparr>"
  have "estimated_size None (reply_decisions example_conn ?rs) example_conn ?rs = 38"
    by (simp add: estimated_size_def reply_decisions_def example_conn_def text_response_def Let_def
        MHD_get_response_header_def has_value_def MHD_lookup_connection_value_def keepalive_possible_def
        sent_headers_def status_line_def phrase_200 get_date_string_def header_line_def print_eval HTTP_1_0_def HTTP_1_1_def at_def
        toasciilower_def isasciiupper_def MHD_SIZE_UNKNOWN_def)
  then have "build_header_response None example_conn ?rs = Built example_built"
    by (simp add: example_built_def build_header_response_def Let_def reply_text_size MHD_pool_allocate_def
        ROUND_TO_ALIGN_def ALIGN_SIZE_def example_conn_def HTTP_1_0_def)
  then show ?thesis
    using daemon_reply_read_by_client [of example_conn ?rs None example_built "http_zero\<lparr>h_fd := 3\<rparr>" ?w "''hello''"]
    by (simp add: example_conn_def text_response_def tm_ok_def example_world_def HTTP_1_0_def)
qed

end
