(* ===== verification/MhdRequest.thy ===== *)
theory MhdRequest
  imports MhdReply
begin

unbundle bit_operations_syntax

text \<open>
  Requests at the embedded HTTP daemon, \<open>src/final/server/microhttpd/microhttpd/connection.c\<close>: lines, the request line,
  headers, cookies and the size of the upload, and the part of the state machine that reads them.  What a client
  sends is proved to be understood under any fragmentation, for the requests of axel in particular.
\<close>

subsection \<open>Reading lines\<close>

text \<open>What a daemon is set up with: the size of a connection's pool and the clock's time, for the replies.\<close>

record mhd_daemon =
  dm_pool_size :: "64 word"
  dm_now :: "tm option"

definition MHD_BUF_INC_SIZE :: "64 word" where "MHD_BUF_INC_SIZE = 1024"

definition REQUEST_TOO_BIG :: string where
  "REQUEST_TOO_BIG = ''<html><head><title>Request too big</title></head><body>Your HTTP header was too big for the memory constraints of this webserver.</body></html>''"

definition REQUEST_MALFORMED :: string where
  "REQUEST_MALFORMED = ''<html><head><title>Request malformed</title></head><body>Your HTTP request was syntactically incorrect.</body></html>''"

definition try_grow_read_buffer :: "mhd_daemon \<Rightarrow> mhd_conn \<Rightarrow> bool \<times> mhd_conn" where
  "try_grow_read_buffer d c =
     (let new_size = (if mc_read_size c = 0 then dm_pool_size d div 2 else mc_read_size c + MHD_BUF_INC_SIZE)
      in case MHD_pool_reallocate (mc_pool c) (mc_read_at c) (mc_read_size c) new_size of
           (None, p) \<Rightarrow> (False, c)
         | (Some buf, p) \<Rightarrow> (True, c\<lparr>mc_pool := p, mc_read_at := Some buf, mc_read_size := new_size\<rparr>))"

text \<open>
  The next line with its address, \<open>None\<close> while it is incomplete.  The line ends at the first CR or LF; a CR in
  the last place waits for its LF.
\<close>

definition get_next_header_line :: "mhd_daemon \<Rightarrow> mhd_conn \<Rightarrow> (string \<times> 64 word option) option \<times> mhd_conn" where
  "get_next_header_line d c =
     (let rbuf = mc_read_buffer c; pos = length (takeWhile (\<lambda>x. \<not> is_eol x) (butlast rbuf)) in
      if rbuf = [] then (None, c)
      else if pos = length rbuf - 1 \<and> rbuf ! pos \<noteq> CHR 0x0A then
        (if of_nat (length rbuf) = mc_read_size c then
           (case try_grow_read_buffer d c of
              (True, c1) \<Rightarrow> (None, c1)
            | (False, c1) \<Rightarrow>
                (None, transmit_error_response (dm_now d) (if mc_url c \<noteq> None then 413 else 414) REQUEST_TOO_BIG c1))
         else (None, c))
      else
        let n = (if rbuf ! pos = CHR 0x0D \<and> rbuf ! (pos + 1) = CHR 0x0A then pos + 2 else pos + 1)
        in (Some (take pos rbuf, mc_read_at c),
            c\<lparr>mc_read_at := map_option (\<lambda>a. a + of_nat n) (mc_read_at c), mc_read_size := mc_read_size c - of_nat n,
              mc_read_buffer := drop n rbuf\<rparr>))"

subsection \<open>Headers\<close>

text \<open>A header record has three pointers and an enumeration: 32 bytes.\<close>

definition MHD_set_connection_value :: "value_kind \<Rightarrow> string \<Rightarrow> string option \<Rightarrow> mhd_conn \<Rightarrow> bool \<times> mhd_conn" where
  "MHD_set_connection_value kind key value c =
     (case MHD_pool_allocate (mc_pool c) 32 True of
        (None, p) \<Rightarrow> (False, c)
      | (Some a, p) \<Rightarrow> (True, c\<lparr>mc_pool := p, mc_headers := mc_headers c @ [(kind, key, value)]\<rparr>))"

definition connection_add_header ::
    "mhd_daemon \<Rightarrow> value_kind \<Rightarrow> string \<Rightarrow> string option \<Rightarrow> mhd_conn \<Rightarrow> bool \<times> mhd_conn" where
  "connection_add_header d kind key value c =
     (case MHD_set_connection_value kind key value c of
        (True, c1) \<Rightarrow> (True, c1)
      | (False, c1) \<Rightarrow> (False, transmit_error_response (dm_now d) 413 REQUEST_TOO_BIG c1))"

text \<open>
  The division of the first line: the method, the target and the version; \<open>None\<close> without a blank.  A line that
  ends after the blanks has no target.  The version is what follows the last blank, trailing blanks included.
\<close>

definition version_at :: "string \<Rightarrow> nat" where
  "version_at t =
     (let back = (\<lambda>P s. length s - length (takeWhile P (rev (tl s))) - 1);
          j = back (\<lambda>x. x = CHR '' '') t
      in back (\<lambda>x. x \<noteq> CHR '' '') (take (j + 1) t))"

definition split_request_line :: "string \<Rightarrow> (string \<times> (string \<times> string) option) option" where
  "split_request_line line =
     (case strchr line (CHR '' '') of None \<Rightarrow> None
      | Some k \<Rightarrow>
          let t = dropWhile (\<lambda>x. x = CHR '' '') (drop (k + 1) line) in
          if t = [] then Some (take k line, None)
          else let j = version_at t
               in if j > 0 then Some (take k line, Some (take j t, drop (j + 1) t))
                  else Some (take k line, Some (t, [])))"

definition parse_initial_message_line :: "mhd_daemon \<Rightarrow> string \<Rightarrow> mhd_conn \<Rightarrow> bool \<times> mhd_conn" where
  "parse_initial_message_line d line c =
     (case split_request_line line of None \<Rightarrow> (False, c)
      | Some (meth, None) \<Rightarrow> (True, c\<lparr>mc_method := Some (cstring meth), mc_version := Some [], mc_url := Some []\<rparr>)
      | Some (meth, Some (target, version)) \<Rightarrow>
          let c1 = c\<lparr>mc_method := Some (cstring meth), mc_version := Some (cstring version)\<rparr>;
              uri = (case strchr target (CHR ''?'') of None \<Rightarrow> target | Some q \<Rightarrow> take q target);
              c2 = (case strchr target (CHR ''?'') of None \<Rightarrow> c1
                    | Some q \<Rightarrow> (case MHD_parse_arguments (connection_add_header d Argument_kind) (cstring (drop (q + 1) target)) c1
                                of (ok, n, c2) \<Rightarrow> c2))
          in (True, c2\<lparr>mc_url := Some (cstring (MHD_http_unescape (cstring uri)))\<rparr>))"

definition process_header_line :: "string \<times> 64 word option \<Rightarrow> mhd_conn \<Rightarrow> bool \<times> mhd_conn" where
  "process_header_line line c =
     (case strchr (cstring (fst line)) (CHR '':'') of
        None \<Rightarrow> (False, connection_close c)
      | Some k \<Rightarrow>
          (True, c\<lparr>mc_last := take k (fst line), mc_last_at := snd line,
                   mc_colon := dropWhile (\<lambda>x. x = CHR '' '' \<or> x = CHR 0x09) (drop (k + 1) (cstring (fst line)))\<rparr>))"

definition process_broken_line :: "mhd_daemon \<Rightarrow> string \<times> 64 word option \<Rightarrow> value_kind \<Rightarrow> mhd_conn \<Rightarrow> bool \<times> mhd_conn" where
  "process_broken_line d line kind c =
     (let l = cstring (fst line); blank = (\<lambda>x. x = CHR '' '' \<or> x = CHR 0x09) in
      if l \<noteq> [] \<and> blank (hd l) then
        let tmp = dropWhile blank l; last_len = length (mc_last c) in
        (case MHD_pool_reallocate (mc_pool c) (mc_last_at c) (of_nat (last_len + 1)) (of_nat (last_len + length tmp + 1)) of
           (None, p) \<Rightarrow> (False, transmit_error_response (dm_now d) 413 REQUEST_TOO_BIG c)
         | (Some a, p) \<Rightarrow> (True, c\<lparr>mc_pool := p, mc_last := mc_last c @ tmp, mc_last_at := Some a\<rparr>))
      else
        (case connection_add_header d kind (mc_last c) (Some (mc_colon c)) c of
           (False, c1) \<Rightarrow> (False, transmit_error_response (dm_now d) 413 REQUEST_TOO_BIG c1)
         | (True, c1) \<Rightarrow>
             if l \<noteq> [] then
               (case process_header_line line c1 of
                  (False, c2) \<Rightarrow> (False, transmit_error_response (dm_now d) 400 REQUEST_MALFORMED c2)
                | (True, c2) \<Rightarrow> (True, c2))
             else (True, c1)))"

subsection \<open>Cookies\<close>

text \<open>
  The cookie header is divided into pairs.  A value that is a single quotation mark at the end of the header is
  taken to be quoted: the source then reads behind the copy, where \<open>junk\<close> is.
\<close>

fun quoted_end :: "bool \<Rightarrow> string \<Rightarrow> nat" where
  "quoted_end q [] = 0"
| "quoted_end q (x # s) =
     (if q \<or> (x \<noteq> CHR '';'' \<and> x \<noteq> CHR '','') then Suc (quoted_end (if x = CHR 0x22 then \<not> q else q) s) else 0)"

definition unquote :: "string \<Rightarrow> string \<Rightarrow> string" where
  "unquote junk v =
     (if v \<noteq> [] \<and> hd v = CHR 0x22 \<and> last v = CHR 0x22 then (if length v = 1 then junk else butlast (tl v)) else v)"

lemma quoted_end_le: "quoted_end q s \<le> length s"
  by (induction q s rule: quoted_end.induct) auto

function cookie_pairs :: "string \<Rightarrow> string \<Rightarrow> (string \<times> string) list" where
  "cookie_pairs junk s =
     (let pos = dropWhile (\<lambda>x. x = CHR '' '') s;
          k = length (takeWhile (\<lambda>x. x \<notin> {CHR '','', CHR '';'', CHR ''=''}) pos);
          key = rev (dropWhile (\<lambda>x. x = CHR '' '') (rev (take k pos))) in
      if k = length pos then [(key, [])]
      else if pos ! k \<noteq> CHR ''='' then (key, []) # cookie_pairs junk (drop (k + 1) pos)
      else
        let equals = drop (k + 1) pos; n = quoted_end False equals; value = unquote junk (take n equals)
        in if n = length equals then [(key, value)]
           else (key, value) # cookie_pairs junk (drop (n + 1) equals))"
  by pat_completeness auto
termination
proof (relation "measure (\<lambda>(junk, s). length s)", goal_cases)
  case 1
  then show ?case by simp
next
  case (2 junk s pos k key)
  have "length pos \<le> length s" unfolding 2(1) by (rule length_dropWhile_le)
  moreover have "k \<le> length pos" unfolding 2(2) by (rule length_takeWhile_le)
  ultimately show ?case using 2(4) by simp
next
  case (3 junk s pos k key equals n v)
  have "length pos \<le> length s" unfolding 3(1) by (rule length_dropWhile_le)
  moreover have "k \<le> length pos" unfolding 3(2) by (rule length_takeWhile_le)
  ultimately show ?case using 3(4,6) by simp
qed

declare cookie_pairs.simps [simp del]

fun add_cookies :: "mhd_daemon \<Rightarrow> (string \<times> string) list \<Rightarrow> mhd_conn \<Rightarrow> mhd_conn" where
  "add_cookies d [] c = c"
| "add_cookies d ((key, value) # ps) c =
     (case connection_add_header d Cookie_kind key (Some value) c of
        (True, c1) \<Rightarrow> add_cookies d ps c1 | (False, c1) \<Rightarrow> c1)"

definition parse_cookie_header :: "mhd_daemon \<Rightarrow> string \<Rightarrow> mhd_conn \<Rightarrow> mhd_conn" where
  "parse_cookie_header d junk c =
     (case MHD_lookup_connection_value c Header_kind ''Cookie'' of None \<Rightarrow> c
      | Some hdr \<Rightarrow>
          (case MHD_pool_allocate (mc_pool c) (of_nat (length hdr + 1)) True of
             (None, p) \<Rightarrow> transmit_error_response (dm_now d) 413 REQUEST_TOO_BIG c
           | (Some a, p) \<Rightarrow> add_cookies d (cookie_pairs junk hdr) (c\<lparr>mc_pool := p\<rparr>)))"

subsection \<open>The size of the upload\<close>

text \<open>Without \<open>MHD_USE_PEDANTIC_CHECKS\<close>, as the file server starts the daemon.\<close>

definition parse_connection_headers :: "mhd_daemon \<Rightarrow> string \<Rightarrow> mhd_conn \<Rightarrow> mhd_conn" where
  "parse_connection_headers d junk c =
     (let c1 = (parse_cookie_header d junk c)\<lparr>mc_upload_size := 0\<rparr>;
          enc = MHD_lookup_connection_value c1 Header_kind ''Transfer-Encoding''
      in if enc \<noteq> None then
           c1\<lparr>mc_upload_size := MHD_SIZE_UNKNOWN, mc_chunked := (if has_value enc ''chunked'' then True else mc_chunked c1)\<rparr>
         else case MHD_lookup_connection_value c1 Header_kind ''Content-Length'' of None \<Rightarrow> c1
           | Some clen \<Rightarrow>
               (case MHD_str_to_uint64 clen of
                  None \<Rightarrow> connection_close c1
                | Some (n, v) \<Rightarrow> if n \<noteq> length clen then connection_close c1 else c1\<lparr>mc_upload_size := v\<rparr>))"

subsection \<open>The states before the headers are complete\<close>

text \<open>
  One turn of \<open>MHD_connection_handle_idle\<close> in the states \<open>INIT\<close>, \<open>URL_RECEIVED\<close> and \<open>HEADER_PART_RECEIVED\<close>; the
  result tells whether the loop goes on.
\<close>

definition no_line :: "mhd_conn \<Rightarrow> connection_state \<Rightarrow> bool \<times> mhd_conn" where
  "no_line c state =
     (if mc_state c \<noteq> state then (True, c)
      else if mc_read_closed c then (True, connection_close c)
      else (False, c))"

definition empty_line :: "string \<times> 64 word option \<Rightarrow> bool" where
  "empty_line line = (cstring (fst line) = [])"

definition head_step :: "mhd_daemon \<Rightarrow> mhd_conn \<Rightarrow> bool \<times> mhd_conn" where
  "head_step d c =
     (case get_next_header_line d c of (line, c1) \<Rightarrow>
      (case mc_state c of
         Conn_init \<Rightarrow>
           (case line of None \<Rightarrow> no_line c1 Conn_init
            | Some l \<Rightarrow>
                if empty_line l then no_line c1 Conn_init
                else (case parse_initial_message_line d (fst l) c1 of
                        (False, c2) \<Rightarrow> (True, connection_close c2)
                      | (True, c2) \<Rightarrow> (True, c2\<lparr>mc_state := Url_received\<rparr>)))
       | Url_received \<Rightarrow>
           (case line of None \<Rightarrow> no_line c1 Url_received
            | Some l \<Rightarrow>
                if empty_line l then (True, c1\<lparr>mc_state := Headers_received\<rparr>)
                else (case process_header_line l c1 of
                        (False, c2) \<Rightarrow> (False, transmit_error_response (dm_now d) 400 REQUEST_MALFORMED c2)
                      | (True, c2) \<Rightarrow> (True, c2\<lparr>mc_state := Header_part_received\<rparr>)))
       | Header_part_received \<Rightarrow>
           (case line of None \<Rightarrow> no_line c1 Header_part_received
            | Some l \<Rightarrow>
                (case process_broken_line d l Header_kind c1 of
                   (False, c2) \<Rightarrow> (True, c2)
                 | (True, c2) \<Rightarrow> if empty_line l then (True, c2\<lparr>mc_state := Headers_received\<rparr>) else (True, c2)))
       | _ \<Rightarrow> (False, c)))"

definition state_rank :: "connection_state \<Rightarrow> nat" where
  "state_rank s = (case s of Conn_init \<Rightarrow> 3 | Url_received \<Rightarrow> 2 | Header_part_received \<Rightarrow> 1 | _ \<Rightarrow> 0)"

lemma grow_frame:
  "try_grow_read_buffer d c = (ok, c1) \<Longrightarrow> mc_state c1 = mc_state c \<and> mc_read_buffer c1 = mc_read_buffer c"
  by (auto simp: try_grow_read_buffer_def Let_def split: prod.splits option.splits)

lemma error_rank: "state_rank (mc_state (transmit_error_response now status message c)) = 0"
  using error_state [of now status message c] by (auto simp: state_rank_def)

lemma next_line_some:
  assumes "get_next_header_line d c = (Some l, c1)"
  shows "mc_state c1 = mc_state c \<and> length (mc_read_buffer c1) < length (mc_read_buffer c)"
  using assms by (auto simp: get_next_header_line_def Let_def split: if_splits prod.splits bool.splits)

lemma next_line_none:
  assumes "get_next_header_line d c = (None, c1)"
  shows "mc_state c1 = mc_state c \<or> state_rank (mc_state c1) = 0"
  using assms error_rank
  by (auto simp: get_next_header_line_def Let_def dest: grow_frame split: if_splits prod.splits bool.splits)

lemma add_header_state:
  assumes "connection_add_header d kind key v c = (ok, c1)"
  shows "if ok then mc_state c1 = mc_state c \<and> mc_read_buffer c1 = mc_read_buffer c else state_rank (mc_state c1) = 0"
  using assms error_rank
  by (auto simp: connection_add_header_def MHD_set_connection_value_def split: prod.splits option.splits bool.splits)

lemma header_line_state:
  "process_header_line line c = (ok, c1) \<Longrightarrow>
   if ok then mc_state c1 = mc_state c \<and> mc_read_buffer c1 = mc_read_buffer c else mc_state c1 = Conn_closed"
  by (auto simp: process_header_line_def connection_close_def split: option.splits)

lemma broken_line_state:
  assumes "process_broken_line d line kind c = (ok, c1)"
  shows "if ok then mc_state c1 = mc_state c \<and> mc_read_buffer c1 = mc_read_buffer c else state_rank (mc_state c1) = 0"
proof (cases "cstring (fst line) \<noteq> [] \<and> (hd (cstring (fst line)) = CHR '' '' \<or> hd (cstring (fst line)) = CHR 0x09)")
  case True
  then show ?thesis using assms error_rank
    by (auto simp: process_broken_line_def Let_def split: prod.splits option.splits)
next
  case False
  obtain r c2 where a: "connection_add_header d kind (mc_last c) (Some (mc_colon c)) c = (r, c2)" by fastforce
  note a1 = add_header_state [OF a]
  obtain r3 c3 where h: "process_header_line line c2 = (r3, c3)" by fastforce
  note h1 = header_line_state [OF h]
  show ?thesis
  proof (cases r)
    case True
    then show ?thesis using assms False a a1 h h1 error_rank
      by (cases r3; cases "cstring (fst line) = []") (auto simp: process_broken_line_def Let_def)
  next
    case r: False
    then show ?thesis using assms False a error_rank by (auto simp: process_broken_line_def Let_def)
  qed
qed

text \<open>Every turn that lets the loop go on moves to a later state or uses up a part of the buffer.\<close>

lemma head_step_progress:
  assumes "head_step d c = (True, c1)"
  shows "state_rank (mc_state c1) < state_rank (mc_state c) \<or>
    mc_state c1 = Header_part_received \<and> mc_state c = Header_part_received \<and> length (mc_read_buffer c1) < length (mc_read_buffer c)"
proof -
  obtain line c2 where l: "get_next_header_line d c = (line, c2)" by fastforce
  show ?thesis
  proof (cases line)
    case None
    note n = next_line_none [OF l [unfolded None]]
    show ?thesis using assms n l None
      by (auto simp: head_step_def no_line_def connection_close_def state_rank_def split: connection_state.splits if_splits)
  next
    case (Some s)
    note n = next_line_some [OF l [unfolded Some]]
    obtain r3 c3 where h: "process_header_line s c2 = (r3, c3)" by fastforce
    obtain r4 c4 where b: "process_broken_line d s Header_kind c2 = (r4, c4)" by fastforce
    note h1 = header_line_state [OF h] and b1 = broken_line_state [OF b]
    show ?thesis
    proof (cases "mc_state c")
      case Conn_init
      then show ?thesis using assms n l Some
        by (auto simp: head_step_def no_line_def connection_close_def state_rank_def split: if_splits prod.splits bool.splits)
    next
      case Url_received
      then show ?thesis using assms n l Some h
        by (auto simp: head_step_def state_rank_def split: if_splits bool.splits)
    next
      case Header_part_received
      then show ?thesis using assms n l Some b b1
        by (auto simp: head_step_def state_rank_def split: if_splits bool.splits)
    qed (use assms l Some in \<open>simp_all add: head_step_def\<close>)
  qed
qed

function read_head :: "mhd_daemon \<Rightarrow> mhd_conn \<Rightarrow> mhd_conn" where
  "read_head d c = (case head_step d c of (True, c1) \<Rightarrow> read_head d c1 | (False, c1) \<Rightarrow> c1)"
  by pat_completeness auto
termination
  by (relation "measures [\<lambda>(d, c). state_rank (mc_state c), \<lambda>(d, c). length (mc_read_buffer c)]")
    (auto dest!: sym [of "(True, _)"] head_step_progress)

declare read_head.simps [simp del]

subsection \<open>Requests, however they arrive\<close>

text \<open>What a client sends, and which requests the theorems are about: no control characters, a blank in the right
  places only.  Query arguments are the subject of theory MhdUri.\<close>

definition field_text :: "string \<times> string \<Rightarrow> string" where
  "field_text h = fst h @ '': '' @ snd h @ CRLF"

definition request_text :: "string \<Rightarrow> string \<Rightarrow> string \<Rightarrow> (string \<times> string) list \<Rightarrow> string" where
  "request_text m t v hs = m @ '' '' @ t @ '' '' @ v @ CRLF @ concat (map field_text hs) @ CRLF"

definition clean :: "string \<Rightarrow> bool" where
  "clean s = list_all (\<lambda>x. \<not> is_eol x \<and> x \<noteq> NUL) s"

definition word_ok :: "string \<Rightarrow> bool" where
  "word_ok s = (s \<noteq> [] \<and> clean s \<and> CHR '' '' \<notin> set s)"

definition field_ok :: "string \<times> string \<Rightarrow> bool" where
  "field_ok h = (word_ok (fst h) \<and> CHR 0x09 \<notin> set (fst h) \<and> CHR '':'' \<notin> set (fst h) \<and> clean (snd h) \<and>
     (snd h = [] \<or> hd (snd h) \<notin> {CHR '' '', CHR 0x09}))"

definition request_ok :: "string \<Rightarrow> string \<Rightarrow> string \<Rightarrow> (string \<times> string) list \<Rightarrow> bool" where
  "request_ok m t v hs = (word_ok m \<and> word_ok t \<and> CHR ''?'' \<notin> set t \<and> word_ok v \<and> list_all field_ok hs)"

text \<open>The bytes of the network come in pieces; after each the idle function runs.\<close>

fun head_received :: "mhd_daemon \<Rightarrow> string list \<Rightarrow> mhd_conn \<Rightarrow> mhd_conn" where
  "head_received d [] c = c"
| "head_received d (bytes # later) c =
     head_received d later (read_head d (c\<lparr>mc_read_buffer := mc_read_buffer c @ bytes\<rparr>))"

lemma clean_simps [simp]:
  "clean []" "clean (x # s) \<longleftrightarrow> \<not> is_eol x \<and> x \<noteq> NUL \<and> clean s" "clean (s @ t) \<longleftrightarrow> clean s \<and> clean t"
  by (auto simp: clean_def)

lemma clean_cstring: "clean s \<Longrightarrow> cstring s = s"
  by (intro cstring_id) (auto simp: clean_def list_all_iff)

lemma clean_lines: "clean s \<Longrightarrow> takeWhile (\<lambda>x. \<not> is_eol x) (s @ CHR 0x0D # r) = s"
  "clean s \<Longrightarrow> takeWhile (\<lambda>x. \<not> is_eol x) s = s"
  by (induction s) (auto simp: is_eol_def)

lemma butlast_pick: "n < length s \<Longrightarrow> butlast s = take n s @ butlast (drop n s)"
  by (metis append_take_drop_id butlast_append drop_eq_Nil not_le)

text \<open>A line is returned when it is complete with its line feed, and never before.\<close>

lemma line_there:
  assumes "mc_read_buffer c = l @ CRLF @ r" "clean l"
  shows "get_next_header_line d c = (Some (l, mc_read_at c),
    c\<lparr>mc_read_at := map_option (\<lambda>a. a + of_nat (length l + 2)) (mc_read_at c),
      mc_read_size := mc_read_size c - of_nat (length l + 2), mc_read_buffer := r\<rparr>)"
proof -
  have "butlast (l @ CRLF @ r) = l @ CHR 0x0D # butlast (CHR 0x0A # r)" by (simp add: butlast_append)
  then have pos: "length (takeWhile (\<lambda>x. \<not> is_eol x) (butlast (mc_read_buffer c))) = length l"
    using assms clean_lines(1) by simp
  show ?thesis unfolding get_next_header_line_def Let_def pos using assms(1) by (simp add: nth_append)
qed

lemma line_missing:
  assumes "mc_read_buffer c @ fut = l @ CRLF @ r" "clean l" "length (mc_read_buffer c) < length l + 2"
    "of_nat (length (mc_read_buffer c)) \<noteq> mc_read_size c"
  shows "get_next_header_line d c = (None, c)"
proof (cases "mc_read_buffer c = []")
  case False
  let ?b = "mc_read_buffer c"
  have b: "?b = take (length ?b) (l @ [CHR 0x0D])"
    using arg_cong [OF assms(1), of "take (length ?b)"] assms(3) by (simp add: take_Cons' split: if_splits)
  have "clean (butlast ?b)"
  proof (cases "length ?b \<le> length l")
    case True
    then have "clean ?b" using b assms(2) by (metis append_take_drop_id clean_simps(3) take_append take_all diff_is_0_eq take_0 append_Nil2)
    then show ?thesis using False by (metis append_butlast_last_id clean_simps(3))
  next
    case False
    then have "?b = l @ [CHR 0x0D]" using b assms(3) by simp
    then show ?thesis using assms(2) by simp
  qed
  then have pos: "length (takeWhile (\<lambda>x. \<not> is_eol x) (butlast ?b)) = length ?b - 1" by (simp add: clean_lines(2))
  have "set ?b \<subseteq> set (l @ [CHR 0x0D])" using b by (metis set_take_subset)
  then have "CHR 0x0A \<notin> set ?b" using assms(2) by (auto simp: clean_def list_all_iff is_eol_def)
  then have "?b ! (length ?b - 1) \<noteq> CHR 0x0A" using False by (metis diff_less length_greater_0_conv less_numeral_extra(1) nth_mem)
  then show ?thesis unfolding get_next_header_line_def Let_def pos using False assms(4) by simp
qed (simp add: get_next_header_line_def)

lemma unat_bound: "unat (w :: 64 word) < 2 ^ 64"
  using unsigned_less [of w] by simp

lemma unat_of_size: "n \<le> unat (w :: 64 word) \<Longrightarrow> unat (of_nat n :: 64 word) = n"
  using unat_bound [of w] by (simp add: unat_of_nat)

lemma line_cases:
  assumes "mc_read_buffer c @ fut = l @ CRLF @ r" "clean l" "length (mc_read_buffer c @ fut) + n < unat (mc_read_size c)"
  obtains (missing) "get_next_header_line d c = (None, c)" "fut \<noteq> []"
  | (there) b where "b @ fut = r" "get_next_header_line d c = (Some (l, mc_read_at c),
      c\<lparr>mc_read_at := map_option (\<lambda>a. a + of_nat (length l + 2)) (mc_read_at c),
        mc_read_size := mc_read_size c - of_nat (length l + 2), mc_read_buffer := b\<rparr>)"
      "length (b @ fut) + n < unat (mc_read_size c - of_nat (length l + 2))"
proof (cases "length (mc_read_buffer c) < length l + 2")
  case True
  have "unat (of_nat (length (mc_read_buffer c)) :: 64 word) < unat (mc_read_size c)"
    using assms(3) unat_of_size [of "length (mc_read_buffer c)" "mc_read_size c"] by simp
  then have "of_nat (length (mc_read_buffer c)) \<noteq> mc_read_size c" by auto
  then show ?thesis using line_missing [OF assms(1,2) True, of d] assms(1) True missing by (cases fut) auto
next
  case False
  define b where "b = drop (length l + 2) (mc_read_buffer c)"
  have tk: "take (length l + 2) (mc_read_buffer c) = l @ CRLF"
    using False arg_cong [OF assms(1), of "take (length l + 2)"] by simp
  have "mc_read_buffer c = take (length l + 2) (mc_read_buffer c) @ b" unfolding b_def by (rule append_take_drop_id [symmetric])
  then have b: "mc_read_buffer c = l @ CRLF @ b" unfolding tk by simp
  have le: "length l + 2 \<le> unat (mc_read_size c)" using assms(1,3) by simp
  then have lw: "unat (of_nat (length l + 2) :: 64 word) = length l + 2" by (rule unat_of_size)
  have "unat (mc_read_size c - of_nat (length l + 2)) = unat (mc_read_size c) - (length l + 2)"
    using le lw by (simp only: unat_sub word_le_nat_alt)
  moreover have "length (mc_read_buffer c @ fut) = length l + 2 + length (b @ fut)" by (simp add: b)
  ultimately have len: "length (b @ fut) + n < unat (mc_read_size c - of_nat (length l + 2))" using assms(3) le by linarith
  have r: "b @ fut = r" using b assms(1) by simp
  show ?thesis by (rule there [OF r line_there [OF b assms(2)] len])
qed

subsection \<open>The first line and the headers\<close>

lemma version_at_last:
  assumes "u \<noteq> []" "v \<noteq> []" "CHR '' '' \<notin> set v"
  shows "version_at (u @ '' '' @ v) = length u"
proof -
  obtain x u' where u: "u = x # u'" using assms(1) by (cases u) auto
  obtain v' y where v: "v = v' @ [y]" using assms(2) by (cases v rule: rev_cases) auto
  have "y \<noteq> CHR '' ''" using assms(3) v by auto
  then have one: "length (u @ '' '' @ v) - length (takeWhile (\<lambda>x. x = CHR '' '') (rev (tl (u @ '' '' @ v)))) - 1 = length (u @ '' '' @ v) - 1"
    by (simp add: u v)
  have "rev (tl (u @ '' '' @ v)) = rev v @ CHR '' '' # rev u'" by (simp add: u)
  then have "takeWhile (\<lambda>x. x \<noteq> CHR '' '') (rev (tl (u @ '' '' @ v))) = rev v"
    using assms(3) takeWhile_append_stop [of "rev v" "\<lambda>x. x \<noteq> CHR '' ''" "CHR '' ''" "rev u'"] by auto
  then show ?thesis unfolding version_at_def Let_def one by simp
qed

lemma split_request:
  assumes "word_ok m" "word_ok t" "word_ok v"
  shows "split_request_line (m @ '' '' @ t @ '' '' @ v) = Some (m, Some (t, v))"
proof -
  have k: "strchr (m @ '' '' @ t @ '' '' @ v) (CHR '' '') = Some (length m)"
    using assms(1) strchr_append [of "CHR '' ''" m] by (simp add: word_ok_def)
  have "dropWhile (\<lambda>x. x = CHR '' '') (t @ '' '' @ v) = t @ '' '' @ v"
    using assms(2) by (cases t) (auto simp: word_ok_def)
  moreover have "version_at (t @ '' '' @ v) = length t" using assms by (intro version_at_last) (auto simp: word_ok_def)
  ultimately show ?thesis using assms(2) unfolding split_request_line_def k by (simp add: Let_def word_ok_def)
qed

definition room :: "pool \<Rightarrow> nat \<Rightarrow> bool" where
  "room p n = (unat (pool_pos p) + 32 * n \<le> unat (pool_end p))"

lemma room_allocate:
  assumes "room p (Suc n)"
  shows "\<exists>a p1. MHD_pool_allocate p 32 True = (Some a, p1) \<and> room p1 n"
proof -
  have r: "ROUND_TO_ALIGN 32 = 32" by (simp add: ROUND_TO_ALIGN_def ALIGN_SIZE_def)
  have s: "unat (pool_pos p + 32) = unat (pool_pos p) + 32"
    using assms unat_bound [of "pool_end p"] by (simp add: room_def unat_word_ariths)
  have "unat (pool_end p - 32) = unat (pool_end p) - 32"
    using assms by (simp add: room_def unat_sub word_le_nat_alt)
  then show ?thesis using assms s
    by (simp add: MHD_pool_allocate_def r Let_def room_def word_less_nat_alt)
qed

lemma add_header_room:
  assumes "room (mc_pool c) (Suc n)"
  shows "\<exists>p1. connection_add_header d kind key v c = (True, c\<lparr>mc_pool := p1, mc_headers := mc_headers c @ [(kind, key, v)]\<rparr>) \<and> room p1 n"
  using room_allocate [OF assms] by (auto simp: connection_add_header_def MHD_set_connection_value_def)

lemma header_line_field:
  assumes "field_ok h"
  shows "process_header_line (fst h @ '': '' @ snd h, a) c = (True, c\<lparr>mc_last := fst h, mc_last_at := a, mc_colon := snd h\<rparr>)"
proof -
  have "clean (fst h @ '': '' @ snd h)" using assms by (auto simp: field_ok_def word_ok_def is_eol_def)
  then have "cstring (fst h @ '': '' @ snd h) = fst h @ '': '' @ snd h" by (rule clean_cstring)
  moreover have "strchr (fst h @ '': '' @ snd h) (CHR '':'') = Some (length (fst h))"
    using assms strchr_append [of "CHR '':''" "fst h"] by (simp add: field_ok_def)
  moreover have "dropWhile (\<lambda>x. x = CHR '' '' \<or> x = CHR 0x09) (CHR '' '' # snd h) = snd h"
    using assms by (cases "snd h") (auto simp: field_ok_def)
  ultimately show ?thesis by (simp add: process_header_line_def)
qed

text \<open>Where the connection stands in a request: the text that is left, and what has been taken of it.\<close>

definition as_headers :: "(string \<times> string) list \<Rightarrow> (value_kind \<times> string \<times> string option) list" where
  "as_headers hs = map (\<lambda>(n, v). (Header_kind, n, Some v)) hs"

text \<open>
  What the request leaves alone, and what is to be left over: \<open>sp\<close> has the bytes of the read buffer and the records in
  the pool that are still free at the end, and the fields of the reply.
\<close>

type_synonym spare = "nat \<times> nat \<times> response option \<times> nat \<times> bool"

definition reply_fields :: "mhd_conn \<Rightarrow> response option \<times> nat \<times> bool" where
  "reply_fields c = (mc_response c, mc_write_position c, mc_chunked c)"

definition head_left ::
    "spare \<Rightarrow> string \<Rightarrow> string \<Rightarrow> string \<Rightarrow> (string \<times> string) list \<Rightarrow> string \<Rightarrow> mhd_conn \<Rightarrow> string \<Rightarrow> bool" where
  "head_left sp m t v hs tail c w = (length w + fst sp < unat (mc_read_size c) \<and> \<not> mc_read_closed c \<and> reply_fields c = snd (snd sp) \<and>
     (mc_state c = Conn_init \<and> mc_headers c = [] \<and> w = request_text m t v hs @ tail \<and> room (mc_pool c) (length hs + fst (snd sp))
    \<or> mc_method c = Some m \<and> mc_version c = Some v \<and> mc_url c = Some (cstring (MHD_http_unescape t)) \<and>
       (mc_state c = Url_received \<and> mc_headers c = [] \<and> w = concat (map field_text hs) @ CRLF @ tail \<and>
           room (mc_pool c) (length hs + fst (snd sp))
      \<or> (\<exists>past h later. mc_state c = Header_part_received \<and> hs = past @ h # later \<and> mc_headers c = as_headers past \<and>
           mc_last c = fst h \<and> mc_colon c = snd h \<and> w = concat (map field_text later) @ CRLF @ tail \<and>
           room (mc_pool c) (length later + 1 + fst (snd sp))))))"

definition head_read ::
    "spare \<Rightarrow> string \<Rightarrow> string \<Rightarrow> string \<Rightarrow> (string \<times> string) list \<Rightarrow> string \<Rightarrow> mhd_conn \<Rightarrow> string \<Rightarrow> bool" where
  "head_read sp m t v hs tail c w = (mc_state c = Headers_received \<and> mc_method c = Some m \<and> mc_version c = Some v \<and>
     mc_url c = Some (cstring (MHD_http_unescape t)) \<and> mc_headers c = as_headers hs \<and> w = tail \<and>
     \<not> mc_read_closed c \<and> reply_fields c = snd (snd sp) \<and> room (mc_pool c) (fst (snd sp)))"

lemma url_line_step:
  assumes "request_ok m t v hs" "mc_state c = Conn_init" "mc_read_buffer c @ fut = request_text m t v hs @ tail"
    "head_left sp m t v hs tail c (mc_read_buffer c @ fut)"
  shows "(\<exists>c1. head_step d c = (True, c1) \<and> head_left sp m t v hs tail c1 (mc_read_buffer c1 @ fut)) \<or>
    head_step d c = (False, c) \<and> fut \<noteq> []"
proof -
  let ?l = "m @ '' '' @ t @ '' '' @ v" and ?r = "concat (map field_text hs) @ CRLF @ tail"
  have w: "mc_read_buffer c @ fut = ?l @ CRLF @ ?r" using assms(3) by (simp add: request_text_def)
  have ok: "word_ok m" "word_ok t" "word_ok v" "CHR ''?'' \<notin> set t" using assms(1) by (simp_all add: request_ok_def)
  then have l: "clean ?l" "?l \<noteq> []" by (simp_all add: word_ok_def is_eol_def)
  have len: "length (mc_read_buffer c @ fut) + fst sp < unat (mc_read_size c)" using assms(4) unfolding head_left_def by blast
  have rm: "room (mc_pool c) (length hs + fst (snd sp))" and rc: "\<not> mc_read_closed c" "mc_headers c = []" "reply_fields c = snd (snd sp)"
    using assms(2,4) by (auto simp: head_left_def)
  from w l(1) len show ?thesis
  proof (cases rule: line_cases [of c fut ?l ?r "fst sp" d])
    case missing
    then show ?thesis using assms(2) rc by (simp add: head_step_def no_line_def)
  next
    case (there b)
    have "strchr t (CHR ''?'') = None" using ok(4) by (simp add: strchr_None)
    moreover have "cstring m = m" "cstring t = t" "cstring v = v" using ok(1-3) by (auto simp: word_ok_def intro: clean_cstring)
    ultimately have p: "parse_initial_message_line d ?l c' = (True, c'\<lparr>mc_method := Some m, mc_version := Some v,
        mc_url := Some (cstring (MHD_http_unescape t))\<rparr>)" for c'
      using split_request [OF ok(1-3)] by (simp add: parse_initial_message_line_def Let_def)
    have e: "\<not> empty_line (?l, a)" for a using l clean_cstring [OF l(1)] unfolding empty_line_def by simp
    have s: "\<exists>c1. head_step d c = (True, c1) \<and> mc_state c1 = Url_received \<and> mc_method c1 = Some m \<and> mc_version c1 = Some v \<and>
       mc_url c1 = Some (cstring (MHD_http_unescape t)) \<and> mc_headers c1 = [] \<and> mc_pool c1 = mc_pool c \<and>
       mc_read_size c1 = mc_read_size c - of_nat (length ?l + 2) \<and> mc_read_buffer c1 = b \<and> \<not> mc_read_closed c1 \<and> reply_fields c1 = reply_fields c"
      unfolding head_step_def there(2) prod.case assms(2) connection_state.case option.case
      using e rc by (simp only: p fst_conv if_False prod.case bool.case) (simp add: reply_fields_def)
    then obtain c1 where c1: "head_step d c = (True, c1)" "mc_state c1 = Url_received" "mc_method c1 = Some m"
      "mc_version c1 = Some v" "mc_url c1 = Some (cstring (MHD_http_unescape t))" "mc_headers c1 = []" "mc_pool c1 = mc_pool c"
      "mc_read_size c1 = mc_read_size c - of_nat (length ?l + 2)" "mc_read_buffer c1 = b" "\<not> mc_read_closed c1" "reply_fields c1 = reply_fields c" by blast
    have "head_left sp m t v hs tail c1 (mc_read_buffer c1 @ fut)"
      unfolding head_left_def c1 using there(3) there(1) rm c1(10) rc(3) by simp
    then show ?thesis using c1(1) by blast
  qed
qed

lemma header_line_step:
  assumes "request_ok m t v hs" "mc_state c = Url_received"
    and left: "head_left sp m t v hs tail c (mc_read_buffer c @ fut)"
  shows "(\<exists>c1. head_step d c = (True, c1) \<and> (head_left sp m t v hs tail c1 (mc_read_buffer c1 @ fut) \<or>
      head_read sp m t v hs tail c1 (mc_read_buffer c1 @ fut))) \<or> head_step d c = (False, c) \<and> fut \<noteq> []"
proof -
  have len: "length (mc_read_buffer c @ fut) + fst sp < unat (mc_read_size c)" using left unfolding head_left_def by blast
  have st: "\<not> mc_read_closed c" "mc_method c = Some m" "mc_version c = Some v"
    "mc_url c = Some (cstring (MHD_http_unescape t))" "mc_headers c = []" "room (mc_pool c) (length hs + fst (snd sp))" "reply_fields c = snd (snd sp)"
    and w: "mc_read_buffer c @ fut = concat (map field_text hs) @ CRLF @ tail"
    using left assms(2) by (auto simp: head_left_def)
  show ?thesis
  proof (cases hs)
    case Nil
    have w0: "mc_read_buffer c @ fut = [] @ CRLF @ tail" using w Nil by simp
    have cl: "clean []" by simp
    from w0 cl len show ?thesis
    proof (cases rule: line_cases [of c fut "[]" tail "fst sp" d])
      case missing
      then show ?thesis using assms(2) st by (simp add: head_step_def no_line_def)
    next
      case (there b)
      let ?c = "c\<lparr>mc_read_at := map_option (\<lambda>a. a + of_nat (length ([] :: string) + 2)) (mc_read_at c),
        mc_read_size := mc_read_size c - of_nat (length ([] :: string) + 2), mc_read_buffer := b, mc_state := Headers_received\<rparr>"
      have "head_step d c = (True, ?c)"
        unfolding head_step_def there(2) prod.case assms(2) connection_state.case option.case by (simp add: empty_line_def cstring_def)
      moreover have "head_read sp m t v hs tail ?c (mc_read_buffer ?c @ fut)"
        using st there(1) Nil by (simp add: head_read_def as_headers_def reply_fields_def)
      ultimately show ?thesis by blast
    qed
  next
    case (Cons h later)
    let ?l = "fst h @ '': '' @ snd h" and ?r = "concat (map field_text later) @ CRLF @ tail"
    have h: "field_ok h" using assms(1) Cons by (simp add: request_ok_def)
    then have l: "clean ?l" "?l \<noteq> []" by (auto simp: field_ok_def word_ok_def is_eol_def)
    have w0: "mc_read_buffer c @ fut = ?l @ CRLF @ ?r" using w Cons by (simp add: field_text_def)
    from w0 l(1) len show ?thesis
    proof (cases rule: line_cases [of c fut ?l ?r "fst sp" d])
      case missing
      then show ?thesis using assms(2) st by (simp add: head_step_def no_line_def)
    next
      case (there b)
      let ?c = "c\<lparr>mc_read_at := map_option (\<lambda>a. a + of_nat (length ?l + 2)) (mc_read_at c),
        mc_read_size := mc_read_size c - of_nat (length ?l + 2), mc_read_buffer := b, mc_last := fst h,
        mc_last_at := mc_read_at c, mc_colon := snd h, mc_state := Header_part_received\<rparr>"
      have e: "\<not> empty_line (?l, a)" for a using l clean_cstring [OF l(1)] unfolding empty_line_def by simp
      have "head_step d c = (True, ?c)"
        unfolding head_step_def there(2) prod.case assms(2) connection_state.case option.case
        using e by (simp only: if_False header_line_field [OF h] prod.case bool.case)
      moreover have "head_left sp m t v hs tail ?c (mc_read_buffer ?c @ fut)"
      proof -
        have "\<exists>past h' later'. hs = past @ h' # later' \<and> [] = as_headers past \<and> fst h = fst h' \<and> snd h = snd h' \<and>
            b @ fut = concat (map field_text later') @ CRLF @ tail \<and> room (mc_pool c) (length later' + 1 + fst (snd sp))"
          using Cons there(1) st(6) by (intro exI [of _ "[]"] exI [of _ h] exI [of _ later]) (simp add: as_headers_def)
        then show ?thesis unfolding head_left_def using st there(3) by (simp add: reply_fields_def)
      qed
      ultimately show ?thesis by blast
    qed
  qed
qed

lemma broken_line_step:
  assumes "request_ok m t v hs" "mc_state c = Header_part_received"
    and left: "head_left sp m t v hs tail c (mc_read_buffer c @ fut)"
  shows "(\<exists>c1. head_step d c = (True, c1) \<and> (head_left sp m t v hs tail c1 (mc_read_buffer c1 @ fut) \<or>
      head_read sp m t v hs tail c1 (mc_read_buffer c1 @ fut))) \<or> head_step d c = (False, c) \<and> fut \<noteq> []"
proof -
  have len: "length (mc_read_buffer c @ fut) + fst sp < unat (mc_read_size c)" using left unfolding head_left_def by blast
  obtain past h later where st: "\<not> mc_read_closed c" "mc_method c = Some m" "mc_version c = Some v"
    "mc_url c = Some (cstring (MHD_http_unescape t))" "hs = past @ h # later" "mc_headers c = as_headers past"
    "mc_last c = fst h" "mc_colon c = snd h" "room (mc_pool c) (Suc (length later + fst (snd sp)))" "reply_fields c = snd (snd sp)"
    and w: "mc_read_buffer c @ fut = concat (map field_text later) @ CRLF @ tail"
    using left assms(2) by (auto simp: head_left_def)
  show ?thesis
  proof (cases later)
    case Nil
    have w0: "mc_read_buffer c @ fut = [] @ CRLF @ tail" using w Nil by simp
    have cl: "clean []" by simp
    from w0 cl len show ?thesis
    proof (cases rule: line_cases [of c fut "[]" tail "fst sp" d])
      case missing
      then show ?thesis using assms(2) st(1) by (simp add: head_step_def no_line_def)
    next
      case (there b)
      let ?c = "c\<lparr>mc_read_at := map_option (\<lambda>a. a + of_nat (length ([] :: string) + 2)) (mc_read_at c),
        mc_read_size := mc_read_size c - of_nat (length ([] :: string) + 2), mc_read_buffer := b\<rparr>"
      have "room (mc_pool ?c) (Suc (fst (snd sp)))" using st(9) Nil by simp
      from add_header_room [OF this, of d Header_kind "fst h" "Some (snd h)"]
      obtain p1 where p1: "connection_add_header d Header_kind (fst h) (Some (snd h)) ?c
          = (True, ?c\<lparr>mc_pool := p1, mc_headers := mc_headers ?c @ [(Header_kind, fst h, Some (snd h))]\<rparr>)"
        and r1: "room p1 (fst (snd sp))" by blast
      let ?d = "?c\<lparr>mc_pool := p1, mc_headers := mc_headers ?c @ [(Header_kind, fst h, Some (snd h))], mc_state := Headers_received\<rparr>"
      have "process_broken_line d ([], mc_read_at c) Header_kind ?c = (True, ?c\<lparr>mc_pool := p1, mc_headers := mc_headers ?c @ [(Header_kind, fst h, Some (snd h))]\<rparr>)"
        using p1 st(7,8) by (simp add: process_broken_line_def cstring_def)
      then have "head_step d c = (True, ?d)"
        unfolding head_step_def there(2) prod.case assms(2) connection_state.case option.case by (simp add: empty_line_def cstring_def)
      moreover have "head_read sp m t v hs tail ?d (mc_read_buffer ?d @ fut)"
        using st there(1) Nil r1 by (simp add: head_read_def as_headers_def split_beta reply_fields_def)
      ultimately show ?thesis by blast
    qed
  next
    case (Cons k rest)
    let ?l = "fst k @ '': '' @ snd k" and ?r = "concat (map field_text rest) @ CRLF @ tail"
    have k: "field_ok k" using assms(1) Cons st(5) by (simp add: request_ok_def)
    then have l: "clean ?l" "?l \<noteq> []" by (auto simp: field_ok_def word_ok_def is_eol_def)
    have w0: "mc_read_buffer c @ fut = ?l @ CRLF @ ?r" using w Cons by (simp add: field_text_def)
    from w0 l(1) len show ?thesis
    proof (cases rule: line_cases [of c fut ?l ?r "fst sp" d])
      case missing
      then show ?thesis using assms(2) st(1) by (simp add: head_step_def no_line_def)
    next
      case (there b)
      let ?c = "c\<lparr>mc_read_at := map_option (\<lambda>a. a + of_nat (length ?l + 2)) (mc_read_at c),
        mc_read_size := mc_read_size c - of_nat (length ?l + 2), mc_read_buffer := b\<rparr>"
      have "room (mc_pool ?c) (Suc (Suc (length rest + fst (snd sp))))" using st(9) Cons by simp
      from add_header_room [OF this, of d Header_kind "fst h" "Some (snd h)"]
      obtain p1 where p1: "connection_add_header d Header_kind (fst h) (Some (snd h)) ?c
          = (True, ?c\<lparr>mc_pool := p1, mc_headers := mc_headers ?c @ [(Header_kind, fst h, Some (snd h))]\<rparr>)"
        and r1: "room p1 (Suc (length rest + fst (snd sp)))" by blast
      let ?d = "?c\<lparr>mc_pool := p1, mc_headers := mc_headers ?c @ [(Header_kind, fst h, Some (snd h))],
        mc_last := fst k, mc_last_at := mc_read_at c, mc_colon := snd k\<rparr>"
      have lc: "cstring ?l = ?l" by (rule clean_cstring [OF l(1)])
      have nb: "\<not> (hd ?l = CHR '' '' \<or> hd ?l = CHR 0x09)" using k by (cases "fst k") (auto simp: field_ok_def word_ok_def)
      have e: "\<not> empty_line (?l, a)" for a using l lc unfolding empty_line_def by simp
      have "process_broken_line d (?l, mc_read_at c) Header_kind ?c = (True, ?d)"
        unfolding process_broken_line_def Let_def fst_conv lc using nb l(2) p1 st(7,8)
        by (simp only: header_line_field [OF k] simp_thms if_False if_True prod.case bool.case mhd_conn.simps) simp
      then have "head_step d c = (True, ?d)"
        unfolding head_step_def there(2) prod.case assms(2) connection_state.case option.case
        using e by (simp only: if_False prod.case bool.case)
      moreover have "head_left sp m t v hs tail ?d (mc_read_buffer ?d @ fut)"
      proof -
        have "\<exists>past' h' later'. hs = past' @ h' # later' \<and> as_headers past @ [(Header_kind, fst h, Some (snd h))] = as_headers past' \<and>
            fst k = fst h' \<and> snd k = snd h' \<and> b @ fut = concat (map field_text later') @ CRLF @ tail \<and> room p1 (length later' + 1 + fst (snd sp))"
          using Cons st(5) there(1) r1
          by (intro exI [of _ "past @ [h]"] exI [of _ k] exI [of _ rest]) (simp add: as_headers_def split_beta)
        then show ?thesis unfolding head_left_def using st assms(2) there(3) by (simp add: reply_fields_def)
      qed
      ultimately show ?thesis by blast
    qed
  qed
qed

lemma head_step_cases:
  assumes "request_ok m t v hs" and left: "head_left sp m t v hs tail c (mc_read_buffer c @ fut)"
  shows "(\<exists>c1. head_step d c = (True, c1) \<and> (head_left sp m t v hs tail c1 (mc_read_buffer c1 @ fut) \<or>
      head_read sp m t v hs tail c1 (mc_read_buffer c1 @ fut))) \<or> head_step d c = (False, c) \<and> fut \<noteq> []"
proof -
  consider "mc_state c = Conn_init" | "mc_state c = Url_received" | "mc_state c = Header_part_received"
    using left unfolding head_left_def by blast
  then show ?thesis
  proof cases
    case 1
    then have "mc_read_buffer c @ fut = request_text m t v hs @ tail" using left by (auto simp: head_left_def)
    then show ?thesis using url_line_step [OF assms(1) 1 _ left] by blast
  next
    case 2
    then show ?thesis using header_line_step [OF assms(1) _ left] by blast
  next
    case 3
    then show ?thesis using broken_line_step [OF assms(1) _ left] by blast
  qed
qed

lemma read_head_done: "mc_state c = Headers_received \<Longrightarrow> read_head d c = c"
  by (subst read_head.simps) (simp add: head_step_def split_beta)

lemma read_head_left:
  "head_left sp m t v hs tail c (mc_read_buffer c @ fut) \<Longrightarrow> request_ok m t v hs \<Longrightarrow>
   head_read sp m t v hs tail (read_head d c) (mc_read_buffer (read_head d c) @ fut) \<or>
   head_left sp m t v hs tail (read_head d c) (mc_read_buffer (read_head d c) @ fut) \<and> fut \<noteq> []"
proof (induction d c rule: read_head.induct)
  case (1 d c)
  from head_step_cases [OF "1.prems"(2,1), of d] consider
    c1 where "head_step d c = (True, c1)" "head_left sp m t v hs tail c1 (mc_read_buffer c1 @ fut)"
    | c1 where "head_step d c = (True, c1)" "head_read sp m t v hs tail c1 (mc_read_buffer c1 @ fut)"
    | "head_step d c = (False, c)" "fut \<noteq> []" by blast
  then show ?case
  proof cases
    case (1 c1)
    then have "read_head d c = read_head d c1" by (subst read_head.simps) simp
    then show ?thesis using "1.IH" [OF 1(1) [symmetric] refl 1(2) "1.prems"(2)] by simp
  next
    case (2 c1)
    then have "read_head d c = c1"
      using read_head_done [of c1 d] by (subst read_head.simps) (simp add: head_read_def)
    then show ?thesis using 2 by simp
  next
    case 3
    then have "read_head d c = c" by (subst read_head.simps) simp
    then show ?thesis using 3 "1.prems" by simp
  qed
qed

lemma head_received_done:
  "head_read sp m t v hs tail c (mc_read_buffer c @ concat frags) \<Longrightarrow>
   head_read sp m t v hs tail (head_received d frags c) (mc_read_buffer (head_received d frags c))"
proof (induction frags arbitrary: c)
  case (Cons x xs)
  let ?c = "c\<lparr>mc_read_buffer := mc_read_buffer c @ x\<rparr>"
  have r: "head_read sp m t v hs tail ?c (mc_read_buffer ?c @ concat xs)" using Cons.prems by (simp add: head_read_def reply_fields_def)
  then have "read_head d ?c = ?c" by (intro read_head_done) (simp add: head_read_def)
  then show ?case using Cons.IH [OF r] by simp
qed simp

lemma head_received_left:
  "head_left sp m t v hs tail c (mc_read_buffer c @ concat frags) \<Longrightarrow> request_ok m t v hs \<Longrightarrow> frags \<noteq> [] \<Longrightarrow>
   head_read sp m t v hs tail (head_received d frags c) (mc_read_buffer (head_received d frags c))"
proof (induction frags arbitrary: c)
  case (Cons x xs)
  let ?c = "c\<lparr>mc_read_buffer := mc_read_buffer c @ x\<rparr>"
  have "head_left sp m t v hs tail ?c (mc_read_buffer ?c @ concat xs)" using Cons.prems(1) by (simp add: head_left_def reply_fields_def)
  from read_head_left [OF this Cons.prems(2), of d] show ?case
  proof (elim disjE conjE)
    assume "head_read sp m t v hs tail (read_head d ?c) (mc_read_buffer (read_head d ?c) @ concat xs)"
    then show ?thesis using head_received_done by simp
  next
    assume l: "head_left sp m t v hs tail (read_head d ?c) (mc_read_buffer (read_head d ?c) @ concat xs)" and "concat xs \<noteq> []"
    then have "xs \<noteq> []" by auto
    then show ?thesis using Cons.IH [OF l Cons.prems(2)] by simp
  qed
qed simp

lemma built_frame:
  "build_header_response now c rs = Built c1 \<Longrightarrow> mc_shut c1 = mc_shut c \<and> mc_code c1 = mc_code c \<and> mc_response c1 = mc_response c"
  by (auto simp: build_header_response_def Let_def split: prod.splits option.splits if_splits)

lemma int_str_length: "\<bar>x\<bar> < 10 ^ 18 \<Longrightarrow> length (int_str x) \<le> 19"
  using nat_str_short [of "nat x" 18] nat_str_short [of "nat (- x)" 18] by (auto simp: int_str_def nat_less_iff)

lemma int_str_clean: "clean (int_str x)"
  using plain_text_nat_str [of "nat x"] plain_text_nat_str [of "nat (- x)"]
  by (auto simp: int_str_def clean_def plain_text_def list_all_iff is_eol_def)

lemma addheader_fits:
  "length line < MAX_STRING - 4 \<Longrightarrow> length (h_request c) + length line + 3 < MAX_QUERY \<Longrightarrow>
   http_addheader line c = c\<lparr>h_request := h_request c @ line @ CRLF\<rparr>"
  by (simp add: http_addheader_def snprintf_buf_def)

lemma axel_request_text:
  assumes "h_proxy hc = 0" "cstring (h_auth hc) = []" "length path + length (h_host hc) < 900"
    and "length (int_str (h_firstbyte hc)) \<le> 19" "length (int_str (h_lastbyte hc)) \<le> 19"
  shows "h_request (http_addheader '''' (http_get path hc)) = request_text ''GET'' path HTTP_1_0
    ((''Host'', h_host hc) # (if h_firstbyte hc = 0 then [] else [(''Range'', ''bytes='' @ int_str (h_firstbyte hc) @ ''-'' @
       (if h_lastbyte hc = 0 then [] else int_str (h_lastbyte hc)))]))"
  using assms by (simp add: http_get_def Let_def addheader_fits request_text_def field_text_def HTTP_1_0_def)

lemma request_head_all:
  assumes "request_ok m t v hs" "concat frags = request_text m t v hs @ tail"
    and "mc_state c = Conn_init" "mc_read_buffer c = []" "mc_headers c = []" "\<not> mc_read_closed c"
    and "length (request_text m t v hs @ tail) < unat (mc_read_size c)" "room (mc_pool c) (length hs)"
  shows "\<exists>c1. head_received d frags c = c1 \<and> mc_state c1 = Headers_received \<and> mc_method c1 = Some m \<and>
    mc_url c1 = Some (cstring (MHD_http_unescape t)) \<and> mc_version c1 = Some v \<and>
    mc_headers c1 = map (\<lambda>(n, x). (Header_kind, n, Some x)) hs \<and> mc_read_buffer c1 = tail"
proof -
  have "head_left (0, 0, reply_fields c) m t v hs tail c (mc_read_buffer c @ concat frags)"
    using assms(2-8) by (simp add: head_left_def)
  moreover have "frags \<noteq> []" using assms(2) by (auto simp: request_text_def)
  ultimately show ?thesis
    using head_received_left [OF _ assms(1), of "(0, 0, reply_fields c)" tail c frags d] by (auto simp: head_read_def as_headers_def)
qed

subsection \<open>Contract\<close>

text \<open>C7: a request is understood however the network divides it: for every division into pieces of a request with
  plain method, target, version and headers that fits the read buffer and the pool, the daemon ends with exactly the
  method, the unescaped target, the version and all headers in order, and what follows the request is still unread.
\<close>

theorem request_head_received:
  assumes "request_ok m t v hs" "concat frags = request_text m t v hs @ tail"
    and "mc_state c = Conn_init" "mc_read_buffer c = []" "mc_headers c = []" "\<not> mc_read_closed c"
    and "length (request_text m t v hs @ tail) < unat (mc_read_size c)" "room (mc_pool c) (length hs)"
  shows "\<exists>c1. head_received d frags c = c1 \<and> mc_state c1 = Headers_received \<and> mc_method c1 = Some m \<and>
    mc_url c1 = Some (cstring (MHD_http_unescape t)) \<and> mc_version c1 = Some v \<and>
    mc_headers c1 = map (\<lambda>(n, x). (Header_kind, n, Some x)) hs \<and> mc_read_buffer c1 = tail"
  using assms by (rule request_head_all)

definition fresh_conn :: mhd_conn where
  "fresh_conn = \<lparr>mc_state = Conn_init,
     mc_pool = \<lparr>memory = [], pool_size = 1024, pool_pos = 512, pool_end = 1024\<rparr>,
     mc_read_at = Some 0, mc_read_size = 512, mc_read_buffer = [], mc_method = None, mc_url = None,
     mc_version = None, mc_headers = [], mc_last = [], mc_last_at = None, mc_colon = [],
     mc_read_closed = False, mc_shut = False, mc_response = None, mc_code = 0, mc_out = [], mc_write_at = None, mc_write_size = 0,
     mc_write_position = 0, mc_chunked = False, mc_upload_size = 0\<rparr>"

theorem request_head_received_witness:
  "\<exists>c1. head_received \<lparr>dm_pool_size = 1024, dm_now = None\<rparr>
       [''GET /a+b HT'', ''TP/1.0'' @ [CR], [NL] @ ''A: x'' @ CRLF @ CRLF @ ''tail''] fresh_conn = c1 \<and>
     mc_url c1 = Some ''/a+b'' \<and> mc_headers c1 = [(Header_kind, ''A'', Some ''x'')] \<and> mc_read_buffer c1 = ''tail''"
proof -
  have r: "concat [''GET /a+b HT'', ''TP/1.0'' @ [CR], [NL] @ ''A: x'' @ CRLF @ CRLF @ ''tail''] =
      request_text ''GET'' ''/a+b'' ''HTTP/1.0'' [(''A'', ''x'')] @ ''tail''"
    by (simp add: request_text_def field_text_def)
  have "request_ok ''GET'' ''/a+b'' ''HTTP/1.0'' [(''A'', ''x'')]"
    by (simp add: request_ok_def word_ok_def field_ok_def is_eol_def)
  moreover have "length (request_text ''GET'' ''/a+b'' ''HTTP/1.0'' [(''A'', ''x'')] @ ''tail'') < unat (mc_read_size fresh_conn)"
    by (simp add: fresh_conn_def request_text_def field_text_def)
  moreover have "room (mc_pool fresh_conn) (length [(''A'', ''x'')])" by (simp add: room_def fresh_conn_def)
  moreover have "cstring (MHD_http_unescape ''/a+b'') = ''/a+b''" by (simp add: MHD_http_unescape_def cstring_def)
  ultimately show ?thesis
    using request_head_received [OF _ r, of fresh_conn "\<lparr>dm_pool_size = 1024, dm_now = None\<rparr>"] by (simp add: fresh_conn_def)
qed

text \<open>The daemon understands axel: the request that the client builds for a path and a range, without a proxy and
  credentials, reaches the daemon in any pieces as a GET of the unescaped path in version 1.0, with the host and the
  range as its only headers.
\<close>

lemma axel_request_read_by_daemon:
  assumes "h_proxy hc = 0" "cstring (h_auth hc) = []"
    and "word_ok path" "CHR ''?'' \<notin> set path" "field_ok (''Host'', h_host hc)"
    and "length path + length (h_host hc) < 900" "\<bar>h_firstbyte hc\<bar> < 10 ^ 18" "\<bar>h_lastbyte hc\<bar> < 10 ^ 18"
    and "concat frags = h_request (http_addheader '''' (http_get path hc))"
    and "mc_state c = Conn_init" "mc_read_buffer c = []" "mc_headers c = []" "\<not> mc_read_closed c"
    and "1024 \<le> unat (mc_read_size c)" "room (mc_pool c) 2"
  shows "\<exists>c1. head_received d frags c = c1 \<and> mc_state c1 = Headers_received \<and> mc_method c1 = Some ''GET'' \<and>
    mc_url c1 = Some (cstring (MHD_http_unescape path)) \<and> mc_version c1 = Some HTTP_1_0 \<and>
    mc_headers c1 = (Header_kind, ''Host'', Some (h_host hc)) #
      (if h_firstbyte hc = 0 then []
       else [(Header_kind, ''Range'', Some (''bytes='' @ int_str (h_firstbyte hc) @ ''-'' @
               (if h_lastbyte hc = 0 then [] else int_str (h_lastbyte hc))))])"
proof -
  let ?range = "''bytes='' @ int_str (h_firstbyte hc) @ ''-'' @ (if h_lastbyte hc = 0 then [] else int_str (h_lastbyte hc))"
  let ?hs = "(''Host'', h_host hc) # (if h_firstbyte hc = 0 then [] else [(''Range'', ?range)])"
  have len: "length (int_str (h_firstbyte hc)) \<le> 19" "length (int_str (h_lastbyte hc)) \<le> 19"
    using assms(7,8) int_str_length by simp_all
  have req: "h_request (http_addheader '''' (http_get path hc)) = request_text ''GET'' path HTTP_1_0 ?hs"
    by (rule axel_request_text [OF assms(1,2,6) len])
  have "length (request_text ''GET'' path HTTP_1_0 ?hs) < 1024"
    using assms(6) len by (simp add: request_text_def field_text_def HTTP_1_0_def)
  then have fits: "length (request_text ''GET'' path HTTP_1_0 ?hs @ []) < unat (mc_read_size c)" using assms(14) by simp
  have "clean (int_str x)" for x by (rule int_str_clean)
  then have "request_ok ''GET'' path HTTP_1_0 ?hs"
    using assms(3-5) by (simp add: request_ok_def word_ok_def field_ok_def is_eol_def HTTP_1_0_def)
  moreover have "room (mc_pool c) (length ?hs)" using assms(15) by (auto simp: room_def)
  ultimately show ?thesis
    using request_head_all [of "''GET''" path HTTP_1_0 ?hs frags "[]" c d] assms(9-13) req fits by auto
qed

lemma axel_request_read_by_daemon_witness:
  "\<exists>c1. head_received \<lparr>dm_pool_size = 2048, dm_now = None\<rparr>
      [h_request (http_addheader '''' (http_get ''/f'' (http_zero\<lparr>h_host := ''h'', h_firstbyte := 10\<rparr>)))]
      (fresh_conn\<lparr>mc_read_size := 1024\<rparr>) = c1 \<and> mc_url c1 = Some ''/f'' \<and>
     mc_headers c1 = [(Header_kind, ''Host'', Some ''h''), (Header_kind, ''Range'', Some ''bytes=10-'')]"
proof -
  have "cstring (MHD_http_unescape ''/f'') = ''/f''" by (simp add: MHD_http_unescape_def cstring_def)
  moreover have "cstring (h_auth http_zero) = []" by (simp add: http_zero_def cstring_def)
  moreover have "int_str 10 = ''10''" by (simp add: print_eval)
  ultimately show ?thesis
    using axel_request_read_by_daemon [of "http_zero\<lparr>h_host := ''h'', h_firstbyte := 10\<rparr>" "''/f''"
        "[h_request (http_addheader '''' (http_get ''/f'' (http_zero\<lparr>h_host := ''h'', h_firstbyte := 10\<rparr>)))]"
        "fresh_conn\<lparr>mc_read_size := 1024\<rparr>" "\<lparr>dm_pool_size = 2048, dm_now = None\<rparr>"]
    by (simp add: http_zero_def fresh_conn_def word_ok_def field_ok_def is_eol_def room_def)
qed

text \<open>A header value that goes on in the next line is damaged: the continuation is appended to the name of the
  header, not to its value.
\<close>

lemma folded_header_damaged:
  assumes "clean k" "k \<noteq> []" "hd k \<notin> {CHR '' '', CHR 0x09}"
    and "process_broken_line d (CHR '' '' # k, a) kind c = (True, c1)" "process_broken_line d ([], b) kind c1 = (True, c2)"
  shows "mc_headers c2 = mc_headers c @ [(kind, mc_last c @ k, Some (mc_colon c))]"
proof -
  have "cstring (CHR '' '' # k) = CHR '' '' # k" using assms(1) by (intro clean_cstring) (simp add: is_eol_def)
  moreover have "dropWhile (\<lambda>x. x = CHR '' '' \<or> x = CHR 0x09) (CHR '' '' # k) = k" using assms(2,3) by (cases k) auto
  ultimately have "mc_last c1 = mc_last c @ k \<and> mc_colon c1 = mc_colon c \<and> mc_headers c1 = mc_headers c"
    using assms(4) by (auto simp: process_broken_line_def Let_def split: prod.splits option.splits)
  then show ?thesis using assms(5)
    by (auto simp: process_broken_line_def cstring_def connection_add_header_def MHD_set_connection_value_def
        split: prod.splits option.splits bool.splits)
qed

lemma folded_header_damaged_witness:
  "mc_headers (snd (process_broken_line \<lparr>dm_pool_size = 1024, dm_now = None\<rparr> ([], None) Header_kind
      (snd (process_broken_line \<lparr>dm_pool_size = 1024, dm_now = None\<rparr> ('' two'', None) Header_kind
        (fresh_conn\<lparr>mc_last := ''A'', mc_last_at := Some 0, mc_colon := ''one''\<rparr>)))))
   = [(Header_kind, ''Atwo'', Some ''one'')]"
proof -
  let ?d = "\<lparr>dm_pool_size = 1024, dm_now = None\<rparr>" and ?c = "fresh_conn\<lparr>mc_last := ''A'', mc_last_at := Some 0, mc_colon := ''one''\<rparr>"
  obtain ok c1 where c1: "process_broken_line ?d (CHR '' '' # ''two'', None) Header_kind ?c = (ok, c1)" by fastforce
  have ok: "ok" using c1
    by (auto simp: process_broken_line_def cstring_def fresh_conn_def MHD_pool_reallocate_def ROUND_TO_ALIGN_def ALIGN_SIZE_def Let_def)
  obtain ok2 c2 where c2: "process_broken_line ?d ([], None) Header_kind c1 = (ok2, c2)" by fastforce
  have ok2: "ok2" using c1 c2
    by (auto simp: process_broken_line_def cstring_def fresh_conn_def MHD_pool_reallocate_def ROUND_TO_ALIGN_def ALIGN_SIZE_def Let_def
        connection_add_header_def MHD_set_connection_value_def MHD_pool_allocate_def)
  show ?thesis
    using folded_header_damaged [of "''two''" ?d None Header_kind ?c c1 None c2] c1 c2 ok ok2 by (simp add: fresh_conn_def is_eol_def)
qed



end
