(* ===== verification/MhdFiles.thy ===== *)
theory MhdFiles
  imports MhdRequest
begin

unbundle bit_operations_syntax

text \<open>
  The file server, \<open>src/final/server/microhttpd/source/fileserver_example_dirs.c\<close>, on the embedded HTTP daemon: the
  application's handler and readers, and the rest of the state machine of
  \<open>src/final/server/microhttpd/microhttpd/connection.c\<close>, which calls the handler, builds the reply and sends it, with the
  handlers for a readable and a writable socket and the loop around them.  A file is proved to be delivered to the
  download client, under any fragmentation of the request and any pattern of partial writes.
\<close>

subsection \<open>The application\<close>

text \<open>
  The files the server can open, by the name given to \<open>fopen\<close>; what is not a regular file is \<open>Special\<close>.  The names
  in the current directory are given to \<open>dir_reader\<close> one after the other; \<open>None\<close> when it cannot be opened, with the
  text of the error.
\<close>

datatype node = Regular string | Special

record file_system =
  fs_nodes :: "string \<Rightarrow> node option"
  fs_dir :: "string list option"
  fs_error :: string

text \<open>Where the body of a reply comes from: the file that was opened, or what is left of the directory.\<close>

datatype source = No_source | From_file string | From_dir "string list"

datatype crc_result = Got string | End_of_stream

definition file_reader :: "string \<Rightarrow> nat \<Rightarrow> nat \<Rightarrow> crc_result" where
  "file_reader content pos max_bytes = Got (take max_bytes (drop pos content))"

fun dir_reader :: "string list \<Rightarrow> nat \<Rightarrow> crc_result \<times> string list" where
  "dir_reader names max_bytes =
     (if max_bytes < 512 then (Got [], names)
      else case dropWhile (\<lambda>n. n \<noteq> [] \<and> hd n = CHR ''.'') names of
        [] \<Rightarrow> (End_of_stream, [])
      | n # later \<Rightarrow> (Got (''<a href=\"/'' @ n @ ''\">'' @ n @ ''</a><br>''), later))"

definition call_crc :: "source \<Rightarrow> nat \<Rightarrow> nat \<Rightarrow> crc_result \<times> source" where
  "call_crc src pos max_bytes =
     (case src of No_source \<Rightarrow> (End_of_stream, No_source)
      | From_file content \<Rightarrow> (file_reader content pos max_bytes, src)
      | From_dir names \<Rightarrow> (case dir_reader names max_bytes of (r, later) \<Rightarrow> (r, From_dir later)))"

text \<open>The connection with what the application keeps of it: its context, and the source of the response.\<close>

record served =
  ap_conn :: mhd_conn
  ap_ctx :: bool
  ap_source :: source

definition callback_response :: "nat \<Rightarrow> nat \<Rightarrow> response" where
  "callback_response sz block_size = \<lparr>rs_total_size = sz, rs_headers = [], rs_http_1_0_only = False,
     rs_data = [], rs_start = 0, rs_buffer_size = block_size\<rparr>"

definition queue_from :: "nat \<Rightarrow> response \<Rightarrow> source \<Rightarrow> served \<Rightarrow> bool \<times> served" where
  "queue_from status rs src s =
     (case MHD_queue_response status rs (ap_conn s) of
        (True, c) \<Rightarrow> (True, s\<lparr>ap_conn := c, ap_source := src\<rparr>)
      | (False, c) \<Rightarrow> (False, s\<lparr>ap_conn := c\<rparr>))"

text \<open>The name to open is the URL without its first character; nothing else is asked of it.\<close>

definition ahc_echo :: "file_system \<Rightarrow> served \<Rightarrow> bool \<times> served" where
  "ahc_echo fs s =
     (if mc_method (ap_conn s) \<noteq> Some ''GET'' then (False, s)
      else if \<not> ap_ctx s then (True, s\<lparr>ap_ctx := True\<rparr>)
      else
        let s1 = s\<lparr>ap_ctx := False\<rparr>; url = the (mc_url (ap_conn s)) in
        (case fs_nodes fs (drop 1 url) of
           Some (Regular content) \<Rightarrow>
             queue_from 200 (callback_response (length content) (32 * 1024)) (From_file content) s1
         | _ \<Rightarrow>
             (case fs_dir fs of
                None \<Rightarrow> queue_from 503 (text_response (take 1023 (''Failed to open directory `.'' @ CHR 0x27 # '': '' @ fs_error fs @ [NL]))) No_source s1
              | Some names \<Rightarrow> queue_from 200 (callback_response MHD_SIZE_UNKNOWN (32 * 1024)) (From_dir names) s1)))"

definition call_connection_handler :: "file_system \<Rightarrow> served \<Rightarrow> served" where
  "call_connection_handler fs s =
     (if mc_response (ap_conn s) \<noteq> None then s
      else case ahc_echo fs s of
        (True, s1) \<Rightarrow> s1
      | (False, s1) \<Rightarrow> s1\<lparr>ap_conn := connection_close (ap_conn s1)\<rparr>)"

subsection \<open>Receiving\<close>

text \<open>What the network does with one read: some bytes, none for now, or a failure; no bytes at all mean that the client has closed.\<close>

datatype receive_result = Received string | Receive_again | Receive_failed

definition INTERNAL_ERROR :: string where
  "INTERNAL_ERROR = ''<html><head><title>Internal server error</title></head><body>Some programmer needs to study the manual more carefully.</body></html>''"

definition do_read :: "receive_result \<Rightarrow> mhd_conn \<Rightarrow> bool \<times> mhd_conn" where
  "do_read r c =
     (if mc_read_size c = of_nat (length (mc_read_buffer c)) then (False, c)
      else case r of
        Receive_again \<Rightarrow> (False, c)
      | Receive_failed \<Rightarrow> (False, connection_close c)
      | Received bytes \<Rightarrow>
          let got = take (unat (mc_read_size c - of_nat (length (mc_read_buffer c)))) bytes in
          if got = [] then (True, connection_close (c\<lparr>mc_read_closed := True\<rparr>))
          else (True, c\<lparr>mc_read_buffer := mc_read_buffer c @ got\<rparr>))"

text \<open>\<open>MHD_connection_handle_read\<close>.  Behind the request the read buffer is to shrink; the size given to the pool is one
  more than that of the block.\<close>

definition handle_read :: "mhd_daemon \<Rightarrow> receive_result \<Rightarrow> mhd_conn \<Rightarrow> mhd_conn" where
  "handle_read d r c =
     (if mc_state c = Conn_closed then c
      else
        let c1 = (if of_nat (length (mc_read_buffer c)) + MHD_BUF_INC_SIZE > mc_read_size c then snd (try_grow_read_buffer d c) else c)
        in case do_read r c1 of
             (False, c2) \<Rightarrow> c2
           | (True, c2) \<Rightarrow>
               if mc_state c2 = Conn_closed then c2
               else if mc_state c2 \<in> {Conn_init, Url_received, Header_part_received, Headers_received, Headers_processed,
                                      Continue_sending, Continue_sent, Body_received, Footer_part_received}
               then (if mc_read_closed c2 then connection_close c2 else c2)
               else c2\<lparr>mc_pool := snd (MHD_pool_reallocate (mc_pool c2) (mc_read_at c2) (mc_read_size c2 + 1)
                                         (of_nat (length (mc_read_buffer c2))))\<rparr>)"

text \<open>What the connection waits for, \<open>MHD_connection_update_event_loop_info\<close>: a full read buffer is to grow first.\<close>

datatype loop_info = Info_read | Info_write | Info_block | Info_cleanup

definition update_event_loop_info :: "mhd_daemon \<Rightarrow> mhd_conn \<Rightarrow> mhd_conn" where
  "update_event_loop_info d c =
     (let full = (of_nat (length (mc_read_buffer c)) = mc_read_size c);
          grown = (\<lambda>status text. if full then (case try_grow_read_buffer d c of
              (True, c1) \<Rightarrow> c1 | (False, c1) \<Rightarrow> transmit_error_response (dm_now d) status text c1) else c)
      in if mc_state c \<in> {Conn_init, Url_received, Header_part_received}
         then grown (if mc_url c \<noteq> None then 413 else 414) REQUEST_TOO_BIG
         else if mc_state c = Continue_sent then grown 500 INTERNAL_ERROR
         else if mc_state c \<in> {Body_received, Footer_part_received} \<and> mc_read_closed c then connection_close c
         else c)"

definition event_loop_info :: "mhd_conn \<Rightarrow> loop_info" where
  "event_loop_info c =
     (case mc_state c of
        Conn_init \<Rightarrow> if mc_read_closed c then Info_block else Info_read
      | Url_received \<Rightarrow> if mc_read_closed c then Info_block else Info_read
      | Header_part_received \<Rightarrow> if mc_read_closed c then Info_block else Info_read
      | Continue_sent \<Rightarrow>
          if of_nat (length (mc_read_buffer c)) < mc_read_size c \<and> \<not> mc_read_closed c then Info_read else Info_block
      | Body_received \<Rightarrow> Info_read
      | Footer_part_received \<Rightarrow> Info_read
      | Continue_sending \<Rightarrow> Info_write
      | Headers_sending \<Rightarrow> Info_write
      | Normal_body_ready \<Rightarrow> Info_write
      | Chunked_body_ready \<Rightarrow> Info_write
      | Footers_sending \<Rightarrow> Info_write
      | Conn_closed \<Rightarrow> Info_cleanup
      | _ \<Rightarrow> Info_block)"

subsection \<open>Sending\<close>

text \<open>What the network does with one write: it takes some bytes, at most as many as it is given, or none for now, or fails.\<close>

datatype send_result = Sent nat | Send_again | Send_failed

text \<open>\<open>do_write\<close> with the bytes that leave.\<close>

definition do_write :: "send_result \<Rightarrow> mhd_conn \<Rightarrow> string \<times> mhd_conn" where
  "do_write net c =
     (case net of
        Sent n \<Rightarrow> (take n (mc_out c), c\<lparr>mc_out := drop n (mc_out c)\<rparr>)
      | Send_again \<Rightarrow> ([], c)
      | Send_failed \<Rightarrow> ([], connection_close c))"

definition check_write_done :: "connection_state \<Rightarrow> mhd_conn \<Rightarrow> mhd_conn" where
  "check_write_done next_state c =
     (if mc_out c \<noteq> [] then c
      else c\<lparr>mc_state := next_state, mc_write_at := None, mc_write_size := 0,
             mc_pool := snd (MHD_pool_reallocate (mc_pool c) (mc_write_at c) (of_nat (mc_write_size c)) 0)\<rparr>)"

text \<open>The next piece of a body of known size: from memory, or from the application.\<close>

definition try_ready_normal_body :: "served \<Rightarrow> bool \<times> served" where
  "try_ready_normal_body s =
     (let c = ap_conn s; rs = the (mc_response c); pos = mc_write_position c in
      if ap_source s = No_source \<or> rs_total_size rs = 0 \<or> pos = rs_total_size rs \<or>
         rs_start rs \<le> pos \<and> length (rs_data rs) + rs_start rs > pos
      then (True, s)
      else case call_crc (ap_source s) pos (min (rs_buffer_size rs) (rs_total_size rs - pos)) of
        (End_of_stream, src) \<Rightarrow>
          (False, s\<lparr>ap_conn := connection_close (c\<lparr>mc_response := Some (rs\<lparr>rs_total_size := pos\<rparr>)\<rparr>), ap_source := src\<rparr>)
      | (Got bytes, src) \<Rightarrow>
          let c1 = c\<lparr>mc_response := Some (rs\<lparr>rs_start := pos, rs_data := bytes\<rparr>)\<rparr> in
          if bytes = [] then (False, s\<lparr>ap_conn := c1\<lparr>mc_state := Normal_body_unready\<rparr>, ap_source := src\<rparr>)
          else (True, s\<lparr>ap_conn := c1, ap_source := src\<rparr>))"

text \<open>
  The next chunk: the buffer gets half of the pool, or half of that, down to 128 bytes; the chunk is at most twelve bytes
  shorter.  The end of the data is an empty chunk, without its empty line.
\<close>

function chunk_buffer :: "pool \<Rightarrow> nat \<Rightarrow> (64 word \<times> nat \<times> pool) option" where
  "chunk_buffer p n =
     (if n div 2 < 128 then None
      else case MHD_pool_allocate p (of_nat (n div 2)) False of
        (Some a, p1) \<Rightarrow> Some (a, n div 2, p1) | (None, p1) \<Rightarrow> chunk_buffer p (n div 2))"
  by pat_completeness auto
termination by (relation "measure snd") auto

declare chunk_buffer.simps [simp del]

definition with_chunk_buffer :: "mhd_daemon \<Rightarrow> mhd_conn \<Rightarrow> mhd_conn option" where
  "with_chunk_buffer d c =
     (if mc_write_size c = 0 then
        (case chunk_buffer (mc_pool c) (min (unat (dm_pool_size d)) (2 * (0xFFFFFF + 10 + 2))) of
           None \<Rightarrow> None
         | Some (a, n, p) \<Rightarrow> Some (c\<lparr>mc_pool := p, mc_write_at := Some a, mc_write_size := n\<rparr>))
      else Some c)"

definition upper_hex :: "nat \<Rightarrow> string" where
  "upper_hex n = map (\<lambda>c. if of_char c \<ge> (97 :: nat) then char_of (of_char c - 32 :: nat) else c) (hex_text n)"

definition try_ready_chunked_body :: "mhd_daemon \<Rightarrow> served \<Rightarrow> bool \<times> served" where
  "try_ready_chunked_body d s =
     (case with_chunk_buffer d (ap_conn s) of
        None \<Rightarrow> (False, s\<lparr>ap_conn := connection_close (ap_conn s)\<rparr>)
      | Some c \<Rightarrow>
          let rs = the (mc_response c); pos = mc_write_position c; room = mc_write_size c - 12 in
          (case (if rs_total_size rs = 0 then (Got [], ap_source s)
                 else if rs_start rs \<le> pos \<and> rs_start rs + length (rs_data rs) > pos
                 then (Got (take room (drop (pos - rs_start rs) (rs_data rs))), ap_source s)
                 else call_crc (ap_source s) pos room) of (r, src) \<Rightarrow>
             let data = (case r of Got bytes \<Rightarrow> take 0xFFFFFF bytes | End_of_stream \<Rightarrow> []) in
             if r = End_of_stream \<or> rs_total_size rs = 0 then
               (True, s\<lparr>ap_conn := c\<lparr>mc_out := ''0'' @ CRLF, mc_response := Some (rs\<lparr>rs_total_size := pos\<rparr>)\<rparr>, ap_source := src\<rparr>)
             else if data = [] then (False, s\<lparr>ap_conn := c\<lparr>mc_state := Chunked_body_unready\<rparr>, ap_source := src\<rparr>)
             else (True, s\<lparr>ap_conn := c\<lparr>mc_write_position := pos + length data,
                                          mc_out := upper_hex (length data) @ CRLF @ data @ CRLF\<rparr>, ap_source := src\<rparr>)))"

text \<open>\<open>MHD_connection_handle_write\<close> for a reply: the bytes that leave.\<close>

definition handle_write :: "send_result \<Rightarrow> served \<Rightarrow> string \<times> served" where
  "handle_write net s =
     (case mc_state (ap_conn s) of
        Headers_sending \<Rightarrow>
          (case do_write net (ap_conn s) of (out, c) \<Rightarrow>
             (out, s\<lparr>ap_conn := (if mc_state c \<noteq> Headers_sending then c else check_write_done Headers_sent c)\<rparr>))
      | Normal_body_ready \<Rightarrow>
          let total_size = (\<lambda>c. rs_total_size (the (mc_response c)));
              finish = (\<lambda>s. if mc_write_position (ap_conn s) = total_size (ap_conn s)
                            then s\<lparr>ap_conn := (ap_conn s)\<lparr>mc_state := Footers_sent\<rparr>\<rparr> else s)
          in if mc_write_position (ap_conn s) < total_size (ap_conn s) then
               (case try_ready_normal_body s of
                  (False, s1) \<Rightarrow> ([], s1)
                | (True, s1) \<Rightarrow>
                    let c = ap_conn s1; rs = the (mc_response c);
                        avail = drop (mc_write_position c - rs_start rs) (rs_data rs)
                    in (case net of
                          Send_again \<Rightarrow> ([], s1)
                        | Send_failed \<Rightarrow> ([], s1\<lparr>ap_conn := connection_close c\<rparr>)
                        | Sent n \<Rightarrow>
                            let out = take n avail in
                            (out, finish (s1\<lparr>ap_conn := c\<lparr>mc_write_position := mc_write_position c + length out\<rparr>\<rparr>))))
             else ([], finish s)
      | Chunked_body_ready \<Rightarrow>
          (case do_write net (ap_conn s) of (out, c) \<Rightarrow>
             (out, s\<lparr>ap_conn := (if mc_state c \<noteq> Chunked_body_ready then c
                else check_write_done (if rs_total_size (the (mc_response c)) = mc_write_position c then Body_sent else Chunked_body_unready) c)\<rparr>))
      | Footers_sending \<Rightarrow>
          (case do_write net (ap_conn s) of (out, c) \<Rightarrow>
             (out, s\<lparr>ap_conn := (if mc_state c \<noteq> Footers_sending then c else check_write_done Footers_sent c)\<rparr>))
      | _ \<Rightarrow> ([], s))"


subsection \<open>The states of a request\<close>

definition need_100_continue :: "mhd_conn \<Rightarrow> bool" where
  "need_100_continue c =
     (mc_response c = None \<and> has_value (mc_version c) HTTP_1_1 \<and>
      has_value (MHD_lookup_connection_value c Header_kind ''Expect'') ''100-continue'')"

text \<open>The end of a request: the connection is closed, or made ready for the next one with the bytes read so far.\<close>

definition request_done :: "mhd_daemon \<Rightarrow> mhd_conn \<Rightarrow> mhd_conn" where
  "request_done d c =
     (let rs = the (mc_response c);
          client_close = has_value (MHD_get_response_header rs ''Connection'') ''close'';
          c0 = c\<lparr>mc_response := None\<rparr>;
          closing = (mc_read_closed c \<or> client_close \<or>
            has_value (MHD_lookup_connection_value c Header_kind ''Connection'') ''close'');
          c1 = (if closing then c0\<lparr>mc_read_closed := True, mc_read_buffer := []\<rparr> else c0);
          c2 = (if mc_read_closed c1 \<and> mc_read_buffer c1 = [] \<or> \<not> keepalive_possible c1
                then (connection_close c1)\<lparr>mc_read_at := None, mc_read_size := 0, mc_read_buffer := []\<rparr>
                else (case MHD_pool_reset (mc_pool c1) (mc_read_at c1) (of_nat (length (mc_read_buffer c1))) (dm_pool_size d div 2) of
                        (a, p) \<Rightarrow> c1\<lparr>mc_version := None, mc_state := Conn_init, mc_pool := p, mc_read_at := a,
                                     mc_read_size := dm_pool_size d div 2\<rparr>))
      in c2\<lparr>mc_code := 0, mc_headers := [], mc_write_position := 0, mc_chunked := False, mc_method := None, mc_url := None,
            mc_out := [], mc_write_at := None, mc_write_size := 0\<rparr>)"

text \<open>
  One turn of \<open>MHD_connection_handle_idle\<close> behind the headers, for requests without a body; the result tells whether
  the loop goes on.  The states that wait for the network and those of an upload (theory MhdBody) do nothing here.
\<close>

definition serve_step :: "mhd_daemon \<Rightarrow> file_system \<Rightarrow> string \<Rightarrow> served \<Rightarrow> bool \<times> served" where
  "serve_step d fs junk s =
     (let c = ap_conn s; on = (\<lambda>s c. s\<lparr>ap_conn := c\<rparr>) in
      case mc_state c of
        Headers_received \<Rightarrow>
          let c1 = parse_connection_headers d junk c
          in (True, on s (if mc_state c1 = Conn_closed then c1 else c1\<lparr>mc_state := Headers_processed\<rparr>))
      | Headers_processed \<Rightarrow>
          let s1 = call_connection_handler fs s; c1 = ap_conn s1 in
          if mc_state c1 = Conn_closed then (True, s1)
          else if need_100_continue c1 then (False, on s1 (c1\<lparr>mc_state := Continue_sending\<rparr>))
          else
            let refused = (mc_response c1 \<noteq> None \<and> (has_value (mc_method c1) ''POST'' \<or> has_value (mc_method c1) ''PUT''));
                c2 = (if refused then c1\<lparr>mc_upload_size := 0, mc_read_closed := True\<rparr> else c1)
            in (True, on s1 (c2\<lparr>mc_state := (if mc_upload_size c2 = 0 then Footers_received else Continue_sent)\<rparr>))
      | Footers_received \<Rightarrow>
          let s1 = call_connection_handler fs s; c1 = ap_conn s1 in
          if mc_state c1 = Conn_closed then (True, s1)
          else (case mc_response c1 of None \<Rightarrow> (False, s1)
                | Some rs \<Rightarrow>
                    (case build_header_response (dm_now d) c1 rs of
                       Built c2 \<Rightarrow> (False, on s1 (c2\<lparr>mc_state := Headers_sending\<rparr>))
                     | _ \<Rightarrow> (True, on s1 (connection_close c1))))
      | Headers_sent \<Rightarrow> (True, on s (c\<lparr>mc_state := (if mc_chunked c then Chunked_body_unready else Normal_body_unready)\<rparr>))
      | Normal_body_unready \<Rightarrow>
          if rs_total_size (the (mc_response c)) = 0 then (True, on s (c\<lparr>mc_state := Body_sent\<rparr>))
          else (case try_ready_normal_body s of
                  (True, s1) \<Rightarrow> (False, on s1 ((ap_conn s1)\<lparr>mc_state := Normal_body_ready\<rparr>))
                | (False, s1) \<Rightarrow> (False, s1))
      | Chunked_body_unready \<Rightarrow>
          if rs_total_size (the (mc_response c)) = 0 \<or> mc_write_position c = rs_total_size (the (mc_response c))
          then (True, on s (c\<lparr>mc_state := Body_sent\<rparr>))
          else (case try_ready_chunked_body d s of
                  (True, s1) \<Rightarrow> (True, on s1 ((ap_conn s1)\<lparr>mc_state := Chunked_body_ready\<rparr>))
                | (False, s1) \<Rightarrow> (False, s1))
      | Body_sent \<Rightarrow>
          (case build_header_response (dm_now d) c (the (mc_response c)) of
             Built c1 \<Rightarrow> (True, on s (c1\<lparr>mc_state := (if \<not> mc_chunked c1 \<or> mc_out c1 = [] then Footers_sent else Footers_sending)\<rparr>))
           | _ \<Rightarrow> (True, on s (connection_close c)))
      | Footers_sent \<Rightarrow> (True, s\<lparr>ap_conn := request_done d c, ap_ctx := False, ap_source := No_source\<rparr>)
      | _ \<Rightarrow> (False, s))"

definition serve_rank :: "connection_state \<Rightarrow> nat" where
  "serve_rank st = (case st of Headers_received \<Rightarrow> 8 | Headers_processed \<Rightarrow> 7 | Footers_received \<Rightarrow> 6 | Headers_sent \<Rightarrow> 5 |
     Normal_body_unready \<Rightarrow> 4 | Chunked_body_unready \<Rightarrow> 4 | Body_sent \<Rightarrow> 3 | Footers_sent \<Rightarrow> 2 | Footers_sending \<Rightarrow> 1 | _ \<Rightarrow> 0)"

lemma handler_state:
  "mc_state (ap_conn (call_connection_handler fs s)) \<in> {mc_state (ap_conn s), Footers_received, Conn_closed}"
proof -
  have q: "mc_state (ap_conn (snd (queue_from st rs src t))) \<in> {mc_state (ap_conn t), Footers_received}" for st rs src t
    by (auto simp: queue_from_def MHD_queue_response_def Let_def split: prod.split bool.split)
  have a: "mc_state (ap_conn (snd (ahc_echo fs s))) \<in> {mc_state (ap_conn s), Footers_received}"
  proof -
    let ?t = "s\<lparr>ap_ctx := False\<rparr>"
    have q': "mc_state (ap_conn (snd (queue_from st rs src ?t))) \<in> {mc_state (ap_conn s), Footers_received}" for st rs src
      using q [of st rs src ?t] by simp
    show ?thesis using q' unfolding ahc_echo_def Let_def
      by (auto split: option.split node.split)
  qed
  show ?thesis using a
    by (auto simp: call_connection_handler_def connection_close_def split: prod.split bool.split)
qed

lemma serve_step_progress:
  assumes "serve_step d fs junk s = (True, s1)"
  shows "serve_rank (mc_state (ap_conn s1)) < serve_rank (mc_state (ap_conn s))"
proof (cases "mc_state (ap_conn s)")
  case Headers_received
  then show ?thesis using assms by (auto simp: serve_step_def serve_rank_def Let_def)
next
  case Headers_processed
  then show ?thesis using assms by (auto simp: serve_step_def serve_rank_def Let_def split: if_splits)
next
  case Footers_received
  then show ?thesis using assms
    by (auto simp: serve_step_def serve_rank_def connection_close_def Let_def split: if_splits option.splits build_result.splits)
next
  case Normal_body_unready
  then show ?thesis using assms
    by (auto simp: serve_step_def serve_rank_def Let_def split: if_splits prod.splits bool.splits)
next
  case Chunked_body_unready
  then show ?thesis using assms
    by (auto simp: serve_step_def serve_rank_def Let_def split: if_splits prod.splits bool.splits)
next
  case Body_sent
  then show ?thesis using assms
    by (auto simp: serve_step_def serve_rank_def connection_close_def Let_def split: if_splits build_result.splits)
next
  case Footers_sent
  then show ?thesis using assms
    by (auto simp: serve_step_def serve_rank_def request_done_def connection_close_def Let_def split: prod.splits)
qed (use assms in \<open>auto simp: serve_step_def serve_rank_def Let_def\<close>)

function serve_idle :: "mhd_daemon \<Rightarrow> file_system \<Rightarrow> string \<Rightarrow> served \<Rightarrow> served" where
  "serve_idle d fs junk s = (case serve_step d fs junk s of (True, s1) \<Rightarrow> serve_idle d fs junk s1 | (False, s1) \<Rightarrow> s1)"
  by pat_completeness auto
termination
  by (relation "measure (\<lambda>(d, fs, junk, s). serve_rank (mc_state (ap_conn s)))")
    (auto dest!: sym [of "(True, _)"] serve_step_progress)

declare serve_idle.simps [simp del]

text \<open>
  The whole of \<open>MHD_connection_handle_idle\<close>: the headers, then the rest; behind a finished request the next one may
  be in the buffer already.
\<close>

definition read_request :: "mhd_daemon \<Rightarrow> served \<Rightarrow> served" where
  "read_request d s = s\<lparr>ap_conn := read_head d (ap_conn s)\<rparr>"

definition idle_states :: "mhd_daemon \<Rightarrow> file_system \<Rightarrow> string \<Rightarrow> served \<Rightarrow> served" where
  "idle_states d fs junk s =
     (let s1 = serve_idle d fs junk (read_request d s) in
      if mc_state (ap_conn s1) = Conn_init \<and> mc_state (ap_conn s) \<notin> {Conn_init, Url_received, Header_part_received}
      then serve_idle d fs junk (read_request d s1) else s1)"

definition handle_idle :: "mhd_daemon \<Rightarrow> file_system \<Rightarrow> string \<Rightarrow> served \<Rightarrow> served" where
  "handle_idle d fs junk s =
     (let s1 = idle_states d fs junk s in s1\<lparr>ap_conn := update_event_loop_info d (ap_conn s1)\<rparr>)"

text \<open>
  The thread of a connection, \<open>call_handlers\<close> again and again: the socket is readable or writable, and what it waits
  for is done; then the idle function runs.  The result has the bytes that leave.
\<close>

datatype network_event = Readable receive_result | Writable send_result

definition call_handlers :: "mhd_daemon \<Rightarrow> file_system \<Rightarrow> string \<Rightarrow> network_event \<Rightarrow> served \<Rightarrow> string \<times> served" where
  "call_handlers d fs junk ev s =
     (case (case (ev, event_loop_info (ap_conn s)) of
              (Readable r, Info_read) \<Rightarrow> ([], s\<lparr>ap_conn := handle_read d r (ap_conn s)\<rparr>)
            | (Writable net, Info_write) \<Rightarrow> handle_write net s
            | _ \<Rightarrow> ([], s)) of
        (out, s1) \<Rightarrow> (out, handle_idle d fs junk s1))"

fun serve_connection :: "mhd_daemon \<Rightarrow> file_system \<Rightarrow> string \<Rightarrow> network_event list \<Rightarrow> served \<Rightarrow> string \<times> served" where
  "serve_connection d fs junk [] s = ([], s)"
| "serve_connection d fs junk (ev # evs) s =
     (case call_handlers d fs junk ev s of (out, s1) \<Rightarrow>
      (case serve_connection d fs junk evs s1 of (outs, s2) \<Rightarrow> (out @ outs, s2)))"

subsection \<open>Sending a file\<close>

definition window_ok :: "string \<Rightarrow> response \<Rightarrow> bool" where
  "window_ok content rs = (rs_total_size rs = length content \<and> 0 < rs_buffer_size rs \<and>
     rs_data rs = take (length (rs_data rs)) (drop (rs_start rs) content) \<and>
     rs_start rs + length (rs_data rs) \<le> length content)"

text \<open>What is still to be sent of a head and the file's content.\<close>

definition unsent :: "string \<Rightarrow> served \<Rightarrow> string \<Rightarrow> bool" where
  "unsent content s w = (ap_source s = From_file content \<and> \<not> mc_chunked (ap_conn s) \<and> mc_write_position (ap_conn s) < length content \<and>
     (\<exists>rs. mc_response (ap_conn s) = Some rs \<and> window_ok content rs) \<and>
     (mc_state (ap_conn s) = Headers_sending \<and> mc_out (ap_conn s) \<noteq> [] \<and> mc_write_position (ap_conn s) = 0 \<and> w = mc_out (ap_conn s) @ content
    \<or> mc_state (ap_conn s) = Headers_sent \<and> mc_write_position (ap_conn s) = 0 \<and> w = content
    \<or> mc_state (ap_conn s) \<in> {Normal_body_unready, Normal_body_ready} \<and> w = drop (mc_write_position (ap_conn s)) content))"

text \<open>Nothing more is sent: the reply is complete, or the connection is closed.\<close>

definition silent :: "served \<Rightarrow> bool" where
  "silent s = (mc_state (ap_conn s) = Conn_closed \<or> mc_state (ap_conn s) = Footers_sent \<and> mc_read_buffer (ap_conn s) = [] \<or>
     mc_state (ap_conn s) = Conn_init \<and> mc_read_buffer (ap_conn s) = [] \<and> \<not> mc_read_closed (ap_conn s) \<and>
       mc_read_size (ap_conn s) \<noteq> 0)"

lemma ready_window:
  assumes "ap_source s = From_file content" "mc_response (ap_conn s) = Some rs" "window_ok content rs"
    "mc_write_position (ap_conn s) < length content"
  shows "\<exists>rs1. try_ready_normal_body s = (True, s\<lparr>ap_conn := (ap_conn s)\<lparr>mc_response := Some rs1\<rparr>\<rparr>) \<and> window_ok content rs1 \<and>
    rs_start rs1 \<le> mc_write_position (ap_conn s) \<and> mc_write_position (ap_conn s) < rs_start rs1 + length (rs_data rs1)"
proof (cases "rs_start rs \<le> mc_write_position (ap_conn s) \<and> length (rs_data rs) + rs_start rs > mc_write_position (ap_conn s)")
  case True
  then have "try_ready_normal_body s = (True, s\<lparr>ap_conn := (ap_conn s)\<lparr>mc_response := Some rs\<rparr>\<rparr>)"
    using assms(2) by (simp add: try_ready_normal_body_def Let_def)
  then show ?thesis using True assms(3) by auto
next
  case False
  let ?p = "mc_write_position (ap_conn s)"
  let ?b = "take (min (rs_buffer_size rs) (length content - ?p)) (drop ?p content)"
  have t: "rs_total_size rs = length content" "0 < rs_buffer_size rs" using assms(3) by (simp_all add: window_ok_def)
  have b: "?b \<noteq> []" using t assms(4) by simp
  have nc: "(ap_source s = No_source \<or> rs_total_size rs = 0 \<or> ?p = rs_total_size rs \<or>
      rs_start rs \<le> ?p \<and> length (rs_data rs) + rs_start rs > ?p) = False"
    using False assms(1,4) t(1) by auto
  have cc: "call_crc (ap_source s) ?p (min (rs_buffer_size rs) (rs_total_size rs - ?p)) = (Got ?b, ap_source s)"
    by (simp only: call_crc_def file_reader_def assms(1) source.case t(1))
  have e: "s\<lparr>ap_conn := x, ap_source := ap_source s\<rparr> = s\<lparr>ap_conn := x\<rparr>" for x by (cases s) simp
  have "try_ready_normal_body s = (True, s\<lparr>ap_conn := (ap_conn s)\<lparr>mc_response := Some (rs\<lparr>rs_start := ?p, rs_data := ?b\<rparr>)\<rparr>\<rparr>)"
    unfolding try_ready_normal_body_def Let_def assms(2) option.sel nc cc
    by (simp only: if_False prod.case crc_result.case b e)
  moreover have "window_ok content (rs\<lparr>rs_start := ?p, rs_data := ?b\<rparr>)"
  proof -
    have "take (length ?b) (drop ?p content) = ?b" by (simp add: min_def)
    moreover have "?p + length ?b \<le> length content" using assms(4) by simp
    ultimately show ?thesis using t by (simp add: window_ok_def del: length_take take_take)
  qed
  moreover have "rs_start (rs\<lparr>rs_start := ?p, rs_data := ?b\<rparr>) \<le> ?p"
      "?p < rs_start (rs\<lparr>rs_start := ?p, rs_data := ?b\<rparr>) + length (rs_data (rs\<lparr>rs_start := ?p, rs_data := ?b\<rparr>))"
    using t(2) assms(4) by simp_all
  ultimately show ?thesis by blast
qed

lemma head_idle: "mc_state c \<notin> {Conn_init, Url_received, Header_part_received} \<Longrightarrow> read_head d c = c"
  by (subst read_head.simps) (simp add: head_step_def split: prod.split connection_state.split)

lemma serve_stops: "serve_step d fs junk s = (False, s1) \<Longrightarrow> serve_idle d fs junk s = s1"
  by (subst serve_idle.simps) simp

lemma serve_goes_on: "serve_step d fs junk s = (True, s1) \<Longrightarrow> serve_idle d fs junk s = serve_idle d fs junk s1"
  by (subst serve_idle.simps) simp

lemma states_unsent:
  assumes "unsent content s w"
  shows "unsent content (idle_states d fs junk s) w \<and> mc_state (ap_conn (idle_states d fs junk s)) \<in> {Headers_sending, Normal_body_ready} \<and>
    mc_read_buffer (ap_conn (idle_states d fs junk s)) = mc_read_buffer (ap_conn s)"
proof -
  obtain rs where rs: "mc_response (ap_conn s) = Some rs" "window_ok content rs" and src: "ap_source s = From_file content"
    and pos: "mc_write_position (ap_conn s) < length content" and ch: "\<not> mc_chunked (ap_conn s)"
    using assms unfolding unsent_def by blast
  have n0: "rs_total_size rs \<noteq> 0" using rs(2) pos by (auto simp: window_ok_def)
  have body: "serve_idle d fs junk t = t\<lparr>ap_conn := (ap_conn t)\<lparr>mc_response := Some rs1, mc_state := Normal_body_ready\<rparr>\<rparr> \<and> window_ok content rs1"
    if "mc_state (ap_conn t) = Normal_body_unready" "ap_source t = From_file content" "mc_response (ap_conn t) = Some rs"
      "mc_write_position (ap_conn t) < length content"
      "try_ready_normal_body t = (True, t\<lparr>ap_conn := (ap_conn t)\<lparr>mc_response := Some rs1\<rparr>\<rparr>)" "window_ok content rs1" for t rs1
    using that n0 by (intro conjI serve_stops) (simp_all add: serve_step_def Let_def)
  have hs: "mc_state (ap_conn s) \<notin> {Conn_init, Url_received, Header_part_received}"
    using assms unfolding unsent_def by auto
  then have rr: "read_request d s = s" using head_idle by (simp add: read_request_def)
  from assms consider "mc_state (ap_conn s) = Headers_sending" | "mc_state (ap_conn s) = Headers_sent"
    | "mc_state (ap_conn s) = Normal_body_unready" | "mc_state (ap_conn s) = Normal_body_ready"
    unfolding unsent_def by blast
  then show ?thesis
  proof cases
    case 1
    then have "serve_idle d fs junk s = s" by (intro serve_stops) (simp add: serve_step_def)
    then show ?thesis using assms 1 by (simp add: idle_states_def rr)
  next
    case 2
    let ?t = "s\<lparr>ap_conn := (ap_conn s)\<lparr>mc_state := Normal_body_unready\<rparr>\<rparr>"
    have "serve_step d fs junk s = (True, ?t)" using 2 ch by (simp add: serve_step_def)
    then have g: "serve_idle d fs junk s = serve_idle d fs junk ?t" by (rule serve_goes_on)
    obtain rs1 where "try_ready_normal_body ?t = (True, ?t\<lparr>ap_conn := (ap_conn ?t)\<lparr>mc_response := Some rs1\<rparr>\<rparr>)" "window_ok content rs1"
      using ready_window [of ?t content rs] src rs pos by auto
    then have "serve_idle d fs junk s = ?t\<lparr>ap_conn := (ap_conn ?t)\<lparr>mc_response := Some rs1, mc_state := Normal_body_ready\<rparr>\<rparr>"
      "window_ok content rs1" using body [of ?t rs1] src rs pos g by simp_all
    then show ?thesis using assms 2 src pos ch by (simp add: idle_states_def rr unsent_def)
  next
    case 3
    obtain rs1 where "try_ready_normal_body s = (True, s\<lparr>ap_conn := (ap_conn s)\<lparr>mc_response := Some rs1\<rparr>\<rparr>)" "window_ok content rs1"
      using ready_window [of s content rs] src rs pos by auto
    then have "serve_idle d fs junk s = s\<lparr>ap_conn := (ap_conn s)\<lparr>mc_response := Some rs1, mc_state := Normal_body_ready\<rparr>\<rparr>"
      "window_ok content rs1" using body [of s rs1] 3 src rs pos by simp_all
    then show ?thesis using assms 3 src pos ch by (simp add: idle_states_def rr unsent_def)
  next
    case 4
    then have "serve_idle d fs junk s = s" by (intro serve_stops) (simp add: serve_step_def)
    then show ?thesis using assms 4 by (simp add: idle_states_def rr)
  qed
qed

lemma update_waiting: "mc_state c \<in> {Headers_sending, Normal_body_ready, Conn_closed} \<Longrightarrow> update_event_loop_info d c = c"
  by (auto simp: update_event_loop_info_def Let_def)

lemma idle_unsent:
  assumes "unsent content s w"
  shows "unsent content (handle_idle d fs junk s) w \<and> mc_state (ap_conn (handle_idle d fs junk s)) \<in> {Headers_sending, Normal_body_ready} \<and>
    mc_read_buffer (ap_conn (handle_idle d fs junk s)) = mc_read_buffer (ap_conn s)"
proof -
  have "update_event_loop_info d (ap_conn (idle_states d fs junk s)) = ap_conn (idle_states d fs junk s)"
    using states_unsent [OF assms, of d fs junk] by (intro update_waiting) blast
  then have "handle_idle d fs junk s = idle_states d fs junk s" by (simp add: handle_idle_def Let_def)
  then show ?thesis using states_unsent [OF assms] by simp
qed

lemma write_unsent:
  assumes "unsent content s w" "mc_state (ap_conn s) \<in> {Headers_sending, Normal_body_ready}" "net \<noteq> Send_failed"
    and "mc_read_buffer (ap_conn s) = []"
  shows "\<exists>out s1. handle_write net s = (out, s1) \<and> mc_read_buffer (ap_conn s1) = [] \<and>
    (\<exists>w1. w = out @ w1 \<and> (unsent content s1 w1 \<or> w1 = [] \<and> silent s1)) \<and> ((\<exists>k. net = Sent (Suc k)) \<longrightarrow> out \<noteq> [])"
proof -
  obtain rs where rs: "mc_response (ap_conn s) = Some rs" "window_ok content rs" and src: "ap_source s = From_file content"
    and pos: "mc_write_position (ap_conn s) < length content" and ch: "\<not> mc_chunked (ap_conn s)"
    using assms(1) unfolding unsent_def by blast
  show ?thesis
  proof (cases "mc_state (ap_conn s) = Headers_sending")
    case True
    then have o: "mc_out (ap_conn s) \<noteq> []" "mc_write_position (ap_conn s) = 0" "w = mc_out (ap_conn s) @ content"
      using assms(1) by (auto simp: unsent_def)
    show ?thesis
    proof (cases net)
      case (Sent n)
      let ?c = "check_write_done Headers_sent ((ap_conn s)\<lparr>mc_out := drop n (mc_out (ap_conn s))\<rparr>)"
      have h: "handle_write net s = (take n (mc_out (ap_conn s)), s\<lparr>ap_conn := ?c\<rparr>)"
        using True Sent by (simp add: handle_write_def do_write_def)
      have "unsent content (s\<lparr>ap_conn := ?c\<rparr>) (drop n (mc_out (ap_conn s)) @ content)"
        using True o rs src pos ch by (auto simp: unsent_def check_write_done_def)
      moreover have "w = take n (mc_out (ap_conn s)) @ drop n (mc_out (ap_conn s)) @ content" using o(3) by simp
      moreover have "mc_read_buffer ?c = []" using assms(4) by (simp add: check_write_done_def)
      ultimately show ?thesis using h o(1) Sent by auto
    next
      case Send_again
      then have "handle_write net s = ([], s)" using True o(1) by (simp add: handle_write_def do_write_def check_write_done_def)
      then show ?thesis using assms(1,4) Send_again by auto
    qed (use assms(3) in simp)
  next
    case False
    then have st: "mc_state (ap_conn s) = Normal_body_ready" using assms(2) by simp
    let ?p = "mc_write_position (ap_conn s)"
    obtain rs1 where t: "try_ready_normal_body s = (True, s\<lparr>ap_conn := (ap_conn s)\<lparr>mc_response := Some rs1\<rparr>\<rparr>)"
      and w1: "window_ok content rs1" "rs_start rs1 \<le> ?p" "?p < rs_start rs1 + length (rs_data rs1)"
      using ready_window [OF src rs pos] by blast
    have w: "w = drop ?p content" using assms(1) st by (auto simp: unsent_def)
    let ?avail = "drop (?p - rs_start rs1) (rs_data rs1)"
    have av: "?avail = take (rs_start rs1 + length (rs_data rs1) - ?p) (drop ?p content)"
    proof -
      have "?avail = drop (?p - rs_start rs1) (take (length (rs_data rs1)) (drop (rs_start rs1) content))"
        using w1(1) unfolding window_ok_def by metis
      also have "\<dots> = take (length (rs_data rs1) - (?p - rs_start rs1)) (drop ?p content)"
        using w1(2) by (simp add: drop_take)
      finally show ?thesis using w1(2) by (simp add: add.commute)
    qed
    have tot: "rs_total_size rs = length content" "rs_total_size rs1 = length content" using rs(2) w1(1) by (simp_all add: window_ok_def)
    show ?thesis
    proof (cases net)
      case (Sent n)
      let ?out = "take n ?avail"
      let ?c = "(ap_conn s)\<lparr>mc_response := Some rs1, mc_write_position := ?p + length ?out\<rparr>"
      have out: "?out = take (length ?out) (drop ?p content)" unfolding av by (simp add: min_def)
      have le: "?p + length ?out \<le> length content" unfolding av using pos by simp
      have split: "w = ?out @ drop (?p + length ?out) content"
        using out w by (metis add.commute append_take_drop_id drop_drop)
      have h: "handle_write net s = (?out, if ?p + length ?out = length content
          then s\<lparr>ap_conn := ?c\<lparr>mc_state := Footers_sent\<rparr>\<rparr> else s\<lparr>ap_conn := ?c\<rparr>)"
        using st t pos rs(1) tot Sent by (simp add: handle_write_def Let_def)
      have "(\<exists>k. net = Sent (Suc k)) \<longrightarrow> ?out \<noteq> []" using Sent w1(2,3) by auto
      moreover have "\<exists>w1. w = ?out @ w1 \<and> (unsent content (snd (handle_write net s)) w1 \<or> w1 = [] \<and> silent (snd (handle_write net s)))"
      proof (cases "?p + length ?out = length content")
        case True
        then show ?thesis using split assms(4) by (intro exI [of _ "[]"]) (simp add: h silent_def)
      next
        case False
        then have "unsent content (s\<lparr>ap_conn := ?c\<rparr>) (drop (?p + length ?out) content)"
          using le st src ch w1(1) by (simp add: unsent_def)
        then show ?thesis using split False h by auto
      qed
      ultimately show ?thesis using h assms(4) by auto
    next
      case Send_again
      have h: "handle_write net s = ([], s\<lparr>ap_conn := (ap_conn s)\<lparr>mc_response := Some rs1\<rparr>\<rparr>)"
        using st t pos rs(1) tot Send_again by (simp add: handle_write_def Let_def)
      have "unsent content (s\<lparr>ap_conn := (ap_conn s)\<lparr>mc_response := Some rs1\<rparr>\<rparr>) w"
        using assms(1) st w1(1) by (simp add: unsent_def)
      then show ?thesis using h assms(4) Send_again by auto
    qed (use assms(3) in simp)
  qed
qed


lemma silent_idle:
  assumes "silent s" "dm_pool_size d div 2 \<noteq> 0"
  shows "silent (handle_idle d fs junk s)"
proof -
  have w: "read_request d t = t \<and> serve_idle d fs junk t = t \<and> update_event_loop_info d (ap_conn t) = ap_conn t"
    if "mc_state (ap_conn t) = Conn_init" "mc_read_buffer (ap_conn t) = []" "\<not> mc_read_closed (ap_conn t)"
      "mc_read_size (ap_conn t) \<noteq> 0" for t
    using that by (subst serve_idle.simps) (simp add: read_request_def read_head.simps [of d "ap_conn t"] head_step_def
        get_next_header_line_def no_line_def serve_step_def update_event_loop_info_def Let_def)
  have cl: "serve_idle d fs junk t = t" if "mc_state (ap_conn t) = Conn_closed" for t
    using that by (intro serve_stops) (simp add: serve_step_def)
  from assms(1) consider "mc_state (ap_conn s) = Conn_closed" | "mc_state (ap_conn s) = Footers_sent" "mc_read_buffer (ap_conn s) = []"
    | "mc_state (ap_conn s) = Conn_init" "mc_read_buffer (ap_conn s) = []" "\<not> mc_read_closed (ap_conn s)" "mc_read_size (ap_conn s) \<noteq> 0"
    unfolding silent_def by blast
  then show ?thesis
  proof cases
    case 1
    then show ?thesis using cl [of s] assms
      by (simp add: handle_idle_def idle_states_def read_request_def head_idle update_waiting)
  next
    case 2
    let ?t = "s\<lparr>ap_conn := request_done d (ap_conn s), ap_ctx := False, ap_source := No_source\<rparr>"
    have r: "read_request d s = s" using 2 by (simp add: read_request_def head_idle)
    have g: "serve_idle d fs junk s = serve_idle d fs junk ?t"
      by (rule serve_goes_on) (simp add: serve_step_def 2)
    have "mc_state (ap_conn ?t) = Conn_closed \<or>
        mc_state (ap_conn ?t) = Conn_init \<and> mc_read_buffer (ap_conn ?t) = [] \<and> \<not> mc_read_closed (ap_conn ?t) \<and>
        mc_read_size (ap_conn ?t) \<noteq> 0"
      using 2 assms(2) by (auto simp: request_done_def connection_close_def Let_def split: prod.splits)
    then show ?thesis
    proof (elim disjE conjE)
      assume c: "mc_state (ap_conn ?t) = Conn_closed"
      then show ?thesis using cl [of ?t] g by (simp add: handle_idle_def idle_states_def r silent_def update_waiting)
    next
      assume i: "mc_state (ap_conn ?t) = Conn_init" "mc_read_buffer (ap_conn ?t) = []" "\<not> mc_read_closed (ap_conn ?t)"
        "mc_read_size (ap_conn ?t) \<noteq> 0"
      note wt = w [OF i]
      have "idle_states d fs junk s = ?t" unfolding idle_states_def Let_def r g using wt i(1) by simp
      then have "handle_idle d fs junk s = ?t" using wt by (simp add: handle_idle_def Let_def)
      then show ?thesis using i by (simp add: silent_def)
    qed
  next
    case 3
    then show ?thesis using w [of s] assms by (simp add: handle_idle_def idle_states_def Let_def)
  qed
qed

lemma serve_silent:
  "silent s \<Longrightarrow> dm_pool_size d div 2 \<noteq> 0 \<Longrightarrow> \<exists>s1. serve_connection d fs junk (map Writable nets) s = ([], s1)"
proof (induction nets arbitrary: s)
  case (Cons net nets)
  have "event_loop_info (ap_conn s) \<noteq> Info_write" using Cons.prems(1) by (auto simp: silent_def event_loop_info_def)
  then have "call_handlers d fs junk (Writable net) s = ([], handle_idle d fs junk s)"
    by (simp add: call_handlers_def split: loop_info.split)
  moreover obtain s1 where "serve_connection d fs junk (map Writable nets) (handle_idle d fs junk s) = ([], s1)"
    using Cons.IH [OF silent_idle [OF Cons.prems, of fs junk] Cons.prems(2)] by blast
  ultimately show ?case by simp
qed simp

text \<open>How many of the writes take something.\<close>

definition writes :: "send_result list \<Rightarrow> nat" where
  "writes nets = length (filter (\<lambda>net. case net of Sent k \<Rightarrow> 0 < k | _ \<Rightarrow> False) nets)"

lemma serve_unsent:
  assumes "unsent content s w" "mc_state (ap_conn s) \<in> {Headers_sending, Normal_body_ready}" "mc_read_buffer (ap_conn s) = []"
    "Send_failed \<notin> set nets" "dm_pool_size d div 2 \<noteq> 0"
  shows "\<exists>out s1 later. serve_connection d fs junk (map Writable nets) s = (out, s1) \<and> w = out @ later \<and>
    (length w \<le> writes nets \<longrightarrow> later = [])"
  using assms
proof (induction nets arbitrary: s w)
  case Nil
  have "w \<noteq> []" using Nil(1) by (auto simp: unsent_def)
  then show ?case by (simp add: writes_def)
next
  case (Cons net nets)
  have n: "net \<noteq> Send_failed" "Send_failed \<notin> set nets" using Cons.prems(4) by auto
  have i: "event_loop_info (ap_conn s) = Info_write" using Cons.prems(2) by (auto simp: event_loop_info_def)
  obtain out s1 w1 where h: "handle_write net s = (out, s1)" "mc_read_buffer (ap_conn s1) = []" "w = out @ w1"
    and c: "unsent content s1 w1 \<or> w1 = [] \<and> silent s1" and o: "(\<exists>k. net = Sent (Suc k)) \<longrightarrow> out \<noteq> []"
    using write_unsent [OF Cons.prems(1,2) n(1) Cons.prems(3)] by blast
  have ch: "call_handlers d fs junk (Writable net) s = (out, handle_idle d fs junk s1)"
    by (simp add: call_handlers_def i h(1))
  have le: "length w \<le> writes (net # nets) \<Longrightarrow> length w1 \<le> writes nets"
  proof (cases "\<exists>k. net = Sent (Suc k)")
    case True
    then have "0 < length out" using o by simp
    moreover assume "length w \<le> writes (net # nets)"
    moreover have "writes (net # nets) = Suc (writes nets)" using True by (auto simp: writes_def)
    ultimately show ?thesis unfolding h(3) length_append by linarith
  next
    case False
    then have "writes (net # nets) = writes nets"
      by (cases net) (auto simp: writes_def gr0_conv_Suc)
    moreover assume "length w \<le> writes (net # nets)"
    ultimately show ?thesis using h(3) by simp
  qed
  from c show ?case
  proof (elim disjE conjE)
    assume u1: "unsent content s1 w1"
    let ?t = "handle_idle d fs junk s1"
    have t: "unsent content ?t w1" "mc_state (ap_conn ?t) \<in> {Headers_sending, Normal_body_ready}" "mc_read_buffer (ap_conn ?t) = []"
      using idle_unsent [OF u1, of d fs junk] h(2) by simp_all
    obtain outs s2 later where "serve_connection d fs junk (map Writable nets) ?t = (outs, s2)" "w1 = outs @ later"
      "length w1 \<le> writes nets \<longrightarrow> later = []"
      using Cons.IH [OF t n(2) Cons.prems(5)] by blast
    then show ?thesis using ch h(3) le by auto
  next
    assume "w1 = []" "silent s1"
    then obtain s2 where "serve_connection d fs junk (map Writable nets) (handle_idle d fs junk s1) = ([], s2)"
      using serve_silent [OF silent_idle [OF _ Cons.prems(5)] Cons.prems(5)] by blast
    then show ?thesis using ch h(3) \<open>w1 = []\<close> by simp
  qed
qed

subsection \<open>From the request to the head of the reply\<close>

text \<open>A head that the client's reader takes for the head of a file of \<open>n\<close> bytes, whatever follows it.\<close>

definition client_understands :: "string \<Rightarrow> nat \<Rightarrow> bool" where
  "client_understands head n = (\<forall>w hc body. h_fd hc \<in> set (w_open w) \<longrightarrow> rx_bytes (w_rx w (h_fd hc)) = head @ body \<longrightarrow>
     (\<exists>w' hc'. http_exec w hc = Inr (True, w', hc') \<and> rx_bytes (w_rx w' (h_fd hc)) = body \<and>
        h_status hc' = 200 \<and> http_size hc' = Inr (int n)))"

lemma date_length:
  assumes "tm_ok now"
  shows "length (get_date_string now) \<le> 37"
  using date_string(1,3) [OF assms]
  by (cases now) (simp_all add: wire_lines_def text_lines_def date_lines_def)

lemma head_size:
  assumes "mc_state c = Footers_received" "mc_code c = 200" "rs_headers rs = []" "rs_total_size rs < 2 ^ 63" "tm_ok now"
  shows "estimated_size now pl c rs \<le> 180"
proof -
  have h: "MHD_get_response_header rs k = None" "sent_headers Header_kind pl rs = []" for k
    using assms(3) by (simp_all add: MHD_get_response_header_def sent_headers_def)
  have "length (nat_str (rs_total_size rs)) \<le> 19" using assms(4) nat_str_short [of "rs_total_size rs" 19] by simp
  moreover have "length (status_line c) = 17"
    using assms(2) phrase_200 by (simp add: status_line_def HTTP_1_0_def HTTP_1_1_def print_eval)
  ultimately show ?thesis using assms(1) date_length [OF assms(5)] h
    by (simp add: estimated_size_def Let_def header_line_def)
qed

lemma room_front:
  assumes "room p 6" "n \<le> 181"
  shows "\<exists>p1. MHD_pool_allocate p (of_nat n) False = (Some (pool_pos p), p1)"
proof -
  have n: "unat (of_nat n :: 64 word) = n" using assms(2) by (simp add: unat_of_nat)
  have a: "unat (ROUND_TO_ALIGN (of_nat n)) = (n + 15) div 16 * 16" using align_value [of "of_nat n"] assms(2) by (simp add: n)
  have le: "(n + 15) div 16 * 16 \<le> 192" using assms(2) by presburger
  have z: "ROUND_TO_ALIGN (of_nat n) = 0 \<Longrightarrow> n = 0" using a by (auto simp: unat_eq_zero)
  have s: "unat (pool_pos p + ROUND_TO_ALIGN (of_nat n)) = unat (pool_pos p) + (n + 15) div 16 * 16"
    using assms(1) unat_bound [of "pool_end p"] a le by (simp add: room_def unat_word_ariths)
  show ?thesis using assms(1) s z le
    by (auto simp: MHD_pool_allocate_def Let_def room_def word_less_nat_alt)
qed

lemma build_room:
  assumes "estimated_size now (reply_decisions c rs) c rs \<le> 180" "room (mc_pool c) 6" "mc_version c \<noteq> Some []" "mc_state c = Footers_received"
  shows "\<exists>p a. build_header_response now c rs = Built (c\<lparr>mc_pool := p, mc_chunked := pl_chunked (reply_decisions c rs),
    mc_out := reply_text now (reply_decisions c rs) c rs, mc_write_at := a,
    mc_write_size := estimated_size now (reply_decisions c rs) c rs + 1\<rparr>)"
proof -
  obtain p1 where "MHD_pool_allocate (mc_pool c) (of_nat (estimated_size now (reply_decisions c rs) c rs + 1)) False
      = (Some (pool_pos (mc_pool c)), p1)"
    using room_front [OF assms(2), of "estimated_size now (reply_decisions c rs) c rs + 1"] assms(1) by auto
  then show ?thesis using assms(3,4)
    by (intro exI [of _ p1] exI [of _ "Some (pool_pos (mc_pool c))"]) (simp add: build_header_response_def Let_def reply_text_size)
qed

definition plain_get :: "mhd_conn \<Rightarrow> bool" where
  "plain_get c = (mc_method c = Some ''GET'' \<and> mc_version c \<noteq> None \<and> mc_version c \<noteq> Some [] \<and> \<not> mc_read_closed c \<and>
     reply_fields c = (None, 0, False) \<and> room (mc_pool c) 6 \<and>
     (\<forall>k\<in>{''Cookie'', ''Transfer-Encoding'', ''Content-Length'', ''Expect''}. MHD_lookup_connection_value c Header_kind k = None))"

lemma not_upload: "\<not> has_value (Some ''GET'') ''POST''" "\<not> has_value (Some ''GET'') ''PUT''" "\<not> has_value (Some ''GET'') ''HEAD''"
  by (simp_all add: has_value_def toasciilower_def isasciiupper_def at_def)

lemma lookup_update:
  "MHD_lookup_connection_value (c\<lparr>mc_upload_size := u\<rparr>) = MHD_lookup_connection_value c"
  "MHD_lookup_connection_value (c\<lparr>mc_state := st\<rparr>) = MHD_lookup_connection_value c"
  by (simp_all add: MHD_lookup_connection_value_def fun_eq_iff)

lemma headers_done:
  assumes "plain_get (ap_conn s)" "mc_state (ap_conn s) = Headers_received" "\<not> ap_ctx s"
  shows "serve_idle d fs junk s = serve_idle d fs junk
    (s\<lparr>ap_ctx := True, ap_conn := (ap_conn s)\<lparr>mc_upload_size := 0, mc_state := Footers_received\<rparr>\<rparr>)"
proof -
  let ?c = "ap_conn s"
  have m: "mc_method ?c = Some ''GET''" "mc_response ?c = None"
    using assms(1) by (simp_all add: plain_get_def reply_fields_def)
  have l: "MHD_lookup_connection_value ?c Header_kind ''Cookie'' = None"
    "MHD_lookup_connection_value ?c Header_kind ''Transfer-Encoding'' = None"
    "MHD_lookup_connection_value ?c Header_kind ''Content-Length'' = None"
    "MHD_lookup_connection_value ?c Header_kind ''Expect'' = None"
    using assms(1) by (simp_all add: plain_get_def)
  let ?c1 = "?c\<lparr>mc_upload_size := 0, mc_state := Headers_processed\<rparr>" and ?c2 = "?c\<lparr>mc_upload_size := 0, mc_state := Footers_received\<rparr>"
  have "parse_connection_headers d junk ?c = ?c\<lparr>mc_upload_size := 0\<rparr>"
    by (simp add: parse_connection_headers_def parse_cookie_header_def l lookup_update Let_def)
  then have "serve_step d fs junk s = (True, s\<lparr>ap_conn := ?c1\<rparr>)"
    using assms(2) by (simp add: serve_step_def Let_def)
  moreover have "serve_step d fs junk (s\<lparr>ap_conn := ?c1\<rparr>) = (True, s\<lparr>ap_ctx := True, ap_conn := ?c2\<rparr>)"
    using assms(3) m l by (simp add: serve_step_def call_connection_handler_def ahc_echo_def need_100_continue_def lookup_update
        has_value_def Let_def)
  ultimately show ?thesis using serve_goes_on by metis
qed

lemma reply_starts:
  assumes "plain_get (ap_conn s)" "mc_state (ap_conn s) = Headers_received" "mc_url (ap_conn s) = Some url" "\<not> ap_ctx s"
    and "fs_nodes fs (drop 1 url) = Some (Regular content)" "content \<noteq> []" "length content < 2 ^ 63" "tm_ok (dm_now d)"
  shows "\<exists>head. mc_state (ap_conn (serve_idle d fs junk s)) = Headers_sending \<and>
    unsent content (serve_idle d fs junk s) (head @ content) \<and>
    mc_read_buffer (ap_conn (serve_idle d fs junk s)) = mc_read_buffer (ap_conn s) \<and> client_understands head (length content) \<and> length head \<le> 180"
proof -
  let ?c = "ap_conn s" and ?rs = "callback_response (length content) (32 * 1024)"
  have m: "mc_method ?c = Some ''GET''" "mc_response ?c = None" "mc_write_position ?c = 0" "\<not> mc_chunked ?c" "room (mc_pool ?c) 6"
    "mc_version ?c \<noteq> Some []" using assms(1) by (simp_all add: plain_get_def reply_fields_def)
  let ?q = "?c\<lparr>mc_upload_size := 0, mc_state := Footers_received, mc_response := Some ?rs, mc_code := 200\<rparr>"
  have rs: "rs_headers ?rs = []" "rs_total_size ?rs = length content" by (simp_all add: callback_response_def)
  have sz: "estimated_size (dm_now d) (reply_decisions ?q ?rs) ?q ?rs \<le> 180"
    using assms(7,8) rs by (intro head_size) simp_all
  then obtain p a where b: "build_header_response (dm_now d) ?q ?rs = Built (?q\<lparr>mc_pool := p, mc_chunked := pl_chunked (reply_decisions ?q ?rs),
      mc_out := reply_text (dm_now d) (reply_decisions ?q ?rs) ?q ?rs, mc_write_at := a,
      mc_write_size := estimated_size (dm_now d) (reply_decisions ?q ?rs) ?q ?rs + 1\<rparr>)" (is "_ = Built ?b")
    using build_room [of "dm_now d" ?q ?rs] m by auto
  let ?t = "s\<lparr>ap_ctx := True, ap_conn := ?c\<lparr>mc_upload_size := 0, mc_state := Footers_received\<rparr>\<rparr>"
  have nch: "\<not> pl_chunked (reply_decisions ?q ?rs)"
    using assms(7) rs by (simp add: reply_decisions_def MHD_SIZE_UNKNOWN_def Let_def)
  let ?s1 = "s\<lparr>ap_ctx := False, ap_source := From_file content, ap_conn := ?b\<lparr>mc_state := Headers_sending\<rparr>\<rparr>"
  have "call_connection_handler fs ?t = s\<lparr>ap_ctx := False, ap_source := From_file content, ap_conn := ?q\<rparr>"
    using m assms(3,5) not_upload by (simp add: call_connection_handler_def ahc_echo_def queue_from_def MHD_queue_response_def Let_def)
  then have "serve_step d fs junk ?t = (False, ?s1)" using b by (simp add: serve_step_def Let_def)
  then have i: "serve_idle d fs junk s = ?s1"
    using headers_done [OF assms(1,2,4), of d fs junk] serve_stops by simp
  let ?head = "reply_text (dm_now d) (reply_decisions ?q ?rs) ?q ?rs"
  have ne: "?head \<noteq> []" by (simp add: reply_text_def Let_def)
  have "unsent content ?s1 (?head @ content)"
    using m nch ne assms(6) by (simp add: unsent_def window_ok_def callback_response_def)
  moreover have "client_understands ?head (length content)"
    unfolding client_understands_def using reply_client_reads [of ?q ?rs "dm_now d" ?b] b m assms(7,8) rs by simp
  moreover have "length ?head \<le> 180" using sz by (simp add: reply_text_size)
  ultimately show ?thesis unfolding i using m by (intro exI [of _ ?head]) simp
qed

subsection \<open>Receiving the request\<close>

lemma handle_read_piece:
  assumes "length (mc_read_buffer c @ x) + 1024 < unat (mc_read_size c)" "x \<noteq> []" "\<not> mc_read_closed c"
    and "mc_state c \<in> {Conn_init, Url_received, Header_part_received}"
  shows "handle_read d (Received x) c = c\<lparr>mc_read_buffer := mc_read_buffer c @ x\<rparr>"
proof -
  let ?n = "length (mc_read_buffer c)"
  have n: "unat (of_nat ?n :: 64 word) = ?n" using assms(1) by (intro unat_of_size [of _ "mc_read_size c"]) simp
  have "unat (of_nat ?n + 1024 :: 64 word) = ?n + 1024"
    using assms(1) unat_bound [of "mc_read_size c"] n by (simp add: unat_word_ariths)
  then have g: "\<not> of_nat ?n + MHD_BUF_INC_SIZE > mc_read_size c"
    using assms(1) by (simp add: MHD_BUF_INC_SIZE_def word_less_nat_alt not_less word_le_nat_alt)
  have ne: "mc_read_size c \<noteq> of_nat ?n" using n assms(1) by auto
  have "of_nat ?n \<le> mc_read_size c" using n assms(1) by (simp add: word_le_nat_alt)
  then have "unat (mc_read_size c - of_nat ?n) = unat (mc_read_size c) - ?n" using n by (simp add: unat_sub)
  then have tk: "take (unat (mc_read_size c - of_nat ?n)) x = x" using assms(1) by simp
  have "do_read (Received x) c = (True, c\<lparr>mc_read_buffer := mc_read_buffer c @ x\<rparr>)"
    using ne tk assms(2) by (simp add: do_read_def Let_def)
  then show ?thesis using g assms(3,4) by (auto simp: handle_read_def Let_def)
qed

lemma waiting_call:
  assumes "head_left sp m t v hs tail (ap_conn s) (mc_read_buffer (ap_conn s) @ x @ fut)" "1024 \<le> fst sp" "x \<noteq> []"
  shows "call_handlers d fs junk (Readable (Received x)) s =
    ([], handle_idle d fs junk (s\<lparr>ap_conn := (ap_conn s)\<lparr>mc_read_buffer := mc_read_buffer (ap_conn s) @ x\<rparr>\<rparr>))"
proof -
  have l: "length (mc_read_buffer (ap_conn s) @ x) + 1024 < unat (mc_read_size (ap_conn s))" "\<not> mc_read_closed (ap_conn s)"
    "mc_state (ap_conn s) \<in> {Conn_init, Url_received, Header_part_received}"
    using assms(1,2) by (auto simp: head_left_def)
  then have "event_loop_info (ap_conn s) = Info_read" by (auto simp: event_loop_info_def)
  then show ?thesis using handle_read_piece [OF l(1) assms(3) l(2,3)] by (simp add: call_handlers_def)
qed

lemma waiting_idle:
  assumes "head_left sp m t v hs tail (read_head d (ap_conn s)) (mc_read_buffer (read_head d (ap_conn s)) @ fut)"
    and "mc_state (ap_conn s) \<in> {Conn_init, Url_received, Header_part_received}"
  shows "handle_idle d fs junk s = s\<lparr>ap_conn := read_head d (ap_conn s)\<rparr>"
proof -
  let ?c = "read_head d (ap_conn s)"
  have st: "mc_state ?c \<in> {Conn_init, Url_received, Header_part_received}"
    and len: "length (mc_read_buffer ?c) < unat (mc_read_size ?c)" using assms(1) by (auto simp: head_left_def)
  have "serve_idle d fs junk (s\<lparr>ap_conn := ?c\<rparr>) = s\<lparr>ap_conn := ?c\<rparr>"
    using st by (intro serve_stops) (auto simp: serve_step_def)
  moreover have "of_nat (length (mc_read_buffer ?c)) \<noteq> mc_read_size ?c"
    using len unat_of_size [of "length (mc_read_buffer ?c)" "mc_read_size ?c"] by auto
  ultimately show ?thesis using assms(2) st
    by (auto simp: handle_idle_def idle_states_def read_request_def update_event_loop_info_def Let_def)
qed

text \<open>Headers that the server acts upon are left out.\<close>

definition no_special :: "(string \<times> string) list \<Rightarrow> bool" where
  "no_special hs = list_all (\<lambda>h. \<forall>k\<in>{''Cookie'', ''Transfer-Encoding'', ''Content-Length'', ''Expect''}.
     \<not> MHD_str_equal_caseless k (fst h)) hs"

lemma plain_lookup:
  assumes "no_special hs" "mc_headers c = as_headers hs" "k \<in> {''Cookie'', ''Transfer-Encoding'', ''Content-Length'', ''Expect''}"
  shows "MHD_lookup_connection_value c Header_kind k = None"
proof -
  have "find (\<lambda>(kd, name, value). kd = Header_kind \<and> MHD_str_equal_caseless k name) (as_headers hs) = None"
    using assms(1,3) by (auto simp: find_None_iff as_headers_def no_special_def list_all_iff simp del: MHD_str_equal_caseless.simps)
  then show ?thesis using assms(2) by (simp add: MHD_lookup_connection_value_def)
qed

lemma request_served:
  assumes "head_left (1024, 6, None, 0, False) ''GET'' t v hs [] (ap_conn s) (mc_read_buffer (ap_conn s) @ concat frags)"
    and "request_ok ''GET'' t v hs" "frags \<noteq> []" "[] \<notin> set frags" "no_special hs" "\<not> ap_ctx s"
    and "fs_nodes fs (drop 1 (cstring (MHD_http_unescape t))) = Some (Regular content)"
    and "content \<noteq> []" "length content < 2 ^ 63" "tm_ok (dm_now d)"
  shows "\<exists>s1 head. (\<forall>evs. serve_connection d fs junk (map (\<lambda>x. Readable (Received x)) frags @ evs) s = serve_connection d fs junk evs s1) \<and>
    mc_state (ap_conn s1) = Headers_sending \<and> unsent content s1 (head @ content) \<and> mc_read_buffer (ap_conn s1) = [] \<and>
    client_understands head (length content) \<and> length head \<le> 180"
  using assms(1,3,4,6)
proof (induction frags arbitrary: s)
  case (Cons x xs)
  let ?s = "s\<lparr>ap_conn := (ap_conn s)\<lparr>mc_read_buffer := mc_read_buffer (ap_conn s) @ x\<rparr>\<rparr>"
  let ?c = "read_head d (ap_conn ?s)"
  have l0: "head_left (1024, 6, None, 0, False) ''GET'' t v hs [] (ap_conn s) (mc_read_buffer (ap_conn s) @ x @ concat xs)"
    using Cons.prems(1) by simp
  have "x \<noteq> []" using Cons.prems(3) by auto
  then have ch: "call_handlers d fs junk (Readable (Received x)) s = ([], handle_idle d fs junk ?s)"
    using waiting_call [OF l0] by simp
  have st: "mc_state (ap_conn ?s) \<in> {Conn_init, Url_received, Header_part_received}" using l0 by (auto simp: head_left_def)
  have "head_left (1024, 6, None, 0, False) ''GET'' t v hs [] (ap_conn ?s) (mc_read_buffer (ap_conn ?s) @ concat xs)"
    using l0 by (simp add: head_left_def reply_fields_def)
  from read_head_left [OF this assms(2), of d] show ?case
  proof (elim disjE conjE)
    assume r: "head_read (1024, 6, None, 0, False) ''GET'' t v hs [] ?c (mc_read_buffer ?c @ concat xs)"
    then have e: "concat xs = []" "mc_read_buffer ?c = []" by (simp_all add: head_read_def)
    then have xs: "xs = []" using Cons.prems(3) by (cases xs) auto
    let ?u = "?s\<lparr>ap_conn := ?c\<rparr>"
    have p: "plain_get (ap_conn ?u)" using r assms(2) plain_lookup [OF assms(5), of ?c]
      by (auto simp: plain_get_def head_read_def request_ok_def word_ok_def)
    have h: "mc_state (ap_conn ?u) = Headers_received" "mc_url (ap_conn ?u) = Some (cstring (MHD_http_unescape t))" "\<not> ap_ctx ?u"
      using r Cons.prems(4) by (simp_all add: head_read_def)
    obtain head where f: "mc_state (ap_conn (serve_idle d fs junk ?u)) = Headers_sending"
      "unsent content (serve_idle d fs junk ?u) (head @ content)"
      "mc_read_buffer (ap_conn (serve_idle d fs junk ?u)) = []" "client_understands head (length content)" "length head \<le> 180"
      using reply_starts [OF p h assms(7-10), of junk] e(2) by auto
    have "handle_idle d fs junk ?s = serve_idle d fs junk ?u"
      using st f(1) update_waiting [of "ap_conn (serve_idle d fs junk ?u)" d]
      by (simp add: handle_idle_def idle_states_def read_request_def Let_def)
    then have "serve_connection d fs junk (map (\<lambda>x. Readable (Received x)) (x # xs) @ evs) s =
        serve_connection d fs junk evs (serve_idle d fs junk ?u)" for evs
      using ch xs by (simp split: prod.split)
    then show ?thesis using f by blast
  next
    assume l: "head_left (1024, 6, None, 0, False) ''GET'' t v hs [] ?c (mc_read_buffer ?c @ concat xs)" and "concat xs \<noteq> []"
    then have xs: "xs \<noteq> []" "[] \<notin> set xs" using Cons.prems(3) by auto
    let ?u = "?s\<lparr>ap_conn := ?c\<rparr>"
    have i: "handle_idle d fs junk ?s = ?u" using l st by (intro waiting_idle)
    have "\<exists>s1 head. (\<forall>evs. serve_connection d fs junk (map (\<lambda>x. Readable (Received x)) xs @ evs) ?u = serve_connection d fs junk evs s1) \<and>
      mc_state (ap_conn s1) = Headers_sending \<and> unsent content s1 (head @ content) \<and> mc_read_buffer (ap_conn s1) = [] \<and>
      client_understands head (length content) \<and> length head \<le> 180"
      using l Cons.prems(4) by (intro Cons.IH xs) simp_all
    then show ?thesis using ch unfolding i by (simp split: prod.split)
  qed
qed simp

lemma served_head:
  assumes "request_ok ''GET'' t v hs" "no_special hs" "concat frags = request_text ''GET'' t v hs" "[] \<notin> set frags"
    and "mc_state (ap_conn s) = Conn_init" "mc_read_buffer (ap_conn s) = []" "mc_headers (ap_conn s) = []" "\<not> mc_read_closed (ap_conn s)"
    and "reply_fields (ap_conn s) = (None, 0, False)" "\<not> ap_ctx s"
    and "length (request_text ''GET'' t v hs) + 1024 < unat (mc_read_size (ap_conn s))" "room (mc_pool (ap_conn s)) (length hs + 6)"
    and "fs_nodes fs (drop 1 (cstring (MHD_http_unescape t))) = Some (Regular content)"
    and "content \<noteq> []" "length content < 2 ^ 63" "tm_ok (dm_now d)" "dm_pool_size d div 2 \<noteq> 0" "Send_failed \<notin> set nets"
  shows "\<exists>head out s1 later. serve_connection d fs junk (map (\<lambda>x. Readable (Received x)) frags @ map Writable nets) s = (out, s1) \<and>
    out @ later = head @ content \<and> client_understands head (length content) \<and> length head \<le> 180 \<and>
    (length (head @ content) \<le> writes nets \<longrightarrow> later = [])"
proof -
  have "head_left (1024, 6, None, 0, False) ''GET'' t v hs [] (ap_conn s) (mc_read_buffer (ap_conn s) @ concat frags)"
    using assms(3,5-9,11,12) by (simp add: head_left_def)
  moreover have "frags \<noteq> []" using assms(3) by (auto simp: request_text_def)
  ultimately obtain s1 head where s1: "serve_connection d fs junk (map (\<lambda>x. Readable (Received x)) frags @ map Writable nets) s
      = serve_connection d fs junk (map Writable nets) s1"
    "mc_state (ap_conn s1) = Headers_sending" "unsent content s1 (head @ content)" "mc_read_buffer (ap_conn s1) = []"
    "client_understands head (length content)" "length head \<le> 180"
    using request_served [OF _ assms(1) _ assms(4,2,10,13-16), of junk] by metis
  have st: "mc_state (ap_conn s1) \<in> {Headers_sending, Normal_body_ready}" using s1(2) by simp
  obtain out s2 later where "serve_connection d fs junk (map Writable nets) s1 = (out, s2)" "head @ content = out @ later"
    "length (head @ content) \<le> writes nets \<longrightarrow> later = []"
    using serve_unsent [OF s1(3) st s1(4) assms(18,17), of fs junk] by blast
  then show ?thesis using s1(1,5,6) by metis
qed

subsection \<open>A file that has become shorter\<close>

text \<open>The reply waits for bytes that the file no longer has.\<close>

definition starved :: "string \<Rightarrow> served \<Rightarrow> bool" where
  "starved content s = (ap_source s = From_file content \<and> mc_state (ap_conn s) = Normal_body_unready \<and>
     (\<exists>rs. mc_response (ap_conn s) = Some rs \<and> length content \<le> mc_write_position (ap_conn s) \<and>
        mc_write_position (ap_conn s) < rs_total_size rs \<and> length (rs_data rs) + rs_start rs \<le> mc_write_position (ap_conn s)))"

lemma starved_idle:
  assumes "starved content s"
  shows "starved content (handle_idle d fs junk s)"
proof -
  obtain rs where st: "ap_source s = From_file content" "mc_state (ap_conn s) = Normal_body_unready" "mc_response (ap_conn s) = Some rs"
    "length content \<le> mc_write_position (ap_conn s)" "mc_write_position (ap_conn s) < rs_total_size rs"
    "length (rs_data rs) + rs_start rs \<le> mc_write_position (ap_conn s)" using assms by (auto simp: starved_def)
  let ?c = "ap_conn s"
  let ?t = "s\<lparr>ap_conn := ?c\<lparr>mc_response := Some (rs\<lparr>rs_start := mc_write_position ?c, rs_data := []\<rparr>), mc_state := Normal_body_unready\<rparr>,
    ap_source := From_file content\<rparr>"
  have "try_ready_normal_body s = (False, ?t)"
    using st by (simp add: try_ready_normal_body_def call_crc_def file_reader_def Let_def)
  then have "serve_idle d fs junk s = ?t" using st by (intro serve_stops) (simp add: serve_step_def Let_def)
  then have "idle_states d fs junk s = ?t" using st by (simp add: idle_states_def read_request_def head_idle)
  then have "handle_idle d fs junk s = ?t" by (simp add: handle_idle_def update_event_loop_info_def Let_def)
  then show ?thesis using st by (simp add: starved_def)
qed

lemma starved_forever: "starved content s \<Longrightarrow> \<exists>s1. serve_connection d fs junk evs s = ([], s1) \<and> starved content s1"
proof (induction evs arbitrary: s)
  case (Cons ev evs)
  have "event_loop_info (ap_conn s) = Info_block" using Cons.prems by (auto simp: starved_def event_loop_info_def)
  then have "call_handlers d fs junk ev s = ([], handle_idle d fs junk s)"
    by (simp add: call_handlers_def split: network_event.split)
  then show ?case using Cons.IH [OF starved_idle [OF Cons.prems, of d fs junk]] by auto
qed simp

subsection \<open>Contract\<close>

text \<open>A connection that has just been accepted, with room for a request of \<open>n\<close> bytes with \<open>k\<close> header fields and for
  the head of its reply.\<close>

definition accepts :: "nat \<Rightarrow> nat \<Rightarrow> served \<Rightarrow> bool" where
  "accepts n k s = (mc_state (ap_conn s) = Conn_init \<and> mc_read_buffer (ap_conn s) = [] \<and> mc_headers (ap_conn s) = [] \<and>
     \<not> mc_read_closed (ap_conn s) \<and> mc_response (ap_conn s) = None \<and> mc_write_position (ap_conn s) = 0 \<and> \<not> mc_chunked (ap_conn s) \<and>
     \<not> ap_ctx s \<and> n + 1024 < unat (mc_read_size (ap_conn s)) \<and> room (mc_pool (ap_conn s)) (k + 6))"

lemma accepts_less: "accepts n k s \<Longrightarrow> m \<le> n \<Longrightarrow> j \<le> k \<Longrightarrow> accepts m j s"
  by (auto simp: accepts_def room_def)

lemma accepted_serves:
  assumes "request_ok ''GET'' t v hs" "no_special hs" "concat frags = request_text ''GET'' t v hs" "[] \<notin> set frags"
    and "accepts (length (request_text ''GET'' t v hs)) (length hs) s"
    and "fs_nodes fs (drop 1 (cstring (MHD_http_unescape t))) = Some (Regular content)"
    and "content \<noteq> []" "length content < 2 ^ 63" "tm_ok (dm_now d)" "dm_pool_size d div 2 \<noteq> 0" "Send_failed \<notin> set nets"
  shows "\<exists>head out s1 later. serve_connection d fs junk (map (\<lambda>x. Readable (Received x)) frags @ map Writable nets) s = (out, s1) \<and>
    out @ later = head @ content \<and> client_understands head (length content) \<and> length head \<le> 180 \<and>
    (length (head @ content) \<le> writes nets \<longrightarrow> later = [])"
  using served_head [OF assms(1-4) _ _ _ _ _ _ _ _ assms(6-11), of s junk] assms(5)
  by (simp add: accepts_def reply_fields_def conj_assoc)

text \<open>C4: a file is delivered: a plain GET for a regular file, received in any pieces, is answered by the head of a reply that
  the client reads as one for the size of the file, followed by exactly the bytes of the file; however few bytes each write
  takes, what has left at any time is a prefix of this, and as many writes that take something as there are bytes are
  enough for all of it.
\<close>

theorem file_delivered:
  assumes "request_ok ''GET'' t v hs" "no_special hs" "concat frags = request_text ''GET'' t v hs" "[] \<notin> set frags"
    and "accepts (length (request_text ''GET'' t v hs)) (length hs) s"
    and "fs_nodes fs (drop 1 (cstring (MHD_http_unescape t))) = Some (Regular content)"
    and "content \<noteq> []" "length content < 2 ^ 63" "tm_ok (dm_now d)" "dm_pool_size d div 2 \<noteq> 0" "Send_failed \<notin> set nets"
  shows "\<exists>head out s1 later. serve_connection d fs junk (map (\<lambda>x. Readable (Received x)) frags @ map Writable nets) s = (out, s1) \<and>
    out @ later = head @ content \<and> client_understands head (length content) \<and> length head \<le> 180 \<and>
    (length (head @ content) \<le> writes nets \<longrightarrow> later = [])"
  using assms by (rule accepted_serves)

definition example_daemon :: mhd_daemon where "example_daemon = \<lparr>dm_pool_size = 32768, dm_now = None\<rparr>"

definition example_served :: served where
  "example_served = \<lparr>ap_conn = fresh_conn\<lparr>mc_pool := \<lparr>memory = [], pool_size = 32768, pool_pos = 16384, pool_end = 32768\<rparr>,
     mc_read_size := 16384\<rparr>, ap_ctx = False, ap_source = No_source\<rparr>"

definition example_files :: file_system where
  "example_files = \<lparr>fs_nodes = (\<lambda>name. if name = ''a'' then Some (Regular ''hello'') else None), fs_dir = None, fs_error = ''error''\<rparr>"

theorem file_delivered_witness:
  "\<exists>head out s1 later. serve_connection example_daemon example_files ''''
      (map (\<lambda>x. Readable (Received x)) [''GET /a HTT'', ''P/1.0'' @ CRLF @ CRLF] @ map Writable [Sent 100, Sent 3]) example_served
    = (out, s1) \<and> out @ later = head @ ''hello'' \<and> client_understands head (length ''hello'')"
proof -
  have r: "concat [''GET /a HTT'', ''P/1.0'' @ CRLF @ CRLF] = request_text ''GET'' ''/a'' ''HTTP/1.0'' []"
    by (simp add: request_text_def)
  have q: "request_ok ''GET'' ''/a'' ''HTTP/1.0'' []" by (simp add: request_ok_def word_ok_def is_eol_def)
  have a: "accepts (length (request_text ''GET'' ''/a'' ''HTTP/1.0'' [])) (length []) example_served"
    by (simp add: accepts_def example_served_def fresh_conn_def room_def request_text_def)
  have "cstring (MHD_http_unescape ''/a'') = ''/a''" by (simp add: MHD_http_unescape_def cstring_def)
  then have f: "fs_nodes example_files (drop 1 (cstring (MHD_http_unescape ''/a''))) = Some (Regular ''hello'')"
    by (simp add: example_files_def)
  have d: "tm_ok (dm_now example_daemon)" "dm_pool_size example_daemon div 2 \<noteq> 0" by (simp_all add: example_daemon_def tm_ok_def)
  have "[] \<notin> set [''GET /a HTT'', ''P/1.0'' @ CRLF @ CRLF]" "no_special []" "Send_failed \<notin> set [Sent 100, Sent 3]" "''hello'' \<noteq> []"
    "length ''hello'' < 2 ^ 63" by (simp_all add: no_special_def)
  from file_delivered [OF q this(2) r this(1) a f this(4,5) d this(3), of "''''"] show ?thesis by blast
qed

text \<open>C1: axel gets the file: the request that the client builds for a path, sent in any pieces to the server, makes it send
  what the client's \<open>http_exec\<close>, \<open>http_size\<close> and the reading of the body understand as status 200, the size of the
  file and the bytes of the file, for every pattern of partial writes that goes on long enough.  The server ignores
  the range: the whole file comes back also when the client asks for a part of it.
\<close>

theorem axel_gets_file:
  assumes "h_proxy hc = 0" "cstring (h_auth hc) = []"
    and "word_ok path" "CHR ''?'' \<notin> set path" "field_ok (''Host'', h_host hc)"
    and "length path + length (h_host hc) < 900" "\<bar>h_firstbyte hc\<bar> < 10 ^ 18" "\<bar>h_lastbyte hc\<bar> < 10 ^ 18"
    and "concat frags = h_request (http_addheader '''' (http_get path hc))" "[] \<notin> set frags" "accepts 1024 2 s"
    and "fs_nodes fs (drop 1 (cstring (MHD_http_unescape path))) = Some (Regular content)"
    and "content \<noteq> []" "length content < 2 ^ 63" "tm_ok (dm_now d)" "dm_pool_size d div 2 \<noteq> 0" "Send_failed \<notin> set nets"
    and "180 + length content \<le> writes nets" "h_fd (http_get path hc) \<in> set (w_open w)"
    and "rx_bytes (w_rx w (h_fd (http_get path hc))) =
      fst (serve_connection d fs junk (map (\<lambda>x. Readable (Received x)) frags @ map Writable nets) s)"
  shows "\<exists>w' hc'. http_exec w (http_get path hc) = Inr (True, w', hc') \<and> h_status hc' = 200 \<and>
    http_size hc' = Inr (int (length content)) \<and> rx_bytes (w_rx w' (h_fd (http_get path hc))) = content"
proof -
  let ?range = "''bytes='' @ int_str (h_firstbyte hc) @ ''-'' @ (if h_lastbyte hc = 0 then [] else int_str (h_lastbyte hc))"
  let ?hs = "(''Host'', h_host hc) # (if h_firstbyte hc = 0 then [] else [(''Range'', ?range)])"
  have len: "length (int_str (h_firstbyte hc)) \<le> 19" "length (int_str (h_lastbyte hc)) \<le> 19"
    using assms(7,8) int_str_length by simp_all
  have req: "concat frags = request_text ''GET'' path HTTP_1_0 ?hs"
    using axel_request_text [OF assms(1,2,6) len] assms(9) by simp
  have "length (request_text ''GET'' path HTTP_1_0 ?hs) \<le> 1024"
    using assms(6) len by (simp add: request_text_def field_text_def HTTP_1_0_def)
  moreover have "length ?hs \<le> 2" by simp
  ultimately have acc: "accepts (length (request_text ''GET'' path HTTP_1_0 ?hs)) (length ?hs) s"
    by (rule accepts_less [OF assms(11)])
  have "clean (int_str x)" for x by (rule int_str_clean)
  then have ok: "request_ok ''GET'' path HTTP_1_0 ?hs"
    using assms(3-5) by (simp add: request_ok_def word_ok_def field_ok_def is_eol_def HTTP_1_0_def)
  have sp: "no_special ?hs" by (simp add: no_special_def toasciilower_def isasciiupper_def at_def)
  obtain head out s1 later where o: "serve_connection d fs junk (map (\<lambda>x. Readable (Received x)) frags @ map Writable nets) s = (out, s1)"
    "out @ later = head @ content" "client_understands head (length content)" "length head \<le> 180"
    "length (head @ content) \<le> writes nets \<longrightarrow> later = []"
    using accepted_serves [OF ok sp req assms(10) acc assms(12-17), of junk] by blast
  then have "out = head @ content" using assms(18) by simp
  then have "rx_bytes (w_rx w (h_fd (http_get path hc))) = head @ content" using assms(20) o(1) by simp
  then show ?thesis using o(3) assms(19) unfolding client_understands_def by blast
qed

theorem axel_gets_file_witness:
  "\<exists>w' hc'. http_exec (example_world\<lparr>w_rx := (\<lambda>_. [Data (fst (serve_connection example_daemon example_files ''''
       (map (\<lambda>x. Readable (Received x)) [h_request (http_addheader '''' (http_get ''/a'' (http_zero\<lparr>h_host := ''h'', h_fd := 3\<rparr>)))] @
        map Writable (replicate 200 (Sent 1))) example_served))])\<rparr>)
       (http_get ''/a'' (http_zero\<lparr>h_host := ''h'', h_fd := 3\<rparr>)) = Inr (True, w', hc') \<and>
     http_size hc' = Inr 5 \<and> rx_bytes (w_rx w' 3) = ''hello''"
proof -
  let ?hc = "http_zero\<lparr>h_host := ''h'', h_fd := 3\<rparr>"
  let ?req = "h_request (http_addheader '''' (http_get ''/a'' ?hc))"
  let ?out = "fst (serve_connection example_daemon example_files '''' (map (\<lambda>x. Readable (Received x)) [?req] @
        map Writable (replicate 200 (Sent 1))) example_served)"
  let ?w = "example_world\<lparr>w_rx := (\<lambda>_. [Data ?out])\<rparr>"
  have fd: "h_fd (http_get ''/a'' ?hc) = 3"
    by (simp add: http_zero_def)
  have hc: "h_proxy ?hc = 0" "cstring (h_auth ?hc) = []" "h_firstbyte ?hc = 0" "h_lastbyte ?hc = 0" "h_host ?hc = ''h''"
    by (simp_all add: http_zero_def cstring_def)
  have ne: "[] \<notin> set [?req]"
    using axel_request_text [of ?hc "''/a''"] hc by (simp add: int_str_def nat_str.simps request_text_def)
  have p: "word_ok ''/a''" "field_ok (''Host'', h_host ?hc)" by (simp_all add: hc word_ok_def field_ok_def is_eol_def)
  have a: "accepts 1024 2 example_served" by (simp add: accepts_def example_served_def fresh_conn_def room_def)
  have "cstring (MHD_http_unescape ''/a'') = ''/a''" by (simp add: MHD_http_unescape_def cstring_def)
  then have f: "fs_nodes example_files (drop 1 (cstring (MHD_http_unescape ''/a''))) = Some (Regular ''hello'')"
    by (simp add: example_files_def)
  have d: "tm_ok (dm_now example_daemon)" "dm_pool_size example_daemon div 2 \<noteq> 0" by (simp_all add: example_daemon_def tm_ok_def)
  have n: "Send_failed \<notin> set (replicate 200 (Sent 1))" "180 + length ''hello'' \<le> writes (replicate 200 (Sent 1))"
    by (simp_all add: writes_def)
  have w: "h_fd (http_get ''/a'' ?hc) \<in> set (w_open ?w)" "rx_bytes (w_rx ?w (h_fd (http_get ''/a'' ?hc))) = ?out"
    by (simp_all add: fd example_world_def del: serve_connection.simps)
  have "\<exists>w' hc'. http_exec ?w (http_get ''/a'' ?hc) = Inr (True, w', hc') \<and> h_status hc' = 200 \<and>
      http_size hc' = Inr (int (length ''hello'')) \<and> rx_bytes (w_rx w' (h_fd (http_get ''/a'' ?hc))) = ''hello''"
    by (rule axel_gets_file [OF hc(1,2) p(1) _ p(2) _ _ _ _ ne a f _ _ d n w(1,2)]) (simp_all add: hc del: serve_connection.simps)
  then show ?thesis unfolding fd by (elim exE conjE, intro exI conjI) simp_all
qed

text \<open>C36: a file that has become shorter while it is sent blocks its connection: as the length was announced, the reply is never
  finished, nothing more is sent, and the connection is never closed, whatever the network does.
\<close>

theorem truncated_file_never_ends:
  assumes "ap_source s = From_file content" "mc_state (ap_conn s) = Normal_body_unready" "mc_response (ap_conn s) = Some rs"
    "length content \<le> mc_write_position (ap_conn s)" "mc_write_position (ap_conn s) < rs_total_size rs"
    "length (rs_data rs) + rs_start rs \<le> mc_write_position (ap_conn s)"
  shows "\<exists>s1. serve_connection d fs junk evs s = ([], s1) \<and> mc_state (ap_conn s1) = Normal_body_unready"
  using starved_forever [of content s d fs junk evs] assms by (auto simp: starved_def)

theorem truncated_file_never_ends_witness:
  "\<exists>s1. serve_connection example_daemon example_files '''' (replicate 3 (Writable (Sent 10)))
      (example_served\<lparr>ap_source := From_file ''he'', ap_conn := fresh_conn\<lparr>mc_state := Normal_body_unready,
         mc_response := Some (callback_response 5 32768), mc_write_position := 2\<rparr>\<rparr>) = ([], s1) \<and>
    mc_state (ap_conn s1) = Normal_body_unready"
  by (rule truncated_file_never_ends [of _ "''he''" "callback_response 5 32768"])
    (simp_all add: callback_response_def)

end
