(* ===== verification/MhdSafe.thy ===== *)
theory MhdSafe
  imports MhdFiles
begin

text \<open>
  Well-formed connections of the embedded HTTP daemon: in every state of the machine of
  \<open>src/final/server/microhttpd/microhttpd/connection.c\<close> the parts of the request and the response that the code follows
  without a test are there, and every operation keeps it so.
\<close>

subsection \<open>Well-formed connections\<close>

text \<open>The parts of a request that the code follows without a test: its method, its URL and its version.\<close>

definition known_request :: "mhd_conn \<Rightarrow> bool" where
  "known_request c = (mc_method c \<noteq> None \<and> mc_url c \<noteq> None \<and> mc_version c \<noteq> None)"

text \<open>
  The states in which a request is being read, and those in which a reply is sent.  A connection is well formed when
  every state finds the pointers it follows: the request from its first line on, the response while it is sent, and
  either of them when the request is complete.
\<close>

definition request_states :: "connection_state set" where
  "request_states = {Url_received, Header_part_received, Headers_received, Headers_processed, Continue_sending, Continue_sent,
     Body_received, Footer_part_received}"

definition reply_states :: "connection_state set" where
  "reply_states = {Headers_sending, Headers_sent, Normal_body_ready, Normal_body_unready, Chunked_body_ready,
     Chunked_body_unready, Body_sent, Footers_sending, Footers_sent}"

definition conn_ok :: "mhd_conn \<Rightarrow> bool" where
  "conn_ok c = ((mc_state c \<in> request_states \<longrightarrow> known_request c) \<and>
     (mc_state c \<in> reply_states \<longrightarrow> mc_response c \<noteq> None \<and> mc_version c \<noteq> None) \<and>
     (mc_state c = Footers_received \<longrightarrow> known_request c \<or> mc_response c \<noteq> None \<and> mc_version c \<noteq> None))"

lemma conn_ok_states:
  "mc_state c = Conn_init \<Longrightarrow> conn_ok c" "mc_state c = Conn_closed \<Longrightarrow> conn_ok c"
  "mc_state c \<in> request_states \<union> {Footers_received} \<Longrightarrow> known_request c \<Longrightarrow> conn_ok c"
  "mc_state c \<in> reply_states \<Longrightarrow> mc_response c \<noteq> None \<Longrightarrow> mc_version c \<noteq> None \<Longrightarrow> conn_ok c"
  by (auto simp: conn_ok_def request_states_def reply_states_def)

lemma close_ok [simp]: "conn_ok (connection_close c)"
  by (rule conn_ok_states) (simp add: connection_close_def)

text \<open>Steps that leave the request alone.\<close>

definition keeps_request :: "mhd_conn \<Rightarrow> mhd_conn \<Rightarrow> bool" where
  "keeps_request c c1 = (mc_method c1 = mc_method c \<and> mc_url c1 = mc_url c \<and> (mc_version c \<noteq> None \<longrightarrow> mc_version c1 \<noteq> None))"

lemma keeps_refl [simp]: "keeps_request c c" by (simp add: keeps_request_def)

lemma keeps_trans: "keeps_request c c1 \<Longrightarrow> keeps_request c1 c2 \<Longrightarrow> keeps_request c c2"
  by (simp add: keeps_request_def)

lemma keeps_known: "keeps_request c c1 \<Longrightarrow> known_request c \<Longrightarrow> known_request c1"
  by (simp add: keeps_request_def known_request_def)

lemma queue_keeps:
  assumes "MHD_queue_response status rs c = (ok, c1)"
  shows "mc_method c1 = mc_method c" "mc_url c1 = mc_url c" "mc_version c1 = mc_version c"
  using assms by (auto simp: MHD_queue_response_def Let_def split: if_splits)

lemma built_keeps:
  "build_header_response now c rs = Built c1 \<Longrightarrow> mc_method c1 = mc_method c \<and> mc_url c1 = mc_url c \<and> mc_version c1 = mc_version c \<and>
    mc_response c1 = mc_response c \<and> mc_state c1 = mc_state c"
  by (auto simp: build_header_response_def Let_def split: prod.splits option.splits if_splits)

lemma error_fields:
  "keeps_request c (transmit_error_response now status message c) \<and>
   mc_version (transmit_error_response now status message c) \<noteq> None \<and>
   mc_response (transmit_error_response now status message c) \<noteq> None"
proof -
  let ?c1 = "c\<lparr>mc_version := (case mc_version c of None \<Rightarrow> Some HTTP_1_0 | v \<Rightarrow> v),
                 mc_state := Footers_received, mc_read_closed := True\<rparr>"
  obtain ok c2 where q: "MHD_queue_response status (text_response message) ?c1 = (ok, c2)" by fastforce
  obtain rs where rs: "mc_response c2 = Some rs" using queued [of ?c1 status "text_response message"] q by auto
  have v: "mc_version c2 \<noteq> None" using queue_keeps [OF q] by (auto split: option.splits)
  have k: "keeps_request c c2" using queue_keeps [OF q] v by (auto simp: keeps_request_def)
  have t: "transmit_error_response now status message c =
      (case build_header_response now c2 rs of Built c3 \<Rightarrow> c3\<lparr>mc_state := Headers_sending\<rparr> | _ \<Rightarrow> connection_close c2)"
    using q rs by (simp add: transmit_error_response_def)
  show ?thesis
  proof (cases "build_header_response now c2 rs")
    case (Built c3)
    then show ?thesis using built_keeps [OF Built] k v rs unfolding t by (simp add: keeps_request_def)
  qed (use k v rs in \<open>simp_all add: t keeps_request_def connection_close_def\<close>)
qed

lemma error_ok [simp]: "conn_ok (transmit_error_response now status message c)"
  using error_state [of now status message c] error_fields [of c now status message]
  by (auto intro: conn_ok_states simp: reply_states_def)

lemma grow_fields:
  "try_grow_read_buffer d c = (ok, c1) \<Longrightarrow> mc_state c1 = mc_state c \<and> mc_method c1 = mc_method c \<and> mc_url c1 = mc_url c \<and>
     mc_version c1 = mc_version c \<and> mc_response c1 = mc_response c"
  by (auto simp: try_grow_read_buffer_def Let_def split: prod.splits option.splits)

text \<open>The fields that well-formedness depends on.\<close>

definition core_fields :: "mhd_conn \<Rightarrow> connection_state \<times> string option \<times> string option \<times> string option \<times> response option" where
  "core_fields c = (mc_state c, mc_method c, mc_url c, mc_version c, mc_response c)"

lemma core_ok: "core_fields c1 = core_fields c \<Longrightarrow> conn_ok c1 = conn_ok c"
  by (simp add: core_fields_def conn_ok_def known_request_def)

lemma core_keeps: "core_fields c1 = core_fields c \<Longrightarrow> keeps_request c c1"
  by (simp add: core_fields_def keeps_request_def)

lemma next_line_core:
  assumes "get_next_header_line d c = (line, c1)"
  shows "core_fields c1 = core_fields c \<or> line = None \<and> conn_ok c1 \<and> mc_state c1 \<in> {Headers_sending, Conn_closed}"
  using assms grow_fields [of d c] error_ok error_state
  by (auto simp: get_next_header_line_def Let_def core_fields_def split: if_splits prod.splits bool.splits)

lemma add_header_core:
  assumes "connection_add_header d kind key v c = (ok, c1)"
  shows "keeps_request c c1" "core_fields c1 = core_fields c \<or> \<not> ok \<and> conn_ok c1 \<and> mc_state c1 \<in> {Headers_sending, Conn_closed}"
proof -
  have "keeps_request c c1 \<and> (core_fields c1 = core_fields c \<or> \<not> ok \<and> conn_ok c1 \<and> mc_state c1 \<in> {Headers_sending, Conn_closed})"
    using assms error_fields [of c "dm_now d" 413 REQUEST_TOO_BIG] error_state [of "dm_now d" 413 REQUEST_TOO_BIG c]
    by (auto simp: connection_add_header_def MHD_set_connection_value_def core_fields_def keeps_request_def
        split: prod.splits option.splits bool.splits)
  then show "keeps_request c c1" "core_fields c1 = core_fields c \<or> \<not> ok \<and> conn_ok c1 \<and> mc_state c1 \<in> {Headers_sending, Conn_closed}"
    by blast+
qed

lemma parse_arguments_keeps:
  "(\<And>key v s ok s1. cb key v s = (ok, s1) \<Longrightarrow> P s \<Longrightarrow> P s1) \<Longrightarrow> P s \<Longrightarrow>
   P (snd (snd (parse_arguments_loop cb args num s)))"
proof (induction cb args num s rule: parse_arguments_loop.induct)
  case (1 cb args num s)
  note step = "1.prems"(1) [OF _ "1.prems"(2)]
  have done1: "P (snd (snd (case cb k v s of (ok, s1) \<Rightarrow> if \<not> ok then (False, num, s1) else (True, num + 1, s1))))" for k v
    using step [of k v] by (cases "cb k v s") auto
  show ?case
  proof (cases "args = []")
    case True
    then show ?thesis using "1.prems"(2) by (subst parse_arguments_loop.simps) simp
  next
    case ne: False
    show ?thesis
    proof (cases "strchr args (CHR ''&'')")
      case None
      then show ?thesis using ne done1 by (subst parse_arguments_loop.simps) (simp split: option.split)
    next
      case (Some a)
      show ?thesis
      proof (cases "strchr args (CHR ''='')")
        case None
        obtain ok s1 where r: "cb (unescape_arg (take a args)) None s = (ok, s1)" by fastforce
        have "ok \<Longrightarrow> P (snd (snd (parse_arguments_loop cb (drop (a + 1) args) (num + 1) s1)))"
          using "1.IH"(1) [OF ne Some None r [symmetric]] "1.prems"(1) step [OF r] by simp
        then show ?thesis using ne Some None r step [OF r] by (subst parse_arguments_loop.simps) simp
      next
        case e: (Some e)
        let ?k = "if a < e then unescape_arg (take a args) else unescape_arg (take e args)"
        let ?v = "if a < e then None else Some (unescape_arg (drop (e + 1) (take a args)))"
        obtain ok s1 where r: "cb ?k ?v s = (ok, s1)" by fastforce
        have "ok \<Longrightarrow> P (snd (snd (parse_arguments_loop cb (drop (a + 1) args) (num + 1) s1)))"
          using "1.IH"(2) [OF ne Some e, of ok s1] "1.IH"(3) [OF ne Some e, of ok s1] "1.prems"(1) step [OF r] r
          by (cases "a < e") simp_all
        then show ?thesis using ne Some e r step [OF r] by (subst parse_arguments_loop.simps) (cases "a < e"; simp)
      qed
    qed
  qed
qed

subsection \<open>Reading a request\<close>

lemma parse_line_known:
  assumes "parse_initial_message_line d line c = (ok, c1)"
  shows "if ok then known_request c1 else c1 = c"
proof -
  have args: "mc_method s \<noteq> None \<and> mc_version s \<noteq> None \<Longrightarrow>
      mc_method (snd (snd (MHD_parse_arguments (connection_add_header d Argument_kind) a s))) \<noteq> None \<and>
      mc_version (snd (snd (MHD_parse_arguments (connection_add_header d Argument_kind) a s))) \<noteq> None" for a s
    unfolding MHD_parse_arguments_def
    by (rule parse_arguments_keeps) (auto dest!: add_header_core(1) simp: keeps_request_def)
  have "known_request c1" if r: ok
  proof -
    obtain meth rest where sp: "split_request_line line = Some (meth, rest)"
      using assms r by (cases "split_request_line line") (auto simp: parse_initial_message_line_def)
    show ?thesis
    proof (cases rest)
      case None
      then show ?thesis using assms sp by (auto simp: parse_initial_message_line_def known_request_def)
    next
      case (Some tv)
      obtain target version where tv: "tv = (target, version)" by (cases tv)
      let ?c1 = "c\<lparr>mc_method := Some (cstring meth), mc_version := Some (cstring version)\<rparr>"
      show ?thesis
      proof (cases "strchr target (CHR ''?'')")
        case None
        then show ?thesis using assms sp Some tv by (auto simp: parse_initial_message_line_def known_request_def)
      next
        case q: (Some q)
        obtain r n c2 where m: "MHD_parse_arguments (connection_add_header d Argument_kind) (cstring (drop (q + 1) target)) ?c1 = (r, n, c2)"
          using prod_cases3 by blast
        have "mc_method c2 \<noteq> None \<and> mc_version c2 \<noteq> None" using args [of ?c1 "cstring (drop (q + 1) target)"] m by simp
        moreover have "c1 = c2\<lparr>mc_url := Some (cstring (MHD_http_unescape (cstring (take q target))))\<rparr>"
          using assms sp Some tv q m by (simp add: parse_initial_message_line_def Let_def)
        ultimately show ?thesis by (simp add: known_request_def)
      qed
    qed
  qed
  moreover have "c1 = c" if "\<not> ok"
    using assms that by (auto simp: parse_initial_message_line_def Let_def split: option.splits prod.splits)
  ultimately show ?thesis by simp
qed

lemma header_line_core:
  "process_header_line line c = (ok, c1) \<Longrightarrow> if ok then core_fields c1 = core_fields c else c1 = connection_close c"
  by (auto simp: process_header_line_def core_fields_def split: option.splits)

lemma broken_line_core:
  assumes "process_broken_line d line kind c = (ok, c1)"
  shows "if ok then core_fields c1 = core_fields c else conn_ok c1"
proof (cases "cstring (fst line) \<noteq> [] \<and> (hd (cstring (fst line)) = CHR '' '' \<or> hd (cstring (fst line)) = CHR 0x09)")
  case True
  then show ?thesis using assms by (auto simp: process_broken_line_def Let_def core_fields_def split: prod.splits option.splits)
next
  case False
  obtain r c2 where a: "connection_add_header d kind (mc_last c) (Some (mc_colon c)) c = (r, c2)" by fastforce
  obtain r3 c3 where h: "process_header_line line c2 = (r3, c3)" by fastforce
  show ?thesis
  proof (cases r)
    case True
    then show ?thesis using assms False a add_header_core(2) [OF a] h header_line_core [OF h]
      by (cases r3; cases "cstring (fst line) = []") (auto simp: process_broken_line_def Let_def)
  next
    case r: False
    then show ?thesis using assms False a by (auto simp: process_broken_line_def Let_def)
  qed
qed

lemma no_line_ok: "conn_ok c \<Longrightarrow> conn_ok (snd (no_line c st))"
  by (simp add: no_line_def)

lemma head_step_ok:
  assumes "conn_ok c"
  shows "conn_ok (snd (head_step d c))"
proof -
  obtain line c1 where l: "get_next_header_line d c = (line, c1)" by fastforce
  note core = next_line_core [OF l]
  then have ok1: "conn_ok c1" using assms core_ok by blast
  show ?thesis
  proof (cases line)
    case None
    then show ?thesis using l ok1 assms no_line_ok by (simp add: head_step_def split: connection_state.split)
  next
    case (Some x)
    then have eq: "core_fields c1 = core_fields c" using core by simp
    obtain r2 c2 where p: "parse_initial_message_line d (fst x) c1 = (r2, c2)" by fastforce
    obtain r3 c3 where h: "process_header_line x c1 = (r3, c3)" by fastforce
    obtain r4 c4 where b: "process_broken_line d x Header_kind c1 = (r4, c4)" by fastforce
    note facts = parse_line_known [OF p] header_line_core [OF h] broken_line_core [OF b]
    have st: "mc_state c1 = mc_state c" using eq by (simp add: core_fields_def)
    have k: "known_request c1" if "mc_state c \<in> request_states" using ok1 that st by (auto simp: conn_ok_def)
    show ?thesis
    proof (cases "mc_state c")
      case Conn_init
      show ?thesis
      proof (cases "empty_line x")
        case True
        then show ?thesis using l Some Conn_init no_line_ok [OF ok1] by (simp add: head_step_def)
      next
        case ne: False
        show ?thesis
        proof (cases r2)
          case True
          then have "conn_ok (c2\<lparr>mc_state := Url_received\<rparr>)"
            using facts(1) by (intro conn_ok_states(3)) (simp_all add: request_states_def known_request_def)
          then show ?thesis using l Some Conn_init ne p True by (simp add: head_step_def)
        next
          case False
          then show ?thesis using l Some Conn_init ne p by (simp add: head_step_def)
        qed
      qed
    next
      case Url_received
      then have kc: "known_request c1" using k by (simp add: request_states_def)
      have "known_request c3" if r3 using kc facts(2) that by (auto simp: core_fields_def known_request_def)
      have e: "conn_ok (c1\<lparr>mc_state := Headers_received\<rparr>)" "r3 \<Longrightarrow> conn_ok (c3\<lparr>mc_state := Header_part_received\<rparr>)"
        using kc \<open>r3 \<Longrightarrow> known_request c3\<close> by (auto intro!: conn_ok_states(3) simp: request_states_def known_request_def)
      show ?thesis using l Some h Url_received e by (cases "empty_line x"; cases r3) (simp_all add: head_step_def)
    next
      case Header_part_received
      then have kc: "known_request c1" using k by (simp add: request_states_def)
      have "known_request c4 \<and> mc_state c4 = Header_part_received" if r4
        using kc facts(3) that st Header_part_received by (auto simp: core_fields_def known_request_def)
      have e: "r4 \<Longrightarrow> conn_ok c4 \<and> conn_ok (c4\<lparr>mc_state := Headers_received\<rparr>)"
        using \<open>r4 \<Longrightarrow> known_request c4 \<and> mc_state c4 = Header_part_received\<close>
        by (auto intro!: conn_ok_states(3) simp: request_states_def known_request_def)
      show ?thesis using l Some b Header_part_received e facts(3) by (cases "empty_line x"; cases r4) (simp_all add: head_step_def)
    qed (use assms l Some in \<open>simp_all add: head_step_def\<close>)
  qed
qed

lemma read_head_ok: "conn_ok c \<Longrightarrow> conn_ok (read_head d c)"
proof (induction d c rule: read_head.induct)
  case (1 d c)
  obtain r c1 where s: "head_step d c = (r, c1)" by fastforce
  have "conn_ok c1" using head_step_ok [OF "1.prems", of d] s by simp
  then show ?case using "1.IH" [OF s [symmetric]] s by (subst read_head.simps) (cases r; simp)
qed

lemma cookies_keep: "keeps_request c (add_cookies d ps c)"
proof (induction d ps c rule: add_cookies.induct)
  case (2 d key v ps c)
  obtain r c1 where a: "connection_add_header d Cookie_kind key (Some v) c = (r, c1)" by fastforce
  show ?case using 2 [OF a [symmetric]] a add_header_core(1) [OF a] keeps_trans by (cases r) auto
qed simp

lemma parse_headers_keep: "keeps_request c (parse_connection_headers d junk c)"
proof -
  have "keeps_request c (parse_cookie_header d junk c)"
  proof (cases "MHD_lookup_connection_value c Header_kind ''Cookie''")
    case (Some hdr)
    obtain a p where al: "MHD_pool_allocate (mc_pool c) (of_nat (length hdr + 1)) True = (a, p)" by fastforce
    have "keeps_request c (add_cookies d (cookie_pairs junk hdr) (c\<lparr>mc_pool := p\<rparr>))"
      using cookies_keep [of "c\<lparr>mc_pool := p\<rparr>" d "cookie_pairs junk hdr"] by (simp add: keeps_request_def)
    then show ?thesis using Some al error_fields by (cases a) (simp_all add: parse_cookie_header_def)
  qed (simp add: parse_cookie_header_def)
  then show ?thesis
    by (auto simp: parse_connection_headers_def keeps_request_def connection_close_def Let_def split: option.split)
qed

subsection \<open>The reply\<close>

lemma core_update:
  "core_fields (c\<lparr>mc_pool := p\<rparr>) = core_fields c" "core_fields (c\<lparr>mc_out := x\<rparr>) = core_fields c"
  "core_fields (c\<lparr>mc_read_closed := b\<rparr>) = core_fields c" "core_fields (c\<lparr>mc_read_buffer := x\<rparr>) = core_fields c"
  by (simp_all add: core_fields_def)

lemma handler_fields:
  assumes "mc_response (ap_conn s) = None \<Longrightarrow> known_request (ap_conn s)" "mc_state (ap_conn s) \<in> {Headers_processed, Footers_received}"
  shows "conn_ok (ap_conn (call_connection_handler fs s)) \<or> mc_response (ap_conn s) \<noteq> None"
    "keeps_request (ap_conn s) (ap_conn (call_connection_handler fs s))"
    "mc_response (ap_conn s) \<noteq> None \<Longrightarrow> ap_conn (call_connection_handler fs s) = ap_conn s"
proof -
  show same: "ap_conn (call_connection_handler fs s) = ap_conn s" if "mc_response (ap_conn s) \<noteq> None"
    using that by (simp add: call_connection_handler_def)
  have q: "keeps_request (ap_conn t) (ap_conn (snd (queue_from st rs src t)))" for st rs src t
    using queue_keeps by (auto simp: queue_from_def keeps_request_def split: prod.split bool.split)
  have a: "keeps_request (ap_conn s) (ap_conn (snd (ahc_echo fs s)))"
    using q [of "s\<lparr>ap_ctx := False\<rparr>"] by (auto simp: ahc_echo_def Let_def split: option.split node.split)
  show k: "keeps_request (ap_conn s) (ap_conn (call_connection_handler fs s))"
    using a by (auto simp: call_connection_handler_def keeps_request_def connection_close_def split: prod.split bool.split)
  show "conn_ok (ap_conn (call_connection_handler fs s)) \<or> mc_response (ap_conn s) \<noteq> None"
  proof (cases "mc_response (ap_conn s)")
    case None
    then have "known_request (ap_conn (call_connection_handler fs s))" using assms(1) keeps_known [OF k] by simp
    moreover have "mc_state (ap_conn (call_connection_handler fs s)) \<in> {Headers_processed, Footers_received, Conn_closed}"
      using handler_state [of fs s] assms(2) by auto
    ultimately show ?thesis by (auto simp: conn_ok_def request_states_def reply_states_def)
  qed simp
qed

lemma ready_ok:
  assumes "mc_response (ap_conn s) \<noteq> None" "mc_version (ap_conn s) \<noteq> None" "try_ready_normal_body s = (r, s1)"
  shows "if r then mc_response (ap_conn s1) \<noteq> None \<and> mc_version (ap_conn s1) \<noteq> None \<and> mc_state (ap_conn s1) = mc_state (ap_conn s)
    else conn_ok (ap_conn s1)"
  using assms by (auto simp: try_ready_normal_body_def Let_def conn_ok_def request_states_def reply_states_def connection_close_def
      split: if_splits prod.splits crc_result.splits)

lemma chunk_buffer_core: "with_chunk_buffer d c = Some c1 \<Longrightarrow> core_fields c1 = core_fields c"
  by (auto simp: with_chunk_buffer_def core_fields_def split: if_splits option.splits prod.splits)

lemma ready_chunk_ok:
  assumes "mc_response (ap_conn s) \<noteq> None" "mc_version (ap_conn s) \<noteq> None" "try_ready_chunked_body d s = (r, s1)"
  shows "if r then mc_response (ap_conn s1) \<noteq> None \<and> mc_version (ap_conn s1) \<noteq> None \<and> mc_state (ap_conn s1) = mc_state (ap_conn s)
    else conn_ok (ap_conn s1)"
proof (cases "with_chunk_buffer d (ap_conn s)")
  case None
  then show ?thesis using assms(3) by (auto simp: try_ready_chunked_body_def)
next
  case (Some c)
  have c: "mc_response c \<noteq> None" "mc_version c \<noteq> None" "mc_state c = mc_state (ap_conn s)"
    using chunk_buffer_core [OF Some] assms(1,2) by (simp_all add: core_fields_def)
  show ?thesis using assms(3) c Some
    by (auto simp: try_ready_chunked_body_def Let_def conn_ok_def request_states_def reply_states_def split: if_splits prod.splits)
qed

lemma step_ok:
  assumes "conn_ok (ap_conn s)"
  shows "conn_ok (ap_conn (snd (serve_step d fs junk s)))"
proof -
  let ?c = "ap_conn s"
  show ?thesis
  proof (cases "mc_state ?c \<in> {Headers_received, Headers_processed, Footers_received}")
    case True
    then consider "mc_state ?c = Headers_received" | "mc_state ?c = Headers_processed" | "mc_state ?c = Footers_received" by blast
    then show ?thesis
    proof cases
      case 1
      then have "known_request ?c" using assms by (simp add: conn_ok_def request_states_def)
      then have k: "known_request (parse_connection_headers d junk ?c)" using keeps_known [OF parse_headers_keep] by blast
      then have "conn_ok ((parse_connection_headers d junk ?c)\<lparr>mc_state := Headers_processed\<rparr>)"
        by (intro conn_ok_states(3)) (simp_all add: request_states_def known_request_def)
      then show ?thesis using 1 by (simp add: serve_step_def conn_ok_states(2) Let_def)
    next
      case 2
      then have kn: "known_request ?c" using assms by (simp add: conn_ok_def request_states_def)
      have h: "keeps_request ?c (ap_conn (call_connection_handler fs s))" using handler_fields(2) [of s fs] kn 2 by simp
      have k: "known_request (ap_conn (call_connection_handler fs s))" by (rule keeps_known [OF h kn])
      have "conn_ok (c1\<lparr>mc_state := st\<rparr>)" "conn_ok (c1\<lparr>mc_upload_size := n, mc_read_closed := b, mc_state := st\<rparr>)"
        if "known_request c1" "st \<in> {Continue_sending, Footers_received, Continue_sent}" for c1 st n b
        using that by (auto intro!: conn_ok_states(3) simp: request_states_def known_request_def)
      then show ?thesis using 2 k by (simp add: serve_step_def conn_ok_states(2) Let_def)
    next
      case 3
      let ?s1 = "call_connection_handler fs s"
      have kn: "mc_response ?c = None \<Longrightarrow> known_request ?c" using assms 3 by (auto simp: conn_ok_def)
      have v: "mc_version ?c \<noteq> None" using assms 3 by (auto simp: conn_ok_def known_request_def)
      have ok: "conn_ok (ap_conn ?s1)" using handler_fields(1,3) [of s fs] kn 3 assms by (cases "mc_response ?c") auto
      have "mc_version (ap_conn ?s1) \<noteq> None" using handler_fields(2) [OF kn] v 3 by (auto simp: keeps_request_def)
      then have "conn_ok (c2\<lparr>mc_state := Headers_sending\<rparr>)"
        if "build_header_response now (ap_conn ?s1) rs = Built c2" "mc_response (ap_conn ?s1) = Some rs" for now rs c2
        using built_keeps [OF that(1)] that(2) by (intro conn_ok_states(4)) (simp_all add: reply_states_def)
      then show ?thesis using 3 ok by (auto simp: serve_step_def Let_def split: option.split build_result.split)
    qed
  next
    case False
    have r: "mc_response ?c \<noteq> None" "mc_version ?c \<noteq> None" if "mc_state ?c \<in> reply_states"
      using assms that by (auto simp: conn_ok_def)
    have m: "conn_ok (?c\<lparr>mc_state := st\<rparr>)" if "mc_state ?c \<in> reply_states" "st \<in> reply_states" for st
      using r [OF that(1)] that(2) by (intro conn_ok_states(4)) simp_all
    show ?thesis
    proof (cases "mc_state ?c")
      case Headers_sent
      then show ?thesis using m by (simp add: serve_step_def reply_states_def Let_def)
    next
      case Normal_body_unready
      obtain b s1 where t: "try_ready_normal_body s = (b, s1)" by fastforce
      have rr: "mc_response ?c \<noteq> None" "mc_version ?c \<noteq> None" using r Normal_body_unready by (simp_all add: reply_states_def)
      from ready_ok [OF rr t] have "conn_ok (if b then (ap_conn s1)\<lparr>mc_state := Normal_body_ready\<rparr> else ap_conn s1)"
        by (auto intro!: conn_ok_states(4) simp: reply_states_def)
      then show ?thesis using Normal_body_unready m t by (cases b) (simp_all add: serve_step_def reply_states_def Let_def)
    next
      case Chunked_body_unready
      obtain b s1 where t: "try_ready_chunked_body d s = (b, s1)" by fastforce
      have rr: "mc_response ?c \<noteq> None" "mc_version ?c \<noteq> None" using r Chunked_body_unready by (simp_all add: reply_states_def)
      from ready_chunk_ok [OF rr t] have "conn_ok (if b then (ap_conn s1)\<lparr>mc_state := Chunked_body_ready\<rparr> else ap_conn s1)"
        by (auto intro!: conn_ok_states(4) simp: reply_states_def)
      then show ?thesis using Chunked_body_unready m t by (cases b) (simp_all add: serve_step_def reply_states_def Let_def)
    next
      case Body_sent
      then have rr: "mc_response ?c \<noteq> None" "mc_version ?c \<noteq> None" using r by (simp_all add: reply_states_def)
      have "conn_ok (c1\<lparr>mc_state := st\<rparr>)" if "build_header_response now ?c rs = Built c1" "st \<in> reply_states" for now rs c1 st
        using built_keeps [OF that(1)] rr that(2) by (intro conn_ok_states(4)) simp_all
      then show ?thesis using Body_sent
        by (auto simp: serve_step_def reply_states_def Let_def split: build_result.split)
    next
      case Footers_sent
      have "mc_state (request_done d ?c) \<in> {Conn_closed, Conn_init}"
        by (auto simp: request_done_def connection_close_def Let_def split: prod.split)
      then show ?thesis using Footers_sent by (auto simp: serve_step_def Let_def intro: conn_ok_states)
    qed (use False assms in \<open>simp_all add: serve_step_def\<close>)
  qed
qed

lemma serve_idle_ok: "conn_ok (ap_conn s) \<Longrightarrow> conn_ok (ap_conn (serve_idle d fs junk s))"
proof (induction d fs junk s rule: serve_idle.induct)
  case (1 d fs junk s)
  obtain r s1 where s: "serve_step d fs junk s = (r, s1)" by fastforce
  have "conn_ok (ap_conn s1)" using step_ok [OF "1.prems", of d fs junk] s by simp
  then show ?case using "1.IH" [OF s [symmetric]] s by (subst serve_idle.simps) (cases r; simp)
qed

lemma update_info_ok:
  assumes "conn_ok c"
  shows "conn_ok (update_event_loop_info d c)"
proof -
  obtain r c1 where g: "try_grow_read_buffer d c = (r, c1)" by fastforce
  have "conn_ok c1" using grow_fields [OF g] assms core_ok [of c1 c] by (simp add: core_fields_def)
  then show ?thesis using assms g by (cases r) (simp_all add: update_event_loop_info_def Let_def)
qed

lemma idle_ok: "conn_ok (ap_conn s) \<Longrightarrow> conn_ok (ap_conn (handle_idle d fs junk s))"
  by (simp add: handle_idle_def idle_states_def read_request_def Let_def read_head_ok serve_idle_ok update_info_ok)

lemma handle_read_ok:
  assumes "conn_ok c"
  shows "conn_ok (handle_read d r c)"
proof -
  have grown: "core_fields (if b then snd (try_grow_read_buffer d c) else c) = core_fields c" for b
    using grow_fields [of d c] by (cases "try_grow_read_buffer d c") (auto simp: core_fields_def)
  have rd: "core_fields c2 = core_fields c1 \<or> conn_ok c2" if "do_read r c1 = (b, c2)" for b c1 c2
    using that by (auto simp: do_read_def Let_def core_fields_def split: if_splits receive_result.splits)
  let ?c1 = "if of_nat (length (mc_read_buffer c)) + MHD_BUF_INC_SIZE > mc_read_size c then snd (try_grow_read_buffer d c) else c"
  obtain b c2 where r: "do_read r ?c1 = (b, c2)" by fastforce
  have ok: "conn_ok c2" using rd [OF r] grown assms core_ok by metis
  then have "conn_ok (c2\<lparr>mc_pool := p\<rparr>)" for p using core_ok [OF core_update(1)] by blast
  then show ?thesis using ok r assms by (cases b) (simp_all add: handle_read_def Let_def)
qed

lemma handle_write_ok:
  assumes "conn_ok (ap_conn s)"
  shows "conn_ok (ap_conn (snd (handle_write net s)))"
proof -
  let ?c = "ap_conn s"
  have r: "mc_response ?c \<noteq> None" "mc_version ?c \<noteq> None" if "mc_state ?c \<in> reply_states"
    using assms that by (auto simp: conn_ok_def)
  have cl: "mc_method (connection_close c) = mc_method c" "mc_url (connection_close c) = mc_url c"
    "mc_version (connection_close c) = mc_version c" "mc_response (connection_close c) = mc_response c" for c
    by (simp_all add: connection_close_def)
  have w: "conn_ok (snd (do_write net ?c)) \<and> (mc_state (snd (do_write net ?c)) = mc_state ?c \<longrightarrow> core_fields (snd (do_write net ?c)) = core_fields ?c)"
    using assms core_ok [OF core_update(2)] cl by (auto simp: do_write_def core_fields_def split: send_result.split)
  have d: "conn_ok (check_write_done st c)" if "conn_ok c" "core_fields c = core_fields ?c" "mc_state ?c \<in> reply_states" "st \<in> reply_states" for c st
    using r [OF that(3)] that by (auto simp: check_write_done_def core_fields_def intro!: conn_ok_states(4))
  obtain out c1 where o: "do_write net ?c = (out, c1)" by fastforce
  show ?thesis
  proof (cases "mc_state ?c = Normal_body_ready")
    case True
    have rs: "mc_state ?c \<in> reply_states" using True by (simp add: reply_states_def)
    obtain b s1 where t: "try_ready_normal_body s = (b, s1)" by fastforce
    note f = ready_ok [OF r [OF rs] t]
    have "conn_ok ((ap_conn s1)\<lparr>mc_write_position := n\<rparr>)" "conn_ok ((ap_conn s1)\<lparr>mc_write_position := n, mc_state := Footers_sent\<rparr>)"
      "conn_ok (ap_conn s1)" if b for n
      using f that True by (auto intro!: conn_ok_states(4) simp: reply_states_def)
    moreover have "conn_ok (?c\<lparr>mc_state := Footers_sent\<rparr>)"
      using r [OF rs] by (intro conn_ok_states(4)) (simp_all add: reply_states_def)
    ultimately show ?thesis using True t f assms
      by (cases b) (auto simp: handle_write_def Let_def split: send_result.split)
  next
    case False
    show ?thesis
    proof (cases "mc_state ?c \<in> {Headers_sending, Chunked_body_ready, Footers_sending}")
      case True
      then have "mc_state ?c \<in> reply_states" by (auto simp: reply_states_def)
      then have g: "conn_ok (if mc_state c1 \<noteq> mc_state ?c then c1 else check_write_done st c1)" if "st \<in> reply_states" for st
        using w d that o by auto
      have f: "conn_ok (if mc_state c1 \<noteq> mc_state ?c then c1 else check_write_done st c1)"
        if "st \<in> {Headers_sent, Body_sent, Chunked_body_unready, Footers_sent}" for st
        using g [of st] that by (auto simp: reply_states_def)
      from True consider "mc_state ?c = Headers_sending" | "mc_state ?c = Chunked_body_ready" | "mc_state ?c = Footers_sending" by blast
      then show ?thesis
      proof cases
        case 1
        then show ?thesis using f [of Headers_sent] o by (simp add: handle_write_def)
      next
        case 2
        then show ?thesis
          using f [of "if rs_total_size (the (mc_response c1)) = mc_write_position c1 then Body_sent else Chunked_body_unready"] o
          by (simp add: handle_write_def)
      next
        case 3
        then show ?thesis using f [of Footers_sent] o by (simp add: handle_write_def)
      qed
    next
      case other: False
      then have "handle_write net s = ([], s)" using False
        by (cases "mc_state ?c") (simp_all add: handle_write_def)
      then show ?thesis using assms by simp
    qed
  qed
qed

lemma call_ok:
  assumes "conn_ok (ap_conn s)"
  shows "conn_ok (ap_conn (snd (call_handlers d fs junk ev s)))"
proof -
  have e: "snd (call_handlers d fs junk ev s) = handle_idle d fs junk (snd (case (ev, event_loop_info (ap_conn s)) of
      (Readable r, Info_read) \<Rightarrow> ([], s\<lparr>ap_conn := handle_read d r (ap_conn s)\<rparr>)
    | (Writable net, Info_write) \<Rightarrow> handle_write net s
    | _ \<Rightarrow> ([], s)))"
    by (simp add: call_handlers_def split_beta)
  show ?thesis unfolding e
    using handle_write_ok [OF assms] handle_read_ok [OF assms, of d] assms
    by (intro idle_ok) (auto split: network_event.split loop_info.split)
qed

lemma serve_stays_ok: "conn_ok (ap_conn s) \<Longrightarrow> conn_ok (ap_conn (snd (serve_connection d fs junk evs s)))"
proof (induction evs arbitrary: s)
  case (Cons ev evs)
  show ?case using Cons.IH [OF call_ok [OF Cons.prems, of d fs junk ev]] by (simp add: split_beta)
qed simp

subsection \<open>Contract\<close>



end
