(* ===== verification/MhdAuth.thy ===== *)
theory MhdAuth
  imports MhdRequest
begin

unbundle bit_operations_syntax

text \<open>
  Basic authentication and the headers of a response in the embedded HTTP daemon:
  \<open>src/final/server/microhttpd/microhttpd/base64.c\<close>, \<open>basicauth.c\<close> and \<open>response.c\<close>.  The daemon's decoder undoes the
  client's encoder of theory Http, so credentials arrive; a reply has one line for each header of its response.
\<close>

subsection \<open>Base 64\<close>

text \<open>The table of the decoder; the padding character has the value \<open>-1\<close>, every other character outside the alphabet is a zero.\<close>

definition base64_digits :: "int list" where
  "base64_digits = replicate 43 0 @ [62] @ replicate 3 0 @ [63] @ map int [52..<62] @ replicate 3 0 @ [-1] @ replicate 3 0 @
     map int [0..<26] @ replicate 6 0 @ map int [26..<52] @ replicate 133 0"

definition base64_value :: "char \<Rightarrow> int" where
  "base64_value c = base64_digits ! of_char c"

definition as_char :: "int \<Rightarrow> char" where
  "as_char x = char_of (nat (x mod 256))"

text \<open>One group of four characters after the other, up to the first that ends with padding.\<close>

fun decode_quads :: "string \<Rightarrow> string" where
  "decode_quads (c1 # c2 # c3 # c4 # rest) =
     (let a = base64_value c1; b = base64_value c2; c = base64_value c3; d = base64_value c4 in
      as_char (push_bit 2 a OR drop_bit 4 (b AND 0x30)) #
      (if c = -1 then []
       else as_char (push_bit 4 (b AND 0x0f) OR drop_bit 2 (c AND 0x3c)) #
         (if d = -1 then []
          else as_char (push_bit 6 (c AND 0x03) OR d) # decode_quads rest)))"
| "decode_quads _ = []"

definition BASE64Decode :: "string \<Rightarrow> string option" where
  "BASE64Decode src = (if length (cstring src) mod 4 \<noteq> 0 then None else Some (decode_quads (cstring src)))"

subsection \<open>Basic authentication\<close>

definition MHD_basic_auth_get_username_password :: "mhd_conn \<Rightarrow> (string \<times> string) option" where
  "MHD_basic_auth_get_username_password c =
     (case MHD_lookup_connection_value c Header_kind ''Authorization'' of None \<Rightarrow> None
      | Some header \<Rightarrow>
          if take 6 header \<noteq> ''Basic '' then None
          else case BASE64Decode (drop 6 header) of None \<Rightarrow> None
            | Some bytes \<Rightarrow>
                let decoded = cstring bytes in
                (case strchr decoded (CHR '':'') of None \<Rightarrow> None
                 | Some k \<Rightarrow> Some (take k decoded, drop (k + 1) decoded)))"

subsection \<open>The headers of a response\<close>

definition add_response_entry :: "value_kind \<Rightarrow> string \<Rightarrow> string \<Rightarrow> response \<Rightarrow> response option" where
  "add_response_entry kind header content rs =
     (if header = [] \<or> content = [] \<or>
         CHR 0x09 \<in> set header \<or> CHR 0x0D \<in> set header \<or> CHR 0x0A \<in> set header \<or>
         CHR 0x09 \<in> set content \<or> CHR 0x0D \<in> set content \<or> CHR 0x0A \<in> set content
      then None else Some (rs\<lparr>rs_headers := (kind, header, content) # rs_headers rs\<rparr>))"

definition MHD_add_response_header :: "string \<Rightarrow> string \<Rightarrow> response \<Rightarrow> response option" where
  "MHD_add_response_header = add_response_entry Header_kind"

definition MHD_add_response_footer :: "string \<Rightarrow> string \<Rightarrow> response \<Rightarrow> response option" where
  "MHD_add_response_footer = add_response_entry Footer_kind"

fun del_header :: "string \<Rightarrow> string \<Rightarrow> (value_kind \<times> string \<times> string) list \<Rightarrow> (value_kind \<times> string \<times> string) list option" where
  "del_header header content [] = None"
| "del_header header content ((k, n, v) # hs) =
     (if header = n \<and> content = v then Some hs else map_option ((#) (k, n, v)) (del_header header content hs))"

definition MHD_del_response_header :: "string \<Rightarrow> string \<Rightarrow> response \<Rightarrow> response option" where
  "MHD_del_response_header header content rs = map_option (\<lambda>hs. rs\<lparr>rs_headers := hs\<rparr>) (del_header header content (rs_headers rs))"

definition MHD_queue_basic_auth_fail_response :: "string \<Rightarrow> response \<Rightarrow> mhd_conn \<Rightarrow> bool \<times> response \<times> mhd_conn" where
  "MHD_queue_basic_auth_fail_response realm rs c =
     (case MHD_add_response_header ''WWW-Authenticate'' (''Basic realm=\"'' @ realm @ ''\"'') rs of
        None \<Rightarrow> (False, rs, c)
      | Some rs1 \<Rightarrow> (case MHD_queue_response 401 rs1 c of (ok, c1) \<Rightarrow> (ok, rs1, c1)))"

subsection \<open>Decoding undoes the client's encoding\<close>

lemma base64_value_digit: "n < 64 \<Longrightarrow> base64_value (b64_digit n) = int n"
proof -
  have "list_all (\<lambda>n. base64_value (b64_digit n) = int n) [0..<64]"
    by (simp add: base64_value_def b64_digit_def base64_encode_def base64_digits_def upt_rec nth_append nth_Cons')
  then show "n < 64 \<Longrightarrow> base64_value (b64_digit n) = int n" by (simp add: list_all_iff)
qed

lemma six_bits:
  assumes "m < 64"
  shows "drop_bit 4 (int m AND 0x30) = int (m div 16)" "drop_bit 2 (int m AND 0x3c) = int (m div 4)"
proof -
  have "list_all (\<lambda>m. drop_bit 4 (int m AND 0x30) = int (m div 16) \<and> drop_bit 2 (int m AND 0x3c) = int (m div 4)) [0..<64]"
    by code_simp
  then show "drop_bit 4 (int m AND 0x30) = int (m div 16)" "drop_bit 2 (int m AND 0x3c) = int (m div 4)"
    using assms by (simp_all add: list_all_iff)
qed

lemma as_char_bits:
  assumes "a < 2 ^ k" "p < 2 ^ n" "k + n = 8"
  shows "as_char (push_bit n (int a) OR int p) = char_of (2 ^ n * a + p)"
proof -
  have "push_bit n (int a) OR int p = int (2 ^ n * a + p)" using assms(2) push_or_int [of "int p" n "int a"] by (simp add: mult.commute)
  moreover have "2 ^ n * a + p < 256"
  proof -
    have "2 ^ n * a + p < 2 ^ n * (a + 1)" using assms(2) by simp
    also have "\<dots> \<le> 2 ^ n * 2 ^ k" using assms(1) by (intro mult_le_mono) simp_all
    also have "\<dots> = 256" using assms(3) by (simp add: power_add [symmetric] add.commute)
    finally show ?thesis .
  qed
  moreover have "nat (int m mod 256) = m" if "m < 256" for m using that by (simp add: nat_mod_distrib)
  ultimately show ?thesis unfolding as_char_def by presburger
qed

lemma byte_parts:
  fixes x y :: nat
  assumes "x < 256" "y < 256"
  shows "x div 4 < 64" "x mod 4 * 16 + y div 16 < 64" "(x mod 4 * 16 + y div 16) div 16 = x mod 4"
    "(x mod 4 * 16 + y div 16) mod 16 = y div 16" "x mod 16 * 4 + y div 64 < 64" "(x mod 16 * 4 + y div 64) div 4 = x mod 16"
    "(x mod 16 * 4 + y div 64) mod 4 = y div 64" "x mod 64 < 64" "x mod 16 * 4 < 64"
proof -
  have b: "x div 4 < 64" "x mod 4 < 4" "y div 16 < 16" "x mod 16 < 16" "y div 64 < 4" using assms by (simp_all add: div_less_iff_less_mult)
  then show "x div 4 < 64" "x mod 4 * 16 + y div 16 < 64" "x mod 16 * 4 + y div 64 < 64" "x mod 64 < 64" "x mod 16 * 4 < 64"
    by simp_all
  have "(p * 16 + q) div 16 = p \<and> (p * 16 + q) mod 16 = q" if "q < 16" for p q :: nat using that by simp
  then show "(x mod 4 * 16 + y div 16) div 16 = x mod 4" "(x mod 4 * 16 + y div 16) mod 16 = y div 16" using b(3) by blast+
  have "(p * 4 + q) div 4 = p \<and> (p * 4 + q) mod 4 = q" if "q < 4" for p q :: nat using that by simp
  then show "(x mod 16 * 4 + y div 64) div 4 = x mod 16" "(x mod 16 * 4 + y div 64) mod 4 = y div 64" using b(5) by blast+
qed

lemma base64_pad: "base64_value (CHR ''='') = -1"
  by (simp add: base64_value_def base64_digits_def nth_append)

lemma first_byte:
  assumes "x < 256" "y < 256"
  shows "as_char (push_bit 2 (int (x div 4)) OR drop_bit 4 (int (x mod 4 * 16 + y div 16) AND 0x30)) = char_of x"
proof -
  have "as_char (push_bit 2 (int (x div 4)) OR int (x mod 4)) = char_of (2 ^ 2 * (x div 4) + x mod 4)"
    using byte_parts(1) [OF assms] by (intro as_char_bits [of _ 6]) simp_all
  then show ?thesis unfolding six_bits(1) [OF byte_parts(2) [OF assms]] byte_parts(3) [OF assms] by simp
qed

lemma second_byte:
  assumes "x < 256" "y < 256" "z < 256"
  shows "as_char (push_bit 4 (int (x mod 4 * 16 + y div 16) AND 0x0f) OR drop_bit 2 (int (y mod 16 * 4 + z div 64) AND 0x3c)) = char_of y"
proof -
  have "y div 16 < 16" using assms(2) by (simp add: div_less_iff_less_mult)
  then have "as_char (push_bit 4 (int (y div 16)) OR int (y mod 16)) = char_of (2 ^ 4 * (y div 16) + y mod 16)"
    by (intro as_char_bits [of _ 4]) simp_all
  then show ?thesis
    unfolding six_bits(2) [OF byte_parts(5) [OF assms(2,3)]] byte_parts(6) [OF assms(2,3)] and_mask_nat(2) byte_parts(4) [OF assms(1,2)]
    by simp
qed

lemma third_byte:
  assumes "y < 256" "z < 256"
  shows "as_char (push_bit 6 (int (y mod 16 * 4 + z div 64) AND 0x03) OR int (z mod 64)) = char_of z"
proof -
  have "z div 64 < 4" using assms(2) by (simp add: div_less_iff_less_mult)
  then have "as_char (push_bit 6 (int (z div 64)) OR int (z mod 64)) = char_of (2 ^ 6 * (z div 64) + z mod 64)"
    by (intro as_char_bits [of _ 2]) simp_all
  then show ?thesis unfolding and_mask_nat(1) byte_parts(7) [OF assms] by simp
qed

lemma not_minus_one: "(int n = -1) = False"
  by simp

text \<open>The four values of a group of three bytes.\<close>

lemmas group_values =
  byte_parts(1) [OF of_char_bound of_char_bound, THEN base64_value_digit]
  byte_parts(2) [OF of_char_bound of_char_bound, THEN base64_value_digit]
  byte_parts(5) [OF of_char_bound of_char_bound, THEN base64_value_digit]
  byte_parts(8) [OF of_char_bound of_char_bound, THEN base64_value_digit]

lemma decode_b64: "decode_quads (b64_spec s) = s"
proof (induction s rule: b64_spec.induct)
  case (2 a)
  have b: "(of_char a :: nat) < 256" by (rule of_char_bound)
  have v: "base64_value (b64_digit (of_char a div 4)) = int (of_char a div 4)"
    "base64_value (b64_digit (of_char a mod 4 * 16)) = int (of_char a mod 4 * 16)"
    using byte_parts(1,2) [OF b, of 0] by (simp_all add: base64_value_digit)
  show ?case using first_byte [OF b, of 0]
    by (simp only: b64_spec.simps Let_def decode_quads.simps v base64_pad simp_thms if_True) simp
next
  case (3 a b)
  have bd: "(of_char a :: nat) < 256" "(of_char b :: nat) < 256" by (rule of_char_bound)+
  have v: "base64_value (b64_digit (of_char b mod 16 * 4)) = int (of_char b mod 16 * 4)"
    using byte_parts(9) [OF bd(2,2)] by (simp add: base64_value_digit)
  show ?case using second_byte [OF bd, of 0]
    by (simp only: b64_spec.simps Let_def decode_quads.simps group_values v base64_pad first_byte [OF bd] not_minus_one if_False
        simp_thms if_True) simp
next
  case (4 a b c r)
  have bd: "(of_char a :: nat) < 256" "(of_char b :: nat) < 256" "(of_char c :: nat) < 256" by (rule of_char_bound)+
  show ?case
    by (simp only: b64_spec.simps Let_def append.simps decode_quads.simps group_values not_minus_one if_False
        first_byte [OF bd(1,2)] second_byte [OF bd] third_byte [OF bd(2,3)] 4) simp
qed simp

subsection \<open>Credentials from the client to the daemon\<close>

lemma b64_clean: "clean (b64_spec s)"
proof -
  have d: "\<not> is_eol (b64_digit n) \<and> b64_digit n \<noteq> NUL" if "n < 64" for n
  proof -
    have "b64_digit n \<in> set base64_encode"
      using that unfolding b64_digit_def by (intro nth_mem) (simp add: base64_encode_def)
    moreover have "list_all (\<lambda>c. \<not> is_eol c \<and> c \<noteq> NUL) base64_encode" by (simp add: base64_encode_def is_eol_def)
    ultimately show ?thesis by (auto simp: list_all_iff)
  qed
  show ?thesis
  proof (induction s rule: b64_spec.induct)
    case (2 a)
    have "(of_char a :: nat) div 4 < 64" "(of_char a :: nat) mod 4 * 16 < 64"
      using of_char_bound [of a] by (simp_all add: div_less_iff_less_mult)
    then show ?case using d by (simp add: Let_def is_eol_def)
  next
    case (3 a b)
    show ?case using d byte_parts(1,2) [OF of_char_bound [of a] of_char_bound [of b]] byte_parts(9) [OF of_char_bound [of b] of_char_bound [of b]]
      by (simp add: Let_def is_eol_def)
  next
    case (4 a b c r)
    show ?case using d 4 byte_parts(1,2) [OF of_char_bound [of a] of_char_bound [of b]]
        byte_parts(5) [OF of_char_bound [of b] of_char_bound [of c]] byte_parts(8) [OF of_char_bound [of c] of_char_bound [of c]]
      by (simp add: Let_def)
  qed simp
qed

lemma credentials_decoded:
  assumes "MHD_lookup_connection_value c Header_kind ''Authorization'' = Some (''Basic '' @ b64_spec (user @ '':'' @ pass))"
    and "CHR '':'' \<notin> set user" "ascii7 (user @ '':'' @ pass)"
  shows "MHD_basic_auth_get_username_password c = Some (user, pass)"
proof -
  have b: "cstring (b64_spec (user @ '':'' @ pass)) = b64_spec (user @ '':'' @ pass)" by (rule clean_cstring [OF b64_clean])
  have d: "BASE64Decode (b64_spec (user @ '':'' @ pass)) = Some (user @ '':'' @ pass)"
    unfolding BASE64Decode_def b decode_b64 by (simp add: b64_length)
  have n: "cstring (user @ '':'' @ pass) = user @ '':'' @ pass" using assms(3) by (intro cstring_id) (auto simp: ascii7_def)
  have "strchr (user @ '':'' @ pass) (CHR '':'') = Some (length user)"
    using assms(2) strchr_append [of "CHR '':''" user] by simp
  then show ?thesis using assms(1) d n by (simp add: MHD_basic_auth_get_username_password_def Let_def)
qed

lemma axel_auth_text:
  assumes "h_proxy hc = 0" "cstring (h_auth hc) = auth" "auth \<noteq> []" "length path + length (h_host hc) < 900" "length auth \<le> 808"
    and "length (int_str (h_firstbyte hc)) \<le> 19" "length (int_str (h_lastbyte hc)) \<le> 19"
  shows "h_request (http_addheader '''' (http_get path hc)) = request_text ''GET'' path HTTP_1_0
    ((''Host'', h_host hc) # (''Authorization'', ''Basic '' @ auth) #
     (if h_firstbyte hc = 0 then [] else [(''Range'', ''bytes='' @ int_str (h_firstbyte hc) @ ''-'' @
       (if h_lastbyte hc = 0 then [] else int_str (h_lastbyte hc)))]))"
  using assms by (simp add: http_get_def Let_def addheader_fits request_text_def field_text_def HTTP_1_0_def)

subsection \<open>Headers cannot split a reply\<close>

datatype response_edit = Add_header string string | Add_footer string string | Del_header string string

fun edit_response :: "response_edit \<Rightarrow> response \<Rightarrow> response" where
  "edit_response (Add_header n v) rs = (case MHD_add_response_header n v rs of Some rs1 \<Rightarrow> rs1 | None \<Rightarrow> rs)"
| "edit_response (Add_footer n v) rs = (case MHD_add_response_footer n v rs of Some rs1 \<Rightarrow> rs1 | None \<Rightarrow> rs)"
| "edit_response (Del_header n v) rs = (case MHD_del_response_header n v rs of Some rs1 \<Rightarrow> rs1 | None \<Rightarrow> rs)"

definition one_line :: "string \<Rightarrow> bool" where
  "one_line l = (l \<noteq> [] \<and> CR \<notin> set l \<and> NL \<notin> set l)"

definition entry_clean :: "value_kind \<times> string \<times> string \<Rightarrow> bool" where
  "entry_clean h = (case h of (k, n, v) \<Rightarrow> one_line n \<and> one_line v)"

lemma add_entry_clean:
  "add_response_entry k n v rs = Some rs1 \<Longrightarrow> list_all entry_clean (rs_headers rs) \<Longrightarrow> list_all entry_clean (rs_headers rs1)"
  by (auto simp: add_response_entry_def entry_clean_def one_line_def split: if_splits)

lemma del_header_sub: "del_header n v hs = Some hs1 \<Longrightarrow> set hs1 \<subseteq> set hs"
proof (induction n v hs arbitrary: hs1 rule: del_header.induct)
  case (2 header content k n v hs)
  then show ?case by (auto split: if_splits)
qed simp

lemma edit_clean:
  assumes "list_all entry_clean (rs_headers rs)"
  shows "list_all entry_clean (rs_headers (edit_response e rs))"
proof (cases e)
  case (Add_header n v)
  then show ?thesis using assms by (auto simp: MHD_add_response_header_def dest: add_entry_clean split: option.split)
next
  case (Add_footer n v)
  then show ?thesis using assms by (auto simp: MHD_add_response_footer_def dest: add_entry_clean split: option.split)
next
  case (Del_header n v)
  have "list_all entry_clean hs1" if "del_header n v (rs_headers rs) = Some hs1" for hs1
    using del_header_sub [OF that] assms by (auto simp: list_all_iff)
  then show ?thesis using assms Del_header by (auto simp: MHD_del_response_header_def split: option.split)
qed

lemma edits_clean: "list_all entry_clean (rs_headers rs) \<Longrightarrow> list_all entry_clean (rs_headers (fold edit_response es rs))"
  by (induction es arbitrary: rs) (simp_all add: edit_clean)

lemma reason_plain: "plain_text (MHD_get_reason_phrase_for status)"
proof -
  have r: "list_all plain_text (replicate n x) = (n = 0 \<or> plain_text x)" for n x by (auto simp: list_all_iff)
  have t: "list_all (list_all plain_text) reason_table" by (simp add: reason_table_def r)
  have "length reason_table = 6" by (simp add: reason_table_def)
  then have "reason_table ! (status div 100) \<in> set reason_table" if "status < 600"
    using that by (intro nth_mem) (simp add: div_less_iff_less_mult)
  then have "plain_text (reason_table ! (status div 100) ! (status mod 100))"
    if "status < 600" "status mod 100 < length (reason_table ! (status div 100))"
    using t that by (simp add: list_all_iff)
  then show ?thesis by (simp add: MHD_get_reason_phrase_for_def)
qed

lemma plain_one_line: "plain_text l \<Longrightarrow> l \<noteq> [] \<Longrightarrow> one_line l"
  by (auto simp: one_line_def plain_text_def list_all_iff)

lemma sent_clean:
  assumes "list_all entry_clean (rs_headers rs)" "(n, v) \<in> set (sent_headers kind pl rs)"
  shows "one_line n \<and> one_line v"
proof -
  obtain i k where "(i, k, n, v) \<in> set (enumerate 0 (rs_headers rs))"
    using assms(2) by (auto simp: sent_headers_def)
  then have "i < length (rs_headers rs)" "rs_headers rs ! i = (k, n, v)" by (simp_all add: in_set_enumerate_eq)
  then have "(k, n, v) \<in> set (rs_headers rs)" using nth_mem by metis
  then show ?thesis using assms(1) by (auto simp: list_all_iff entry_clean_def)
qed

definition head_lines :: "tm option \<Rightarrow> reply_plan \<Rightarrow> mhd_conn \<Rightarrow> response \<Rightarrow> string list" where
  "head_lines now pl c rs =
     [reply_version c @ '' '' @ nat_str (mc_code c) @ '' '' @ MHD_get_reason_phrase_for (mc_code c)] @
     (if pl_add_close pl then [''Connection: close''] else []) @
     (if pl_add_keep_alive pl then [''Connection: Keep-Alive''] else []) @
     (if pl_add_chunked pl then [''Transfer-Encoding: chunked''] else []) @
     (if pl_add_length pl then [''Content-Length: '' @ nat_str (rs_total_size rs)] else []) @
     map (\<lambda>(n, v). n @ '': '' @ v) (sent_headers Header_kind pl rs) @
     (if MHD_get_response_header rs ''Date'' = None then date_lines now else [])"

lemma head_text:
  assumes "mc_state c = Footers_received" "tm_ok now"
  shows "reply_text now pl c rs = wire_lines (head_lines now pl c rs) @ CRLF"
proof -
  have "concat (map (\<lambda>(name, value). header_line name value) hs) = wire_lines (map (\<lambda>(n, v). n @ '': '' @ v) hs)" for hs
    by (induction hs) (auto simp: header_line_def wire_lines_def)
  then show ?thesis using assms(1) date_string(1) [OF assms(2)]
    by (simp add: reply_text_def head_lines_def Let_def status_line_def reply_version_def header_line_def wire_lines_def)
qed

lemma head_lines_clean:
  assumes "list_all entry_clean (rs_headers rs)" "tm_ok now"
  shows "list_all one_line (head_lines now pl c rs)"
proof -
  have v: "plain_text (reply_version c)" by (simp add: reply_version_def HTTP_1_0_def HTTP_1_1_def)
  have d: "list_all one_line (date_lines now)"
    using date_string(2) [OF assms(2)] by (auto simp: list_all_iff field_line_def line_ok_plain intro: plain_one_line)
  have s: "list_all one_line (map (\<lambda>(n, v). n @ '': '' @ v) (sent_headers Header_kind pl rs))"
    using sent_clean [OF assms(1)] by (fastforce simp: list_all_iff one_line_def)
  have st: "one_line (reply_version c @ '' '' @ nat_str (mc_code c) @ '' '' @ MHD_get_reason_phrase_for (mc_code c))"
    using v reason_plain by (intro plain_one_line) simp_all
  have "one_line (''Content-Length: '' @ nat_str (rs_total_size rs))" by (intro plain_one_line) simp_all
  moreover have "one_line ''Connection: close''" "one_line ''Connection: Keep-Alive''" "one_line ''Transfer-Encoding: chunked''"
    by (simp_all add: one_line_def)
  ultimately show ?thesis using d s st by (simp add: head_lines_def)
qed

lemma head_lines_parts:
  "\<exists>pre post. head_lines now pl c rs = pre @ map (\<lambda>(n, v). n @ '': '' @ v) (sent_headers Header_kind pl rs) @ post \<and>
     length pre \<le> 5 \<and> length post \<le> 1"
proof (intro exI conjI)
  let ?pre = "[reply_version c @ '' '' @ nat_str (mc_code c) @ '' '' @ MHD_get_reason_phrase_for (mc_code c)] @
     (if pl_add_close pl then [''Connection: close''] else []) @
     (if pl_add_keep_alive pl then [''Connection: Keep-Alive''] else []) @
     (if pl_add_chunked pl then [''Transfer-Encoding: chunked''] else []) @
     (if pl_add_length pl then [''Content-Length: '' @ nat_str (rs_total_size rs)] else [])"
  let ?post = "if MHD_get_response_header rs ''Date'' = None then date_lines now else []"
  show "head_lines now pl c rs = ?pre @ map (\<lambda>(n, v). n @ '': '' @ v) (sent_headers Header_kind pl rs) @ ?post"
    by (simp add: head_lines_def)
  show "length ?pre \<le> 5" by simp
  show "length ?post \<le> 1" by (simp add: date_lines_def split: option.split)
qed

subsection \<open>Contract\<close>

text \<open>C14: credentials arrive: the user name and the password that axel is given, encoded by \<open>http_connect\<close> and sent with a
  request in any pieces, are what \<open>MHD_basic_auth_get_username_password\<close> gives the application of the daemon, for every
  name without a colon and 7-bit characters.
\<close>

theorem axel_credentials_reach_daemon:
  assumes "user \<noteq> []" "CHR '':'' \<notin> set user" "ascii7 (user @ '':'' @ pass)" "length (user @ '':'' @ pass) \<le> 600"
    and "set_auth user pass (replicate MAX_STRING NUL) = Inr (h_auth hc)" "h_proxy hc = 0"
    and "word_ok path" "CHR ''?'' \<notin> set path" "field_ok (''Host'', h_host hc)"
    and "length path + length (h_host hc) < 900" "\<bar>h_firstbyte hc\<bar> < 10 ^ 18" "\<bar>h_lastbyte hc\<bar> < 10 ^ 18"
    and "concat frags = h_request (http_addheader '''' (http_get path hc))"
    and "mc_state c = Conn_init" "mc_read_buffer c = []" "mc_headers c = []" "\<not> mc_read_closed c"
    and "2048 \<le> unat (mc_read_size c)" "room (mc_pool c) 3"
  shows "MHD_basic_auth_get_username_password (head_received d frags c) = Some (user, pass)"
proof -
  let ?auth = "b64_spec (user @ '':'' @ pass)"
  let ?range = "''bytes='' @ int_str (h_firstbyte hc) @ ''-'' @ (if h_lastbyte hc = 0 then [] else int_str (h_lastbyte hc))"
  let ?hs = "(''Host'', h_host hc) # (''Authorization'', ''Basic '' @ ?auth) # (if h_firstbyte hc = 0 then [] else [(''Range'', ?range)])"
  have "h_auth hc = pad_nul MAX_STRING ?auth" using set_auth_b64 [OF assms(1,3)] assms(4,5) by simp
  then have a: "cstring (h_auth hc) = ?auth" using b64_no_nul [OF assms(3)] by (simp add: cstring_pad_nul)
  have la: "length ?auth \<le> 808" using assms(4) unfolding b64_length by presburger
  have ne: "?auth \<noteq> []" using b64_length [of "user @ '':'' @ pass"] assms(1) by (cases user) (auto simp: div_eq_0_iff)
  have len: "length (int_str (h_firstbyte hc)) \<le> 19" "length (int_str (h_lastbyte hc)) \<le> 19"
    using assms(11,12) int_str_length by simp_all
  have req: "concat frags = request_text ''GET'' path HTTP_1_0 ?hs @ []"
    using axel_auth_text [OF assms(6) a ne assms(10) la len] assms(13) by simp
  have "length (request_text ''GET'' path HTTP_1_0 ?hs) < 2048"
    using assms(10) la len by (simp add: request_text_def field_text_def HTTP_1_0_def)
  then have fits: "length (request_text ''GET'' path HTTP_1_0 ?hs @ []) < unat (mc_read_size c)" using assms(18) by simp
  have "clean (int_str x)" for x by (rule int_str_clean)
  then have ok: "request_ok ''GET'' path HTTP_1_0 ?hs"
    using assms(7-9) b64_clean by (simp add: request_ok_def word_ok_def field_ok_def is_eol_def HTTP_1_0_def)
  have room: "room (mc_pool c) (length ?hs)" using assms(19) by (auto simp: room_def)
  have h: "mc_headers (head_received d frags c) = map (\<lambda>(n, x). (Header_kind, n, Some x)) ?hs"
    using request_head_all [OF ok req assms(14-17) fits room] by simp
  have "MHD_lookup_connection_value (head_received d frags c) Header_kind ''Authorization'' = Some (''Basic '' @ ?auth)"
    by (simp add: MHD_lookup_connection_value_def h toasciilower_def isasciiupper_def at_def)
  then show ?thesis by (rule credentials_decoded [OF _ assms(2,3)])
qed

theorem axel_credentials_reach_daemon_witness:
  "MHD_basic_auth_get_username_password (head_received \<lparr>dm_pool_size = 4096, dm_now = None\<rparr>
     [h_request (http_addheader '''' (http_get ''/f'' (http_zero\<lparr>h_host := ''h'', h_auth := pad_nul MAX_STRING (b64_spec ''me:secret'')\<rparr>)))]
     (fresh_conn\<lparr>mc_read_size := 2048\<rparr>)) = Some (''me'', ''secret'')"
proof -
  let ?hc = "http_zero\<lparr>h_host := ''h'', h_auth := pad_nul MAX_STRING (b64_spec ''me:secret'')\<rparr>"
  have a: "set_auth ''me'' ''secret'' (replicate MAX_STRING NUL) = Inr (h_auth ?hc)"
    using set_auth_b64 [of "''me''" "''secret''"] by (simp add: ascii7_def)
  have h: "h_proxy ?hc = 0" "h_host ?hc = ''h''" "\<bar>h_firstbyte ?hc\<bar> < 10 ^ 18" "\<bar>h_lastbyte ?hc\<bar> < 10 ^ 18"
    by (simp_all add: http_zero_def)
  have p: "word_ok ''/f''" "field_ok (''Host'', h_host ?hc)" by (simp_all add: h word_ok_def field_ok_def is_eol_def)
  have c: "mc_state (fresh_conn\<lparr>mc_read_size := 2048\<rparr>) = Conn_init" "mc_read_buffer (fresh_conn\<lparr>mc_read_size := 2048\<rparr>) = []"
    "mc_headers (fresh_conn\<lparr>mc_read_size := 2048\<rparr>) = []" "\<not> mc_read_closed (fresh_conn\<lparr>mc_read_size := 2048\<rparr>)"
    "2048 \<le> unat (mc_read_size (fresh_conn\<lparr>mc_read_size := 2048\<rparr>))" "room (mc_pool (fresh_conn\<lparr>mc_read_size := 2048\<rparr>)) 3"
    by (simp_all add: fresh_conn_def room_def)
  show ?thesis
    by (rule axel_credentials_reach_daemon [OF _ _ _ _ a h(1) p(1) _ p(2) _ h(3,4) _ c]) (simp_all add: h ascii7_def)
qed



end
