(* ===== verification/MhdTree.thy ===== *)
theory MhdTree
  imports CBase "HOL-Library.Tree"
begin

text \<open>
  The search tree of the embedded HTTP daemon, \<open>src/final/server/microhttpd/microhttpd/tsearch.c\<close>: looking up, inserting and
  deleting.  The locale \<open>comparison\<close> says what the tree needs of the comparison it is given; the locale \<open>count_table\<close>
  says what its users rely on, and a \<open>sublocale\<close> proves that the first gives the second.
\<close>

subsection \<open>The search tree\<close>

text \<open>
  A node holds a key with a counter, which the callers change in place.  The comparison is a parameter, as in the source:
  negative, zero or positive.
\<close>

fun tfind :: "('k \<Rightarrow> 'k \<Rightarrow> int) \<Rightarrow> 'k \<Rightarrow> ('k \<times> 'c) tree \<Rightarrow> ('k \<times> 'c) option" where
  "tfind compar x Leaf = None"
| "tfind compar x (Node l e r) =
     (let c = compar x (fst e) in if c = 0 then Some e else if c < 0 then tfind compar x l else tfind compar x r)"

fun tsearch :: "('k \<Rightarrow> 'k \<Rightarrow> int) \<Rightarrow> 'k \<times> 'c \<Rightarrow> ('k \<times> 'c) tree \<Rightarrow> ('k \<times> 'c) tree" where
  "tsearch compar x Leaf = Node Leaf x Leaf"
| "tsearch compar x (Node l e r) =
     (let c = compar (fst x) (fst e) in
      if c = 0 then Node l e r else if c < 0 then Node (tsearch compar x l) e r else Node l e (tsearch compar x r))"

text \<open>The first node in order leaves the tree, for the loop that looks for the successor of a deleted node.\<close>

fun take_first :: "'e tree \<Rightarrow> 'e \<Rightarrow> 'e tree \<Rightarrow> 'e \<times> 'e tree" where
  "take_first Leaf e r = (e, r)"
| "take_first (Node l1 e1 r1) e r = (case take_first l1 e1 r1 of (m, l) \<Rightarrow> (m, Node l e r))"

definition drop_root :: "'e tree \<Rightarrow> 'e tree \<Rightarrow> 'e tree" where
  "drop_root l r =
     (if l = Leaf then r
      else case r of
        Leaf \<Rightarrow> l
      | Node l1 e r1 \<Rightarrow> if l1 = Leaf then Node l e r1 else (case take_first l1 e r1 of (m, r2) \<Rightarrow> Node l m r2))"

fun tdelete :: "('k \<Rightarrow> 'k \<Rightarrow> int) \<Rightarrow> 'k \<Rightarrow> ('k \<times> 'c) tree \<Rightarrow> ('k \<times> 'c) tree" where
  "tdelete compar x Leaf = Leaf"
| "tdelete compar x (Node l e r) =
     (let c = compar x (fst e) in
      if c = 0 then drop_root l r
      else if c < 0 then Node (tdelete compar x l) e r else Node l e (tdelete compar x r))"

text \<open>The change of a counter through the pointer that a search has returned.\<close>

fun set_counter :: "('k \<Rightarrow> 'k \<Rightarrow> int) \<Rightarrow> 'k \<Rightarrow> 'c \<Rightarrow> ('k \<times> 'c) tree \<Rightarrow> ('k \<times> 'c) tree" where
  "set_counter compar x n Leaf = Leaf"
| "set_counter compar x n (Node l e r) =
     (let c = compar x (fst e) in
      if c = 0 then Node l (fst e, n) r
      else if c < 0 then Node (set_counter compar x n l) e r else Node l e (set_counter compar x n r))"

text \<open>The order of the nodes: smaller keys to the left, greater ones to the right.\<close>

fun ordered :: "('k \<Rightarrow> 'k \<Rightarrow> int) \<Rightarrow> ('k \<times> 'c) tree \<Rightarrow> bool" where
  "ordered compar Leaf = True"
| "ordered compar (Node l e r) = (ordered compar l \<and> ordered compar r \<and> (\<forall>y\<in>set_tree l. compar (fst y) (fst e) < 0) \<and>
     (\<forall>y\<in>set_tree r. compar (fst e) (fst y) < 0))"

subsection \<open>Tables of counters\<close>

text \<open>What the callers of the tree rely on: the laws of a table from keys to counters.\<close>

locale count_table =
  fixes ok :: "'t \<Rightarrow> bool"
    and get :: "'k \<Rightarrow> 't \<Rightarrow> 'c option"
    and ins :: "'k \<times> 'c \<Rightarrow> 't \<Rightarrow> 't"
    and put :: "'k \<Rightarrow> 'c \<Rightarrow> 't \<Rightarrow> 't"
    and del :: "'k \<Rightarrow> 't \<Rightarrow> 't"
  assumes ok_ins: "ok t \<Longrightarrow> ok (ins e t)" and ok_put: "ok t \<Longrightarrow> ok (put x n t)" and ok_del: "ok t \<Longrightarrow> ok (del x t)"
    and get_ins: "ok t \<Longrightarrow> get y (ins e t) = (if y = fst e \<and> get y t = None then Some (snd e) else get y t)"
    and get_put: "ok t \<Longrightarrow> get y (put x n t) = (if y = x \<and> get y t \<noteq> None then Some n else get y t)"
    and get_del: "ok t \<Longrightarrow> get y (del x t) = (if y = x then None else get y t)"
begin

text \<open>A counter is raised after its node has been looked for or made, and the node goes when the counter is back at zero.\<close>

lemma raise_counter:
  assumes "ok t" "get x (ins (x, z) t) = Some n"
  shows "ok (put x m (ins (x, z) t))" "get y (put x m (ins (x, z) t)) = (if y = x then Some m else get y t)"
    "n = (case get x t of None \<Rightarrow> z | Some k \<Rightarrow> k)"
  using assms by (auto simp: ok_ins ok_put get_put get_ins split: option.splits if_splits)

lemma lower_counter:
  assumes "ok t" "get x t = Some n"
  shows "ok (if gone then del x (put x m t) else put x m t)"
    "get y (if gone then del x (put x m t) else put x m t) = (if y = x then if gone then None else Some m else get y t)"
  using assms by (auto simp: ok_put ok_del get_put get_del)

end

text \<open>The comparison is the interface of the tree to its users: it has to order the keys.\<close>

locale comparison =
  fixes compar :: "'k \<Rightarrow> 'k \<Rightarrow> int"
  assumes same: "compar a b = 0 \<longleftrightarrow> a = b"
    and flip: "compar a b < 0 \<longleftrightarrow> 0 < compar b a"
    and chain: "compar a b < 0 \<Longrightarrow> compar b c < 0 \<Longrightarrow> compar a c < 0"
begin

lemma right_of: "\<not> compar a b < 0 \<Longrightarrow> a \<noteq> b \<Longrightarrow> compar b a < 0"
  using flip [of b a] same [of a b] by linarith

lemma not_below_itself: "compar a a < 0 \<Longrightarrow> False"
  using same [of a a] by simp

lemma not_both: "compar a b < 0 \<Longrightarrow> compar b a < 0 \<Longrightarrow> False"
  using flip [of a b] by simp

text \<open>A key is looked for on one side of a node only, and rightly so.\<close>

lemma keys_aside:
  assumes "ordered compar (Node l a r)"
  shows "x = fst a \<Longrightarrow> y \<in> set_tree l \<union> set_tree r \<Longrightarrow> fst y \<noteq> x"
    and "compar x (fst a) < 0 \<Longrightarrow> y \<in> set_tree r \<Longrightarrow> fst y \<noteq> x"
    and "\<not> compar x (fst a) < 0 \<Longrightarrow> y \<in> set_tree l \<Longrightarrow> fst y \<noteq> x"
  using assms not_below_itself [of x] not_both [of x "fst a"] by auto

lemma find_iff: "ordered compar t \<Longrightarrow> tfind compar x t = Some e \<longleftrightarrow> e \<in> set_tree t \<and> fst e = x"
proof (induction t)
  case (Node l a r)
  note aside = keys_aside [OF Node.prems, of x]
  have IH: "tfind compar x l = Some e \<longleftrightarrow> e \<in> set_tree l \<and> fst e = x" "tfind compar x r = Some e \<longleftrightarrow> e \<in> set_tree r \<and> fst e = x"
    using Node.IH Node.prems by simp_all
  show ?case
  proof (cases "x = fst a")
    case True
    then show ?thesis using aside(1) [OF True, of e] by (auto simp: same)
  next
    case False
    then have ne: "compar x (fst a) \<noteq> 0" by (simp add: same)
    show ?thesis
    proof (cases "compar x (fst a) < 0")
      case True
      then show ?thesis using aside(2) [OF True, of e] IH(1) False by (auto simp: Let_def)
    next
      case gt: False
      then show ?thesis using aside(3) [OF gt, of e] IH(2) False ne by (auto simp: Let_def)
    qed
  qed
qed simp

lemma find_fst: "ordered compar t \<Longrightarrow> tfind compar x t = Some e \<Longrightarrow> fst e = x"
  by (simp add: find_iff)

lemma find_None: "ordered compar t \<Longrightarrow> tfind compar x t = None \<longleftrightarrow> (\<forall>e\<in>set_tree t. fst e \<noteq> x)"
  using find_iff [of t x] by (cases "tfind compar x t") auto

lemma search_set:
  "ordered compar t \<Longrightarrow> set_tree (tsearch compar e t) = (if \<exists>y\<in>set_tree t. fst y = fst e then set_tree t else insert e (set_tree t)) \<and>
    ordered compar (tsearch compar e t)"
proof (induction t)
  case (Node l a r)
  note aside = keys_aside [OF Node.prems, of "fst e"]
  have o: "ordered compar l" "ordered compar r" "\<forall>y\<in>set_tree l. compar (fst y) (fst a) < 0" "\<forall>y\<in>set_tree r. compar (fst a) (fst y) < 0"
    using Node.prems by simp_all
  show ?case
  proof (cases "fst e = fst a")
    case True
    then have "tsearch compar e (Node l a r) = Node l a r" by (simp add: same)
    then show ?thesis using Node.prems True by (auto simp: same)
  next
    case False
    then have ne: "compar (fst e) (fst a) \<noteq> 0" by (simp add: same)
    show ?thesis
    proof (cases "compar (fst e) (fst a) < 0")
      case True
      have "tsearch compar e (Node l a r) = Node (tsearch compar e l) a r" using True by (simp add: Let_def)
      then show ?thesis using Node.IH(1) [OF o(1)] aside(2) [OF True] o False True by (auto split: if_splits)
    next
      case gt: False
      have "tsearch compar e (Node l a r) = Node l a (tsearch compar e r)" using gt ne by (simp add: Let_def)
      moreover have "compar (fst a) (fst e) < 0" using right_of [OF gt False] .
      ultimately show ?thesis using Node.IH(2) [OF o(2)] aside(3) [OF gt] o False by (auto split: if_splits)
    qed
  qed
qed simp

lemma take_first_set:
  "take_first l e r = (m, t) \<Longrightarrow> ordered compar (Node l e r) \<Longrightarrow>
   set_tree (Node l e r) = insert m (set_tree t) \<and> ordered compar t \<and> (\<forall>y\<in>set_tree t. compar (fst m) (fst y) < 0)"
proof (induction l e r arbitrary: m t rule: take_first.induct)
  case (2 l1 e1 r1 e r)
  obtain l where l: "take_first l1 e1 r1 = (m, l)" "t = Node l e r" using "2.prems"(1) by (auto split: prod.splits)
  have s: "set_tree (Node l1 e1 r1) = insert m (set_tree l)" "ordered compar l" "\<forall>y\<in>set_tree l. compar (fst m) (fst y) < 0"
    using "2.IH" [OF l(1)] "2.prems"(2) by simp_all
  have o: "ordered compar r" "\<forall>y\<in>set_tree (Node l1 e1 r1). compar (fst y) (fst e) < 0" "\<forall>y\<in>set_tree r. compar (fst e) (fst y) < 0"
    using "2.prems"(2) by simp_all
  have b: "\<forall>y\<in>insert m (set_tree l). compar (fst y) (fst e) < 0" using o(2) unfolding s(1) .
  then have "compar (fst m) (fst y) < 0" if "y \<in> set_tree r" for y
    using that o(3) chain [of "fst m" "fst e" "fst y"] by simp
  moreover have "set_tree (Node (Node l1 e1 r1) e r) = insert m (set_tree t)"
    using s(1) l(2) by (subst tree.set(2)) auto
  ultimately show ?case using s(2,3) l(2) b o by auto
qed auto

lemma drop_root_set:
  assumes "ordered compar (Node l e r)"
  shows "set_tree (drop_root l r) = set_tree l \<union> set_tree r \<and> ordered compar (drop_root l r)"
proof -
  have o: "ordered compar l" "ordered compar r" using assms by simp_all
  have lr: "compar (fst x) (fst y) < 0" if "x \<in> set_tree l" "y \<in> set_tree r" for x y
    using assms that chain [of "fst x" "fst e" "fst y"] by simp
  show ?thesis
  proof (cases r)
    case (Node l1 a r1)
    show ?thesis
    proof (cases "l1 = Leaf")
      case True
      then have "drop_root l r = (if l = Leaf then r else Node l a r1)" using Node by (simp add: drop_root_def)
      then show ?thesis using o lr Node True by auto
    next
      case False
      obtain m t where m: "take_first l1 a r1 = (m, t)" by fastforce
      have s: "set_tree r = insert m (set_tree t)" "ordered compar t" "\<forall>y\<in>set_tree t. compar (fst m) (fst y) < 0"
        using take_first_set [OF m] o(2) Node by auto
      have "drop_root l r = (if l = Leaf then r else Node l m t)" using False Node m by (simp add: drop_root_def)
      then show ?thesis using o s lr by auto
    qed
  qed (use o in \<open>auto simp: drop_root_def\<close>)
qed

lemma delete_set:
  "ordered compar t \<Longrightarrow> set_tree (tdelete compar x t) = {e \<in> set_tree t. fst e \<noteq> x} \<and> ordered compar (tdelete compar x t)"
proof (induction t)
  case (Node l a r)
  note aside = keys_aside [OF Node.prems, of x]
  have o: "ordered compar l" "ordered compar r" "\<forall>y\<in>set_tree l. compar (fst y) (fst a) < 0" "\<forall>y\<in>set_tree r. compar (fst a) (fst y) < 0"
    using Node.prems by simp_all
  show ?case
  proof (cases "x = fst a")
    case True
    then have "tdelete compar x (Node l a r) = drop_root l r" by (simp add: same)
    then show ?thesis using True drop_root_set [OF Node.prems] aside(1) [OF True] by auto
  next
    case False
    then have ne: "compar x (fst a) \<noteq> 0" by (simp add: same)
    show ?thesis
    proof (cases "compar x (fst a) < 0")
      case True
      have "tdelete compar x (Node l a r) = Node (tdelete compar x l) a r" using True by (simp add: Let_def)
      then show ?thesis using Node.IH(1) [OF o(1)] aside(2) [OF True] o False by auto
    next
      case gt: False
      have "tdelete compar x (Node l a r) = Node l a (tdelete compar x r)" using gt ne by (simp add: Let_def)
      then show ?thesis using Node.IH(2) [OF o(2)] aside(3) [OF gt] o False by auto
    qed
  qed
qed simp

lemma counter_set:
  "ordered compar t \<Longrightarrow> set_tree (set_counter compar x n t) = (\<lambda>e. if fst e = x then (x, n) else e) ` set_tree t \<and>
    ordered compar (set_counter compar x n t)"
proof (induction t)
  case (Node l a r)
  note aside = keys_aside [OF Node.prems, of x]
  have o: "ordered compar l" "ordered compar r" "\<forall>y\<in>set_tree l. compar (fst y) (fst a) < 0" "\<forall>y\<in>set_tree r. compar (fst a) (fst y) < 0"
    using Node.prems by simp_all
  have image: "(\<lambda>e. if fst e = x then (x, n) else e) ` A = A" if "\<And>y. y \<in> A \<Longrightarrow> fst y \<noteq> x" for A :: "('k \<times> 'a) set"
    using that by force
  show ?case
  proof (cases "x = fst a")
    case True
    then have "set_counter compar x n (Node l a r) = Node l (x, n) r" by (simp add: same)
    then show ?thesis using True o image [of "set_tree l"] image [of "set_tree r"] aside(1) [OF True] by auto
  next
    case False
    then have ne: "compar x (fst a) \<noteq> 0" by (simp add: same)
    show ?thesis
    proof (cases "compar x (fst a) < 0")
      case True
      have "set_counter compar x n (Node l a r) = Node (set_counter compar x n l) a r" using True by (simp add: Let_def)
      then show ?thesis using Node.IH(1) [OF o(1)] image [of "set_tree r"] aside(2) [OF True] o False by auto
    next
      case gt: False
      have "set_counter compar x n (Node l a r) = Node l a (set_counter compar x n r)" using gt ne by (simp add: Let_def)
      then show ?thesis using Node.IH(2) [OF o(2)] image [of "set_tree l"] aside(3) [OF gt] o False by auto
    qed
  qed
qed simp

text \<open>Two searches agree when they find the same nodes.\<close>

lemma find_eqI:
  assumes "ordered compar t" "\<And>e. e \<in> set_tree t \<and> fst e = y \<longleftrightarrow> f = Some e"
  shows "tfind compar y t = f"
proof (cases f)
  case None
  then show ?thesis using assms(2) by (simp add: find_None [OF assms(1)])
next
  case (Some e)
  then show ?thesis using assms(2) [of e] by (simp add: find_iff [OF assms(1)])
qed

lemma find_search:
  assumes "ordered compar t"
  shows "tfind compar y (tsearch compar e t) = (if y = fst e \<and> tfind compar y t = None then Some e else tfind compar y t)"
  using search_set [OF assms, of e] find_iff [OF assms, of y] find_None [OF assms, of y]
  by (intro find_eqI) (auto split: if_splits)

lemma find_delete:
  assumes "ordered compar t"
  shows "tfind compar y (tdelete compar x t) = (if y = x then None else tfind compar y t)"
  using delete_set [OF assms, of x] find_iff [OF assms, of y] by (intro find_eqI) auto

lemma find_counter:
  assumes "ordered compar t"
  shows "tfind compar y (set_counter compar x n t) = (if y = x \<and> tfind compar y t \<noteq> None then Some (x, n) else tfind compar y t)"
  using assms by (induction t) (auto simp: same Let_def)

end

text \<open>A tree with a comparison that orders its keys is a table.\<close>

sublocale comparison < table: count_table "ordered compar" "\<lambda>x t. map_option snd (tfind compar x t)" "tsearch compar"
    "set_counter compar" "tdelete compar"
proof unfold_locales
  show "map_option snd (tfind compar y (tsearch compar e t)) =
      (if y = fst e \<and> map_option snd (tfind compar y t) = None then Some (snd e) else map_option snd (tfind compar y t))"
    if "ordered compar t" for y t and e :: "'k \<times> 'b"
    unfolding find_search [OF that] by (cases e; cases "tfind compar y t") auto
  show "map_option snd (tfind compar y (set_counter compar x n t)) =
      (if y = x \<and> map_option snd (tfind compar y t) \<noteq> None then Some n else map_option snd (tfind compar y t))"
    if "ordered compar t" for y x t and n :: 'b
    using that by (simp only: find_counter) auto
qed (simp_all add: search_set counter_set delete_set find_delete)

end
