(* ===== verification/MhdConns.thy ===== *)
theory MhdConns
  imports MhdTree TsBytes "HOL-Library.Multiset"
begin

text \<open>
  The connections of a daemon, \<open>src/final/server/microhttpd/microhttpd/daemon.c\<close> and \<open>connection.c\<close>: the limits on
  their number, in all and for one address, the lists they are kept in while they are open, suspended or dead, their timeouts,
  and the end of the daemon.
\<close>

subsection \<open>Addresses and their counters\<close>

text \<open>
  A key is what \<open>memset\<close> and \<open>memcpy\<close> leave in front of the counter of \<open>MHD_IPCount\<close>: the family and sixteen bytes.
  The two areas that \<open>memcmp\<close> gets are lists of bytes; the callers pass areas of the same size.
\<close>

datatype address_family = AF_INET | AF_INET6

datatype ip_key = Ip_key address_family "u8 list"

fun family_bytes :: "address_family \<Rightarrow> u8 list" where
  "family_bytes AF_INET = [2, 0, 0, 0]"
| "family_bytes AF_INET6 = [10, 0, 0, 0]"

fun key_bytes :: "ip_key \<Rightarrow> u8 list" where
  "key_bytes (Ip_key f a) = family_bytes f @ a"

fun memcmp :: "u8 list \<Rightarrow> u8 list \<Rightarrow> int" where
  "memcmp (x # xs) (y # ys) = (if x = y then memcmp xs ys else if x < y then -1 else 1)"
| "memcmp [] [] = 0"
| "memcmp [] (y # ys) = -1"
| "memcmp (x # xs) [] = 1"

definition MHD_ip_addr_compare :: "ip_key \<Rightarrow> ip_key \<Rightarrow> int" where
  "MHD_ip_addr_compare a1 a2 = memcmp (key_bytes a1) (key_bytes a2)"

text \<open>The structures of the two families have 16 and 28 bytes; the address starts at byte 4 and at byte 8.\<close>

definition MHD_ip_addr_to_key :: "u8 list \<Rightarrow> ip_key option" where
  "MHD_ip_addr_to_key addr =
     (if length addr = 16 then Some (Ip_key AF_INET (take 4 (drop 4 addr) @ replicate 12 0))
      else if length addr = 28 then Some (Ip_key AF_INET6 (take 16 (drop 8 addr)))
      else None)"

text \<open>
  The parts of a daemon and its connections that decide on lists and limits; a connection is known by its address in memory.
\<close>

record conn_entry =
  ce_addr :: "u8 list"
  ce_timeout :: u32          \<comment> \<open>\<open>connection_timeout\<close> in seconds, 0 for none\<close>
  ce_last :: int             \<comment> \<open>\<open>last_activity\<close>\<close>
  ce_suspended :: bool
  ce_resuming :: bool

record conn_lists =
  dc_conn :: "nat \<Rightarrow> conn_entry"
  dc_threads :: bool                \<comment> \<open>\<open>MHD_USE_THREAD_PER_CONNECTION\<close>\<close>
  dc_may_suspend :: bool            \<comment> \<open>\<open>MHD_USE_SUSPEND_RESUME\<close>\<close>
  dc_timeout :: u32
  dc_connections :: u32
  dc_connection_limit :: u32
  dc_per_ip_limit :: u32
  dc_ip_count :: "(ip_key \<times> u32) tree"
  dc_at_limit :: bool
  dc_resuming :: bool
  dc_active :: "nat list"           \<comment> \<open>from \<open>connections_head\<close>\<close>
  dc_suspended :: "nat list"
  dc_cleanup :: "nat list"
  dc_normal :: "nat list"           \<comment> \<open>from \<open>normal_timeout_head\<close>\<close>
  dc_manual :: "nat list"

definition MHD_ip_limit_add :: "u8 list \<Rightarrow> conn_lists \<Rightarrow> bool \<times> conn_lists" where
  "MHD_ip_limit_add addr d =
     (if dc_per_ip_limit d = 0 then (True, d)
      else case MHD_ip_addr_to_key addr of None \<Rightarrow> (True, d)
        | Some key \<Rightarrow>
            let t = tsearch MHD_ip_addr_compare (key, 0) (dc_ip_count d) in
            (case tfind MHD_ip_addr_compare key t of
               None \<Rightarrow> (False, d)
             | Some (_, n) \<Rightarrow>
                 if n < dc_per_ip_limit d then (True, d\<lparr>dc_ip_count := set_counter MHD_ip_addr_compare key (n + 1) t\<rparr>)
                 else (False, d\<lparr>dc_ip_count := t\<rparr>)))"

definition MHD_ip_limit_del :: "u8 list \<Rightarrow> conn_lists \<Rightarrow> conn_lists res" where
  "MHD_ip_limit_del addr d =
     (if dc_per_ip_limit d = 0 then Inr d
      else case MHD_ip_addr_to_key addr of None \<Rightarrow> Inr d
        | Some key \<Rightarrow>
            (case tfind MHD_ip_addr_compare key (dc_ip_count d) of
               None \<Rightarrow> Inl Fatal_exit
             | Some (_, n) \<Rightarrow>
                 if n = 0 then Inl Fatal_exit
                 else let t = set_counter MHD_ip_addr_compare key (n - 1) (dc_ip_count d) in
                   Inr (d\<lparr>dc_ip_count := (if n - 1 = 0 then tdelete MHD_ip_addr_compare key t else t)\<rparr>)))"

subsection \<open>The lists of connections\<close>

text \<open>The macros of \<open>internal.h\<close>.  Removing an element that is not in the list would cut the list.\<close>

definition DLL_insert :: "'p list \<Rightarrow> 'p \<Rightarrow> 'p list" where
  "DLL_insert xs x = x # xs"

definition DLL_remove :: "'p list \<Rightarrow> 'p \<Rightarrow> 'p list res" where
  "DLL_remove xs x = (if x \<in> set xs then Inr (remove1 x xs) else Inl Broken_list)"

definition XDLL_insert :: "nat \<Rightarrow> conn_lists \<Rightarrow> conn_lists" where
  "XDLL_insert p d =
     (if ce_timeout (dc_conn d p) = dc_timeout d then d\<lparr>dc_normal := DLL_insert (dc_normal d) p\<rparr>
      else d\<lparr>dc_manual := DLL_insert (dc_manual d) p\<rparr>)"

definition XDLL_remove :: "nat \<Rightarrow> conn_lists \<Rightarrow> conn_lists res" where
  "XDLL_remove p d =
     (if ce_timeout (dc_conn d p) = dc_timeout d
      then rbind (DLL_remove (dc_normal d) p) (\<lambda>xs. Inr (d\<lparr>dc_normal := xs\<rparr>))
      else rbind (DLL_remove (dc_manual d) p) (\<lambda>xs. Inr (d\<lparr>dc_manual := xs\<rparr>)))"

definition set_entry :: "nat \<Rightarrow> (conn_entry \<Rightarrow> conn_entry) \<Rightarrow> conn_lists \<Rightarrow> conn_lists" where
  "set_entry p f d = d\<lparr>dc_conn := (dc_conn d)(p := f (dc_conn d p))\<rparr>"

text \<open>
  What is decided outside of the lists when a connection comes in: whether the number of its socket fits, the policy of the
  application, the memory, and the thread or the epoll set for it.
\<close>

record accept_env =
  ae_fits :: bool
  ae_policy :: bool
  ae_memory :: bool
  ae_started :: bool

definition internal_add_connection :: "nat \<Rightarrow> int \<Rightarrow> u8 list \<Rightarrow> accept_env \<Rightarrow> conn_lists \<Rightarrow> (bool \<times> conn_lists) res" where
  "internal_add_connection p now addr env d =
     (if \<not> ae_fits env then Inr (False, d)
      else if dc_connections d = dc_connection_limit d then Inr (False, d)
      else case MHD_ip_limit_add addr d of
        (False, d1) \<Rightarrow> Inr (False, d1)
      | (True, d1) \<Rightarrow>
          if \<not> ae_policy env \<or> \<not> ae_memory env then rbind (MHD_ip_limit_del addr d1) (\<lambda>d2. Inr (False, d2))
          else
            let d2 = d1\<lparr>dc_conn := (dc_conn d1)(p := \<lparr>ce_addr = addr, ce_timeout = dc_timeout d1, ce_last = now,
                                                       ce_suspended = False, ce_resuming = False\<rparr>)\<rparr>;
                d3 = (if dc_threads d2 then d2 else XDLL_insert p d2);
                d4 = d3\<lparr>dc_active := DLL_insert (dc_active d3) p\<rparr>
            in if ae_started env then Inr (True, d4\<lparr>dc_connections := dc_connections d4 + 1\<rparr>)
               else rbind (MHD_ip_limit_del addr d4) (\<lambda>d5.
                    rbind (if dc_threads d5 then Inr d5 else XDLL_remove p d5) (\<lambda>d6.
                    rbind (DLL_remove (dc_active d6) p) (\<lambda>xs. Inr (False, d6\<lparr>dc_active := xs\<rparr>)))))"

definition MHD_suspend_connection :: "nat \<Rightarrow> conn_lists \<Rightarrow> conn_lists res" where
  "MHD_suspend_connection p d =
     (if \<not> dc_may_suspend d then Inl Fatal_exit
      else rbind (if dc_threads d then Inr d else XDLL_remove p d) (\<lambda>d1.
           rbind (DLL_remove (dc_active d1) p) (\<lambda>xs.
           Inr (set_entry p (ce_suspended_update (\<lambda>_. True))
                 (d1\<lparr>dc_active := xs, dc_suspended := DLL_insert (dc_suspended d1) p\<rparr>)))))"

definition MHD_resume_connection :: "nat \<Rightarrow> conn_lists \<Rightarrow> conn_lists res" where
  "MHD_resume_connection p d =
     (if \<not> dc_may_suspend d then Inl Fatal_exit
      else Inr ((set_entry p (ce_resuming_update (\<lambda>_. True)) d)\<lparr>dc_resuming := True\<rparr>))"

definition resume_one :: "nat \<Rightarrow> conn_lists \<Rightarrow> conn_lists res" where
  "resume_one p d =
     rbind (DLL_remove (dc_suspended d) p) (\<lambda>xs.
     let d1 = d\<lparr>dc_suspended := xs, dc_active := DLL_insert (dc_active d) p\<rparr>;
         d2 = (if dc_threads d1 then d1 else XDLL_insert p d1)
     in Inr (set_entry p (\<lambda>c. c\<lparr>ce_suspended := False, ce_resuming := False\<rparr>) d2))"

text \<open>The loop saves the successor before an element moves, so it walks over the list as it was.\<close>

fun resume_loop :: "nat list \<Rightarrow> conn_lists \<Rightarrow> (bool \<times> conn_lists) res" where
  "resume_loop [] d = Inr (False, d)"
| "resume_loop (p # ps) d =
     (if \<not> ce_resuming (dc_conn d p) then resume_loop ps d
      else rbind (resume_one p d) (\<lambda>d1. rbind (resume_loop ps d1) (\<lambda>(_, d2). Inr (True, d2))))"

definition resume_suspended_connections :: "conn_lists \<Rightarrow> (bool \<times> conn_lists) res" where
  "resume_suspended_connections d =
     (if dc_resuming d
      then resume_loop (dc_suspended d) (if dc_suspended d = [] then d else d\<lparr>dc_resuming := False\<rparr>)
      else Inr (False, d))"

definition update_last_activity :: "int \<Rightarrow> nat \<Rightarrow> conn_lists \<Rightarrow> conn_lists res" where
  "update_last_activity now p d =
     (let d1 = set_entry p (ce_last_update (\<lambda>_. now)) d in
      if dc_threads d1 \<or> ce_timeout (dc_conn d1 p) \<noteq> dc_timeout d1 then Inr d1
      else rbind (XDLL_remove p d1) (\<lambda>d2. Inr (XDLL_insert p d2)))"

definition cleanup_connection :: "nat \<Rightarrow> conn_lists \<Rightarrow> conn_lists res" where
  "cleanup_connection p d =
     rbind (if dc_threads d then Inr d else XDLL_remove p d) (\<lambda>d1.
     rbind (if ce_suspended (dc_conn d1 p)
            then rbind (DLL_remove (dc_suspended d1) p) (\<lambda>xs. Inr (d1\<lparr>dc_suspended := xs\<rparr>))
            else rbind (DLL_remove (dc_active d1) p) (\<lambda>xs. Inr (d1\<lparr>dc_active := xs\<rparr>))) (\<lambda>d2.
     Inr (set_entry p (\<lambda>c. c\<lparr>ce_suspended := False, ce_resuming := False\<rparr>) (d2\<lparr>dc_cleanup := DLL_insert (dc_cleanup d2) p\<rparr>))))"

fun cleanup_loop :: "nat list \<Rightarrow> conn_lists \<Rightarrow> conn_lists res" where
  "cleanup_loop [] d = Inr d"
| "cleanup_loop (p # ps) d =
     rbind (MHD_ip_limit_del (ce_addr (dc_conn d p))
             (d\<lparr>dc_cleanup := ps, dc_connections := dc_connections d - 1, dc_at_limit := False\<rparr>))
       (cleanup_loop ps)"

definition MHD_cleanup_connections :: "conn_lists \<Rightarrow> conn_lists res" where
  "MHD_cleanup_connections d = cleanup_loop (dc_cleanup d) d"

text \<open>The only option of a connection: its own timeout.\<close>

definition MHD_set_connection_option :: "nat \<Rightarrow> u32 \<Rightarrow> conn_lists \<Rightarrow> conn_lists res" where
  "MHD_set_connection_option p timeout d =
     (let listed = (\<not> dc_threads d \<and> \<not> ce_suspended (dc_conn d p)) in
      rbind (if listed then XDLL_remove p d else Inr d) (\<lambda>d1.
      let d2 = set_entry p (ce_timeout_update (\<lambda>_. timeout)) d1
      in Inr (if listed then XDLL_insert p d2 else d2)))"

text \<open>How long the event loop may wait, in milliseconds; \<open>None\<close> when no connection has a timeout.\<close>

definition deadline :: "conn_lists \<Rightarrow> nat \<Rightarrow> int" where
  "deadline d p = ce_last (dc_conn d p) + uint (ce_timeout (dc_conn d p))"

fun earlier :: "int option \<Rightarrow> int \<Rightarrow> int option" where
  "earlier None t = Some t"
| "earlier (Some e) t = Some (if e > t then t else e)"

fun manual_deadline :: "conn_lists \<Rightarrow> nat list \<Rightarrow> int option \<Rightarrow> int option" where
  "manual_deadline d [] e = e"
| "manual_deadline d (p # ps) e =
     manual_deadline d ps (if ce_timeout (dc_conn d p) \<noteq> 0 then earlier e (deadline d p) else e)"

definition MHD_get_timeout :: "int \<Rightarrow> conn_lists \<Rightarrow> nat option" where
  "MHD_get_timeout now d =
     (if dc_threads d then None
      else
        let e = manual_deadline d (dc_manual d) None;
            e1 = (case dc_normal d of [] \<Rightarrow> e
                  | p # _ \<Rightarrow> if ce_timeout (dc_conn d p) \<noteq> 0 then earlier e (deadline d p) else e)
        in case e1 of None \<Rightarrow> None
           | Some t \<Rightarrow> if t < now then Some 0
                       else if nat (t - now) > (2 ^ 64 - 1) div 1000 then Some (2 ^ 64 - 1) else Some (1000 * nat (t - now)))"

definition idle_timed_out :: "int \<Rightarrow> conn_entry \<Rightarrow> bool" where
  "idle_timed_out now c = (ce_timeout c \<noteq> 0 \<and> uint (ce_timeout c) \<le> now - ce_last c)"

text \<open>\<open>close_connection\<close> of \<open>daemon.c\<close>, and the end of the daemon when every thread has been joined.\<close>

definition close_connection :: "nat \<Rightarrow> conn_lists \<Rightarrow> conn_lists res" where
  "close_connection p d =
     (if dc_threads d then Inr d
      else rbind (XDLL_remove p d) (\<lambda>d1. rbind (DLL_remove (dc_active d1) p) (\<lambda>xs.
           Inr (d1\<lparr>dc_active := xs, dc_cleanup := DLL_insert (dc_cleanup d1) p\<rparr>))))"

text \<open>With a thread for each connection the loop waits for lists that nobody empties any more.\<close>

fun close_loop :: "nat list \<Rightarrow> conn_lists \<Rightarrow> conn_lists res" where
  "close_loop [] d = Inr d"
| "close_loop (p # ps) d = (if dc_threads d then Inl No_return else rbind (close_connection p d) (close_loop ps))"

definition close_all_connections :: "conn_lists \<Rightarrow> conn_lists res" where
  "close_all_connections d =
     rbind (resume_suspended_connections d) (\<lambda>(_, d1).
     if dc_suspended d1 \<noteq> [] then Inl Fatal_exit
     else rbind (close_loop (dc_active d1) d1) MHD_cleanup_connections)"

subsection \<open>The counters of the addresses\<close>

lemma memcmp_zero: "memcmp xs ys = 0 \<longleftrightarrow> xs = ys"
  by (induction xs ys rule: memcmp.induct) auto

lemma memcmp_flip: "memcmp xs ys < 0 \<longleftrightarrow> 0 < memcmp ys xs"
  by (induction xs ys rule: memcmp.induct) auto

lemma memcmp_chain: "memcmp xs ys < 0 \<Longrightarrow> memcmp ys zs < 0 \<Longrightarrow> memcmp xs zs < 0"
proof (induction xs zs arbitrary: ys rule: memcmp.induct)
  case (1 x xs z zs)
  then show ?case by (cases ys) (auto split: if_splits)
next
  case (2)
  then show ?case by (cases ys) auto
next
  case (3 z zs)
  then show ?case by simp
next
  case (4 x xs)
  then show ?case by (cases ys) auto
qed

lemma key_bytes_inj: "key_bytes a = key_bytes b \<longleftrightarrow> a = b"
proof -
  obtain f x g y where ab: "a = Ip_key f x" "b = Ip_key g y" by (cases a; cases b) blast
  show ?thesis unfolding ab by (cases f; cases g) auto
qed

interpretation ip: comparison MHD_ip_addr_compare
proof
  show "MHD_ip_addr_compare a b = 0 \<longleftrightarrow> a = b" for a b
    by (simp add: MHD_ip_addr_compare_def memcmp_zero key_bytes_inj)
  show "MHD_ip_addr_compare a b < 0 \<longleftrightarrow> 0 < MHD_ip_addr_compare b a" for a b
    unfolding MHD_ip_addr_compare_def by (rule memcmp_flip)
  show "MHD_ip_addr_compare a b < 0 \<Longrightarrow> MHD_ip_addr_compare b c < 0 \<Longrightarrow> MHD_ip_addr_compare a c < 0" for a b c
    unfolding MHD_ip_addr_compare_def by (rule memcmp_chain)
qed

text \<open>The comparison makes the keys a linear order, so that the sorted lists of the library apply to the tree.\<close>

instantiation ip_key :: linorder
begin

definition less_eq_ip_key :: "ip_key \<Rightarrow> ip_key \<Rightarrow> bool" where
  "less_eq_ip_key a b = (MHD_ip_addr_compare a b \<le> 0)"

definition less_ip_key :: "ip_key \<Rightarrow> ip_key \<Rightarrow> bool" where
  "less_ip_key a b = (MHD_ip_addr_compare a b < 0)"

instance
proof
  fix a b c :: ip_key
  show "a < b \<longleftrightarrow> a \<le> b \<and> \<not> b \<le> a"
    using ip.flip [of a b] ip.flip [of b a] by (auto simp: less_ip_key_def less_eq_ip_key_def)
  show "a \<le> a" using ip.same [of a a] by (simp add: less_eq_ip_key_def)
  show "a \<le> c" if "a \<le> b" "b \<le> c"
    using that ip.chain [of a b c] ip.same [of a b] ip.same [of b c] by (force simp: less_eq_ip_key_def order_le_less)
  show "a = b" if "a \<le> b" "b \<le> a"
    using that ip.flip [of a b] ip.same [of a b] by (auto simp: less_eq_ip_key_def order_le_less)
  show "a \<le> b \<or> b \<le> a" using ip.flip [of b a] by (force simp: less_eq_ip_key_def)
qed

end

lemma ordered_sorted: "ordered MHD_ip_addr_compare t \<longleftrightarrow> sorted_wrt (<) (map fst (inorder t))"
proof (induction t)
  case (Node l e r)
  then show ?case using ip.chain [of _ "fst e"] by (auto simp: sorted_wrt_append less_ip_key_def)
qed simp

definition ip_get :: "ip_key \<Rightarrow> conn_lists \<Rightarrow> u32 option" where
  "ip_get k d = map_option snd (tfind MHD_ip_addr_compare k (dc_ip_count d))"

text \<open>How many of the addresses have a key; the counters are right when they say so.\<close>

definition from_key :: "ip_key \<Rightarrow> u8 list multiset \<Rightarrow> nat" where
  "from_key k A = size (filter_mset (\<lambda>a. MHD_ip_addr_to_key a = Some k) A)"

definition ip_ok :: "conn_lists \<Rightarrow> u8 list multiset \<Rightarrow> bool" where
  "ip_ok d A = (dc_per_ip_limit d = 0 \<or> (ordered MHD_ip_addr_compare (dc_ip_count d) \<and>
     (\<forall>k. map_option unat (ip_get k d) = (if from_key k A = 0 then None else Some (from_key k A)) \<and>
          from_key k A \<le> unat (dc_per_ip_limit d))))"

lemma from_key_add [simp]: "from_key k (add_mset a A) = (if MHD_ip_addr_to_key a = Some k then 1 else 0) + from_key k A"
  by (simp add: from_key_def)

lemma word_up: "(n :: u32) < m \<Longrightarrow> unat (n + 1) = unat n + 1"
proof -
  assume "n < m"
  then have "unat n < unat m" by (simp add: word_less_nat_alt)
  moreover have "unat m < 2 ^ 32" using unsigned_less [of m] by simp
  ultimately show ?thesis using unat_plus_if' [of n 1] by simp
qed

lemma word_down: "(n :: u32) \<noteq> 0 \<Longrightarrow> unat (n - 1) = unat n - 1"
  by (rule unat_minus_one)

lemma ip_get_set: "ip_get k (d\<lparr>dc_ip_count := t\<rparr>) = map_option snd (tfind MHD_ip_addr_compare k t)"
  by (simp add: ip_get_def)

lemma find_ip_get: "tfind MHD_ip_addr_compare k (dc_ip_count d) = Some e \<Longrightarrow> ip_get k d = Some (snd e)"
  by (simp add: ip_get_def)

lemma ip_ok_other:
  assumes "dc_per_ip_limit d = 0 \<or> MHD_ip_addr_to_key addr = None"
  shows "ip_ok d (add_mset addr A) = ip_ok d A"
proof (cases "dc_per_ip_limit d = 0")
  case False
  then have "from_key k (add_mset addr A) = from_key k A" for k using assms by simp
  then show ?thesis by (simp only: ip_ok_def)
qed (simp add: ip_ok_def)

lemma limit_add:
  assumes ok: "ip_ok d A" and add: "MHD_ip_limit_add addr d = (b, d1)"
  shows "\<exists>t. d1 = d\<lparr>dc_ip_count := t\<rparr> \<and> ip_ok d1 (if b then add_mset addr A else A)"
proof (cases "dc_per_ip_limit d = 0 \<or> MHD_ip_addr_to_key addr = None")
  case True
  then have "(b, d1) = (True, d\<lparr>dc_ip_count := dc_ip_count d\<rparr>)" unfolding add [symmetric] by (auto simp: MHD_ip_limit_add_def)
  then have "d1 = d\<lparr>dc_ip_count := dc_ip_count d\<rparr>" "b" by simp_all
  then show ?thesis using ip_ok_other [OF True] ok by (intro exI [of _ "dc_ip_count d"]) simp
next
  case False
  then obtain key where key: "MHD_ip_addr_to_key addr = Some key" and lim: "dc_per_ip_limit d \<noteq> 0" by auto
  let ?t = "tsearch MHD_ip_addr_compare (key, 0) (dc_ip_count d)"
  have o: "ordered MHD_ip_addr_compare (dc_ip_count d)"
    and g: "map_option unat (ip_get k d) = (if from_key k A = 0 then None else Some (from_key k A))"
    and m: "from_key k A \<le> unat (dc_per_ip_limit d)" for k
    using ok lim by (auto simp: ip_ok_def)
  obtain e where e: "tfind MHD_ip_addr_compare key ?t = Some e"
    using ip.find_search [OF o, of key "(key, 0)"] by (cases "tfind MHD_ip_addr_compare key (dc_ip_count d)") auto
  note r = ip.table.raise_counter [OF o, of key 0 "snd e"]
  have ge: "map_option snd (tfind MHD_ip_addr_compare key ?t) = Some (snd e)" using e by simp
  have n: "unat (snd e) = from_key key A"
    using r(3) [OF ge] g [of key] by (auto simp: ip_get_def split: option.splits if_splits)
  show ?thesis
  proof (cases "snd e < dc_per_ip_limit d")
    case True
    let ?t1 = "set_counter MHD_ip_addr_compare key (snd e + 1) ?t"
    have d1: "d1 = d\<lparr>dc_ip_count := ?t1\<rparr>" "b" using add key lim e True by (auto simp: MHD_ip_limit_add_def Let_def split: prod.splits)
    have u: "unat (snd e + 1) = from_key key A + 1" using word_up [OF True] n by simp
    have "from_key key A < unat (dc_per_ip_limit d)" using True n by (simp add: word_less_nat_alt)
    then have "from_key k (add_mset addr A) \<le> unat (dc_per_ip_limit d)" for k using m [of k] key by auto
    moreover have "map_option unat (ip_get k (d\<lparr>dc_ip_count := ?t1\<rparr>)) =
        (if from_key k (add_mset addr A) = 0 then None else Some (from_key k (add_mset addr A)))" for k
      unfolding ip_get_set r(2) [OF ge] using g [of k] u key by (cases "k = key") (simp_all add: ip_get_def)
    ultimately have "ip_ok d1 (add_mset addr A)" using r(1) [OF ge] unfolding ip_ok_def d1(1) by simp
    then show ?thesis using d1 by auto
  next
    case full: False
    have d1: "d1 = d\<lparr>dc_ip_count := ?t\<rparr>" "\<not> b" using add key lim e full by (auto simp: MHD_ip_limit_add_def Let_def split: prod.splits)
    have "0 < unat (dc_per_ip_limit d)" using lim by (simp add: unat_gt_0)
    then have "from_key key A \<noteq> 0" using full n by (simp add: word_less_nat_alt)
    then have "ip_get key d \<noteq> None" using g [of key] by auto
    then have "ip_get k (d\<lparr>dc_ip_count := ?t\<rparr>) = ip_get k d" for k
      unfolding ip_get_set ip.table.get_ins [OF o] by (auto simp: ip_get_def)
    then have "ip_ok d1 A" using ip.table.ok_ins [OF o] g m unfolding ip_ok_def d1(1) by simp
    then show ?thesis using d1 by auto
  qed
qed

lemma limit_del:
  assumes ok: "ip_ok d (add_mset addr A)"
  shows "\<exists>t. MHD_ip_limit_del addr d = Inr (d\<lparr>dc_ip_count := t\<rparr>) \<and> ip_ok (d\<lparr>dc_ip_count := t\<rparr>) A"
proof (cases "dc_per_ip_limit d = 0 \<or> MHD_ip_addr_to_key addr = None")
  case True
  then have "MHD_ip_limit_del addr d = Inr (d\<lparr>dc_ip_count := dc_ip_count d\<rparr>)" by (auto simp: MHD_ip_limit_del_def)
  then show ?thesis using ip_ok_other [OF True] ok by (intro exI [of _ "dc_ip_count d"]) simp
next
  case False
  then obtain key where key: "MHD_ip_addr_to_key addr = Some key" and lim: "dc_per_ip_limit d \<noteq> 0" by auto
  have o: "ordered MHD_ip_addr_compare (dc_ip_count d)"
    and g: "map_option unat (ip_get k d) = (if from_key k (add_mset addr A) = 0 then None else Some (from_key k (add_mset addr A)))"
    and m: "from_key k (add_mset addr A) \<le> unat (dc_per_ip_limit d)" for k
    using ok lim unfolding ip_ok_def by blast+
  obtain e where e: "tfind MHD_ip_addr_compare key (dc_ip_count d) = Some e" and n: "unat (snd e) = from_key key A + 1"
    using g [of key] key by (auto simp: ip_get_def)
  have nz: "snd e \<noteq> 0" using n by auto
  have ge: "map_option snd (tfind MHD_ip_addr_compare key (dc_ip_count d)) = Some (snd e)" using e by simp
  let ?gone = "snd e - 1 = 0"
  let ?t = "set_counter MHD_ip_addr_compare key (snd e - 1) (dc_ip_count d)"
  let ?t1 = "if ?gone then tdelete MHD_ip_addr_compare key ?t else ?t"
  note r = ip.table.lower_counter [OF o ge, where gone = ?gone and m = "snd e - 1"]
  have u: "unat (snd e - 1) = from_key key A" using word_down [OF nz] n by simp
  then have gone: "?gone \<longleftrightarrow> from_key key A = 0" by (metis unat_eq_zero)
  have del: "MHD_ip_limit_del addr d = Inr (d\<lparr>dc_ip_count := ?t1\<rparr>)"
    using key lim e nz by (cases e) (simp add: MHD_ip_limit_del_def Let_def)
  have "map_option unat (ip_get k (d\<lparr>dc_ip_count := ?t1\<rparr>)) = (if from_key k A = 0 then None else Some (from_key k A))" for k
    unfolding ip_get_set r(2) using g [of k] gone u key by (auto simp: ip_get_def)
  moreover have "from_key k A \<le> unat (dc_per_ip_limit d)" for k using m [of k] by simp
  ultimately have "ip_ok (d\<lparr>dc_ip_count := ?t1\<rparr>) A" using r(1) unfolding ip_ok_def by simp
  then show ?thesis using del by blast
qed

subsection \<open>The connections of a daemon\<close>

text \<open>The connections that are open, and their addresses.\<close>

definition conn_bag :: "conn_lists \<Rightarrow> nat multiset" where
  "conn_bag d = mset (dc_active d) + mset (dc_suspended d) + mset (dc_cleanup d)"

definition addr_bag :: "conn_lists \<Rightarrow> u8 list multiset" where
  "addr_bag d = image_mset (\<lambda>p. ce_addr (dc_conn d p)) (conn_bag d)"

definition lists_ok :: "conn_lists \<Rightarrow> bool" where
  "lists_ok d = (distinct (dc_active d @ dc_suspended d @ dc_cleanup d) \<and> distinct (dc_normal d) \<and> distinct (dc_manual d) \<and>
     set (dc_normal d) = (if dc_threads d then {} else {p \<in> set (dc_active d). ce_timeout (dc_conn d p) = dc_timeout d}) \<and>
     set (dc_manual d) = (if dc_threads d then {} else {p \<in> set (dc_active d). ce_timeout (dc_conn d p) \<noteq> dc_timeout d}) \<and>
     (\<forall>p\<in>set (dc_active d) \<union> set (dc_cleanup d). \<not> ce_suspended (dc_conn d p)) \<and>
     (\<forall>p\<in>set (dc_suspended d). ce_suspended (dc_conn d p)))"

definition limits_ok :: "conn_lists \<Rightarrow> bool" where
  "limits_ok d = (unat (dc_connections d) = size (conn_bag d) \<and> dc_connections d \<le> dc_connection_limit d \<and> ip_ok d (addr_bag d))"

lemma ip_ok_cong:
  "dc_per_ip_limit d1 = dc_per_ip_limit d \<Longrightarrow> dc_ip_count d1 = dc_ip_count d \<Longrightarrow> ip_ok d1 A = ip_ok d A"
  by (simp add: ip_ok_def ip_get_def)

lemma limits_cong:
  assumes "conn_bag d1 = conn_bag d" "\<And>p. ce_addr (dc_conn d1 p) = ce_addr (dc_conn d p)"
    and "dc_connections d1 = dc_connections d" "dc_connection_limit d1 = dc_connection_limit d"
    and "dc_per_ip_limit d1 = dc_per_ip_limit d" "dc_ip_count d1 = dc_ip_count d"
  shows "limits_ok d1 = limits_ok d"
  using assms ip_ok_cong [OF assms(5,6)] by (simp add: limits_ok_def addr_bag_def)

lemma timeouts_off:
  assumes "lists_ok d" "p \<in> set (dc_active d)"
  shows "(if dc_threads d then Inr d else XDLL_remove p d) =
    Inr (d\<lparr>dc_normal := remove1 p (dc_normal d), dc_manual := remove1 p (dc_manual d)\<rparr>)"
proof (cases "dc_threads d")
  case True
  then show ?thesis using assms by (simp add: lists_ok_def)
next
  case False
  then have "remove1 p (dc_manual d) = dc_manual d" if "ce_timeout (dc_conn d p) = dc_timeout d"
    using assms that by (intro remove1_idem) (simp add: lists_ok_def)
  moreover have "remove1 p (dc_normal d) = dc_normal d" if "ce_timeout (dc_conn d p) \<noteq> dc_timeout d"
    using False assms that by (intro remove1_idem) (simp add: lists_ok_def)
  ultimately show ?thesis using False assms by (simp add: XDLL_remove_def DLL_remove_def lists_ok_def)
qed

lemma bag_move: "p \<in> set xs \<Longrightarrow> mset (remove1 p xs) + add_mset p M = mset xs + M"
  by simp

lemma suspend_ok:
  assumes d: "lists_ok d" "limits_ok d" and p: "p \<in> set (dc_active d)" "dc_may_suspend d"
  shows "\<exists>d1. MHD_suspend_connection p d = Inr d1 \<and> lists_ok d1 \<and> limits_ok d1"
proof -
  let ?d1 = "set_entry p (ce_suspended_update (\<lambda>_. True))
    (d\<lparr>dc_normal := remove1 p (dc_normal d), dc_manual := remove1 p (dc_manual d),
       dc_active := remove1 p (dc_active d), dc_suspended := p # dc_suspended d\<rparr>)"
  have "MHD_suspend_connection p d = Inr ?d1"
    using p by (simp add: MHD_suspend_connection_def timeouts_off [OF d(1) p(1)] DLL_remove_def DLL_insert_def)
  moreover have "lists_ok ?d1" using d(1) p(1) by (auto simp: lists_ok_def set_entry_def)
  moreover have "limits_ok ?d1"
    by (subst limits_cong [OF _ _ _ _ _ _]) (use d p in \<open>simp_all add: set_entry_def conn_bag_def\<close>)
  ultimately show ?thesis by blast
qed

lemma resume_mark_ok:
  assumes "lists_ok d" "limits_ok d" "dc_may_suspend d"
  shows "\<exists>d1. MHD_resume_connection p d = Inr d1 \<and> lists_ok d1 \<and> limits_ok d1"
proof -
  let ?d1 = "(set_entry p (ce_resuming_update (\<lambda>_. True)) d)\<lparr>dc_resuming := True\<rparr>"
  have "MHD_resume_connection p d = Inr ?d1" using assms by (simp add: MHD_resume_connection_def)
  moreover have "lists_ok ?d1" using assms(1) by (auto simp: lists_ok_def set_entry_def)
  moreover have "limits_ok ?d1"
    by (subst limits_cong [OF _ _ _ _ _ _]) (use assms in \<open>simp_all add: set_entry_def conn_bag_def\<close>)
  ultimately show ?thesis by blast
qed

lemma resume_one_ok:
  assumes d: "lists_ok d" "limits_ok d" and p: "p \<in> set (dc_suspended d)"
  shows "\<exists>d1. resume_one p d = Inr d1 \<and> lists_ok d1 \<and> limits_ok d1 \<and> dc_suspended d1 = remove1 p (dc_suspended d)"
proof -
  let ?d0 = "d\<lparr>dc_suspended := remove1 p (dc_suspended d), dc_active := p # dc_active d\<rparr>"
  let ?d1 = "set_entry p (\<lambda>c. c\<lparr>ce_suspended := False, ce_resuming := False\<rparr>) (if dc_threads ?d0 then ?d0 else XDLL_insert p ?d0)"
  have "resume_one p d = Inr ?d1" using p by (simp add: resume_one_def DLL_remove_def DLL_insert_def Let_def)
  moreover have "lists_ok ?d1" using d(1) p by (auto simp: lists_ok_def set_entry_def XDLL_insert_def DLL_insert_def)
  moreover have "limits_ok ?d1"
    by (subst limits_cong [OF _ _ _ _ _ _]) (use d p in \<open>simp_all add: set_entry_def conn_bag_def XDLL_insert_def\<close>)
  ultimately show ?thesis by (auto simp: set_entry_def XDLL_insert_def)
qed

lemma resume_loop_ok:
  "lists_ok d \<Longrightarrow> limits_ok d \<Longrightarrow> set ps \<subseteq> set (dc_suspended d) \<Longrightarrow> distinct ps \<Longrightarrow>
   \<exists>b d1. resume_loop ps d = Inr (b, d1) \<and> lists_ok d1 \<and> limits_ok d1"
proof (induction ps arbitrary: d)
  case (Cons p ps)
  show ?case
  proof (cases "ce_resuming (dc_conn d p)")
    case True
    obtain d1 where d1: "resume_one p d = Inr d1" "lists_ok d1" "limits_ok d1" "dc_suspended d1 = remove1 p (dc_suspended d)"
      using resume_one_ok [OF Cons.prems(1,2)] Cons.prems(3) by auto
    have "set ps \<subseteq> set (dc_suspended d1)"
      using Cons.prems(1,3,4) unfolding d1(4) by (auto simp: lists_ok_def)
    then show ?thesis using Cons.IH [OF d1(2,3)] d1(1) True Cons.prems(4) by fastforce
  next
    case False
    then show ?thesis using Cons.IH [OF Cons.prems(1,2)] Cons.prems(3,4) by simp
  qed
qed (rule exI [of _ False], simp)

lemma resume_all_ok:
  assumes "lists_ok d" "limits_ok d"
  shows "\<exists>b d1. resume_suspended_connections d = Inr (b, d1) \<and> lists_ok d1 \<and> limits_ok d1"
proof -
  let ?d0 = "if dc_suspended d = [] then d else d\<lparr>dc_resuming := False\<rparr>"
  have "lists_ok ?d0" using assms(1) by (cases "dc_suspended d = []") (simp_all add: lists_ok_def)
  moreover have "limits_ok ?d0"
    by (subst limits_cong [OF _ _ _ _ _ _]) (use assms in \<open>simp_all add: conn_bag_def\<close>)
  moreover have "set (dc_suspended d) \<subseteq> set (dc_suspended ?d0)" "distinct (dc_suspended d)" using assms(1) by (simp_all add: lists_ok_def)
  ultimately show ?thesis using assms resume_loop_ok [of ?d0 "dc_suspended d"] by (auto simp: resume_suspended_connections_def)
qed

lemma activity_ok:
  assumes d: "lists_ok d" "limits_ok d" and p: "p \<in> set (dc_active d)"
  shows "\<exists>d1. update_last_activity now p d = Inr d1 \<and> lists_ok d1 \<and> limits_ok d1"
proof -
  let ?d0 = "set_entry p (ce_last_update (\<lambda>_. now)) d"
  have l0: "lists_ok ?d0" using d(1) by (auto simp: lists_ok_def set_entry_def)
  have s0: "limits_ok ?d0"
    by (subst limits_cong [OF _ _ _ _ _ _]) (use d in \<open>simp_all add: conn_bag_def set_entry_def\<close>)
  show ?thesis
  proof (cases "dc_threads ?d0 \<or> ce_timeout (dc_conn ?d0 p) \<noteq> dc_timeout ?d0")
    case True
    then show ?thesis using l0 s0 by (auto simp: update_last_activity_def Let_def)
  next
    case False
    let ?d1 = "?d0\<lparr>dc_normal := remove1 p (dc_normal ?d0), dc_manual := remove1 p (dc_manual ?d0)\<rparr>"
    have "XDLL_remove p ?d0 = Inr ?d1" using timeouts_off [OF l0] False p by (simp add: set_entry_def)
    then have "update_last_activity now p d = Inr (XDLL_insert p ?d1)" using False by (simp add: update_last_activity_def Let_def)
    moreover have "lists_ok (XDLL_insert p ?d1)"
      using l0 False p by (auto simp: lists_ok_def set_entry_def XDLL_insert_def DLL_insert_def)
    moreover have "limits_ok (XDLL_insert p ?d1)"
      by (subst limits_cong [OF _ _ _ _ _ _]) (use d in \<open>simp_all add: conn_bag_def set_entry_def XDLL_insert_def\<close>)
    ultimately show ?thesis by blast
  qed
qed

lemma option_ok:
  assumes d: "lists_ok d" "limits_ok d" and p: "p \<in> set (dc_active d) \<union> set (dc_suspended d)"
  shows "\<exists>d1. MHD_set_connection_option p timeout d = Inr d1 \<and> lists_ok d1 \<and> limits_ok d1"
proof (cases "dc_threads d \<or> ce_suspended (dc_conn d p)")
  case True
  let ?d1 = "set_entry p (ce_timeout_update (\<lambda>_. timeout)) d"
  have "MHD_set_connection_option p timeout d = Inr ?d1" using True by (auto simp: MHD_set_connection_option_def Let_def)
  moreover have "lists_ok ?d1" using d(1) True by (auto simp: lists_ok_def set_entry_def)
  moreover have "limits_ok ?d1"
    by (subst limits_cong [OF _ _ _ _ _ _]) (use d in \<open>simp_all add: conn_bag_def set_entry_def\<close>)
  ultimately show ?thesis by blast
next
  case False
  then have a: "p \<in> set (dc_active d)" using d(1) p by (auto simp: lists_ok_def)
  let ?d0 = "d\<lparr>dc_normal := remove1 p (dc_normal d), dc_manual := remove1 p (dc_manual d)\<rparr>"
  let ?d1 = "XDLL_insert p (set_entry p (ce_timeout_update (\<lambda>_. timeout)) ?d0)"
  have "MHD_set_connection_option p timeout d = Inr ?d1"
    using timeouts_off [OF d(1) a] False by (simp add: MHD_set_connection_option_def Let_def)
  moreover have "lists_ok ?d1" using d(1) a False by (auto simp: lists_ok_def set_entry_def XDLL_insert_def DLL_insert_def)
  moreover have "limits_ok ?d1"
    by (subst limits_cong [OF _ _ _ _ _ _]) (use d in \<open>simp_all add: conn_bag_def set_entry_def XDLL_insert_def\<close>)
  ultimately show ?thesis by blast
qed

lemma cleanup_ok:
  assumes d: "lists_ok d" "limits_ok d" and p: "p \<in> set (dc_active d) \<or> dc_threads d \<and> p \<in> set (dc_suspended d)"
  shows "\<exists>d1. cleanup_connection p d = Inr d1 \<and> lists_ok d1 \<and> limits_ok d1"
proof -
  have off: "(if dc_threads d then Inr d else XDLL_remove p d) =
      Inr (d\<lparr>dc_normal := remove1 p (dc_normal d), dc_manual := remove1 p (dc_manual d)\<rparr>)"
  proof (cases "dc_threads d")
    case True
    then show ?thesis using d(1) by (simp add: lists_ok_def)
  qed (use p timeouts_off [OF d(1), of p] in simp)
  let ?d1 = "set_entry p (\<lambda>c. c\<lparr>ce_suspended := False, ce_resuming := False\<rparr>)
    (d\<lparr>dc_normal := remove1 p (dc_normal d), dc_manual := remove1 p (dc_manual d), dc_active := remove1 p (dc_active d),
       dc_suspended := remove1 p (dc_suspended d), dc_cleanup := p # dc_cleanup d\<rparr>)"
  have "cleanup_connection p d = Inr ?d1"
  proof (cases "p \<in> set (dc_active d)")
    case True
    then have "remove1 p (dc_suspended d) = dc_suspended d" "\<not> ce_suspended (dc_conn d p)"
      using d(1) by (auto simp: lists_ok_def intro!: remove1_idem)
    then show ?thesis using True off by (simp add: cleanup_connection_def DLL_remove_def DLL_insert_def)
  next
    case False
    then have "remove1 p (dc_active d) = dc_active d" "ce_suspended (dc_conn d p)" "p \<in> set (dc_suspended d)"
      using d(1) p by (auto simp: lists_ok_def intro!: remove1_idem)
    then show ?thesis using off by (simp add: cleanup_connection_def DLL_remove_def DLL_insert_def)
  qed
  moreover have "lists_ok ?d1" using d(1) p by (auto simp: lists_ok_def set_entry_def)
  moreover have "limits_ok ?d1"
  proof (subst limits_cong [OF _ _ _ _ _ _])
    show "conn_bag ?d1 = conn_bag d"
    proof (cases "p \<in> set (dc_active d)")
      case True
      then have "p \<notin> set (dc_suspended d)" using d(1) by (auto simp: lists_ok_def)
      then show ?thesis using True by (simp add: conn_bag_def set_entry_def remove1_idem)
    next
      case False
      then show ?thesis using p by (simp add: conn_bag_def set_entry_def remove1_idem)
    qed
  qed (use d in \<open>simp_all add: set_entry_def\<close>)
  ultimately show ?thesis by blast
qed

lemma cleanup_loop_ok:
  "lists_ok d \<Longrightarrow> limits_ok d \<Longrightarrow> dc_cleanup d = ps \<Longrightarrow> \<exists>d1. cleanup_loop ps d = Inr d1 \<and> lists_ok d1 \<and> limits_ok d1"
proof (induction ps arbitrary: d)
  case (Cons p ps)
  let ?d0 = "d\<lparr>dc_cleanup := ps, dc_connections := dc_connections d - 1, dc_at_limit := False\<rparr>"
  have bag: "conn_bag d = add_mset p (conn_bag ?d0)" using Cons.prems(3) by (simp add: conn_bag_def)
  then have addrs: "addr_bag d = add_mset (ce_addr (dc_conn d p)) (addr_bag ?d0)" by (simp add: addr_bag_def)
  have "ip_ok ?d0 (add_mset (ce_addr (dc_conn d p)) (addr_bag ?d0))"
    using Cons.prems(2) addrs by (simp add: limits_ok_def ip_ok_def ip_get_def)
  then obtain t where t: "MHD_ip_limit_del (ce_addr (dc_conn d p)) ?d0 = Inr (?d0\<lparr>dc_ip_count := t\<rparr>)"
    "ip_ok (?d0\<lparr>dc_ip_count := t\<rparr>) (addr_bag ?d0)"
    using limit_del by blast
  let ?d1 = "?d0\<lparr>dc_ip_count := t\<rparr>"
  have "dc_connections d \<noteq> 0" using Cons.prems(2) bag by (auto simp: limits_ok_def)
  then have "unat (dc_connections d - 1) = size (conn_bag ?d0)" "dc_connections d - 1 \<le> dc_connection_limit d"
    using Cons.prems(2) bag word_down [of "dc_connections d"] by (auto simp: limits_ok_def word_le_nat_alt)
  moreover have "conn_bag ?d1 = conn_bag ?d0" "addr_bag ?d1 = addr_bag ?d0" by (simp_all add: conn_bag_def addr_bag_def)
  ultimately have "limits_ok ?d1" using t(2) by (simp add: limits_ok_def)
  moreover have "lists_ok ?d1" using Cons.prems(1,3) by (auto simp: lists_ok_def)
  ultimately show ?case using Cons.IH [of ?d1] t(1) by simp
qed simp

lemma cleanup_loop_empties: "cleanup_loop ps d = Inr d1 \<Longrightarrow> dc_cleanup d = ps \<Longrightarrow> dc_cleanup d1 = []"
proof (induction ps arbitrary: d)
  case (Cons p ps)
  then show ?case
    by (auto simp: rbind_Inr MHD_ip_limit_del_def Let_def split: if_splits option.splits prod.splits)
qed simp

lemma close_ok_one:
  assumes d: "lists_ok d" "limits_ok d" and p: "p \<in> set (dc_active d)" "\<not> dc_threads d"
  shows "\<exists>d1. close_connection p d = Inr d1 \<and> lists_ok d1 \<and> limits_ok d1 \<and> dc_active d1 = remove1 p (dc_active d) \<and>
    dc_suspended d1 = dc_suspended d \<and> dc_threads d1 = dc_threads d \<and> dc_per_ip_limit d1 = dc_per_ip_limit d"
proof -
  let ?d1 = "d\<lparr>dc_normal := remove1 p (dc_normal d), dc_manual := remove1 p (dc_manual d), dc_active := remove1 p (dc_active d),
    dc_cleanup := p # dc_cleanup d\<rparr>"
  have "close_connection p d = Inr ?d1"
    using p timeouts_off [OF d(1) p(1)] by (simp add: close_connection_def DLL_remove_def DLL_insert_def)
  moreover have "lists_ok ?d1" using d(1) p by (auto simp: lists_ok_def)
  moreover have "limits_ok ?d1"
    by (subst limits_cong [OF _ _ _ _ _ _]) (use d p in \<open>simp_all add: conn_bag_def\<close>)
  ultimately show ?thesis by simp
qed

lemma close_loop_ok:
  "lists_ok d \<Longrightarrow> limits_ok d \<Longrightarrow> \<not> dc_threads d \<Longrightarrow> dc_active d = ps \<Longrightarrow>
   \<exists>d1. close_loop ps d = Inr d1 \<and> lists_ok d1 \<and> limits_ok d1 \<and> dc_active d1 = [] \<and> dc_suspended d1 = dc_suspended d \<and>
     dc_per_ip_limit d1 = dc_per_ip_limit d"
proof (induction ps arbitrary: d)
  case (Cons p ps)
  obtain d1 where d1: "close_connection p d = Inr d1" "lists_ok d1" "limits_ok d1" "dc_active d1 = ps"
    "dc_suspended d1 = dc_suspended d" "dc_threads d1 = dc_threads d" "dc_per_ip_limit d1 = dc_per_ip_limit d"
    using close_ok_one [OF Cons.prems(1,2), of p] Cons.prems(3,4) by auto
  then show ?case using Cons.IH [OF d1(2,3) _ d1(4)] Cons.prems(3) by simp
qed simp

text \<open>A connection as it is linked into the lists.\<close>

definition linked :: "nat \<Rightarrow> int \<Rightarrow> u8 list \<Rightarrow> conn_lists \<Rightarrow> conn_lists" where
  "linked p now addr d =
     (let d2 = d\<lparr>dc_conn := (dc_conn d)(p := \<lparr>ce_addr = addr, ce_timeout = dc_timeout d, ce_last = now,
                                           ce_suspended = False, ce_resuming = False\<rparr>)\<rparr>;
          d3 = (if dc_threads d2 then d2 else XDLL_insert p d2)
      in d3\<lparr>dc_active := DLL_insert (dc_active d3) p\<rparr>)"

lemma linked_fields [simp]:
  "dc_ip_count (linked p now addr d) = dc_ip_count d" "dc_connections (linked p now addr d) = dc_connections d"
  "dc_connection_limit (linked p now addr d) = dc_connection_limit d" "dc_per_ip_limit (linked p now addr d) = dc_per_ip_limit d"
  "dc_threads (linked p now addr d) = dc_threads d" "dc_suspended (linked p now addr d) = dc_suspended d"
  "dc_cleanup (linked p now addr d) = dc_cleanup d" "dc_active (linked p now addr d) = p # dc_active d"
  "dc_timeout (linked p now addr d) = dc_timeout d" "dc_manual (linked p now addr d) = dc_manual d"
  "dc_normal (linked p now addr d) = (if dc_threads d then dc_normal d else p # dc_normal d)"
  "dc_conn (linked p now addr d) = (dc_conn d)(p := \<lparr>ce_addr = addr, ce_timeout = dc_timeout d, ce_last = now,
                                                   ce_suspended = False, ce_resuming = False\<rparr>)"
  by (simp_all add: linked_def Let_def XDLL_insert_def DLL_insert_def)

lemma linked_ok:
  assumes "lists_ok d" "p \<notin># conn_bag d"
  shows "lists_ok (linked p now addr d)" "conn_bag (linked p now addr d) = add_mset p (conn_bag d)"
    "addr_bag (linked p now addr d) = add_mset addr (addr_bag d)"
proof -
  have out: "p \<notin> set (dc_active d)" "p \<notin> set (dc_suspended d)" "p \<notin> set (dc_cleanup d)" using assms(2) by (simp_all add: conn_bag_def)
  show "lists_ok (linked p now addr d)" using assms(1) out unfolding lists_ok_def by auto
  show b: "conn_bag (linked p now addr d) = add_mset p (conn_bag d)" by (simp add: conn_bag_def)
  have "q \<noteq> p" if "q \<in># conn_bag d" for q using that assms(2) by auto
  then show "addr_bag (linked p now addr d) = add_mset addr (addr_bag d)"
    unfolding addr_bag_def b by (auto intro!: image_mset_cong)
qed

lemma add_run:
  assumes "ae_fits env" "dc_connections d \<noteq> dc_connection_limit d" "ae_policy env" "ae_memory env"
    and "MHD_ip_limit_add addr d = (True, d1)"
  shows "internal_add_connection p now addr env d =
      (let l = linked p now addr d1 in
       if ae_started env then Inr (True, l\<lparr>dc_connections := dc_connections l + 1\<rparr>)
       else rbind (MHD_ip_limit_del addr l) (\<lambda>d5.
            rbind (if dc_threads d5 then Inr d5 else XDLL_remove p d5) (\<lambda>d6.
            rbind (DLL_remove (dc_active d6) p) (\<lambda>xs. Inr (False, d6\<lparr>dc_active := xs\<rparr>)))))"
  using assms by (simp add: internal_add_connection_def linked_def Let_def)

lemma add_made:
  assumes d: "lists_ok d" "limits_ok d" and p: "p \<notin># conn_bag d" and full: "ae_fits env" "dc_connections d \<noteq> dc_connection_limit d"
    and made: "ae_policy env" "ae_memory env"
    and a: "MHD_ip_limit_add addr d = (True, d1)" and t: "d1 = d\<lparr>dc_ip_count := t\<rparr>" "ip_ok d1 (add_mset addr (addr_bag d))"
  shows "\<exists>b d2. internal_add_connection p now addr env d = Inr (b, d2) \<and> lists_ok d2 \<and> limits_ok d2 \<and>
    conn_bag d2 = (if b then add_mset p (conn_bag d) else conn_bag d)"
proof -
  have out: "p \<notin> set (dc_active d)" "p \<notin> set (dc_suspended d)" "p \<notin> set (dc_cleanup d)" using p by (simp_all add: conn_bag_def)
  have same: "conn_bag (d\<lparr>dc_ip_count := u\<rparr>) = conn_bag d" "addr_bag (d\<lparr>dc_ip_count := u\<rparr>) = addr_bag d" for u
    by (simp_all add: conn_bag_def addr_bag_def)
  let ?l = "linked p now addr d1"
  have l1: "lists_ok d1" "p \<notin># conn_bag d1" using d(1) p same [of t] t(1) by (simp_all add: lists_ok_def)
  note l = linked_ok [OF l1, of now addr]
  have lip: "ip_ok ?l (add_mset addr (addr_bag d))" using t ip_ok_cong [of ?l d1] by simp
  note run = add_run [OF full made a, of p now, unfolded Let_def]
  show ?thesis
  proof (cases "ae_started env")
    case True
    let ?r = "?l\<lparr>dc_connections := dc_connections ?l + 1\<rparr>"
    have c: "dc_connections d < dc_connection_limit d" using d(2) full by (auto simp: limits_ok_def intro: le_neq_trans)
    then have "unat (dc_connections d + 1) = unat (dc_connections d) + 1" "dc_connections d + 1 \<le> dc_connection_limit d"
      using word_up [OF c] by (simp_all add: word_le_nat_alt word_less_nat_alt)
    moreover have "conn_bag ?r = conn_bag ?l" "addr_bag ?r = addr_bag ?l" "ip_ok ?r A = ip_ok ?l A" for A
      by (simp_all add: conn_bag_def addr_bag_def ip_ok_def ip_get_def)
    ultimately have "limits_ok ?r" using d(2) lip l(2,3) same [of t] t(1) by (simp add: limits_ok_def)
    moreover have "lists_ok ?r" using l(1) by (simp add: lists_ok_def)
    moreover have "conn_bag ?r = add_mset p (conn_bag d)" using l(2) same [of t] t(1) by (simp add: conn_bag_def)
    ultimately show ?thesis using run True by auto
  next
    case failed: False
    obtain v where v: "MHD_ip_limit_del addr ?l = Inr (?l\<lparr>dc_ip_count := v\<rparr>)" "ip_ok (?l\<lparr>dc_ip_count := v\<rparr>) (addr_bag d)"
      using limit_del [OF lip] by blast
    let ?d5 = "?l\<lparr>dc_ip_count := v\<rparr>"
    let ?r = "?d5\<lparr>dc_normal := remove1 p (dc_normal ?d5), dc_manual := remove1 p (dc_manual ?d5), dc_active := dc_active d\<rparr>"
    have l5: "lists_ok ?d5" using l(1) by (simp add: lists_ok_def)
    have off: "(if dc_threads ?d5 then Inr ?d5 else XDLL_remove p ?d5) =
        Inr (?d5\<lparr>dc_normal := remove1 p (dc_normal ?d5), dc_manual := remove1 p (dc_manual ?d5)\<rparr>)"
      by (rule timeouts_off [OF l5]) simp
    have "internal_add_connection p now addr env d = Inr (False, ?r)"
      unfolding run if_not_P [OF failed] v(1) rbind.simps off by (simp add: DLL_remove_def t(1))
    moreover have "lists_ok ?r" using d(1) out t(1) by (cases "dc_threads d") (auto simp: lists_ok_def remove1_idem)
    moreover have bag: "conn_bag ?r = conn_bag d" using t(1) by (simp add: conn_bag_def)
    moreover have "limits_ok ?r"
    proof -
      have "q \<noteq> p" if "q \<in># conn_bag d" for q using that p by auto
      then have "addr_bag ?r = addr_bag d" unfolding addr_bag_def bag using t(1) by (auto intro!: image_mset_cong)
      then show ?thesis using d(2) bag v(2) t(1) by (simp add: limits_ok_def ip_ok_def ip_get_def)
    qed
    ultimately show ?thesis by (intro exI [of _ False] exI [of _ ?r] conjI) (simp_all only: if_False)
  qed
qed

lemma add_ok:
  assumes d: "lists_ok d" "limits_ok d" and p: "p \<notin># conn_bag d"
  shows "\<exists>b d1. internal_add_connection p now addr env d = Inr (b, d1) \<and> lists_ok d1 \<and> limits_ok d1 \<and>
    conn_bag d1 = (if b then add_mset p (conn_bag d) else conn_bag d)"
proof (cases "\<not> ae_fits env \<or> dc_connections d = dc_connection_limit d")
  case True
  then show ?thesis using d by (intro exI [of _ False] exI [of _ d]) (auto simp: internal_add_connection_def)
next
  case False
  obtain b d1 where a: "MHD_ip_limit_add addr d = (b, d1)" by fastforce
  obtain t where t: "d1 = d\<lparr>dc_ip_count := t\<rparr>" "ip_ok d1 (if b then add_mset addr (addr_bag d) else addr_bag d)"
    using limit_add [OF _ a] d(2) unfolding limits_ok_def by blast
  have same: "conn_bag (d\<lparr>dc_ip_count := u\<rparr>) = conn_bag d" "addr_bag (d\<lparr>dc_ip_count := u\<rparr>) = addr_bag d" for u
    by (simp_all add: conn_bag_def addr_bag_def)
  have keep: "lists_ok (d\<lparr>dc_ip_count := u\<rparr>) \<and> limits_ok (d\<lparr>dc_ip_count := u\<rparr>)"
    if u: "ip_ok (d\<lparr>dc_ip_count := u\<rparr>) (addr_bag d)" for u
    using d u same [of u] by (simp add: lists_ok_def limits_ok_def)
  show ?thesis
  proof (cases b)
    case no: False
    have "internal_add_connection p now addr env d = Inr (False, d1)" using False a no by (simp add: internal_add_connection_def)
    then show ?thesis using keep [of t] t no same [of t] by auto
  next
    case yes: True
    obtain u where u: "MHD_ip_limit_del addr d1 = Inr (d\<lparr>dc_ip_count := u\<rparr>)" "ip_ok (d\<lparr>dc_ip_count := u\<rparr>) (addr_bag d)"
      using limit_del [of d1 addr "addr_bag d"] t yes by auto
    show ?thesis
    proof (cases "\<not> ae_policy env \<or> \<not> ae_memory env")
      case True
      then have "internal_add_connection p now addr env d = Inr (False, d\<lparr>dc_ip_count := u\<rparr>)"
        using False a yes u(1) by (auto simp: internal_add_connection_def)
      then show ?thesis using keep [OF u(2)] same [of u] by auto
    next
      case made: False
      then show ?thesis using add_made [OF d p _ _ _ _ _ t(1)] False a t(2) yes by auto
    qed
  qed
qed

subsection \<open>A daemon at work\<close>

text \<open>
  What can happen to the connections of a daemon: one comes in, one is read from or written to, the application suspends or
  resumes one or gives it a timeout of its own, the event loop takes the resumed ones back, one dies (its idle function ends
  in \<open>cleanup_connection\<close>), the dead ones are freed.
\<close>

datatype daemon_event =
  New_conn nat int "u8 list" accept_env
| Activity int nat
| Suspend nat
| Resume nat
| Take_back
| Died nat
| Clean_up
| Set_timeout nat u32

fun handle_event :: "daemon_event \<Rightarrow> conn_lists \<Rightarrow> conn_lists res" where
  "handle_event (New_conn p now addr env) d = rbind (internal_add_connection p now addr env d) (\<lambda>(_, d1). Inr d1)"
| "handle_event (Activity now p) d = update_last_activity now p d"
| "handle_event (Suspend p) d = MHD_suspend_connection p d"
| "handle_event (Resume p) d = MHD_resume_connection p d"
| "handle_event Take_back d = rbind (resume_suspended_connections d) (\<lambda>(_, d1). Inr d1)"
| "handle_event (Died p) d = cleanup_connection p d"
| "handle_event Clean_up d = MHD_cleanup_connections d"
| "handle_event (Set_timeout p timeout) d = MHD_set_connection_option p timeout d"

text \<open>The rules of the interface: memory that is in use is not handed out again, only connections that are open are touched.\<close>

fun event_ok :: "daemon_event \<Rightarrow> conn_lists \<Rightarrow> bool" where
  "event_ok (New_conn p now addr env) d = (p \<notin> set (dc_active d @ dc_suspended d @ dc_cleanup d))"
| "event_ok (Activity now p) d = (p \<in> set (dc_active d))"
| "event_ok (Suspend p) d = (dc_may_suspend d \<and> p \<in> set (dc_active d))"
| "event_ok (Resume p) d = (dc_may_suspend d \<and> p \<in> set (dc_suspended d))"
| "event_ok (Died p) d = (p \<in> set (dc_active d) \<or> dc_threads d \<and> p \<in> set (dc_suspended d))"
| "event_ok (Set_timeout p timeout) d = (p \<in> set (dc_active d) \<union> set (dc_suspended d))"
| "event_ok _ d = True"

fun run_events :: "daemon_event list \<Rightarrow> conn_lists \<Rightarrow> conn_lists res" where
  "run_events [] d = Inr d"
| "run_events (ev # evs) d = rbind (handle_event ev d) (run_events evs)"

fun events_ok :: "daemon_event list \<Rightarrow> conn_lists \<Rightarrow> bool" where
  "events_ok [] d = True"
| "events_ok (ev # evs) d = (event_ok ev d \<and> (case handle_event ev d of Inl e \<Rightarrow> True | Inr d1 \<Rightarrow> events_ok evs d1))"

definition daemon_started :: "conn_lists \<Rightarrow> bool" where
  "daemon_started d = (dc_connections d = 0 \<and> dc_ip_count d = Leaf \<and> dc_active d = [] \<and> dc_suspended d = [] \<and>
     dc_cleanup d = [] \<and> dc_normal d = [] \<and> dc_manual d = [])"

lemma started_ok: "daemon_started d \<Longrightarrow> lists_ok d \<and> limits_ok d"
  by (simp add: daemon_started_def lists_ok_def limits_ok_def ip_ok_def ip_get_def conn_bag_def addr_bag_def from_key_def)

lemma event_keeps:
  assumes d: "lists_ok d" "limits_ok d" and e: "event_ok ev d"
  shows "\<exists>d1. handle_event ev d = Inr d1 \<and> lists_ok d1 \<and> limits_ok d1"
proof (cases ev)
  case (New_conn p now addr env)
  then have "p \<notin># conn_bag d" using e by (simp add: conn_bag_def)
  then show ?thesis using add_ok [OF d, of p now addr env] New_conn by auto
next
  case Take_back
  then show ?thesis using resume_all_ok [OF d] by auto
next
  case Clean_up
  then show ?thesis using cleanup_loop_ok [OF d refl] by (simp add: MHD_cleanup_connections_def)
next
  case (Suspend p)
  then show ?thesis using suspend_ok [OF d, of p] e by simp
next
  case (Died p)
  then show ?thesis using cleanup_ok [OF d, of p] e by simp
qed (use d e activity_ok resume_mark_ok option_ok in simp_all)

text \<open>What the start of the daemon has set for good.\<close>

definition config :: "conn_lists \<Rightarrow> bool \<times> bool \<times> u32 \<times> u32 \<times> u32" where
  "config d = (dc_threads d, dc_may_suspend d, dc_timeout d, dc_connection_limit d, dc_per_ip_limit d)"

lemma config_list:
  "config (set_entry p f d) = config d" "config (XDLL_insert p d) = config d"
  "XDLL_remove p d = Inr d1 \<Longrightarrow> config d1 = config d" "MHD_ip_limit_add addr d = (b, d1) \<Longrightarrow> config d1 = config d"
  "MHD_ip_limit_del addr d = Inr d1 \<Longrightarrow> config d1 = config d"
  by (auto simp: config_def set_entry_def XDLL_insert_def XDLL_remove_def MHD_ip_limit_add_def MHD_ip_limit_del_def Let_def rbind_Inr
      split: if_splits option.splits prod.splits)

lemma config_fields:
  "config (d\<lparr>dc_conn := a\<rparr>) = config d" "config (d\<lparr>dc_connections := b\<rparr>) = config d" "config (d\<lparr>dc_active := e\<rparr>) = config d"
  "config (d\<lparr>dc_suspended := e\<rparr>) = config d" "config (d\<lparr>dc_cleanup := e\<rparr>) = config d" "config (d\<lparr>dc_at_limit := f\<rparr>) = config d"
  "config (d\<lparr>dc_resuming := f\<rparr>) = config d"
  by (simp_all add: config_def)

lemma resume_config: "resume_loop ps d = Inr (b, d1) \<Longrightarrow> config d1 = config d"
proof (induction ps arbitrary: d b)
  case (Cons p ps)
  have one: "config d2 = config d" if "resume_one p d = Inr d2" for d2
    using that by (auto simp: resume_one_def Let_def rbind_Inr config_list config_fields)
  show ?case
  proof (cases "ce_resuming (dc_conn d p)")
    case True
    then show ?thesis using Cons.prems Cons.IH one by (auto simp: rbind_Inr)
  next
    case False
    then show ?thesis using Cons by simp
  qed
qed simp

lemma cleanup_config: "cleanup_loop ps d = Inr d1 \<Longrightarrow> config d1 = config d"
  by (induction ps arbitrary: d) (auto simp: rbind_Inr config_fields dest!: config_list(5))

lemma event_config:
  assumes "handle_event ev d = Inr d1"
  shows "config d1 = config d"
proof (cases ev)
  case (New_conn p now addr env)
  then show ?thesis using assms
    by (auto simp: internal_add_connection_def Let_def rbind_Inr config_fields config_list dest!: config_list(3-5)
        split: if_splits prod.splits bool.splits)
next
  case Take_back
  then show ?thesis using assms
    by (auto simp: resume_suspended_connections_def rbind_Inr config_fields dest!: resume_config split: if_splits)
next
  case Clean_up
  then show ?thesis using assms by (auto simp: MHD_cleanup_connections_def dest: cleanup_config)
next
  case (Died p)
  then show ?thesis using assms
    by (auto simp: cleanup_connection_def rbind_Inr config_fields config_list split: if_splits dest!: config_list(3))
qed (use assms in \<open>auto simp: update_last_activity_def MHD_suspend_connection_def MHD_resume_connection_def
  MHD_set_connection_option_def Let_def rbind_Inr config_fields config_list split: if_splits dest!: config_list(3)\<close>)

lemma run_keeps:
  "lists_ok d \<Longrightarrow> limits_ok d \<Longrightarrow> events_ok evs d \<Longrightarrow>
   \<exists>d1. run_events evs d = Inr d1 \<and> lists_ok d1 \<and> limits_ok d1 \<and> config d1 = config d"
proof (induction evs arbitrary: d)
  case (Cons ev evs)
  obtain d1 where d1: "handle_event ev d = Inr d1" "lists_ok d1" "limits_ok d1"
    using event_keeps [OF Cons.prems(1,2)] Cons.prems(3) by auto
  moreover have "events_ok evs d1" using Cons.prems(3) d1(1) by simp
  ultimately show ?case using Cons.IH event_config [OF d1(1)] by fastforce
qed simp

lemma limits_empty:
  assumes "limits_ok d" "conn_bag d = {#}"
  shows "dc_connections d = 0" "dc_per_ip_limit d \<noteq> 0 \<Longrightarrow> dc_ip_count d = Leaf"
proof -
  show "dc_connections d = 0" using assms by (simp add: limits_ok_def unat_eq_zero)
  assume lim: "dc_per_ip_limit d \<noteq> 0"
  have "addr_bag d = {#}" using assms(2) by (simp add: addr_bag_def)
  then have "ip_get k d = None" for k using assms(1) lim by (simp add: limits_ok_def ip_ok_def from_key_def)
  moreover have "ip_get (fst e) d = Some (snd e)" if "dc_ip_count d = Node l e r" for l e r
    using that by (simp add: ip_get_def ip.same)
  ultimately show "dc_ip_count d = Leaf" by (cases "dc_ip_count d") auto
qed


definition example_lists :: conn_lists where
  "example_lists = \<lparr>dc_conn = (\<lambda>_. \<lparr>ce_addr = [], ce_timeout = 0, ce_last = 0, ce_suspended = False, ce_resuming = False\<rparr>),
     dc_threads = False, dc_may_suspend = False, dc_timeout = 10, dc_connections = 0, dc_connection_limit = 5, dc_per_ip_limit = 1,
     dc_ip_count = Leaf, dc_at_limit = False, dc_resuming = False, dc_active = [], dc_suspended = [], dc_cleanup = [],
     dc_normal = [], dc_manual = []\<rparr>"

definition good_accept :: accept_env where
  "good_accept = \<lparr>ae_fits = True, ae_policy = True, ae_memory = True, ae_started = True\<rparr>"

definition example_addr :: "u8 \<Rightarrow> u8 list" where
  "example_addr n = [2, 0, 0, 80, 192, 168, 0, n, 0, 0, 0, 0, 0, 0, 0, 0]"

definition example_events :: "daemon_event list" where
  "example_events = [New_conn 1 5 (example_addr 7) good_accept, New_conn 2 6 (example_addr 7) good_accept,
     New_conn 3 8 (example_addr 9) good_accept, Activity 9 1]"

lemma example_keys:
  "MHD_ip_addr_to_key (example_addr n) = Some (Ip_key AF_INET ([192, 168, 0, n] @ replicate 12 0))"
  by (simp add: MHD_ip_addr_to_key_def example_addr_def)

definition example_key :: "u8 \<Rightarrow> ip_key" where
  "example_key n = Ip_key AF_INET ([192, 168, 0, n] @ replicate 12 0)"

lemma example_compare: "MHD_ip_addr_compare (example_key m) (example_key n) = (if m = n then 0 else if m < n then -1 else 1)"
  by (simp add: MHD_ip_addr_compare_def example_key_def memcmp_zero)

lemmas example_steps = example_lists_def example_events_def good_accept_def internal_add_connection_def MHD_ip_limit_add_def
  example_keys [folded example_key_def] example_compare XDLL_insert_def XDLL_remove_def DLL_insert_def DLL_remove_def
  update_last_activity_def set_entry_def Let_def

lemma example_events_ok: "daemon_started example_lists" "events_ok example_events example_lists"
  "\<exists>d. run_events example_events example_lists = Inr d \<and> dc_active d = [3, 1] \<and> dc_normal d = [1, 3] \<and> dc_suspended d = [] \<and>
    MHD_get_timeout 10 d = Some 9000 \<and> deadline d 3 = 18"
  by (simp add: daemon_started_def example_lists_def, simp add: example_steps,
      simp add: example_steps MHD_get_timeout_def deadline_def)


subsection \<open>How long the event loop waits\<close>

text \<open>
  The histories in which the list of default timeouts stays in order: connections come, are used and die, and the clock does
  not go back.
\<close>

fun steady :: "int \<Rightarrow> daemon_event list \<Rightarrow> bool" where
  "steady t [] = True"
| "steady t (New_conn p now addr env # evs) = (t \<le> now \<and> steady now evs)"
| "steady t (Activity now p # evs) = (t \<le> now \<and> steady now evs)"
| "steady t (Died p # evs) = steady t evs"
| "steady t (Clean_up # evs) = steady t evs"
| "steady t (_ # evs) = False"

definition newest_first :: "int \<Rightarrow> conn_lists \<Rightarrow> bool" where
  "newest_first t d = (dc_manual d = [] \<and> dc_suspended d = [] \<and>
     (\<forall>p\<in>set (dc_active d). ce_timeout (dc_conn d p) = dc_timeout d \<and> ce_last (dc_conn d p) \<le> t) \<and>
     sorted_wrt (\<lambda>p q. ce_last (dc_conn d q) \<le> ce_last (dc_conn d p)) (dc_normal d))"

lemma sorted_wrt_remove1: "sorted_wrt P xs \<Longrightarrow> sorted_wrt P (remove1 x xs)"
  by (induction xs) (auto dest: notin_set_remove1 [of _ _ x])

lemma sorted_wrt_same:
  "sorted_wrt P xs \<Longrightarrow> (\<And>x y. x \<in> set xs \<Longrightarrow> y \<in> set xs \<Longrightarrow> P x y \<Longrightarrow> Q x y) \<Longrightarrow> sorted_wrt Q xs"
  by (induction xs) auto

text \<open>Taking out a connection keeps the order of the others.\<close>

lemma remove1_newest:
  assumes "sorted_wrt (\<lambda>p q. ce_last (f q) \<le> ce_last (f p)) xs" "\<And>q. q \<in> set (remove1 p xs) \<Longrightarrow> ce_last (g q) = ce_last (f q)"
  shows "sorted_wrt (\<lambda>p q. ce_last (g q) \<le> ce_last (g p)) (remove1 p xs)"
  using sorted_wrt_remove1 [OF assms(1), of p] by (rule sorted_wrt_same) (simp add: assms(2))

lemma limit_frame:
  "MHD_ip_limit_add addr d = (b, d1) \<Longrightarrow> \<exists>t. d1 = d\<lparr>dc_ip_count := t\<rparr>"
  "MHD_ip_limit_del addr d = Inr d1 \<Longrightarrow> \<exists>t. d1 = d\<lparr>dc_ip_count := t\<rparr>"
proof -
  have same: "\<exists>t. d = d\<lparr>dc_ip_count := t\<rparr>" by (rule exI [of _ "dc_ip_count d"]) simp
  show "MHD_ip_limit_add addr d = (b, d1) \<Longrightarrow> \<exists>t. d1 = d\<lparr>dc_ip_count := t\<rparr>"
    using same by (auto simp: MHD_ip_limit_add_def Let_def split: if_splits option.splits prod.splits)
  show "MHD_ip_limit_del addr d = Inr d1 \<Longrightarrow> \<exists>t. d1 = d\<lparr>dc_ip_count := t\<rparr>"
    using same by (auto simp: MHD_ip_limit_del_def Let_def split: if_splits option.splits prod.splits)
qed

lemma add_result:
  assumes "internal_add_connection p now addr env d = Inr (b, d1)" "\<not> dc_threads d"
  shows "dc_conn d1 = dc_conn d \<or> dc_conn d1 = (dc_conn d)(p := \<lparr>ce_addr = addr, ce_timeout = dc_timeout d, ce_last = now,
                                                         ce_suspended = False, ce_resuming = False\<rparr>)"
    and "dc_normal d1 = dc_normal d \<and> dc_active d1 = dc_active d \<or>
         dc_conn d1 p = \<lparr>ce_addr = addr, ce_timeout = dc_timeout d, ce_last = now, ce_suspended = False, ce_resuming = False\<rparr> \<and>
         dc_normal d1 = p # dc_normal d \<and> dc_active d1 = p # dc_active d"
    and "dc_manual d1 = dc_manual d \<and> dc_suspended d1 = dc_suspended d"
proof -
  let ?e = "\<lparr>ce_addr = addr, ce_timeout = dc_timeout d, ce_last = now, ce_suspended = False, ce_resuming = False\<rparr>"
  obtain ok e where a: "MHD_ip_limit_add addr d = (ok, e)" by fastforce
  obtain u where u: "e = d\<lparr>dc_ip_count := u\<rparr>" using limit_frame(1) [OF a] by blast
  let ?made = "ae_fits env \<and> dc_connections d \<noteq> dc_connection_limit d \<and> ok \<and> ae_policy env \<and> ae_memory env"
  have "(dc_conn d1 = dc_conn d \<or> dc_conn d1 = (dc_conn d)(p := ?e)) \<and>
      (dc_normal d1 = dc_normal d \<and> dc_active d1 = dc_active d \<or>
       dc_conn d1 p = ?e \<and> dc_normal d1 = p # dc_normal d \<and> dc_active d1 = p # dc_active d) \<and>
      dc_manual d1 = dc_manual d \<and> dc_suspended d1 = dc_suspended d"
  proof (cases ?made)
    case True
    let ?l = "linked p now addr e"
    have run: "internal_add_connection p now addr env d =
      (if ae_started env then Inr (True, ?l\<lparr>dc_connections := dc_connections ?l + 1\<rparr>)
       else rbind (MHD_ip_limit_del addr ?l) (\<lambda>d5.
            rbind (if dc_threads d5 then Inr d5 else XDLL_remove p d5) (\<lambda>d6.
            rbind (DLL_remove (dc_active d6) p) (\<lambda>xs. Inr (False, d6\<lparr>dc_active := xs\<rparr>)))))"
      using add_run [of env d addr e p now] True a by (simp add: Let_def)
    show ?thesis
    proof (cases "ae_started env")
      case True
      then show ?thesis using assms run u by auto
    next
      case False
      then obtain v where "MHD_ip_limit_del addr ?l = Inr (?l\<lparr>dc_ip_count := v\<rparr>)"
        using assms(1) run by (auto simp: rbind_Inr dest: limit_frame(2))
      then show ?thesis using assms run u False by (auto simp: XDLL_remove_def DLL_remove_def rbind_Inr split: if_splits)
    qed
  next
    case False
    then have "\<exists>v. d1 = d\<lparr>dc_ip_count := v\<rparr>"
      using assms(1) a u by (cases ok) (auto simp: internal_add_connection_def rbind_Inr intro: exI [of _ "dc_ip_count d"]
        dest!: limit_frame(2) split: if_splits)
    then show ?thesis by auto
  qed
  then show "dc_conn d1 = dc_conn d \<or> dc_conn d1 = (dc_conn d)(p := ?e)"
    and "dc_normal d1 = dc_normal d \<and> dc_active d1 = dc_active d \<or>
      dc_conn d1 p = ?e \<and> dc_normal d1 = p # dc_normal d \<and> dc_active d1 = p # dc_active d"
    and "dc_manual d1 = dc_manual d \<and> dc_suspended d1 = dc_suspended d"
    by blast+
qed

lemma cleanup_lists:
  "cleanup_loop ps d = Inr d1 \<Longrightarrow> dc_conn d1 = dc_conn d \<and> dc_active d1 = dc_active d \<and> dc_normal d1 = dc_normal d \<and>
    dc_manual d1 = dc_manual d \<and> dc_suspended d1 = dc_suspended d"
  by (induction ps arbitrary: d) (auto simp: rbind_Inr dest!: limit_frame(2))

lemma event_newest:
  assumes d: "lists_ok d" "newest_first t d" "\<not> dc_threads d" and ev: "event_ok ev d" "handle_event ev d = Inr d1"
    and s: "steady t (ev # evs)"
  shows "\<exists>t1. steady t1 evs \<and> newest_first t1 d1"
proof (cases ev)
  case (New_conn p now addr env)
  obtain b where add: "internal_add_connection p now addr env d = Inr (b, d1)" using ev(2) New_conn by (auto simp: rbind_Inr)
  have p: "p \<notin> set (dc_active d)" "p \<notin> set (dc_normal d)" using ev(1) New_conn d(1,3) by (auto simp: lists_ok_def)
  have c: "dc_timeout d1 = dc_timeout d" using event_config [OF ev(2)] by (simp add: config_def)
  have t: "t \<le> now" "steady now evs" using s New_conn by simp_all
  have o: "\<forall>q\<in>set (dc_active d). ce_timeout (dc_conn d q) = dc_timeout d \<and> ce_last (dc_conn d q) \<le> now"
    "set (dc_normal d) \<subseteq> set (dc_active d)"
    using d t(1) by (auto simp: newest_first_def lists_ok_def)
  have same: "dc_conn d1 q = dc_conn d q" if "q \<noteq> p" for q using add_result(1) [OF add d(3)] that by auto
  have sn: "dc_conn d1 q = dc_conn d q" if "q \<in> set (dc_normal d)" for q using same p(2) that by metis
  have "sorted_wrt (\<lambda>p q. ce_last (dc_conn d1 q) \<le> ce_last (dc_conn d1 p)) (dc_normal d)"
    using d(2) sn by (auto simp: newest_first_def elim!: sorted_wrt_same)
  moreover have "\<forall>q\<in>set (dc_active d). ce_timeout (dc_conn d1 q) = dc_timeout d1 \<and> ce_last (dc_conn d1 q) \<le> now"
    using o(1) same p(1) c by metis
  moreover have "\<forall>q\<in>set (dc_normal d). ce_last (dc_conn d1 q) \<le> now" using calculation(2) o(2) by blast
  ultimately have "newest_first now d1"
    using add_result(2,3) [OF add d(3)] d(2) o(2) c unfolding newest_first_def by auto
  then show ?thesis using t New_conn by auto
next
  case (Activity now p)
  have t: "t \<le> now" "steady now evs" using s Activity by simp_all
  have p: "p \<in> set (dc_active d)" using ev(1) Activity by simp
  have e: "ce_timeout (dc_conn d p) = dc_timeout d" using d(2) p by (simp add: newest_first_def)
  then have n: "p \<in> set (dc_normal d)" using d(1,3) p by (simp add: lists_ok_def)
  have d1: "d1 = d\<lparr>dc_conn := (dc_conn d)(p := (dc_conn d p)\<lparr>ce_last := now\<rparr>), dc_normal := p # remove1 p (dc_normal d)\<rparr>"
    using ev(2) Activity e n d(3)
    by (auto simp: update_last_activity_def set_entry_def Let_def XDLL_remove_def XDLL_insert_def DLL_remove_def DLL_insert_def)
  have "sorted_wrt (\<lambda>x q. ce_last (dc_conn d1 q) \<le> ce_last (dc_conn d1 x)) (remove1 p (dc_normal d))"
    by (rule remove1_newest [of "dc_conn d"]) (use d(1,2) d1 in \<open>auto simp: newest_first_def lists_ok_def\<close>)
  moreover have "ce_last (dc_conn d1 q) \<le> now \<and> ce_timeout (dc_conn d1 q) = dc_timeout d" if "q \<in> set (dc_active d)" for q
  proof -
    have "ce_last (dc_conn d q) \<le> t \<and> ce_timeout (dc_conn d q) = dc_timeout d" using that d(2) by (simp add: newest_first_def)
    then show ?thesis using t(1) e by (simp add: d1)
  qed
  moreover have "set (remove1 p (dc_normal d)) \<subseteq> set (dc_active d)"
    using d(1,3) set_remove1_subset [of p "dc_normal d"] by (auto simp: lists_ok_def)
  moreover have f: "dc_manual d1 = []" "dc_suspended d1 = []" "dc_active d1 = dc_active d" "dc_timeout d1 = dc_timeout d"
    "dc_normal d1 = p # remove1 p (dc_normal d)" "ce_last (dc_conn d1 p) = now"
    using d(2) by (simp_all add: newest_first_def d1)
  ultimately have "newest_first now d1" unfolding newest_first_def f sorted_wrt.simps by blast
  then show ?thesis using t Activity by auto
next
  case (Died p)
  then have t: "steady t evs" "p \<in> set (dc_active d)" using s ev(1) d(2) by (auto simp: newest_first_def)
  then have n: "p \<in> set (dc_normal d)" "\<not> ce_suspended (dc_conn d p)" "ce_timeout (dc_conn d p) = dc_timeout d"
    using d by (auto simp: lists_ok_def newest_first_def)
  have d1: "d1 = set_entry p (\<lambda>c. c\<lparr>ce_suspended := False, ce_resuming := False\<rparr>)
      (d\<lparr>dc_normal := remove1 p (dc_normal d), dc_active := remove1 p (dc_active d), dc_cleanup := p # dc_cleanup d\<rparr>)"
    using ev(2) Died t(2) n d(3) by (simp add: cleanup_connection_def XDLL_remove_def DLL_remove_def DLL_insert_def)
  have "sorted_wrt (\<lambda>x q. ce_last (dc_conn d1 q) \<le> ce_last (dc_conn d1 x)) (remove1 p (dc_normal d))"
    by (rule remove1_newest [of "dc_conn d"]) (use d(2) d1 in \<open>auto simp: newest_first_def set_entry_def\<close>)
  then have "newest_first t d1" using d(2) unfolding newest_first_def d1 set_entry_def by (auto dest: notin_set_remove1)
  then show ?thesis using t Died by auto
next
  case Clean_up
  then show ?thesis using cleanup_lists [of "dc_cleanup d" d d1] event_config [OF ev(2)] ev(2) s d(2)
    by (auto simp: newest_first_def MHD_cleanup_connections_def config_def)
qed (use s in simp_all)

lemma run_newest:
  "lists_ok d \<Longrightarrow> limits_ok d \<Longrightarrow> newest_first t d \<Longrightarrow> \<not> dc_threads d \<Longrightarrow> events_ok evs d \<Longrightarrow> steady t evs \<Longrightarrow>
   run_events evs d = Inr d1 \<Longrightarrow> lists_ok d1 \<and> config d1 = config d \<and> (\<exists>t1. newest_first t1 d1)"
proof (induction evs arbitrary: d t)
  case (Cons ev evs)
  obtain d2 where d2: "handle_event ev d = Inr d2" "run_events evs d2 = Inr d1" using Cons.prems(7) by (auto simp: rbind_Inr)
  have e: "event_ok ev d" "events_ok evs d2" using Cons.prems(5) d2(1) by simp_all
  have ok: "lists_ok d2" "limits_ok d2" using event_keeps [OF Cons.prems(1,2) e(1)] d2(1) by auto
  have c: "config d2 = config d" by (rule event_config [OF d2(1)])
  obtain t1 where t1: "steady t1 evs" "newest_first t1 d2" using event_newest [OF Cons.prems(1,3,4) e(1) d2(1) Cons.prems(6)] by blast
  have "\<not> dc_threads d2" using c Cons.prems(4) by (simp add: config_def)
  then show ?case using Cons.IH [OF ok t1(2) _ e(2) t1(1) d2(2)] c by simp
qed auto

text \<open>C37: the event loop may sleep too long: while connections come, are used and die on a clock that does not go back, the time
  that \<open>MHD_get_timeout\<close> allows the event loop to wait is the time until the \<^emph>\<open>latest\<close> deadline of all connections, for
  the function takes the head of a list that \<open>update_last_activity\<close> keeps with the newest connection in front.
\<close>

theorem timeout_is_the_latest:
  assumes "daemon_started d0" "\<not> dc_threads d0" "dc_timeout d0 \<noteq> 0" "events_ok evs d0" "steady t evs"
    and "run_events evs d0 = Inr d" "dc_active d \<noteq> []"
  shows "\<exists>p\<in>set (dc_active d). (\<forall>q\<in>set (dc_active d). deadline d q \<le> deadline d p) \<and>
    MHD_get_timeout now d = Some (if deadline d p < now then 0
      else if nat (deadline d p - now) > (2 ^ 64 - 1) div 1000 then 2 ^ 64 - 1 else 1000 * nat (deadline d p - now))"
proof -
  have "newest_first t d0" using assms(1) by (simp add: newest_first_def daemon_started_def)
  then obtain t1 where d: "lists_ok d" "config d = config d0" "newest_first t1 d"
    using run_newest [OF _ _ _ assms(2,4-6)] started_ok [OF assms(1)] by blast
  have c: "\<not> dc_threads d" "dc_timeout d \<noteq> 0" using d(2) assms(2,3) by (simp_all add: config_def)
  have e: "ce_timeout (dc_conn d q) = dc_timeout d" if "q \<in> set (dc_active d)" for q
    using d(3) that by (simp add: newest_first_def)
  have s: "set (dc_normal d) = set (dc_active d)" "dc_manual d = []"
    using d(1,3) c(1) by (auto simp: lists_ok_def newest_first_def)
  then obtain p ps where n: "dc_normal d = p # ps" using assms(7) by (cases "dc_normal d") auto
  have p: "p \<in> set (dc_active d)" using s(1) n by auto
  have "ce_last (dc_conn d q) \<le> ce_last (dc_conn d p)" if "q \<in> set (dc_active d)" for q
    using d(3) n that s(1) by (auto simp: newest_first_def)
  then have "\<forall>q\<in>set (dc_active d). deadline d q \<le> deadline d p" using e [OF p] e by (simp add: deadline_def)
  moreover have "MHD_get_timeout now d = Some (if deadline d p < now then 0
      else if nat (deadline d p - now) > (2 ^ 64 - 1) div 1000 then 2 ^ 64 - 1 else 1000 * nat (deadline d p - now))"
    using c e [OF p] n s(2) by (simp add: MHD_get_timeout_def)
  ultimately show ?thesis using p by blast
qed

theorem timeout_is_the_latest_witness:
  "\<exists>d p. run_events example_events example_lists = Inr d \<and> deadline d 3 = 18 \<and> MHD_get_timeout 10 d = Some 9000 \<and>
     p \<in> set (dc_active d) \<and> deadline d 3 \<le> deadline d p"
proof -
  obtain d where d: "run_events example_events example_lists = Inr d" "dc_active d = [3, 1]" "MHD_get_timeout 10 d = Some 9000"
    "deadline d 3 = 18"
    using example_events_ok(3) by blast
  have "\<not> dc_threads example_lists" "dc_timeout example_lists \<noteq> 0" "steady 0 example_events" "dc_active d \<noteq> []"
    using d(2) by (simp_all add: example_lists_def example_events_def)
  then show ?thesis
    using timeout_is_the_latest [OF example_events_ok(1) _ _ example_events_ok(2) _ d(1), of 0 10] d by auto
qed

subsection \<open>The end of a daemon\<close>

text \<open>C38: stopping leaves nothing behind: after any history of a daemon without threads for its connections, when no connection is
  suspended, \<open>close_all_connections\<close> ends, every list is empty, the number of connections is zero and the search tree has
  been emptied.
\<close>

theorem stop_frees_all:
  assumes "daemon_started d0" "\<not> dc_threads d0" "events_ok evs d0" "run_events evs d0 = Inr d" "dc_suspended d = []"
  shows "\<exists>d1. close_all_connections d = Inr d1 \<and> dc_active d1 = [] \<and> dc_suspended d1 = [] \<and> dc_cleanup d1 = [] \<and>
    dc_normal d1 = [] \<and> dc_manual d1 = [] \<and> dc_connections d1 = 0 \<and> (dc_per_ip_limit d1 \<noteq> 0 \<longrightarrow> dc_ip_count d1 = Leaf)"
proof -
  have d: "lists_ok d" "limits_ok d" "config d = config d0"
    using run_keeps [OF _ _ assms(3)] started_ok [OF assms(1)] assms(4) by auto
  then have "\<not> dc_threads d" using assms(2) by (simp add: config_def)
  then obtain d2 where d2: "close_loop (dc_active d) d = Inr d2" "lists_ok d2" "limits_ok d2" "dc_active d2 = []" "dc_suspended d2 = []"
    using close_loop_ok [OF d(1,2)] assms(5) by auto
  obtain d1 where d1: "cleanup_loop (dc_cleanup d2) d2 = Inr d1" "lists_ok d1" "limits_ok d1"
    using cleanup_loop_ok [OF d2(2,3) refl] by blast
  have e: "dc_active d1 = []" "dc_suspended d1 = []" "dc_cleanup d1 = []"
    using cleanup_lists [OF d1(1)] d2(4,5) cleanup_loop_empties [OF d1(1) refl] by simp_all
  then have "dc_normal d1 = []" "dc_manual d1 = []" using d1(2) by (auto simp: lists_ok_def split: if_splits)
  moreover have "close_all_connections d = Inr d1"
    using assms(5) d2(1,5) d1(1) by (simp add: close_all_connections_def resume_suspended_connections_def MHD_cleanup_connections_def)
  ultimately show ?thesis using e limits_empty [OF d1(3)] by (simp add: conn_bag_def)
qed

theorem stop_frees_all_witness:
  "\<exists>d d1. run_events example_events example_lists = Inr d \<and> dc_active d = [3, 1] \<and> close_all_connections d = Inr d1 \<and> dc_active d1 = [] \<and>
     dc_connections d1 = 0"
proof -
  obtain d where d: "run_events example_events example_lists = Inr d" "dc_active d = [3, 1]" "dc_suspended d = []"
    using example_events_ok(3) by blast
  have "\<not> dc_threads example_lists" by (simp add: example_lists_def)
  then show ?thesis using stop_frees_all [OF example_events_ok(1) _ example_events_ok(2) d(1,3)] d by blast
qed

end
