(* ===== verification/Spec2Isabelle.thy ===== *)
theory Spec2Isabelle
  imports AxelDivide TextUi TsTransfer TsShell MhdSafe MhdAuth MhdConns
begin

text \<open>
  A verification development for the repository Server\_programming.  The repository is a project on fast file transfer; its own
  logic is in three programs, which this development models from their C sources:

  \<^item> the download client, \<open>src/final/client/ServerSide\<close>, a rewritten axel 2.4 that fetches one file over several HTTP or
    FTP connections, with its ancestor \<open>axel_divide\<close> in \<open>src/test04/client/axel-2.4-packetloss(axel.c)/axel.c\<close>;
  \<^item> the Tsunami UDP transfer, \<open>src/test05/tsunami-udp-packetloss(client-command.c)\<close>, client and server, with the changes of
    the packet loss experiments;
  \<^item> the file server, \<open>src/final/server/microhttpd\<close>: \<open>source/fileserver_example_dirs.c\<close> on the embedded daemon
    \<open>libmicrohttpd\<close> that it is built with.

  The client of the first program talks to the server of the third; theories MhdRequest, MhdReply, MhdAuth and MhdFiles prove that
  what one sends is what the other understands.  Client and server of the second are composed in theory TsTransfer.


  \<^bold>\<open>How the code is modelled.\<close>  A structure is a \<open>record\<close>, an enumeration a \<open>datatype\<close>, every function a definition with the
  name it has in C (a name that is taken gets a suffix).  State is passed explicitly: the client works on a \<open>world\<close> of sockets,
  files, clock and name service, the others on the record of the session, connection or daemon.  A run into undefined behaviour or an
  abort is \<open>Inl\<close> of a \<open>c_error\<close>; the errors the code reports itself are ordinary results.  A C string is the list of its
  characters without the terminator, and the copying functions know the size of their destination.  Integers are machine words where
  they wrap around (\<open>8 word\<close> to \<open>64 word\<close>) and \<open>int\<close> or \<open>nat\<close> with the test written out where the code stays in range.
  Loops are recursive functions with a termination proof; \<open>full_read\<close>, which may not end, is a partial function whose value
  \<open>None\<close> means just that; threads are the rules of an inductive step relation, so that a statement about it holds for every
  interleaving.


  \<^bold>\<open>The shared theories.\<close>

  \<^item> CBase: undefined behaviour as values, composition of fallible steps, the collection \<open>res_elims\<close>, lemmas on lists.
  \<^item> CStrings: \<open>string.h\<close>, \<open>sscanf\<close> of numbers and the decimal conversion, the collection \<open>cstr\<close>.
  \<^item> OsWorld, OsFiles: the system as the client sees it, \<open>tcp.c\<close>, and files; the locale \<open>int_codec\<close> is the contract of
    integers in a file, interpreted for 4 and 8 bytes.
  \<^item> TsBytes: byte order of the network and of the host.


  \<^bold>\<open>The download client\<close> (\<open>src/final/client/ServerSide\<close>).

  \<^item> HttpCodec, Http: \<open>http.c\<close>.  Escaping and unescaping invert each other; the request has the text it should; the
    authentication encoder is base 64; the reader takes exactly the head of a reply, however the bytes arrive, and reads status and size.
  \<^item> ConnUrl, Conn: \<open>conn.c\<close>.  Addresses are read and printed, round trip; connecting through a proxy or not, redirects, and
    the message that dangles after a failed login.
  \<^item> Ftp: \<open>ftp.c\<close>.  Replies of one and of several lines, passive mode, size by listing and symbolic links.
  \<^item> Conf: \<open>conf.c\<close> and \<open>get_if_ip\<close>.  Reading a file is the sequence of its assignments.
  \<^item> Downloader: \<open>ServerSide.c\<close>.  \<open>download_step\<close> is a round of the loop or the turn of a set-up thread.  An invariant ties
    positions, byte count and ranges together in every reachable state; the state file is read back as it was written; because
    \<open>ServerSide_divide\<close> lost its loop, a fresh download with several connections never completes.
  \<^item> AxelDivide: the original division, which does partition the file; the locale \<open>range_partition\<close> states what a partition has
    to give.
  \<^item> Search: \<open>search.c\<close>.  The list of mirrors and the speed tests, whose scheduler is accounted for on every path.
  \<^item> TextUi: \<open>text.c\<close>.  Options, name of the output, main loop, texts.


  \<^bold>\<open>The Tsunami transfer\<close> (\<open>client\<close>, \<open>server\<close>, \<open>common\<close>).

  \<^item> TsCommon, TsMd5, TsHandshake, TsListing: \<open>common.c\<close>, \<open>md5.c\<close>, the exchange of revision and secret on both sides,
    the names and the \<open>dir\<close> command on both sides.  The incremental MD5 is the digest of the pieces put together, and agrees with
    the table-driven one where that is right.
  \<^item> TsShell: \<open>client/main.c\<close>, \<open>config.c\<close> and the commands \<open>set\<close> and \<open>connect\<close>.  The command line is
    carried out in order; the settings behave like a table, and are reported as they were set.
  \<^item> TsServer: \<open>server/protocol.c\<close>, \<open>io.c\<close> and the loop of \<open>main.c\<close>.  Every datagram names a block and carries its bytes.
  \<^item> TsRing: \<open>client/ring.c\<close> between two threads; the locale \<open>bounded_fifo\<close> is the abstract channel, and every run of the
    threads refines it.
  \<^item> TsClient, TsDisk, TsRetransmit: the receive loop of \<open>client/command.c\<close>, the disk thread, the table of requests.  No
    block that was received is lost on its way to the file, and none that is missing is forgotten.
  \<^item> TsTransfer: opening on both sides, transfers without loss, and the theorem that a lossless transfer that ends has copied the
    file, under any loss, duplication and order of the datagrams.


  \<^bold>\<open>The file server\<close> (\<open>microhttpd/microhttpd\<close> unless named otherwise).

  \<^item> MhdStr, MhdUri: \<open>mhd_str.c\<close> and \<open>internal.c\<close>.  Numbers are converted exactly up to the last one that fits; arguments
    and paths reach the application as they were before the client escaped them.
  \<^item> MhdPool: \<open>memorypool.c\<close>.  The locale \<open>allocator\<close> says what a user relies on; its interpretation rests on the
    arithmetic of 64 bits.
  \<^item> MhdReply: the head of a reply, \<open>build_header_response\<close> of \<open>connection.c\<close>, \<open>reason_phrase.c\<close>; its size is as
    estimated, so that the check in the code cannot stop the process.
  \<^item> MhdRequest: lines, request line, headers, cookies and error replies; a request is understood however the network divides it.
  \<^item> MhdBody: \<open>process_request_body\<close>, with the application as a parameter; uploads arrive whole, chunked or not.
  \<^item> MhdFiles: \<open>fileserver_example_dirs.c\<close> and the states from the headers to the end of a request; the file is delivered, under
    any partial reads and writes, to a client that reads it with \<open>http_exec\<close>.
  \<^item> MhdSafe: a type invariant of connections: in every state the pointers the code follows are there.
  \<^item> MhdAuth: \<open>base64.c\<close>, \<open>basicauth.c\<close> and the headers of \<open>response.c\<close>.
  \<^item> MhdTree, MhdConns: \<open>tsearch.c\<close>, and from \<open>daemon.c\<close> the limits, the lists of connections, suspension, the timeout of
    the event loop and the end.  The locale \<open>comparison\<close> is what the tree needs, \<open>count_table\<close> what its users need, a
    \<open>sublocale\<close> gives the second from the first, and the interpretation is the comparison of addresses in \<open>daemon.c\<close>.


  \<^bold>\<open>Bounds and fuel.\<close>  Buffer sizes are those of the sources (\<open>MAX_STRING\<close> 1024, \<open>MAX_QUERY\<close> 2048, \<open>MAX_BLOCKS_QUEUED\<close>
  4096, pools of 32768 bytes in the examples only).  Two loops take fuel: the loop over the mirrors gets the length of the text, which
  every entry shortens; the loop that picks a name for the output has a theorem that gives a sufficient number of attempts.  The length
  of histories, texts, files and numbers of blocks, connections and events is not bounded, other than by the integer types.


  \<^bold>\<open>Not modelled.\<close>

  \<^item> Client: help, version and percent bar, which only print, the set-up of signals, and \<open>main\<close> of \<open>search.c\<close>, which is not
    compiled into it.
  \<^item> Tsunami: the set-up of UDP and TCP sockets, the options of the server and transcripts (system calls and text for the user), statistics on
    the screen; the real-time variants and the ports, which repeat the programs with a radio-telescope interface or are platform glue.
  \<^item> Daemon: the event loops themselves (\<open>select\<close>, \<open>poll\<close>, \<open>epoll\<close>) and the start of the daemon, which move descriptors
    between the kernel and the functions modelled here; threads are covered as the flag that decides on lists and timeouts; TLS, digest
    authentication, the post processor and upgrades, which the file server does not use; in the file server's loop the exchange of
    100-continue and uploads, for its handler refuses every method but GET.  The library is compiled for Linux without
    pedantic checks; allocation from the system succeeds unless a definition takes its result as an argument.
  \<^item> The trial programs of the project phase (plain copies over sockets in C, Java and Go).
\<close>

end
